(* ===== verification/Prelude.thy ===== *)
theory Prelude
  imports Main "HOL-Library.Word" "HOL-Library.Type_Length" "HOL-Library.Numeral_Type"
begin

text \<open>
  Shared vocabulary of the development: the machine integers of the Rust sources, the
  \<open>?\<close> operator as two binds (one for pure results, one for results that also carry a
  mutable state), fixed-length byte arrays, and the generic lemmas that the component
  theories use through the simplifier.

  Integers: \<open>u64\<close> and its kin are \<open>'n word\<close>.  The plain operators \<open>+\<close>, \<open>-\<close>, \<open>*\<close> of
  the sources are the wrapping operators of the word type, as in a release build (the
  workspace's \<open>Cargo.toml\<close> sets no \<open>overflow-checks\<close>); a debug build panics where
  they wrap.  The \<open>saturating_*\<close> methods are defined below.  \<open>usize\<close> counts (lengths of
  vectors, counters of items in memory) are \<open>nat\<close>.
\<close>

type_synonym u8 = "8 word"
type_synonym u16 = "16 word"
type_synonym u32 = "32 word"
type_synonym u64 = "64 word"

named_theorems try_simps \<open>inversion of the error-propagating binds\<close>
named_theorems sat_simps \<open>unsigned values of the saturating operators\<close>


section \<open>Results and the question-mark operator\<close>

text \<open>
  \<open>Result<T, E>\<close> is \<open>'e + 't\<close>, \<open>Inl\<close> for the error.  \<open>tryR r k\<close> is \<open>let x = r?; k(x)\<close>.
  A function that takes \<open>&mut s\<close> and returns a result is a function into
  \<open>('e + 't) \<times> 's\<close>: the state is there on the error path too, as the caller of the Rust
  function sees the mutations made before the early return.
\<close>

definition tryR :: "'e + 'a \<Rightarrow> ('a \<Rightarrow> 'e + 'b) \<Rightarrow> 'e + 'b" where
  "tryR r k = (case r of Inl e \<Rightarrow> Inl e | Inr x \<Rightarrow> k x)"

definition tryS :: "('e + 'a) \<times> 's \<Rightarrow> ('a \<Rightarrow> 's \<Rightarrow> ('e + 'b) \<times> 's) \<Rightarrow> ('e + 'b) \<times> 's" where
  "tryS m k = (case m of (Inl e, s) \<Rightarrow> (Inl e, s) | (Inr x, s) \<Rightarrow> k x s)"

definition map_err :: "('e \<Rightarrow> 'f) \<Rightarrow> 'e + 'a \<Rightarrow> 'f + 'a" where
  "map_err f r = (case r of Inl e \<Rightarrow> Inl (f e) | Inr x \<Rightarrow> Inr x)"

definition is_ok :: "'e + 'a \<Rightarrow> bool" where
  "is_ok r = (case r of Inl _ \<Rightarrow> False | Inr _ \<Rightarrow> True)"

definition ok_or :: "'a option \<Rightarrow> 'e \<Rightarrow> 'e + 'a" where
  "ok_or m e = (case m of None \<Rightarrow> Inl e | Some x \<Rightarrow> Inr x)"

lemma tryR_simps [simp]:
  "tryR (Inl e) k = Inl e"
  "tryR (Inr x) k = k x"
  by (simp_all add: tryR_def)

lemma tryS_simps [simp]:
  "tryS (Inl e, s) k = (Inl e, s)"
  "tryS (Inr x, s) k = k x s"
  by (simp_all add: tryS_def)

lemma map_err_simps [simp]:
  "map_err f (Inl e) = Inl (f e)"
  "map_err f (Inr x) = Inr x"
  by (simp_all add: map_err_def)

lemma is_ok_simps [simp]: "is_ok (Inl e) = False" "is_ok (Inr x) = True"
  by (simp_all add: is_ok_def)

lemma ok_or_simps [simp]: "ok_or None e = Inl e" "ok_or (Some x) e = Inr x"
  by (simp_all add: ok_or_def)

lemma is_ok_iff: "is_ok r \<longleftrightarrow> (\<exists>x. r = Inr x)"
  by (cases r) auto

lemma tryR_Inr [try_simps]: "tryR r k = Inr y \<longleftrightarrow> (\<exists>x. r = Inr x \<and> k x = Inr y)"
  by (cases r) auto

lemma tryR_Inl [try_simps]:
  "tryR r k = Inl e \<longleftrightarrow> r = Inl e \<or> (\<exists>x. r = Inr x \<and> k x = Inl e)"
  by (cases r) auto

lemma tryS_Inr [try_simps]:
  "tryS m k = (Inr y, s') \<longleftrightarrow> (\<exists>x s. m = (Inr x, s) \<and> k x s = (Inr y, s'))"
  by (cases m; cases "fst m") auto

lemma tryS_Inl [try_simps]:
  "tryS m k = (Inl e, s') \<longleftrightarrow>
     m = (Inl e, s') \<or> (\<exists>x s. m = (Inr x, s) \<and> k x s = (Inl e, s'))"
  by (cases m; cases "fst m") auto

lemma map_err_Inr [try_simps]: "map_err f r = Inr x \<longleftrightarrow> r = Inr x"
  by (cases r) auto

lemma map_err_Inl [try_simps]: "map_err f r = Inl e' \<longleftrightarrow> (\<exists>e. r = Inl e \<and> e' = f e)"
  by (cases r) auto

lemma ok_or_Inr [try_simps]: "ok_or m e = Inr x \<longleftrightarrow> m = Some x"
  by (cases m) auto

lemma ok_or_Inl [try_simps]: "ok_or m e = Inl e' \<longleftrightarrow> m = None \<and> e' = e"
  by (cases m) auto

text \<open>Congruence rules: a recursive call under a bind is made for a returned value only.\<close>

lemma tryR_cong [fundef_cong]:
  "r = r' \<Longrightarrow> (\<And>x. r' = Inr x \<Longrightarrow> k x = k' x) \<Longrightarrow> tryR r k = tryR r' k'"
  by (cases r') auto

lemma tryS_cong [fundef_cong]:
  "m = m' \<Longrightarrow> (\<And>x s. m' = (Inr x, s) \<Longrightarrow> k x s = k' x s) \<Longrightarrow> tryS m k = tryS m' k'"
  by (cases m'; cases "fst m'") auto

text \<open>\<open>iter.map(f).collect::<Result<Vec<_>, _>>()\<close>: the first error wins.\<close>

fun mapR :: "('a \<Rightarrow> 'e + 'b) \<Rightarrow> 'a list \<Rightarrow> 'e + 'b list" where
  "mapR f [] = Inr []"
| "mapR f (x # xs) = tryR (f x) (\<lambda>y. tryR (mapR f xs) (\<lambda>ys. Inr (y # ys)))"

lemma mapR_Inr_iff: "mapR f xs = Inr ys \<longleftrightarrow> list_all2 (\<lambda>x y. f x = Inr y) xs ys"
proof (induction xs arbitrary: ys)
  case Nil
  then show ?case by auto
next
  case (Cons x xs)
  then show ?case by (cases ys) (auto simp: try_simps)
qed

lemma mapR_length: "mapR f xs = Inr ys \<Longrightarrow> length ys = length xs"
  by (auto simp: mapR_Inr_iff dest: list_all2_lengthD)

lemma mapR_all_ok: "(\<And>x. x \<in> set xs \<Longrightarrow> f x = Inr (g x)) \<Longrightarrow> mapR f xs = Inr (map g xs)"
  by (induction xs) auto


section \<open>Machine integers\<close>

definition sat_add :: "'n::len word \<Rightarrow> 'n word \<Rightarrow> 'n word" where
  "sat_add a b = (if unat a + unat b < 2 ^ LENGTH('n) then a + b else - 1)"

definition sat_sub :: "'n::len word \<Rightarrow> 'n word \<Rightarrow> 'n word" where
  "sat_sub a b = (if b \<le> a then a - b else 0)"

definition sat_mul :: "'n::len word \<Rightarrow> 'n word \<Rightarrow> 'n word" where
  "sat_mul a b = (if unat a * unat b < 2 ^ LENGTH('n) then a * b else - 1)"

lemma unat_max_word: "unat (- 1 :: 'n::len word) = 2 ^ LENGTH('n) - 1"
  by (simp add: unsigned_minus_1_eq_mask mask_eq_exp_minus_1)

lemma unat_sat_add [sat_simps]:
  "unat (sat_add a b) = min (unat a + unat b) (2 ^ LENGTH('n) - 1)"
  for a b :: "'n::len word"
  by (auto simp: sat_add_def unat_max_word unat_word_ariths)

lemma unat_sat_sub [sat_simps]: "unat (sat_sub a b) = unat a - unat b"
  for a b :: "'n::len word"
  by (auto simp: sat_sub_def unat_sub word_le_nat_alt)

lemma unat_sat_mul [sat_simps]:
  "unat (sat_mul a b) = min (unat a * unat b) (2 ^ LENGTH('n) - 1)"
  for a b :: "'n::len word"
  by (auto simp: sat_mul_def unat_max_word unat_word_ariths)

lemma unat_min [sat_simps]: "unat (min a b) = min (unat a) (unat b)"
  for a b :: "'n::len word"
  by (auto simp: min_def word_le_nat_alt)

lemma unat_max [sat_simps]: "unat (max a b) = max (unat a) (unat b)"
  for a b :: "'n::len word"
  by (auto simp: max_def word_le_nat_alt)

lemma word_eq_unat: "a = b \<longleftrightarrow> unat a = unat b"
  for a b :: "'n::len word"
  by (simp add: word_unat_eq_iff)

lemmas word_nat_simps = word_le_nat_alt word_less_nat_alt word_eq_unat

lemma u64_le_max: "unat w \<le> 18446744073709551615"
  for w :: u64
  using unsigned_less [of w, where ?'a = nat] by simp

text \<open>The successor of a height: \<open>h + 1\<close> wraps at the top only.\<close>

lemma unat_succ: "w \<noteq> - 1 \<Longrightarrow> unat (w + 1) = Suc (unat w)"
  for w :: "'n::len word"
  using unatSuc [of w] by (simp add: add.commute eq_neg_iff_add_eq_0)

lemma unat_pred: "w \<noteq> 0 \<Longrightarrow> unat (w - 1) = unat w - 1"
  for w :: "'n::len word"
  by (simp add: unat_minus_one)

lemma unat_pos: "w \<noteq> 0 \<longleftrightarrow> 0 < unat w"
  for w :: "'n::len word"
  by (simp add: unat_gt_0)

text \<open>\<open>u64::try_from\<close> and \<open>i64::try_from\<close> on the values that the sources convert.\<close>

definition i64_max :: nat where "i64_max = 2 ^ 63 - 1"
definition i32_max :: nat where "i32_max = 2 ^ 31 - 1"

definition u64_of_int :: "int \<Rightarrow> u64 option" where
  "u64_of_int i = (if 0 \<le> i \<and> i < 2 ^ 64 then Some (word_of_int i) else None)"

definition u32_of_int :: "int \<Rightarrow> u32 option" where
  "u32_of_int i = (if 0 \<le> i \<and> i < 2 ^ 32 then Some (word_of_int i) else None)"

lemma u64_of_int_uint [simp]: "u64_of_int (uint w) = Some w"
  using uint_lt2p [of w] by (simp add: u64_of_int_def)

lemma u32_of_int_uint [simp]: "u32_of_int (uint w) = Some w"
  using uint_lt2p [of w] by (simp add: u32_of_int_def)

end
