(* ===== verification/Byte_Array.thy ===== *)
theory Byte_Array
  imports Prelude
begin

text \<open>
  Rust's fixed-length byte arrays: \<open>[u8; 32]\<close> is \<open>32 byte_array\<close>, \<open>[u8; 20]\<close> is
  \<open>20 byte_array\<close>.  The type holds exactly the byte lists of its length, so the length
  check of \<open>Vec<u8>::try_into\<close> is the only way from a byte vector into it.
\<close>

typedef (overloaded) 'n byte_array = "{bs :: u8 list. length bs = LENGTH('n::len)}"
  morphisms bytes_of Byte_Array
proof
  show "replicate LENGTH('n) 0 \<in> {bs :: u8 list. length bs = LENGTH('n)}" by simp
qed

setup_lifting type_definition_byte_array

type_synonym block_hash = "32 byte_array"
type_synonym address = "20 byte_array"

lemma length_bytes_of [simp]: "length (bytes_of (a :: 'n::len byte_array)) = LENGTH('n)"
  using bytes_of by blast

lemma bytes_of_inject_iff: "bytes_of a = bytes_of b \<longleftrightarrow> a = b"
  by (simp add: bytes_of_inject)

text \<open>\<open>[b; N]\<close>: the array that repeats one byte.\<close>

definition fill :: "u8 \<Rightarrow> 'n::len byte_array" where
  "fill b = Byte_Array (replicate LENGTH('n) b)"

lemma bytes_of_fill [code abstract]:
  "bytes_of (fill b :: 'n::len byte_array) = replicate LENGTH('n) b"
  by (simp add: fill_def Byte_Array_inverse)

lemma fill_eq_iff [simp]: "(fill a :: 'n::len byte_array) = fill b \<longleftrightarrow> a = b"
  by (auto simp flip: bytes_of_inject simp: bytes_of_fill replicate_eq_replicate)

text \<open>\<open>TryFrom<Vec<u8>>\<close>: the array when the length fits, the vector's length otherwise.\<close>

definition array_of_vec :: "u8 list \<Rightarrow> nat + 'n::len byte_array" where
  "array_of_vec bs = (if length bs = LENGTH('n) then Inr (Byte_Array bs) else Inl (length bs))"

lemma array_of_vec_bytes_of [simp]: "array_of_vec (bytes_of a) = Inr a"
  by (simp add: array_of_vec_def bytes_of_inverse)

lemma bytes_of_array_of_vec:
  "array_of_vec bs = Inr (a :: 'n::len byte_array) \<Longrightarrow> bytes_of a = bs"
  by (auto simp: array_of_vec_def Byte_Array_inverse split: if_splits)

instantiation byte_array :: (len) equal
begin

definition equal_byte_array :: "'a byte_array \<Rightarrow> 'a byte_array \<Rightarrow> bool" where
  "equal_byte_array a b \<longleftrightarrow> bytes_of a = bytes_of b"

instance
  by standard (simp add: equal_byte_array_def bytes_of_inject)

end

end
