(* ===== verification/Std_Maps.thy ===== *)
theory Std_Maps
  imports Prelude "HOL-Library.AList"
begin

text \<open>
  The standard library's maps as the sources use them.

  \<open>HashMap<K, V>\<close> (\<open>hm_\<dots>\<close>): \<open>get\<close>, \<open>insert\<close>, \<open>remove\<close>, \<open>len\<close>.  The model is an
  association list with distinct keys; its order stands for the unspecified iteration
  order of the hash map, and no theorem depends on it.

  \<open>BTreeMap<K, V>\<close> (\<open>bt_\<dots>\<close>): \<open>get\<close>, \<open>insert\<close>, \<open>remove\<close>, \<open>values\<close> in key order,
  \<open>split_off\<close> and \<open>clear\<close>.  A map is its list of entries with strictly ascending keys, so
  iteration order is the model's list order.

  The locale \<open>std_map\<close> states what every client relies on, \<open>ordered_map\<close> extends it with
  the ascending iteration of a \<open>BTreeMap\<close>.  The lemmas proved in them are available for the
  list models through the interpretations \<open>hm\<close> and \<open>bt\<close>.
\<close>

section \<open>The interfaces\<close>

locale std_map =
  fixes empty :: "'m"
    and get :: "'m \<Rightarrow> 'k \<Rightarrow> 'v option"
    and insert :: "'k \<Rightarrow> 'v \<Rightarrow> 'm \<Rightarrow> 'm"
    and remove :: "'k \<Rightarrow> 'm \<Rightarrow> 'm"
    and len :: "'m \<Rightarrow> nat"
    and inv :: "'m \<Rightarrow> bool"
  assumes inv_empty: "inv empty"
    and inv_insert: "inv m \<Longrightarrow> inv (insert k v m)"
    and inv_remove: "inv m \<Longrightarrow> inv (remove k m)"
    and get_empty: "get empty = Map.empty"
    and get_insert: "inv m \<Longrightarrow> get (insert k v m) = (get m)(k \<mapsto> v)"
    and get_remove: "inv m \<Longrightarrow> get (remove k m) = (get m)(k := None)"
    and len_dom: "inv m \<Longrightarrow> len m = card (dom (get m))"
    and finite_dom: "inv m \<Longrightarrow> finite (dom (get m))"
begin

lemma len_insert:
  "inv m \<Longrightarrow> len (insert k v m) = (if get m k = None then Suc (len m) else len m)"
  by (auto simp: len_dom inv_insert get_insert finite_dom insert_absorb domIff)

lemma len_remove:
  "inv m \<Longrightarrow> len (remove k m) = (if get m k = None then len m else len m - 1)"
proof -
  assume "inv m"
  moreover from this have "dom (get (remove k m)) = dom (get m) - {k}"
    by (auto simp: get_remove)
  ultimately show ?thesis
    by (auto simp: len_dom inv_remove finite_dom domIff card_Diff_singleton_if)
qed

lemma remove_insert_get:
  "inv m \<Longrightarrow> get (remove k (insert k v m)) = (get m)(k := None)"
  by (simp add: get_remove get_insert inv_insert fun_upd_upd)

end

locale ordered_map = std_map empty get insert remove len inv
  for empty :: "'m" and get :: "'m \<Rightarrow> 'k::linorder \<Rightarrow> 'v option" and insert remove len inv +
  fixes entries :: "'m \<Rightarrow> ('k \<times> 'v) list"
  assumes get_entries: "inv m \<Longrightarrow> get m = map_of (entries m)"
    and entries_ascending: "inv m \<Longrightarrow> sorted_wrt (<) (map fst (entries m))"
begin

lemma keys_distinct: "inv m \<Longrightarrow> distinct (map fst (entries m))"
  using entries_ascending strict_sorted_iff by blast

lemma entry_iff_get: "inv m \<Longrightarrow> (k, v) \<in> set (entries m) \<longleftrightarrow> get m k = Some v"
  by (simp add: get_entries keys_distinct)

lemma dom_get: "inv m \<Longrightarrow> dom (get m) = fst ` set (entries m)"
  by (simp add: get_entries dom_map_of_conv_image_fst)

text \<open>Two maps with the same lookups iterate over the same entries in the same order.\<close>

lemma entries_unique:
  assumes "inv m" and "inv m'" and "get m = get m'"
  shows "entries m = entries m'"
proof (rule map_sorted_distinct_set_unique [where f = fst])
  show same: "set (entries m) = set (entries m')"
    using assms by (auto simp: entry_iff_get)
  show "inj_on fst (set (entries m) \<union> set (entries m'))"
    using keys_distinct [OF assms(1)] same by (simp add: distinct_map)
qed (use assms entries_ascending strict_sorted_iff keys_distinct in blast)+

lemma values_ascending:
  assumes "inv m" and "\<And>k v. get m k = Some v \<Longrightarrow> f v = k"
  shows "sorted_wrt (\<lambda>x y. f x < f y) (map snd (entries m))"
proof -
  have eq: "map f (map snd (entries m)) = map fst (entries m)"
    using assms by (auto simp flip: entry_iff_get)
  have "sorted_wrt (<) (map f (map snd (entries m)))"
    unfolding eq by (rule entries_ascending [OF assms(1)])
  then show ?thesis by (simp only: sorted_wrt_map)
qed

end

section \<open>Hash maps\<close>

type_synonym ('k, 'v) hash_map = "('k \<times> 'v) list"

definition hm_new :: "('k, 'v) hash_map" where
  "hm_new = []"

definition hm_get :: "('k, 'v) hash_map \<Rightarrow> 'k \<Rightarrow> 'v option" where
  "hm_get m k = map_of m k"

definition hm_insert :: "'k \<Rightarrow> 'v \<Rightarrow> ('k, 'v) hash_map \<Rightarrow> ('k, 'v) hash_map" where
  "hm_insert k v m = AList.update k v m"

definition hm_remove :: "'k \<Rightarrow> ('k, 'v) hash_map \<Rightarrow> ('k, 'v) hash_map" where
  "hm_remove k m = AList.delete k m"

definition hm_len :: "('k, 'v) hash_map \<Rightarrow> nat" where
  "hm_len m = length m"

definition hm_keys :: "('k, 'v) hash_map \<Rightarrow> 'k list" where
  "hm_keys m = map fst m"

definition hm_inv :: "('k, 'v) hash_map \<Rightarrow> bool" where
  "hm_inv m \<longleftrightarrow> distinct (map fst m)"

lemma hm_len_dom: "hm_inv m \<Longrightarrow> hm_len m = card (dom (map_of m))"
  unfolding hm_inv_def hm_len_def
  by (simp add: dom_map_of_conv_image_fst card_image distinct_map distinct_card)

lemma hm_inv_intros [simp, intro]:
  "hm_inv hm_new"
  "hm_inv m \<Longrightarrow> hm_inv (hm_insert k v m)"
  "hm_inv m \<Longrightarrow> hm_inv (hm_remove k m)"
  by (simp_all add: hm_inv_def hm_new_def hm_insert_def hm_remove_def distinct_update
      distinct_delete)

lemmas hm_inv_raw = hm_inv_intros [unfolded hm_new_def hm_insert_def hm_remove_def]

interpretation hm: std_map hm_new hm_get hm_insert hm_remove hm_len hm_inv
  by unfold_locales
    (auto simp: hm_get_def [abs_def] hm_len_dom finite_dom_map_of fun_eq_iff hm_new_def
      hm_insert_def hm_remove_def update_conv delete_conv hm_inv_raw)

lemma hm_get_simps [simp]:
  "hm_get hm_new k' = None"
  "hm_get (hm_insert k v m) k' = (if k' = k then Some v else hm_get m k')"
  "hm_get (hm_remove k m) k' = (if k' = k then None else hm_get m k')"
  by (simp_all add: hm_get_def hm_new_def hm_insert_def hm_remove_def update_conv delete_conv)

lemma set_hm_keys: "set (hm_keys m) = dom (hm_get m)"
  by (simp add: hm_keys_def hm_get_def [abs_def] dom_map_of_conv_image_fst)

section \<open>Ordered maps\<close>

type_synonym ('k, 'v) btree_map = "('k \<times> 'v) list"

definition bt_new :: "('k, 'v) btree_map" where
  "bt_new = []"

definition bt_get :: "('k, 'v) btree_map \<Rightarrow> 'k \<Rightarrow> 'v option" where
  "bt_get m k = map_of m k"

fun bt_insert :: "'k::linorder \<Rightarrow> 'v \<Rightarrow> ('k, 'v) btree_map \<Rightarrow> ('k, 'v) btree_map" where
  "bt_insert k v [] = [(k, v)]"
| "bt_insert k v ((k', v') # m) =
     (if k < k' then (k, v) # (k', v') # m
      else if k = k' then (k, v) # m
      else (k', v') # bt_insert k v m)"

definition bt_remove :: "'k \<Rightarrow> ('k, 'v) btree_map \<Rightarrow> ('k, 'v) btree_map" where
  "bt_remove k m = filter (\<lambda>(k', _). k' \<noteq> k) m"

definition bt_values :: "('k, 'v) btree_map \<Rightarrow> 'v list" where
  "bt_values m = map snd m"

text \<open>\<open>split_off(&k)\<close> keeps the entries below \<open>k\<close> and returns those from \<open>k\<close> on.\<close>

definition bt_split_off ::
    "'k::linorder \<Rightarrow> ('k, 'v) btree_map \<Rightarrow> ('k, 'v) btree_map \<times> ('k, 'v) btree_map" where
  "bt_split_off k m = (filter (\<lambda>(k', _). k' < k) m, filter (\<lambda>(k', _). k \<le> k') m)"

definition bt_clear :: "('k, 'v) btree_map \<Rightarrow> ('k, 'v) btree_map" where
  "bt_clear m = []"

definition bt_inv :: "('k::linorder, 'v) btree_map \<Rightarrow> bool" where
  "bt_inv m \<longleftrightarrow> sorted_wrt (<) (map fst m)"

lemma set_fst_bt_insert [simp]:
  "fst ` set (bt_insert k v m) = insert k (fst ` set m)"
  "set (map fst (bt_insert k v m)) = insert k (set (map fst m))"
  by (induction k v m rule: bt_insert.induct) auto

lemma bt_inv_insert [simp, intro]: "bt_inv m \<Longrightarrow> bt_inv (bt_insert k v m)"
  unfolding bt_inv_def
proof (induction k v m rule: bt_insert.induct)
  case (2 k v k' v' m)
  then show ?case by auto
qed simp

lemma bt_inv_remove [simp, intro]: "bt_inv m \<Longrightarrow> bt_inv (bt_remove k m)"
  unfolding bt_inv_def bt_remove_def by (induction m) auto

lemma bt_inv_new [simp, intro]: "bt_inv bt_new" "bt_inv []"
  by (simp_all add: bt_inv_def bt_new_def)

lemma map_of_bt_insert: "bt_inv m \<Longrightarrow> map_of (bt_insert k v m) = (map_of m)(k \<mapsto> v)"
  unfolding bt_inv_def
  by (induction k v m rule: bt_insert.induct) (auto simp: fun_eq_iff)

lemma map_of_bt_remove: "map_of (bt_remove k m) = (map_of m)(k := None)"
  unfolding bt_remove_def by (induction m) (auto simp: fun_eq_iff)

lemma bt_len_dom: "bt_inv m \<Longrightarrow> length m = card (dom (map_of m))"
  using strict_sorted_iff [of "map fst m"] hm_len_dom [of m]
  by (simp add: bt_inv_def hm_inv_def hm_len_def)

interpretation bt: ordered_map bt_new bt_get bt_insert bt_remove length bt_inv "\<lambda>m. m"
  by unfold_locales
    (auto simp: bt_get_def [abs_def] bt_new_def map_of_bt_insert map_of_bt_remove bt_len_dom
      finite_dom_map_of simp flip: bt_inv_def)

lemma bt_get_new [simp]: "bt_get bt_new k = None"
  by (simp add: bt_get_def bt_new_def)

lemma bt_get_insert [simp]:
  "bt_inv m \<Longrightarrow> bt_get (bt_insert k v m) k' = (if k' = k then Some v else bt_get m k')"
  by (simp add: bt.get_insert)

lemma bt_get_remove [simp]: "bt_get (bt_remove k m) k' = (if k' = k then None else bt_get m k')"
  by (simp add: bt_get_def map_of_bt_remove)

lemma bt_get_Some_set: "bt_get m k = Some v \<Longrightarrow> (k, v) \<in> set m"
  by (simp add: bt_get_def map_of_SomeD)

end
