(* ===== verification/Header_Cache.thy ===== *)
theory Header_Cache
  imports Byte_Array Std_Maps
begin

text \<open>
  Block headers and the bounded header cache of \<open>chainweave-core/src/chain.rs\<close>
  (\<open>BlockHeader\<close>, \<open>HeaderCache\<close>).  The cache is a hash map from block hashes to headers
  together with the queue of its keys in insertion order: a new hash evicts the oldest one
  when the queue is as long as the capacity, a known hash is overwritten in place.
\<close>

section \<open>Block headers\<close>

record block_header =
  hash :: block_hash
  parent_hash :: block_hash
  height :: u64

definition BlockHeader :: "block_hash \<Rightarrow> block_hash \<Rightarrow> u64 \<Rightarrow> block_header" where
  "BlockHeader h p n = \<lparr>hash = h, parent_hash = p, height = n\<rparr>"

lemma BlockHeader_simps [simp]:
  "hash (BlockHeader h p n) = h"
  "parent_hash (BlockHeader h p n) = p"
  "height (BlockHeader h p n) = n"
  "BlockHeader h p n = BlockHeader h' p' n' \<longleftrightarrow> h = h' \<and> p = p' \<and> n = n'"
  by (auto simp: BlockHeader_def)

text \<open>
  The parent relation of a well-formed chain: the child names the parent's hash and sits one
  block above it (as numbers, so the wrap-around of the height at the top is not a link).
\<close>

definition links :: "block_header \<Rightarrow> block_header \<Rightarrow> bool" where
  "links c p \<longleftrightarrow> parent_hash c = hash p \<and> unat (height c) = Suc (unat (height p))"

lemma links_height: "links c p \<Longrightarrow> height p < height c"
  by (simp add: links_def word_less_nat_alt)

lemma links_parent_not_top: "links c p \<Longrightarrow> height p \<noteq> - 1"
  using unsigned_less [of "height c", where ?'a = nat] by (auto simp: links_def unat_max_word)

lemma links_succ: "links c p \<Longrightarrow> height c = height p + 1"
  using links_parent_not_top [of c p] by (simp add: word_eq_unat unat_succ links_def)

lemma links_intro: "parent_hash c = hash p \<Longrightarrow> height c = height p + 1 \<Longrightarrow> height c \<noteq> 0 \<Longrightarrow> links c p"
  by (cases "height p = - 1") (simp_all add: links_def unat_succ)

section \<open>The cache\<close>

record header_cache =
  hc_capacity :: nat
  hc_order :: "block_hash list"
  hc_headers :: "(block_hash, block_header) hash_map"

definition cache_new :: "nat \<Rightarrow> header_cache" where
  "cache_new c = \<lparr>hc_capacity = c, hc_order = [], hc_headers = hm_new\<rparr>"

definition cache_insert :: "block_header \<Rightarrow> header_cache \<Rightarrow> header_cache" where
  "cache_insert blk c =
     (case hm_get (hc_headers c) (hash blk) of
        Some _ \<Rightarrow> c\<lparr>hc_headers := hm_insert (hash blk) blk (hc_headers c)\<rparr>
      | None \<Rightarrow>
          let c' = (if length (hc_order c) = hc_capacity c
                    then (case hc_order c of
                            [] \<Rightarrow> c
                          | evicted # rest \<Rightarrow>
                              c\<lparr>hc_order := rest,
                                hc_headers := hm_remove evicted (hc_headers c)\<rparr>)
                    else c)
          in c'\<lparr>hc_order := hc_order c' @ [hash blk],
                hc_headers := hm_insert (hash blk) blk (hc_headers c')\<rparr>)"

definition cache_get :: "header_cache \<Rightarrow> block_hash \<Rightarrow> block_header option" where
  "cache_get c h = hm_get (hc_headers c) h"

definition cache_len :: "header_cache \<Rightarrow> nat" where
  "cache_len c = hm_len (hc_headers c)"

section \<open>Correctness\<close>

definition cache_wf :: "header_cache \<Rightarrow> bool" where
  "cache_wf c \<longleftrightarrow>
     0 < hc_capacity c \<and> hm_inv (hc_headers c) \<and>
     distinct (hc_order c) \<and> length (hc_order c) \<le> hc_capacity c \<and>
     set (hc_order c) = dom (hm_get (hc_headers c)) \<and>
     (\<forall>h blk. hm_get (hc_headers c) h = Some blk \<longrightarrow> hash blk = h)"

lemma cache_new_wf: "0 < n \<Longrightarrow> cache_wf (cache_new n)"
  by (auto simp: cache_wf_def cache_new_def)

lemma cache_get_hash: "cache_wf c \<Longrightarrow> cache_get c h = Some blk \<Longrightarrow> hash blk = h"
  by (simp add: cache_wf_def cache_get_def)

lemma cache_insert_capacity [simp]: "hc_capacity (cache_insert blk c) = hc_capacity c"
  by (simp add: cache_insert_def Let_def split: option.split list.split)

lemma cache_insert_known_wf:
  assumes "cache_wf c" and "hm_get (hc_headers c) (hash blk) = Some old"
  shows "cache_wf (cache_insert blk c)"
  using assms by (auto simp: cache_wf_def cache_insert_def split: if_splits)

lemma cache_insert_new_wf:
  assumes wf: "cache_wf c" and new: "hm_get (hc_headers c) (hash blk) = None"
  shows "cache_wf (cache_insert blk c)"
proof (cases "length (hc_order c) = hc_capacity c")
  case False
  with assms show ?thesis
    by (auto simp: cache_wf_def cache_insert_def)
next
  case True
  with wf obtain e rest where order: "hc_order c = e # rest"
    by (cases "hc_order c") (auto simp: cache_wf_def)
  from wf order have dom: "dom (hm_get (hc_headers c)) = insert e (set rest)"
    and e: "e \<notin> set rest" and len: "Suc (length rest) \<le> hc_capacity c"
    by (auto simp: cache_wf_def)
  from new dom have "hash blk \<noteq> e" and "hash blk \<notin> set rest"
    by auto
  with wf True order dom e len show ?thesis
    by (auto simp: cache_wf_def cache_insert_def new split: if_splits)
qed

lemma cache_insert_wf [intro]: "cache_wf c \<Longrightarrow> cache_wf (cache_insert blk c)"
  using cache_insert_known_wf cache_insert_new_wf by (cases "hm_get (hc_headers c) (hash blk)") auto

lemma cache_get_insert_same [simp]: "cache_get (cache_insert blk c) (hash blk) = Some blk"
  by (auto simp: cache_get_def cache_insert_def Let_def split: option.split list.split)

text \<open>An insert loses at most the oldest entry, and changes no other one.\<close>

lemma cache_get_insert_other:
  assumes "h \<noteq> hash blk" and "cache_get (cache_insert blk c) h \<noteq> cache_get c h"
  shows "length (hc_order c) = hc_capacity c \<and> hc_order c \<noteq> [] \<and> h = hd (hc_order c) \<and>
    cache_get (cache_insert blk c) h = None"
  using assms
  by (auto simp: cache_get_def cache_insert_def Let_def split: option.splits list.splits if_splits)

lemma cache_len_order: "cache_wf c \<Longrightarrow> cache_len c = length (hc_order c)"
  by (metis cache_len_def cache_wf_def distinct_card hm.len_dom)

lemma cache_len_bound: "cache_wf c \<Longrightarrow> cache_len c \<le> hc_capacity c"
  by (simp add: cache_len_order cache_wf_def)


lemma cache_insert_fresh_order:
  assumes "cache_wf c" and "cache_get c (hash blk) = None"
  shows "hc_order (cache_insert blk c) =
      drop (Suc (length (hc_order c)) - hc_capacity c) (hc_order c @ [hash blk])"
    and "cache_get (cache_insert blk c) h =
      (if h = hash blk then Some blk
       else if h \<in> set (hc_order (cache_insert blk c)) then cache_get c h else None)"
proof -
  have o: "set (hc_order c) = dom (hm_get (hc_headers c))" "length (hc_order c) \<le> hc_capacity c"
    "0 < hc_capacity c" "distinct (hc_order c)"
    using assms(1) by (auto simp: cache_wf_def)
  show "hc_order (cache_insert blk c) =
      drop (Suc (length (hc_order c)) - hc_capacity c) (hc_order c @ [hash blk])"
    using o assms(2) by (cases "hc_order c") (auto simp: cache_insert_def cache_get_def Let_def)
  show "cache_get (cache_insert blk c) h =
      (if h = hash blk then Some blk
       else if h \<in> set (hc_order (cache_insert blk c)) then cache_get c h else None)"
    using o assms(2)
    by (cases "hc_order c") (auto simp: cache_insert_def cache_get_def Let_def set_eq_iff domIff)
qed

text \<open>
  Fed with headers of distinct hashes, a cache of capacity \<open>n\<close> holds exactly the last \<open>n\<close> of
  them: it answers those by their hash and nothing else, whatever came before is evicted in
  insertion order.
\<close>
theorem cache_holds_last_headers:
  assumes "0 < n" and "distinct (map hash blks)"
  shows "(cache_get (fold cache_insert blks (cache_new n)) h = Some x \<longleftrightarrow>
      x \<in> set (drop (length blks - n) blks) \<and> hash x = h) \<and>
    cache_len (fold cache_insert blks (cache_new n)) = min n (length blks)"
proof -
  let ?c = "\<lambda>bs. fold cache_insert bs (cache_new n)"
  have wf: "cache_wf (?c bs)" and cap: "hc_capacity (?c bs) = n" for bs
    using assms(1) cache_new_wf [of n]
    by (induction bs rule: rev_induct) (auto simp: cache_new_def)
  have "hc_order (?c blks) = map hash (drop (length blks - n) blks) \<and>
    (\<forall>h x. cache_get (?c blks) h = Some x \<longleftrightarrow> x \<in> set (drop (length blks - n) blks) \<and> hash x = h)"
    using assms(2)
  proof (induction blks rule: rev_induct)
    case Nil
    show ?case by (simp add: cache_new_def cache_get_def)
  next
    case (snoc b bs)
    let ?old = "drop (length bs - n) bs" and ?new = "drop (Suc (length bs) - n) (bs @ [b])"
    from snoc have ord: "hc_order (?c bs) = map hash ?old"
      and get: "\<And>h x. cache_get (?c bs) h = Some x \<longleftrightarrow> x \<in> set ?old \<and> hash x = h"
      and fresh: "hash b \<notin> hash ` set bs" and inj: "inj_on hash (set (bs @ [b]))"
      by (auto simp: distinct_map)
    have "cache_get (?c bs) (hash b) = None"
    proof (rule ccontr)
      assume "cache_get (?c bs) (hash b) \<noteq> None"
      with get have "\<exists>x \<in> set ?old. hash x = hash b" by blast
      with fresh show False using set_drop_subset [of "length bs - n" bs] by (metis image_eqI subsetD)
    qed
    note ins = cache_insert_fresh_order [OF wf this, unfolded cap]
    have order: "hc_order (?c (bs @ [b])) = map hash ?new"
      using ins(1) assms(1)
      by (cases "length bs < n") (auto simp: ord drop_map Suc_diff_le)
    have shift: "set ?new = insert b (set ?new \<inter> set ?old)"
      using assms(1) set_drop_subset_set_drop [OF diff_le_mono [of "length bs" "Suc (length bs)" n], of bs]
      by auto
    have "cache_get (?c (bs @ [b])) h = Some x \<longleftrightarrow> x \<in> set ?new \<and> hash x = h" for h x
    proof (cases "h = hash b")
      case True
      have "x = b" if "x \<in> set ?new" "hash x = hash b"
        using inj_onD [OF inj that(2)] that(1) by (auto dest: in_set_dropD)
      with True shift show ?thesis by (auto simp: ins(2))
    next
      case False
      have "hash x \<in> hash ` set ?new \<longleftrightarrow> x \<in> set ?new" if "x \<in> set ?old"
        by (rule inj_on_image_mem_iff [OF inj]) (use that in \<open>auto dest: in_set_dropD\<close>)
      moreover have "x \<in> set ?old" if "x \<in> set ?new" "hash x = h"
        using subsetD [OF equalityD1 [OF shift] that(1)] that(2) False by (auto simp del: drop_append)
      moreover have "cache_get (?c (bs @ [b])) h = Some x \<longleftrightarrow>
          h \<in> hash ` set ?new \<and> x \<in> set ?old \<and> hash x = h"
        using False ins(2) [of h] order by (simp add: get del: drop_append)
      ultimately show ?thesis by blast
    qed
    with order show ?case by simp
  qed
  moreover have "cache_len (?c blks) = length (hc_order (?c blks))"
    by (rule cache_len_order [OF wf])
  ultimately show ?thesis by simp
qed

lemma cache_holds_last_headers_witness:
  "cache_len (fold cache_insert (map (\<lambda>i. BlockHeader (fill i) (fill 0) 0) [1, 2, 3]) (cache_new 2)) = 2"
  using cache_holds_last_headers [of 2 "map (\<lambda>i. BlockHeader (fill i) (fill 0) 0) [1, 2, 3]"]
  by simp

end
