(* ===== verification/Chain.thy ===== *)
theory Chain
  imports Header_Cache
begin

text \<open>
  The pure chain-transition module \<open>chainweave-core/src/chain.rs\<close>: \<open>ChainState\<close> holds the
  recent canonical segment, and \<open>apply\<close> turns an observed head into an ordered batch of
  rollbacks and applies, asking an \<open>AncestryResolver\<close> for whatever it does not hold.

  The trait \<open>AncestryResolver\<close> is the record \<open>'r ancestry_resolver\<close> of its three methods over
  the implementor's own state \<open>'r\<close> (\<open>&mut self\<close>); the generic code is a function of it.
\<close>

section \<open>Data\<close>

datatype chain_event = Apply block_header | Rollback block_header

fun event_header :: "chain_event \<Rightarrow> block_header" where
  "event_header (Apply blk) = blk"
| "event_header (Rollback blk) = blk"

datatype chain_transition = Bootstrap | Duplicate | Extend | Gap | Reorg

record chain_batch =
  transition :: chain_transition
  common_ancestor :: "block_header option"
  events :: "chain_event list"

definition batch_is_empty :: "chain_batch \<Rightarrow> bool" where
  "batch_is_empty b \<longleftrightarrow> events b = []"

datatype resolver_error = ResolverError string

datatype chain_error =
    EmptyHeaderCache
  | EmptyMaxReorgDepth
  | NewHeadBehindTip u64 u64
  | InvalidExtensionHeight u64 u64
  | MissingParent block_hash
  | InvalidParentLink u64 u64 block_hash block_hash
  | MaxDepthExceeded u64
  | FinalizedBoundary u64 u64
  | EmptyCanonicalChain
  | BrokenCanonicalChain u64
  | Resolver resolver_error

record 'r ancestry_resolver =
  header_by_hash ::
    "block_hash \<Rightarrow> 'r \<Rightarrow> (resolver_error + block_header option) \<times> 'r"
  canonical_header_by_hash ::
    "block_hash \<Rightarrow> 'r \<Rightarrow> (resolver_error + block_header option) \<times> 'r"
  canonical_header_at_height ::
    "u64 \<Rightarrow> 'r \<Rightarrow> (resolver_error + block_header option) \<times> 'r"

record chain_state =
  cache :: header_cache
  max_reorg_depth :: u64
  finalized_height :: "u64 option"
  tip :: "block_header option"
  canonical_by_height :: "(u64, block_header) btree_map"
  canonical_hashes :: "block_hash set"

section \<open>Construction\<close>

definition chain_new :: "nat \<Rightarrow> u64 \<Rightarrow> chain_error + chain_state" where
  "chain_new header_cache_size depth =
     (if header_cache_size = 0 then Inl EmptyHeaderCache
      else if depth = 0 then Inl EmptyMaxReorgDepth
      else Inr \<lparr>cache = cache_new header_cache_size, max_reorg_depth = depth,
                finalized_height = None, tip = None,
                canonical_by_height = bt_new, canonical_hashes = {}\<rparr>)"

definition insert_canonical :: "block_header \<Rightarrow> chain_state \<Rightarrow> chain_state" where
  "insert_canonical blk s =
     s\<lparr>cache := cache_insert blk (cache s),
       canonical_by_height := bt_insert (height blk) blk (canonical_by_height s),
       canonical_hashes := insert (hash blk) (canonical_hashes s)\<rparr>"

definition remove_canonical :: "block_header \<Rightarrow> chain_state \<Rightarrow> chain_state" where
  "remove_canonical blk s =
     (let s' = (case bt_get (canonical_by_height s) (height blk) of
                  Some known \<Rightarrow>
                    if hash known = hash blk
                    then s\<lparr>canonical_by_height := bt_remove (height blk) (canonical_by_height s),
                           canonical_hashes := canonical_hashes s - {hash blk}\<rparr>
                    else s
                | None \<Rightarrow> s)
      in s'\<lparr>cache := cache_insert blk (cache s')\<rparr>)"

definition from_tip :: "block_header \<Rightarrow> nat \<Rightarrow> u64 \<Rightarrow> chain_error + chain_state" where
  "from_tip t header_cache_size depth =
     tryR (chain_new header_cache_size depth) (\<lambda>s.
       Inr ((insert_canonical t s)\<lparr>tip := Some t\<rparr>))"

text \<open>The loop over \<open>headers.windows(2)\<close>: the height of the first child that does not link.\<close>

fun first_broken_link :: "block_header list \<Rightarrow> u64 option" where
  "first_broken_link (parent # child # rest) =
     (if height child \<noteq> height parent + 1 \<or> parent_hash child \<noteq> hash parent
      then Some (height child)
      else first_broken_link (child # rest))"
| "first_broken_link _ = None"

definition from_canonical_chain ::
    "block_header list \<Rightarrow> nat \<Rightarrow> u64 \<Rightarrow> chain_error + chain_state" where
  "from_canonical_chain headers header_cache_size depth =
     (if headers = [] then Inl EmptyCanonicalChain
      else tryR (chain_new header_cache_size depth) (\<lambda>s.
        case first_broken_link headers of
          Some n \<Rightarrow> Inl (BrokenCanonicalChain n)
        | None \<Rightarrow> Inr ((fold insert_canonical headers s)\<lparr>tip := Some (last headers)\<rparr>)))"

definition canonical_chain :: "chain_state \<Rightarrow> block_header list" where
  "canonical_chain s = bt_values (canonical_by_height s)"

definition set_finalized_height :: "u64 option \<Rightarrow> chain_state \<Rightarrow> chain_state" where
  "set_finalized_height f s = s\<lparr>finalized_height := f\<rparr>"

definition cached_header :: "chain_state \<Rightarrow> block_hash \<Rightarrow> block_header option" where
  "cached_header s h = cache_get (cache s) h"

section \<open>Ancestry\<close>

definition validate_same_header :: "block_header \<Rightarrow> block_header \<Rightarrow> chain_error + unit" where
  "validate_same_header l r =
     (if l = r then Inr ()
      else Inl (InvalidParentLink (height l) (height r) (hash l) (hash r)))"

definition validate_parent_link :: "block_header \<Rightarrow> block_header \<Rightarrow> chain_error + unit" where
  "validate_parent_link child parent =
     (if parent_hash child \<noteq> hash parent \<or> height child \<noteq> height parent + 1
      then Inl (InvalidParentLink (height child) (height parent) (parent_hash child) (hash parent))
      else Inr ())"

definition is_known_canonical :: "chain_state \<Rightarrow> block_header \<Rightarrow> bool" where
  "is_known_canonical s blk \<longleftrightarrow>
     hash blk \<in> canonical_hashes s \<and>
     bt_get (canonical_by_height s) (height blk) = Some blk"

definition canonical_match ::
    "'r ancestry_resolver \<Rightarrow> chain_state \<Rightarrow> block_header \<Rightarrow> 'r \<Rightarrow>
      (chain_error + block_header option) \<times> 'r" where
  "canonical_match R s blk r =
     (if is_known_canonical s blk then (Inr (Some blk), r)
      else tryS (apfst (map_err Resolver) (canonical_header_by_hash R (hash blk) r)) (\<lambda>by_hash r.
        case by_hash of
          Some canonical \<Rightarrow>
            (tryR (validate_same_header blk canonical) (\<lambda>_. Inr (Some canonical)), r)
        | None \<Rightarrow>
            tryS (apfst (map_err Resolver) (canonical_header_at_height R (height blk) r))
              (\<lambda>at_height r.
                case at_height of
                  Some canonical \<Rightarrow>
                    if hash canonical = hash blk
                    then (tryR (validate_same_header blk canonical) (\<lambda>_. Inr (Some canonical)), r)
                    else (Inr None, r)
                | None \<Rightarrow> (Inr None, r))))"

definition local_parent :: "chain_state \<Rightarrow> block_header \<Rightarrow> block_header option" where
  "local_parent s child =
     (let candidate = (case cache_get (cache s) (parent_hash child) of
                         Some p \<Rightarrow> Some p
                       | None \<Rightarrow> bt_get (canonical_by_height s) (height child - 1))
      in case candidate of
           Some p \<Rightarrow> if hash p = parent_hash child then Some p else None
         | None \<Rightarrow> None)"

definition parent_for ::
    "'r ancestry_resolver \<Rightarrow> chain_state \<Rightarrow> block_header \<Rightarrow> 'r \<Rightarrow>
      (chain_error + block_header) \<times> 'r" where
  "parent_for R s child r =
     (if height child = 0 then (Inl (MissingParent (parent_hash child)), r)
      else tryS (case local_parent s child of
                   Some p \<Rightarrow> (Inr (Some p), r)
                 | None \<Rightarrow> apfst (map_err Resolver) (header_by_hash R (parent_hash child) r))
        (\<lambda>parent r. case parent of
            None \<Rightarrow> (Inl (MissingParent (parent_hash child)), r)
          | Some p \<Rightarrow> (tryR (validate_parent_link child p) (\<lambda>_. Inr p), r)))"

lemma validate_same_header_Inr [try_simps]: "validate_same_header l r = Inr u \<longleftrightarrow> l = r"
  by (simp add: validate_same_header_def)

lemma validate_parent_link_Inr [try_simps]:
  "validate_parent_link c p = Inr u \<longleftrightarrow> parent_hash c = hash p \<and> height c = height p + 1"
  by (auto simp: validate_parent_link_def)

text \<open>Only a header equal to the asked one matches; only a proven parent is returned.\<close>

lemma canonical_match_eq:
  "canonical_match R s blk r = (Inr (Some c), r') \<Longrightarrow> c = blk"
  by (auto simp: canonical_match_def try_simps split: option.splits if_splits)

lemma parent_for_links:
  "parent_for R s child r = (Inr p, r') \<Longrightarrow> links child p"
  by (auto simp: parent_for_def try_simps split: option.splits if_splits intro!: links_intro)

lemma parent_for_decreases:
  "parent_for R s child r = (Inr p, r') \<Longrightarrow> unat (height p) < unat (height child)"
  using parent_for_links by (fastforce simp: links_def)

text \<open>
  The two walks.  Each step goes one block down, so the height is a measure of the loops; the
  depth bound is checked after the push, as in the code.
\<close>

function (sequential) resolve_loop ::
    "'r ancestry_resolver \<Rightarrow> chain_state \<Rightarrow> block_header \<Rightarrow> block_header list \<Rightarrow> 'r \<Rightarrow>
      (chain_error + block_header \<times> block_header list) \<times> 'r" where
  "resolve_loop R s current replacement_descending r =
     tryS (canonical_match R s current r) (\<lambda>m r.
       case m of
         Some canonical \<Rightarrow> (Inr (canonical, replacement_descending), r)
       | None \<Rightarrow>
           (let pushed = replacement_descending @ [current]
            in if of_nat (length pushed) > max_reorg_depth s
               then (Inl (MaxDepthExceeded (max_reorg_depth s)), r)
               else tryS (parent_for R s current r) (\<lambda>p r. resolve_loop R s p pushed r)))"
  by pat_completeness auto
termination
  by (relation "measure (\<lambda>(R, s, current, acc, r). unat (height current))")
    (auto dest: parent_for_decreases)

definition resolve_common_ancestor ::
    "'r ancestry_resolver \<Rightarrow> chain_state \<Rightarrow> block_header \<Rightarrow> 'r \<Rightarrow>
      (chain_error + block_header \<times> block_header list) \<times> 'r" where
  "resolve_common_ancestor R s new_head r = resolve_loop R s new_head [] r"

function (sequential) rollback_loop ::
    "'r ancestry_resolver \<Rightarrow> chain_state \<Rightarrow> block_header \<Rightarrow> block_header \<Rightarrow> block_header list \<Rightarrow>
      'r \<Rightarrow> (chain_error + block_header \<times> block_header list) \<times> 'r" where
  "rollback_loop R s current ancestor rollbacks r =
     (if height ancestor < height current then
        (let pushed = rollbacks @ [current]
         in if of_nat (length pushed) > max_reorg_depth s
            then (Inl (MaxDepthExceeded (max_reorg_depth s)), r)
            else tryS (parent_for R s current r) (\<lambda>p r. rollback_loop R s p ancestor pushed r))
      else (Inr (current, rollbacks), r))"
  by pat_completeness auto
termination
  by (relation "measure (\<lambda>(R, s, current, a, acc, r). unat (height current))")
    (auto dest: parent_for_decreases)

declare resolve_loop.simps [simp del] rollback_loop.simps [simp del]

definition rollback_path ::
    "'r ancestry_resolver \<Rightarrow> chain_state \<Rightarrow> block_header \<Rightarrow> block_header \<Rightarrow> 'r \<Rightarrow>
      (chain_error + block_header list) \<times> 'r" where
  "rollback_path R s t ancestor r =
     tryS (rollback_loop R s t ancestor [] r) (\<lambda>(current, rollbacks) r.
       if hash current \<noteq> hash ancestor then (Inl (MissingParent (hash ancestor)), r)
       else (Inr rollbacks, r))"

definition enforce_finalized_boundary :: "chain_state \<Rightarrow> block_header \<Rightarrow> chain_error + unit" where
  "enforce_finalized_boundary s ancestor =
     (case finalized_height s of
        Some f \<Rightarrow> if height ancestor < f then Inl (FinalizedBoundary (height ancestor) f)
                  else Inr ()
      | None \<Rightarrow> Inr ())"

section \<open>Applying a head\<close>

fun commit_event :: "chain_event \<Rightarrow> chain_state \<Rightarrow> chain_state" where
  "commit_event (Rollback blk) s = remove_canonical blk s"
| "commit_event (Apply blk) s = insert_canonical blk s"

text \<open>\<open>events.iter().rev().find_map(\<dots>)\<close>: the header of the last apply event.\<close>

fun last_apply :: "chain_event list \<Rightarrow> block_header option" where
  "last_apply [] = None"
| "last_apply (e # es) =
     (case last_apply es of
        Some blk \<Rightarrow> Some blk
      | None \<Rightarrow> (case e of Apply blk \<Rightarrow> Some blk | Rollback _ \<Rightarrow> None))"

definition chain_commit :: "chain_batch \<Rightarrow> chain_state \<Rightarrow> chain_state" where
  "chain_commit b s =
     (let s' = fold commit_event (events b) s
      in case last_apply (events b) of
           Some blk \<Rightarrow> s'\<lparr>tip := Some blk\<rparr>
         | None \<Rightarrow>
             if transition b = Duplicate
             then s'\<lparr>tip := (case tip s' of Some t \<Rightarrow> Some t | None \<Rightarrow> common_ancestor b)\<rparr>
             else s')"

definition branch_transition :: "chain_event list \<Rightarrow> chain_transition" where
  "branch_transition es =
     (if es = [] then Duplicate
      else if list_ex (\<lambda>e. case e of Rollback _ \<Rightarrow> True | Apply _ \<Rightarrow> False) es then Reorg
      else Gap)"

text \<open>The part of \<open>apply\<close> from \<open>resolve_common_ancestor\<close> to the batch; it mutates nothing.\<close>

definition branch_batch ::
    "'r ancestry_resolver \<Rightarrow> chain_state \<Rightarrow> block_header \<Rightarrow> block_header \<Rightarrow> 'r \<Rightarrow>
      (chain_error + chain_batch) \<times> 'r" where
  "branch_batch R s t new_head r =
     tryS (resolve_common_ancestor R s new_head r) (\<lambda>(ancestor, replacement_descending) r.
     tryS (enforce_finalized_boundary s ancestor, r) (\<lambda>_ r.
     tryS (rollback_path R s t ancestor r) (\<lambda>rollbacks r.
       let applies = rev replacement_descending;
           es = map Rollback rollbacks @ map Apply applies
       in (Inr \<lparr>transition = branch_transition es, common_ancestor = Some ancestor,
                events = es\<rparr>, r))))"

definition chain_apply ::
    "'r ancestry_resolver \<Rightarrow> block_header \<Rightarrow> chain_state \<Rightarrow> 'r \<Rightarrow>
      (chain_error + chain_batch) \<times> chain_state \<times> 'r" where
  "chain_apply R new_head s r =
     (if is_known_canonical s new_head
         \<or> (case tip s of Some t \<Rightarrow> hash t = hash new_head | None \<Rightarrow> False)
      then (Inr \<lparr>transition = Duplicate, common_ancestor = Some new_head, events = []\<rparr>,
            s\<lparr>cache := cache_insert new_head (cache s)\<rparr>, r)
      else case tip s of
        None \<Rightarrow>
          if height new_head \<noteq> 0 then (Inl (MissingParent (parent_hash new_head)), s, r)
          else (let b = \<lparr>transition = Bootstrap, common_ancestor = None,
                         events = [Apply new_head]\<rparr>
                in (Inr b, chain_commit b s, r))
      | Some t \<Rightarrow>
          if parent_hash new_head = hash t then
            if height new_head \<noteq> height t + 1
            then (Inl (InvalidExtensionHeight (height new_head) (height t)), s, r)
            else (let b = \<lparr>transition = Extend, common_ancestor = Some t,
                           events = [Apply new_head]\<rparr>
                  in (Inr b, chain_commit b s, r))
          else (case branch_batch R s t new_head r of
                  (Inl e, r) \<Rightarrow> (Inl e, s, r)
                | (Inr b, r) \<Rightarrow> (Inr b, chain_commit b s, r)))"

end
