(* ===== verification/Chain_Correct.thy ===== *)
theory Chain_Correct
  imports Chain
begin

text \<open>
  Correctness of the chain-transition module: what a successful \<open>apply\<close> emits, that its
  effect on the held segment is to cut it at the common ancestor and to append the new
  branch, that the finalized boundary holds, and that a failure leaves the state alone.
\<close>

section \<open>The two walks\<close>

lemma branch_cons: "links c p \<Longrightarrow> successively links (xs @ [a]) \<Longrightarrow> hd (xs @ [a]) = p \<Longrightarrow>
   successively links (c # xs @ [a])"
  by (cases xs) auto

lemma pushed_within:
  assumes "\<not> (of_nat n :: u64) > d" and "n < 2 ^ 64"
  shows "n \<le> unat d"
proof -
  have "unat (of_nat n :: u64) = n"
    using assms(2) by (simp add: unsigned_of_nat take_bit_nat_eq_self)
  with assms(1) show ?thesis by (simp add: word_less_nat_alt)
qed

lemma resolve_loop_cases:
  assumes "resolve_loop R s cur acc r = (Inr (a, path), r')"
  obtains (found) "a = cur" "path = acc"
  | (step) p r1 r2 where "\<not> of_nat (Suc (length acc)) > max_reorg_depth s"
      "parent_for R s cur r1 = (Inr p, r2)"
      "resolve_loop R s p (acc @ [cur]) r2 = (Inr (a, path), r')"
  using assms unfolding resolve_loop.simps [of R s cur acc r]
  by (force simp: try_simps Let_def split: if_splits option.splits dest: canonical_match_eq)

lemma resolve_loop_sound:
  "resolve_loop R s cur acc r = (Inr (a, path), r') \<Longrightarrow>
   \<exists>xs. path = acc @ xs \<and> successively links (xs @ [a]) \<and> hd (xs @ [a]) = cur"
proof (induction cur arbitrary: acc r rule: measure_induct_rule [of "\<lambda>c. unat (height c)"])
  case (less cur)
  from less.prems show ?case
  proof (cases rule: resolve_loop_cases)
    case found
    then show ?thesis by (intro exI [of _ "[]"]) simp
  next
    case (step p r1 r2)
    from less.IH [OF parent_for_decreases [OF step(2)] step(3)] obtain xs where
      "path = (acc @ [cur]) @ xs" "successively links (xs @ [a])" "hd (xs @ [a]) = p"
      by blast
    with parent_for_links [OF step(2)] show ?thesis
      by (intro exI [of _ "cur # xs"]) (simp add: branch_cons)
  qed
qed

lemma resolve_loop_depth:
  "resolve_loop R s cur acc r = (Inr (a, path), r') \<Longrightarrow>
   length acc + unat (height cur) < 2 ^ 64 \<Longrightarrow> length acc \<le> unat (max_reorg_depth s) \<Longrightarrow>
   length path \<le> unat (max_reorg_depth s)"
proof (induction cur arbitrary: acc r rule: measure_induct_rule [of "\<lambda>c. unat (height c)"])
  case (less cur)
  from less.prems(1) show ?case
  proof (cases rule: resolve_loop_cases)
    case (step p r1 r2)
    have h: "unat (height cur) = Suc (unat (height p))"
      using parent_for_links [OF step(2)] by (simp add: links_def)
    with less.prems(2) step(1) have "Suc (length acc) \<le> unat (max_reorg_depth s)"
      by (intro pushed_within) auto
    with less.IH [OF parent_for_decreases [OF step(2)] step(3)] less.prems(2) h show ?thesis
      by simp
  qed (use less.prems in simp)
qed

lemma rollback_loop_cases:
  assumes "rollback_loop R s cur anc acc r = (Inr (c, path), r')"
  obtains (reached) "c = cur" "path = acc" "height cur \<le> height anc"
  | (step) p r1 r2 where "\<not> of_nat (Suc (length acc)) > max_reorg_depth s"
      "height anc < height cur" "parent_for R s cur r1 = (Inr p, r2)"
      "rollback_loop R s p anc (acc @ [cur]) r2 = (Inr (c, path), r')"
  using assms unfolding rollback_loop.simps [of R s cur anc acc r]
  by (force simp: try_simps Let_def not_less split: if_splits)

lemma rollback_loop_sound:
  "rollback_loop R s cur anc acc r = (Inr (c, path), r') \<Longrightarrow>
   \<exists>xs. path = acc @ xs \<and> successively links (xs @ [c]) \<and> hd (xs @ [c]) = cur \<and>
     height c \<le> height anc \<and> (\<forall>x \<in> set xs. height anc < height x)"
proof (induction cur arbitrary: acc r rule: measure_induct_rule [of "\<lambda>c. unat (height c)"])
  case (less cur)
  from less.prems show ?case
  proof (cases rule: rollback_loop_cases)
    case reached
    then show ?thesis by (intro exI [of _ "[]"]) simp
  next
    case (step p r1 r2)
    from less.IH [OF parent_for_decreases [OF step(3)] step(4)] obtain xs where
      "path = (acc @ [cur]) @ xs" "successively links (xs @ [c])" "hd (xs @ [c]) = p"
      "height c \<le> height anc" "\<forall>x \<in> set xs. height anc < height x"
      by blast
    with parent_for_links [OF step(3)] step(2) show ?thesis
      by (intro exI [of _ "cur # xs"]) (simp add: branch_cons)
  qed
qed

lemma rollback_loop_depth:
  "rollback_loop R s cur anc acc r = (Inr (c, path), r') \<Longrightarrow>
   length acc + unat (height cur) < 2 ^ 64 \<Longrightarrow> length acc \<le> unat (max_reorg_depth s) \<Longrightarrow>
   length path \<le> unat (max_reorg_depth s)"
proof (induction cur arbitrary: acc r rule: measure_induct_rule [of "\<lambda>c. unat (height c)"])
  case (less cur)
  from less.prems(1) show ?case
  proof (cases rule: rollback_loop_cases)
    case (step p r1 r2)
    have h: "unat (height cur) = Suc (unat (height p))"
      using parent_for_links [OF step(3)] by (simp add: links_def)
    with less.prems(2) step(1) have "Suc (length acc) \<le> unat (max_reorg_depth s)"
      by (intro pushed_within) auto
    with less.IH [OF parent_for_decreases [OF step(3)] step(4)] less.prems(2) h show ?thesis
      by simp
  qed (use less.prems in simp)
qed

text \<open>
  The last header of a walked branch sits right above the header it ends at, so a rollback walk
  that had to go down ends exactly at the ancestor's height.
\<close>

lemma branch_last_height:
  assumes "successively links (xs @ [c])" and "xs \<noteq> []"
  shows "unat (height (last xs)) = Suc (unat (height c))"
  using assms by (simp add: successively_append_iff links_def)

definition branch :: "block_header \<Rightarrow> block_header list \<Rightarrow> block_header \<Rightarrow> bool" where
  "branch start xs a \<longleftrightarrow>
     successively links xs \<and>
     (if xs = [] then hash start = hash a
      else hd xs = start \<and> parent_hash (last xs) = hash a \<and>
           unat (height (last xs)) = Suc (unat (height a)))"

lemma branchI: "successively links (xs @ [a]) \<Longrightarrow> hd (xs @ [a]) = start \<Longrightarrow> branch start xs a"
  by (cases xs) (auto simp: branch_def successively_append_iff links_def successively_Cons hd_append)

lemma branch_Nil: "branch start [] a \<longleftrightarrow> hash start = hash a"
  by (simp add: branch_def)

lemma rollback_path_branch:
  assumes "rollback_path R s t a r = (Inr rbs, r')"
  shows "branch t rbs a \<and> length rbs \<le> unat (max_reorg_depth s) \<and>
    (\<forall>x \<in> set rbs. height a < height x) \<and> (rbs = [] \<longrightarrow> height t \<le> height a)"
proof -
  from assms obtain c where loop: "rollback_loop R s t a [] r = (Inr (c, rbs), r')"
    and c: "hash c = hash a"
    by (auto simp: rollback_path_def try_simps split: if_splits)
  from rollback_loop_sound [OF loop] have
    path: "successively links (rbs @ [c])" "hd (rbs @ [c]) = t" "height c \<le> height a"
      "\<forall>x \<in> set rbs. height a < height x" by auto
  have "length rbs \<le> unat (max_reorg_depth s)"
    using rollback_loop_depth [OF loop] unsigned_less [of "height t", where ?'a = nat] by simp
  moreover have "branch t rbs a"
  proof (cases "rbs = []")
    case True
    with path c show ?thesis by (simp add: branch_Nil)
  next
    case False
    with path(4) have "height a < height (last rbs)" by simp
    with branch_last_height [OF path(1) False] path(3) have "height c = height a"
      by (simp add: word_nat_simps)
    with branchI [OF path(1,2)] False c show ?thesis by (simp add: branch_def)
  qed
  ultimately show ?thesis using path by auto
qed

lemma resolve_common_ancestor_branch:
  assumes "resolve_common_ancestor R s new r = (Inr (a, path), r')"
  shows "successively links (path @ [a]) \<and> hd (path @ [a]) = new \<and>
    length path \<le> unat (max_reorg_depth s)"
proof -
  from assms have loop: "resolve_loop R s new [] r = (Inr (a, path), r')"
    by (simp add: resolve_common_ancestor_def)
  from resolve_loop_sound [OF loop] resolve_loop_depth [OF loop] unsigned_less [of "height new", where ?'a = nat]
  show ?thesis by auto
qed

section \<open>The held segment\<close>

definition index_wf :: "chain_state \<Rightarrow> bool" where
  "index_wf s \<longleftrightarrow>
     bt_inv (canonical_by_height s) \<and>
     (\<forall>(k, blk) \<in> set (canonical_by_height s). height blk = k) \<and>
     canonical_hashes s = hash ` set (canonical_chain s) \<and>
     inj_on hash (set (canonical_chain s)) \<and>
     cache_wf (cache s)"

definition chain_wf :: "chain_state \<Rightarrow> bool" where
  "chain_wf s \<longleftrightarrow>
     index_wf s \<and> max_reorg_depth s \<noteq> 0 \<and>
     successively (\<lambda>p c. links c p) (canonical_chain s) \<and>
     tip s = (if canonical_chain s = [] then None else Some (last (canonical_chain s)))"

lemma index_wf_get:
  assumes "index_wf s"
  shows "bt_get (canonical_by_height s) k = Some blk \<longleftrightarrow> blk \<in> set (canonical_chain s) \<and> height blk = k"
  using assms bt.entry_iff_get [of "canonical_by_height s" k blk]
  by (force simp: index_wf_def canonical_chain_def bt_values_def)

lemma index_wf_ascending:
  "index_wf s \<Longrightarrow> sorted_wrt (\<lambda>x y. height x < height y) (canonical_chain s)"
  using bt.values_ascending [of "canonical_by_height s" height]
  by (auto simp: index_wf_def canonical_chain_def bt_values_def bt.entry_iff_get [symmetric])

lemma index_wf_entries:
  assumes "index_wf s"
  shows "canonical_by_height s = map (\<lambda>x. (height x, x)) (canonical_chain s)"
  using assms by (auto simp: index_wf_def canonical_chain_def bt_values_def intro!: map_idI [symmetric])

lemma chain_new_wf: "chain_new n d = Inr s \<Longrightarrow> chain_wf s"
  by (auto simp: chain_new_def chain_wf_def index_wf_def canonical_chain_def bt_values_def
      bt_new_def cache_new_wf split: if_splits)

lemma remove_canonical_wf:
  assumes "index_wf s"
  shows "index_wf (remove_canonical blk s) \<and>
    canonical_chain (remove_canonical blk s) =
      filter (\<lambda>x. \<not> (height x = height blk \<and> hash x = hash blk)) (canonical_chain s)"
proof (cases "\<exists>x \<in> set (canonical_chain s). height x = height blk \<and> hash x = hash blk")
  case True
  then obtain x where x: "x \<in> set (canonical_chain s)" "height x = height blk" "hash x = hash blk"
    by blast
  with assms have get: "bt_get (canonical_by_height s) (height blk) = Some x"
    by (simp add: index_wf_get)
  have inj: "inj_on hash (set (canonical_chain s))" using assms by (simp add: index_wf_def)
  have keep: "height y \<noteq> height blk \<longleftrightarrow> \<not> (height y = height blk \<and> hash y = hash blk)"
    if "y \<in> set (canonical_chain s)" for y
    using index_wf_get [OF assms, of "height blk" y] get x that by auto
  let ?s = "remove_canonical blk s"
  have "canonical_chain ?s = map snd (filter (\<lambda>e. fst e \<noteq> height blk) (canonical_by_height s))"
    using get x by (simp add: canonical_chain_def remove_canonical_def Let_def bt_values_def
        bt_remove_def case_prod_unfold)
  also have "\<dots> = filter (\<lambda>x. height x \<noteq> height blk) (canonical_chain s)"
    by (subst index_wf_entries [OF assms]) (simp add: filter_map o_def)
  also have "\<dots> = filter (\<lambda>x. \<not> (height x = height blk \<and> hash x = hash blk)) (canonical_chain s)"
    using keep by (intro filter_cong) auto
  finally have chain: "canonical_chain ?s =
      filter (\<lambda>x. \<not> (height x = height blk \<and> hash x = hash blk)) (canonical_chain s)" .
  have only: "height y = height blk" if "y \<in> set (canonical_chain s)" "hash y = hash blk" for y
    using inj_onD [OF inj, of y x] x that by simp
  have "hash ` set (canonical_chain ?s) = hash ` set (canonical_chain s) - {hash blk}"
    unfolding chain using only by auto
  moreover have "inj_on hash (set (canonical_chain ?s))"
    by (rule inj_on_subset [OF inj]) (auto simp: chain)
  ultimately show ?thesis
    using assms get x chain bt_inv_remove [of "canonical_by_height s" "height blk"]
    by (auto simp: index_wf_def remove_canonical_def Let_def bt_remove_def canonical_chain_def)
next
  case False
  with assms have "canonical_by_height (remove_canonical blk s) = canonical_by_height s"
    "canonical_hashes (remove_canonical blk s) = canonical_hashes s"
    by (auto simp: remove_canonical_def Let_def index_wf_get split: option.splits)
  moreover have "cache_wf (cache (remove_canonical blk s))"
    using assms by (auto simp: remove_canonical_def Let_def index_wf_def split: option.split)
  ultimately show ?thesis
    using assms False by (auto simp: index_wf_def canonical_chain_def intro!: filter_True [symmetric])
qed

lemma bt_insert_above: "(\<And>k'. k' \<in> fst ` set m \<Longrightarrow> k' < k) \<Longrightarrow> bt_insert k v m = m @ [(k, v)]"
  by (induction k v m rule: bt_insert.induct) force+

lemma insert_canonical_wf:
  assumes "index_wf s" and "\<And>x. x \<in> set (canonical_chain s) \<Longrightarrow> height x < height blk"
    and "hash blk \<notin> hash ` set (canonical_chain s)"
  shows "index_wf (insert_canonical blk s) \<and>
    canonical_chain (insert_canonical blk s) = canonical_chain s @ [blk]"
proof -
  have "bt_insert (height blk) blk (canonical_by_height s) = canonical_by_height s @ [(height blk, blk)]"
    using assms(1,2) by (intro bt_insert_above) (auto simp: index_wf_entries)
  moreover have "bt_inv (bt_insert (height blk) blk (canonical_by_height s))"
    using assms(1) by (auto simp: index_wf_def)
  ultimately show ?thesis
    using assms by (auto simp: index_wf_def insert_canonical_def canonical_chain_def bt_values_def)
qed

lemma fold_remove_wf:
  "index_wf s \<Longrightarrow>
   index_wf (fold commit_event (map Rollback rbs) s) \<and>
   canonical_chain (fold commit_event (map Rollback rbs) s) =
     filter (\<lambda>x. \<forall>y \<in> set rbs. \<not> (height x = height y \<and> hash x = hash y)) (canonical_chain s)"
proof (induction rbs arbitrary: s)
  case (Cons y ys)
  with remove_canonical_wf [OF Cons.prems, of y] show ?case
    by (auto simp: conj_commute intro!: filter_cong)
qed simp

lemma fold_insert_wf:
  "index_wf s \<Longrightarrow> sorted_wrt (\<lambda>x y. height x < height y) (canonical_chain s @ aps) \<Longrightarrow>
   inj_on hash (set (canonical_chain s @ aps)) \<Longrightarrow>
   index_wf (fold commit_event (map Apply aps) s) \<and>
   canonical_chain (fold commit_event (map Apply aps) s) = canonical_chain s @ aps"
proof (induction aps arbitrary: s)
  case (Cons y ys)
  have fresh: "hash y \<notin> hash ` set (canonical_chain s)"
  proof
    assume "hash y \<in> hash ` set (canonical_chain s)"
    then obtain x where "x \<in> set (canonical_chain s)" "hash x = hash y" by auto
    with Cons.prems(2) inj_onD [OF Cons.prems(3), of x y] show False
      by (auto simp: sorted_wrt_append)
  qed
  from insert_canonical_wf [OF Cons.prems(1) _ fresh] Cons.prems(2) have
    "index_wf (insert_canonical y s)" "canonical_chain (insert_canonical y s) = canonical_chain s @ [y]"
    by (auto simp: sorted_wrt_append)
  with Cons show ?case by simp
qed simp

section \<open>The effect of a batch\<close>

lemma ascending_heights:
  "successively (\<lambda>p c. links c p) xs \<Longrightarrow> sorted_wrt (\<lambda>x y. height x < height y) xs"
  by (subst successively_conv_sorted_wrt [symmetric])
    (auto intro: transpI elim!: successively_mono dest: links_height)

text \<open>
  Two descents from one header agree while hashes determine headers: the rollback walk either
  runs through the held segment down to the ancestor, or runs through all of it and below.
\<close>

lemma branch_prefix:
  assumes "branch start rbs a" and "successively links ys" and "ys \<noteq> []" and "hd ys = start"
    and "inj_on hash (set ys \<union> set rbs \<union> {a})"
  shows "(\<exists>zs. ys = rbs @ a # zs) \<or> (\<exists>zs. rbs = ys @ zs)"
  using assms
proof (induction rbs arbitrary: ys start)
  case Nil
  then have "hash (hd ys) = hash a" and "hd ys \<in> set ys" by (auto simp: branch_def)
  with inj_onD [OF Nil.prems(5), of "hd ys" a] have "hd ys = a" by simp
  with Nil.prems show ?case by (cases ys) auto
next
  case (Cons x xs)
  from Cons.prems obtain ys' where ys: "ys = x # ys'"
    by (cases ys) (auto simp: branch_def)
  show ?case
  proof (cases ys')
    case Nil
    with ys show ?thesis by auto
  next
    case (Cons y zs)
    from Cons.prems(2) ys Cons have l: "links x y" and ys': "successively links ys'"
      by simp_all
    have "branch y xs a"
    proof (cases xs)
      case Nil
      with l Cons.prems(1) show ?thesis by (simp add: branch_def links_def)
    next
      case (Cons w ws)
      with Cons.prems(1) have lw: "links x w" by (auto simp: branch_def)
      with l have "hash w = hash y" by (simp add: links_def)
      then have "w = y"
        using Cons.prems(5) Cons ys \<open>ys' = y # zs\<close> by (auto dest!: inj_onD)
      with Cons.prems(1) Cons show ?thesis by (auto simp: branch_def)
    qed
    then have "(\<exists>zs. ys' = xs @ a # zs) \<or> (\<exists>zs. xs = ys' @ zs)"
      using Cons ys ys' Cons.prems(5)
      by (intro Cons.IH) (auto elim: inj_on_subset)
    with ys show ?thesis by auto
  qed
qed

lemma rollback_cuts:
  assumes wf: "chain_wf s" and t: "tip s = Some t" and b: "branch t rbs a"
    and above: "\<forall>x \<in> set rbs. height a < height x"
    and inj: "inj_on hash (set (canonical_chain s) \<union> set rbs \<union> {a})"
  shows "filter (\<lambda>x. \<forall>y \<in> set rbs. \<not> (height x = height y \<and> hash x = hash y)) (canonical_chain s) =
      filter (\<lambda>x. height x \<le> height a) (canonical_chain s)"
    and "filter (\<lambda>x. height x \<le> height a) (canonical_chain s) = [] \<or>
      last (filter (\<lambda>x. height x \<le> height a) (canonical_chain s)) = a"
proof -
  let ?c = "canonical_chain s"
  from wf t have c: "?c \<noteq> []" "last ?c = t" "successively (\<lambda>p c. links c p) ?c"
    by (auto simp: chain_wf_def split: if_splits)
  then have r: "successively links (rev ?c)" "rev ?c \<noteq> []" "hd (rev ?c) = t"
    by (simp_all add: hd_rev)
  have "(\<exists>zs. rev ?c = rbs @ a # zs) \<or> (\<exists>zs. rbs = rev ?c @ zs)"
    using inj by (intro branch_prefix [OF b r]) simp
  then have "(\<forall>x \<in> set ?c. (\<forall>y \<in> set rbs. \<not> (height x = height y \<and> hash x = hash y)) \<longleftrightarrow>
        height x \<le> height a) \<and>
      (filter (\<lambda>x. height x \<le> height a) ?c = [] \<or>
       last (filter (\<lambda>x. height x \<le> height a) ?c) = a)"
  proof
    assume "\<exists>zs. rev ?c = rbs @ a # zs"
    then obtain zs where zs: "?c = rev zs @ a # rev rbs"
      by (metis append.assoc append_Cons append_Nil rev_append rev_rev_ident rev.simps(2))
    from ascending_heights [OF c(3)] zs have low: "\<forall>x \<in> set zs. height x < height a"
      by (simp add: sorted_wrt_append)
    have "filter (\<lambda>x. height x \<le> height a) ?c = rev zs @ [a]"
      using low above unfolding zs
      by (auto simp: not_le filter_empty_conv less_imp_le intro!: filter_True)
    moreover have "(\<forall>y \<in> set rbs. \<not> (height x = height y \<and> hash x = hash y)) \<longleftrightarrow> height x \<le> height a"
      if "x \<in> set ?c" for x
      using that low above unfolding zs by fastforce
    ultimately show ?thesis by simp
  next
    assume "\<exists>zs. rbs = rev ?c @ zs"
    then have "set ?c \<subseteq> set rbs" by auto
    with above show ?thesis by (fastforce simp: filter_empty_conv)
  qed
  then have same: "\<And>x. x \<in> set ?c \<Longrightarrow>
        (\<forall>y \<in> set rbs. \<not> (height x = height y \<and> hash x = hash y)) = (height x \<le> height a)"
    and last: "filter (\<lambda>x. height x \<le> height a) ?c = [] \<or>
        last (filter (\<lambda>x. height x \<le> height a) ?c) = a"
    by blast+
  show "filter (\<lambda>x. \<forall>y \<in> set rbs. \<not> (height x = height y \<and> hash x = hash y)) ?c =
      filter (\<lambda>x. height x \<le> height a) ?c"
    by (rule filter_cong [OF refl same])
  show "filter (\<lambda>x. height x \<le> height a) ?c = [] \<or> last (filter (\<lambda>x. height x \<le> height a) ?c) = a"
    by (rule last)
qed

section \<open>Applying a head\<close>

definition ascends :: "block_header list \<Rightarrow> bool" where
  "ascends xs \<longleftrightarrow> successively (\<lambda>p c. links c p) xs"

lemma fold_commit_frame [simp]:
  "tip (fold commit_event es s) = tip s"
  "max_reorg_depth (fold commit_event es s) = max_reorg_depth s"
  "finalized_height (fold commit_event es s) = finalized_height s"
proof -
  have *: "tip (commit_event e s) = tip s \<and> max_reorg_depth (commit_event e s) = max_reorg_depth s
    \<and> finalized_height (commit_event e s) = finalized_height s" for e s
    by (cases e) (auto simp: insert_canonical_def remove_canonical_def Let_def split: option.split)
  show "tip (fold commit_event es s) = tip s"
    "max_reorg_depth (fold commit_event es s) = max_reorg_depth s"
    "finalized_height (fold commit_event es s) = finalized_height s"
    using * by (induction es arbitrary: s) simp_all
qed

lemma last_apply_append [simp]:
  "last_apply (es @ es') = (case last_apply es' of None \<Rightarrow> last_apply es | Some b \<Rightarrow> Some b)"
  by (induction es) (auto split: option.splits)

lemma last_apply_Rollbacks [simp]: "last_apply (map Rollback xs) = None"
  by (induction xs) auto

lemma last_apply_Applies [simp]:
  "last_apply (map Apply xs) = (if xs = [] then None else Some (last xs))"
  by (induction xs) auto

text \<open>The batch that follows from a common ancestor \<open>a\<close> of the tip \<open>t\<close> and the head \<open>n\<close>.\<close>

definition reorg_shape ::
    "chain_state \<Rightarrow> block_header \<Rightarrow> block_header \<Rightarrow> block_header \<Rightarrow> block_header list \<Rightarrow>
      block_header list \<Rightarrow> bool" where
  "reorg_shape s t n a rbs aps \<longleftrightarrow>
     branch t rbs a \<and> ascends (a # aps) \<and> last (a # aps) = n \<and>
     length rbs \<le> unat (max_reorg_depth s) \<and> length aps \<le> unat (max_reorg_depth s) \<and>
     (\<forall>x \<in> set rbs. height a < height x) \<and>
     (rbs \<noteq> [] \<longrightarrow> (\<forall>f. finalized_height s = Some f \<longrightarrow> f \<le> height a))"

lemma branch_batch_shape:
  assumes "branch_batch R s t n r = (Inr b, r')"
  shows "\<exists>a rbs aps. common_ancestor b = Some a \<and> events b = map Rollback rbs @ map Apply aps \<and>
    reorg_shape s t n a rbs aps \<and> transition b = branch_transition (events b)"
proof -
  from assms obtain a path r1 r2 rbs where
    anc: "resolve_common_ancestor R s n r = (Inr (a, path), r1)"
    and fin: "enforce_finalized_boundary s a = Inr ()"
    and rb: "rollback_path R s t a r1 = (Inr rbs, r2)"
    and b: "b = \<lparr>transition = branch_transition (map Rollback rbs @ map Apply (rev path)),
      common_ancestor = Some a, events = map Rollback rbs @ map Apply (rev path)\<rparr>"
    by (auto simp: branch_batch_def try_simps Let_def)
  from resolve_common_ancestor_branch [OF anc]
  have up: "successively links (path @ [a])" "hd (path @ [a]) = n"
    "length path \<le> unat (max_reorg_depth s)" by auto
  have "ascends (a # rev path)"
    using up(1) successively_rev [of "\<lambda>p c. links c p" "path @ [a]"] by (simp add: ascends_def)
  moreover have "last (a # rev path) = n"
    using up(2) by (cases path) auto
  ultimately have "reorg_shape s t n a rbs (rev path)"
    using rollback_path_branch [OF rb] up(3) fin
    by (auto simp: reorg_shape_def enforce_finalized_boundary_def split: if_splits)
  then show ?thesis by (intro exI [of _ a] exI [of _ rbs] exI [of _ "rev path"]) (simp add: b)
qed

lemma chain_apply_cases:
  assumes "chain_apply R n s r = (Inr b, s', r')"
  obtains (duplicate) "events b = []" "s' = s\<lparr>cache := cache_insert n (cache s)\<rparr>"
      "transition b = Duplicate"
  | (bootstrap) "tip s = None" "height n = 0" "events b = [Apply n]" "transition b = Bootstrap"
      "s' = chain_commit b s"
  | (extend) t where "tip s = Some t" "parent_hash n = hash t" "height n = height t + 1"
      "events b = [Apply n]" "common_ancestor b = Some t" "transition b = Extend"
      "s' = chain_commit b s"
  | (branch) t where "tip s = Some t" "parent_hash n \<noteq> hash t" "hash t \<noteq> hash n"
      "branch_batch R s t n r = (Inr b, r')" "s' = chain_commit b s"
proof (cases "is_known_canonical s n \<or> (case tip s of Some t \<Rightarrow> hash t = hash n | None \<Rightarrow> False)")
  case True
  with assms duplicate show ?thesis by (auto simp: chain_apply_def)
next
  case new: False
  show ?thesis
  proof (cases "tip s")
    case None
    with assms new bootstrap show ?thesis by (auto simp: chain_apply_def Let_def split: if_splits)
  next
    case (Some t)
    show ?thesis
    proof (cases "parent_hash n = hash t")
      case True
      with assms new Some extend show ?thesis by (auto simp: chain_apply_def Let_def split: if_splits)
    next
      case False
      with assms new Some have "branch_batch R s t n r = (Inr b, r') \<and> s' = chain_commit b s"
        by (auto simp: chain_apply_def split: prod.splits sum.splits)
      with new Some False branch show ?thesis by auto
    qed
  qed
qed

lemma apply_shape:
  assumes "chain_apply R n s r = (Inr b, s', r')" and "tip s = Some t" and "height t \<noteq> - 1"
    and "max_reorg_depth s \<noteq> 0" and "events b \<noteq> []"
  obtains a rbs aps where "common_ancestor b = Some a"
    "events b = map Rollback rbs @ map Apply aps" "reorg_shape s t n a rbs aps"
    "s' = chain_commit b s" "transition b \<noteq> Duplicate"
  using assms(1)
proof (cases rule: chain_apply_cases)
  case (extend t')
  moreover from this assms have "links n t"
    by (intro links_intro) (auto simp: eq_neg_iff_add_eq_0)
  moreover have "Suc 0 \<le> unat (max_reorg_depth s)"
    using assms(4) by (simp add: unat_pos Suc_le_eq)
  ultimately show ?thesis
    using assms that [of t "[]" "[n]"] by (simp add: reorg_shape_def branch_def ascends_def)
next
  case (branch t')
  with branch_batch_shape [OF branch(4)] assms that show ?thesis
    by (auto simp: branch_transition_def split: if_splits)
qed (use assms in auto)

definition hashes_name_blocks :: "chain_state \<Rightarrow> chain_batch \<Rightarrow> bool" where
  "hashes_name_blocks s b \<longleftrightarrow>
     inj_on hash (set (canonical_chain s) \<union> event_header ` set (events b) \<union>
       set_option (common_ancestor b))"

lemma successively_filter_le:
  fixes f :: "'a \<Rightarrow> 'b::linorder"
  shows "sorted_wrt (\<lambda>x y. f x < f y) xs \<Longrightarrow> successively P xs \<Longrightarrow>
    successively P (filter (\<lambda>x. f x \<le> c) xs)"
proof (induction xs)
  case (Cons x xs)
  show ?case
  proof (cases "xs = [] \<or> \<not> f (hd xs) \<le> c")
    case True
    then have "filter (\<lambda>x. f x \<le> c) xs = []"
      using Cons.prems(1) by (cases xs) (auto simp: filter_empty_conv not_le)
    then show ?thesis by simp
  next
    case False
    with Cons show ?thesis by (cases xs) auto
  qed
qed simp

lemma commit_reorg:
  assumes wf: "chain_wf s" and t: "tip s = Some t" and shape: "reorg_shape s t n a rbs aps"
    and ev: "events b = map Rollback rbs @ map Apply aps" and "common_ancestor b = Some a"
    and "transition b \<noteq> Duplicate" and names: "hashes_name_blocks s b"
  shows "canonical_chain (chain_commit b s) =
      filter (\<lambda>x. height x \<le> height a) (canonical_chain s) @ aps"
    and "aps \<noteq> [] \<Longrightarrow> chain_wf (chain_commit b s)"
    and "aps = [] \<Longrightarrow> tip (chain_commit b s) = Some t"
proof -
  let ?keep = "filter (\<lambda>x. height x \<le> height a) (canonical_chain s)"
  have inj: "inj_on hash (set (canonical_chain s) \<union> set rbs \<union> set aps \<union> {a})"
    using names ev assms(5) by (auto simp: hashes_name_blocks_def image_Un image_image Un_assoc)
  have branch: "branch t rbs a" and above: "\<forall>x \<in> set rbs. height a < height x"
    and asc: "ascends (a # aps)"
    using shape by (auto simp: reorg_shape_def)
  have inj1: "inj_on hash (set (canonical_chain s) \<union> set rbs \<union> {a})"
    by (rule inj_on_subset [OF inj]) auto
  note cuts = rollback_cuts [OF wf t branch above inj1]
  let ?s1 = "fold commit_event (map Rollback rbs) s"
  have idx: "index_wf s" using wf by (simp add: chain_wf_def)
  have s1: "index_wf ?s1" "canonical_chain ?s1 = ?keep"
    using fold_remove_wf [OF idx, of rbs] cuts(1) by auto
  have asc_keep: "sorted_wrt (\<lambda>x y. height x < height y) ?keep"
    by (intro sorted_wrt_filter index_wf_ascending idx)
  have up: "\<forall>y \<in> set aps. height a < height y" "sorted_wrt (\<lambda>x y. height x < height y) aps"
    using ascending_heights [of "a # aps"] asc by (auto simp: ascends_def)
  have s2: "index_wf (fold commit_event (map Apply aps) ?s1) \<and>
      canonical_chain (fold commit_event (map Apply aps) ?s1) = ?keep @ aps"
    using asc_keep up inj_on_subset [OF inj, of "set (?keep @ aps)"]
    by (subst s1(2) [symmetric], intro fold_insert_wf s1(1))
      (auto simp: s1(2) sorted_wrt_append intro: le_less_trans)
  let ?s2 = "fold commit_event (events b) s"
  have e: "?s2 = fold commit_event (map Apply aps) ?s1" by (simp add: ev)
  have commit: "chain_commit b s = (if aps = [] then ?s2 else ?s2\<lparr>tip := Some (last aps)\<rparr>)"
    using assms(6) by (simp add: chain_commit_def Let_def ev)
  have same: "canonical_chain (x\<lparr>tip := v\<rparr>) = canonical_chain x"
    "index_wf (x\<lparr>tip := v\<rparr>) = index_wf x" for x v
    by (simp_all add: canonical_chain_def index_wf_def)
  show chain: "canonical_chain (chain_commit b s) = ?keep @ aps"
    using s2 by (auto simp: commit e same)
  show "tip (chain_commit b s) = Some t" if "aps = []"
    using that t by (simp add: commit)
  show "chain_wf (chain_commit b s)" if "aps \<noteq> []"
  proof -
    have keep: "successively (\<lambda>p c. links c p) ?keep"
      using wf by (intro successively_filter_le index_wf_ascending idx) (simp add: chain_wf_def)
    have "successively (\<lambda>p c. links c p) (?keep @ aps)"
      using keep asc cuts(2) that by (cases aps) (auto simp: successively_append_iff ascends_def)
    moreover have "max_reorg_depth s \<noteq> 0" using wf by (simp add: chain_wf_def)
    ultimately show ?thesis
      using that s2 by (simp add: chain_wf_def chain) (simp add: commit e same)
  qed
qed

text \<open>Hashes name blocks: of the headers called genuine, no two share a hash.\<close>

definition names_blocks :: "(block_header \<Rightarrow> bool) \<Rightarrow> bool" where
  "names_blocks genuine \<longleftrightarrow> (\<forall>x y. genuine x \<longrightarrow> genuine y \<longrightarrow> hash x = hash y \<longrightarrow> x = y)"

definition tip_of :: "block_header list \<Rightarrow> block_header option" where
  "tip_of hs = (if hs = [] then None else Some (last hs))"

lemma tip_of_simps [simp]:
  "tip_of [] = None" "tip_of (xs @ [x]) = Some x" "ys \<noteq> [] \<Longrightarrow> tip_of (xs @ ys) = Some (last ys)"
  "tip_of (x # xs) = Some (last (x # xs))"
  by (simp_all add: tip_of_def)

section \<open>A sample fork\<close>

definition ex_g :: block_header where "ex_g = BlockHeader (fill 1) (fill 0) 100"
definition ex_b1 :: block_header where "ex_b1 = BlockHeader (fill 2) (fill 1) 101"
definition ex_b2 :: block_header where "ex_b2 = BlockHeader (fill 3) (fill 2) 102"
definition ex_f2 :: block_header where "ex_f2 = BlockHeader (fill 13) (fill 2) 102"
definition ex_f3 :: block_header where "ex_f3 = BlockHeader (fill 14) (fill 13) 103"

lemmas ex_blocks = ex_g_def ex_b1_def ex_b2_def ex_f2_def ex_f3_def

text \<open>A resolver that knows one header by its hash, and one canonical header.\<close>

definition ex_resolver :: "block_header \<Rightarrow> block_header option \<Rightarrow> unit ancestry_resolver" where
  "ex_resolver k c =
     \<lparr>header_by_hash = (\<lambda>h r. (Inr (if h = hash k then Some k else None), r)),
      canonical_header_by_hash = (\<lambda>h r. (Inr (case c of None \<Rightarrow> None
         | Some blk \<Rightarrow> if h = hash blk then Some blk else None), r)),
      canonical_header_at_height = (\<lambda>n r. (Inr (case c of None \<Rightarrow> None
         | Some blk \<Rightarrow> if n = height blk then Some blk else None), r))\<rparr>"

definition ex_state :: "block_header list \<Rightarrow> chain_state" where
  "ex_state hs =
     (case from_canonical_chain hs 8 4 of
        Inr s \<Rightarrow> set_finalized_height (Some 100) s
      | Inl _ \<Rightarrow> undefined)"

definition ex_batch :: chain_batch where
  "ex_batch = \<lparr>transition = Reorg, common_ancestor = Some ex_b1,
     events = [Rollback ex_b2, Apply ex_f2, Apply ex_f3]\<rparr>"

lemmas ex_eval = ex_state_def from_canonical_chain_def chain_new_def insert_canonical_def
  cache_insert_def cache_new_def bt_new_def Let_def bt_get_def bt_values_def canonical_chain_def hm_len_def
  set_finalized_height_def ex_blocks

lemmas ex_run = chain_apply_def is_known_canonical_def branch_batch_def
  resolve_common_ancestor_def resolve_loop.simps canonical_match_def ex_resolver_def
  parent_for_def local_parent_def cache_get_def validate_parent_link_def
  enforce_finalized_boundary_def rollback_path_def rollback_loop.simps branch_transition_def

lemma ex_state_fields:
  "canonical_chain (ex_state [ex_g, ex_b1, ex_b2]) = [ex_g, ex_b1, ex_b2]"
  "tip (ex_state [ex_g, ex_b1, ex_b2]) = Some ex_b2"
  "max_reorg_depth (ex_state [ex_g, ex_b1, ex_b2]) = 4"
  "finalized_height (ex_state [ex_g, ex_b1, ex_b2]) = Some 100"
  by (simp_all add: ex_eval)

lemma ex_apply:
  "chain_apply (ex_resolver ex_f2 None) ex_f3 (ex_state [ex_g, ex_b1, ex_b2]) () =
     (Inr ex_batch, chain_commit ex_batch (ex_state [ex_g, ex_b1, ex_b2]), ())"
  by (simp add: ex_eval ex_run ex_batch_def)

lemma ex_state_wf: "chain_wf (ex_state [ex_g, ex_b1, ex_b2])"
  by (auto simp: chain_wf_def index_wf_def ex_eval bt_inv_def cache_wf_def hm_inv_def links_def
      hm_new_def hm_insert_def hm_get_def inj_on_def split: if_splits)

lemma ex_names: "hashes_name_blocks (ex_state [ex_g, ex_b1, ex_b2]) ex_batch"
  unfolding hashes_name_blocks_def ex_state_fields
  by (simp add: ex_batch_def ex_blocks inj_on_def)

section \<open>Properties\<close>

text \<open>
  C1: A head that is applied with events, on a state with a tip, yields first the rollbacks and
  then the applies around one common ancestor: the rollbacks are the branch from the tip down to
  the ancestor, each header linked to the next by parent hash and height and all above the
  ancestor; the applies are the linked branch from the ancestor up to the new head; neither is
  longer than the maximal reorg depth, and a rollback needs an ancestor at or above the finalized
  height.
\<close>
theorem apply_emits_linked_branches:
  assumes "chain_apply R n s r = (Inr b, s', r')" and "tip s = Some t" and "height t \<noteq> - 1"
    and "max_reorg_depth s \<noteq> 0" and "events b \<noteq> []"
  shows "\<exists>a rbs aps. common_ancestor b = Some a \<and> events b = map Rollback rbs @ map Apply aps \<and>
    reorg_shape s t n a rbs aps"
  using assms by (rule apply_shape) blast

lemma apply_emits_linked_branches_witness:
  "\<exists>a rbs aps. common_ancestor ex_batch = Some a \<and>
    events ex_batch = map Rollback rbs @ map Apply aps \<and>
    reorg_shape (ex_state [ex_g, ex_b1, ex_b2]) ex_b2 ex_f3 a rbs aps"
  by (rule apply_emits_linked_branches [OF ex_apply])
    (simp_all add: ex_state_fields ex_batch_def, simp add: ex_b2_def)

lemma apply_cuts_and_appends_aux:
  assumes "chain_wf s" and "chain_apply R n s r = (Inr b, s', r')" and "tip s = Some t"
    and "height t \<noteq> - 1" and "last_apply (events b) \<noteq> None" and "hashes_name_blocks s b"
  shows "chain_wf s' \<and> tip s' = Some n \<and>
    (\<exists>a aps. common_ancestor b = Some a \<and> ascends (a # aps) \<and> aps \<noteq> [] \<and>
      canonical_chain s' = filter (\<lambda>x. height x \<le> height a) (canonical_chain s) @ aps)"
proof -
  from assms have depth: "max_reorg_depth s \<noteq> 0" and "events b \<noteq> []"
    by (auto simp: chain_wf_def)
  from apply_shape [OF assms(2-4) this] obtain a rbs aps where
    a: "common_ancestor b = Some a" and ev: "events b = map Rollback rbs @ map Apply aps"
    and shape: "reorg_shape s t n a rbs aps" and s': "s' = chain_commit b s"
    and dup: "transition b \<noteq> Duplicate" .
  from assms(5) ev have aps: "aps \<noteq> []" by auto
  note commit = commit_reorg [OF assms(1,3) shape ev a dup assms(6)]
  have "chain_wf s'" using commit(2) aps s' by simp
  moreover have "tip s' = Some n"
    using \<open>chain_wf s'\<close> commit(1) shape aps by (simp add: chain_wf_def s' reorg_shape_def)
  ultimately show ?thesis
    using commit(1) a aps shape s' by (auto simp: reorg_shape_def)
qed

text \<open>
  C2: The effect of a batch that applies something on the held segment is a cut at the common
  ancestor followed by the new branch, and the state stays well formed (entries indexed by
  height, consecutive entries linked, the hash set equal to the hashes of the segment, the tip at
  its end).  Hashes are assumed to name blocks: the headers involved have distinct hashes.
\<close>
theorem apply_cuts_and_appends:
  assumes "chain_wf s" and "chain_apply R n s r = (Inr b, s', r')" and "tip s = Some t"
    and "height t \<noteq> - 1" and "last_apply (events b) \<noteq> None" and "hashes_name_blocks s b"
  shows "chain_wf s' \<and> tip s' = Some n \<and>
    (\<exists>a aps. common_ancestor b = Some a \<and> ascends (a # aps) \<and> aps \<noteq> [] \<and>
      canonical_chain s' = filter (\<lambda>x. height x \<le> height a) (canonical_chain s) @ aps)"
  using assms by (rule apply_cuts_and_appends_aux)

lemma apply_cuts_and_appends_witness:
  "chain_wf (chain_commit ex_batch (ex_state [ex_g, ex_b1, ex_b2])) \<and>
   tip (chain_commit ex_batch (ex_state [ex_g, ex_b1, ex_b2])) = Some ex_f3"
  using apply_cuts_and_appends [OF ex_state_wf ex_apply ex_state_fields(2) _ _ ex_names]
  by (simp add: ex_batch_def) (simp add: ex_b2_def)

text \<open>
  C11: No head, and no answer of the resolver, makes \<open>apply\<close> roll back a block at or below the
  finalized height.
\<close>
theorem finalized_never_rolled_back:
  assumes "chain_apply R n s r = (Inr b, s', r')" and "finalized_height s = Some f"
    and "Rollback x \<in> set (events b)"
  shows "f < height x"
  using assms(1)
proof (cases rule: chain_apply_cases)
  case (branch t)
  from branch_batch_shape [OF branch(4)] obtain a rbs aps where
    "events b = map Rollback rbs @ map Apply aps" "reorg_shape s t n a rbs aps" by blast
  with assms(2,3) show ?thesis
    by (auto simp: reorg_shape_def intro: le_less_trans)
qed (use assms in auto)

lemma finalized_never_rolled_back_witness: "(100 :: u64) < height ex_b2"
  by (rule finalized_never_rolled_back [OF ex_apply ex_state_fields(4)]) (simp add: ex_batch_def)

text \<open>
  C27: An error leaves the chain state exactly as it was, for every resolver: the rollback and
  apply lists are computed in full before anything is committed.
\<close>
theorem apply_error_keeps_state:
  assumes "chain_apply R n s r = (Inl e, s', r')"
  shows "s' = s"
  using assms
  by (simp add: chain_apply_def Let_def split: if_splits option.splits prod.splits sum.splits)

lemma apply_error_keeps_state_witness:
  "fst (snd (chain_apply (ex_resolver ex_g None) ex_f3 (ex_state [ex_g, ex_b1, ex_b2]) ())) =
     ex_state [ex_g, ex_b1, ex_b2]"
proof -
  have "chain_apply (ex_resolver ex_g None) ex_f3 (ex_state [ex_g, ex_b1, ex_b2]) () =
    (Inl (MissingParent (fill 13)),
     fst (snd (chain_apply (ex_resolver ex_g None) ex_f3 (ex_state [ex_g, ex_b1, ex_b2]) ())), ())"
    by (simp add: ex_eval ex_run)
  from apply_error_keeps_state [OF this] show ?thesis .
qed

lemma chain_wf_cache: "chain_wf s \<Longrightarrow> chain_wf (s\<lparr>cache := cache_insert blk (cache s)\<rparr>)"
  by (auto simp: chain_wf_def index_wf_def canonical_chain_def)

text \<open>
  Every successful \<open>apply\<close> keeps the state well formed, bootstrap and duplicates included,
  except for one shape of batch: rollbacks with no apply after them.
\<close>
theorem apply_preserves_wf:
  assumes "chain_wf s" and "chain_apply R n s r = (Inr b, s', r')" and "hashes_name_blocks s b"
    and "\<And>t. tip s = Some t \<Longrightarrow> height t \<noteq> - 1"
    and "events b \<noteq> [] \<Longrightarrow> last_apply (events b) \<noteq> None"
  shows "chain_wf s'"
proof (cases "events b = []")
  case True
  from assms(2) show ?thesis
  proof (cases rule: chain_apply_cases)
    case duplicate
    with assms(1) show ?thesis by (simp add: chain_wf_cache)
  next
    case (branch t)
    with True branch_batch_shape [OF branch(4)] show ?thesis
      by (auto simp: reorg_shape_def branch_Nil)
  qed (use True in auto)
next
  case False
  show ?thesis
  proof (cases "tip s")
    case None
    with assms(1) have "canonical_chain s = []" by (auto simp: chain_wf_def split: if_splits)
    with assms(1) have ins: "index_wf (insert_canonical n s)" "canonical_chain (insert_canonical n s) = [n]"
      using insert_canonical_wf [of s n] by (simp_all add: chain_wf_def)
    have "events b = [Apply n]" "s' = chain_commit b s"
      using assms(2) None False by (auto elim!: chain_apply_cases)
    then have s': "s' = (insert_canonical n s)\<lparr>tip := Some n\<rparr>"
      by (simp add: chain_commit_def Let_def)
    have "max_reorg_depth (insert_canonical n s) \<noteq> 0"
      using assms(1) by (simp add: chain_wf_def insert_canonical_def)
    with ins show ?thesis
      by (simp add: s' chain_wf_def index_wf_def canonical_chain_def)
  next
    case (Some t)
    with apply_cuts_and_appends_aux [OF assms(1,2)] assms(3-5) False show ?thesis by blast
  qed
qed

text \<open>
  The excepted shape is real.  When the resolver reports a header below the tip as canonical,
  the emitted batch only rolls back, and the state keeps as its tip a header that it no longer
  holds as canonical.
\<close>
theorem rollback_only_batch_leaves_stale_tip:
  assumes "chain_wf s" and "chain_apply R n s r = (Inr b, s', r')" and "tip s = Some t"
    and "events b \<noteq> []" and "last_apply (events b) = None" and "hashes_name_blocks s b"
    and "height t \<noteq> - 1"
  shows "tip s' = Some t \<and> t \<notin> set (canonical_chain s') \<and> \<not> chain_wf s'"
proof -
  from assms have depth: "max_reorg_depth s \<noteq> 0" by (auto simp: chain_wf_def)
  from apply_shape [OF assms(2,3,7) depth assms(4)] obtain a rbs aps where
    a: "common_ancestor b = Some a" and ev: "events b = map Rollback rbs @ map Apply aps"
    and shape: "reorg_shape s t n a rbs aps" and s': "s' = chain_commit b s"
    and dup: "transition b \<noteq> Duplicate" .
  from assms(4,5) ev have aps: "aps = []" and rbs: "rbs \<noteq> []" by (auto split: if_splits)
  note commit = commit_reorg [OF assms(1,3) shape ev a dup assms(6)]
  have "height a < height t"
    using shape rbs by (cases rbs) (auto simp: reorg_shape_def branch_def)
  then have "t \<notin> set (canonical_chain s')"
    by (simp add: s' commit(1) aps not_le)
  moreover have "tip s' = Some t"
    using commit(3) aps s' by simp
  ultimately show ?thesis
    by (auto simp: chain_wf_def split: if_splits)
qed

definition ex_stale :: chain_batch where
  "ex_stale = \<lparr>transition = Reorg, common_ancestor = Some ex_g,
     events = [Rollback ex_b2, Rollback ex_b1]\<rparr>"

lemma ex_stale_state:
  "chain_wf (ex_state [ex_b1, ex_b2])"
  "tip (ex_state [ex_b1, ex_b2]) = Some ex_b2"
  "canonical_chain (ex_state [ex_b1, ex_b2]) = [ex_b1, ex_b2]"
  by (auto simp: chain_wf_def index_wf_def ex_eval bt_inv_def cache_wf_def hm_inv_def links_def
      hm_new_def hm_insert_def hm_get_def inj_on_def split: if_splits)

lemma ex_stale_apply:
  "chain_apply (ex_resolver ex_g (Some ex_g)) ex_g (ex_state [ex_b1, ex_b2]) () =
     (Inr ex_stale, chain_commit ex_stale (ex_state [ex_b1, ex_b2]), ())"
  by (simp add: ex_eval ex_run ex_stale_def validate_same_header_def)

lemma rollback_only_batch_leaves_stale_tip_witness:
  "tip (chain_commit ex_stale (ex_state [ex_b1, ex_b2])) = Some ex_b2 \<and>
   ex_b2 \<notin> set (canonical_chain (chain_commit ex_stale (ex_state [ex_b1, ex_b2]))) \<and>
   \<not> chain_wf (chain_commit ex_stale (ex_state [ex_b1, ex_b2]))"
proof -
  have "hashes_name_blocks (ex_state [ex_b1, ex_b2]) ex_stale"
    unfolding hashes_name_blocks_def ex_stale_state(3)
    by (simp add: ex_stale_def ex_blocks inj_on_def)
  then show ?thesis
    using rollback_only_batch_leaves_stale_tip [OF ex_stale_state(1) ex_stale_apply ex_stale_state(2)]
    by (simp add: ex_stale_def) (simp add: ex_b2_def)
qed

lemma apply_preserves_wf_witness:
  "chain_wf (chain_commit ex_batch (ex_state [ex_g, ex_b1, ex_b2]))"
  by (rule apply_preserves_wf [OF ex_state_wf ex_apply ex_names])
    (simp_all add: ex_state_fields ex_batch_def, simp add: ex_b2_def)

lemma first_broken_link_None:
  "(\<forall>x \<in> set (butlast hs). height x \<noteq> - 1) \<Longrightarrow> first_broken_link hs = None \<longleftrightarrow> ascends hs"
proof (induction hs rule: first_broken_link.induct)
  case (1 p c rest)
  have "height c = height p + 1 \<and> parent_hash c = hash p \<longleftrightarrow> links c p"
    using 1(2) by (auto simp: links_succ links_def [of c p] unat_succ)
  with 1 show ?case by (auto simp: ascends_def)
qed (simp_all add: ascends_def)

lemma set_tip_simps [simp]:
  "canonical_chain (s\<lparr>tip := v\<rparr>) = canonical_chain s"
  "index_wf (s\<lparr>tip := v\<rparr>) = index_wf s"
  by (simp_all add: canonical_chain_def index_wf_def)

lemma fold_insert_events: "fold insert_canonical hs s = fold commit_event (map Apply hs) s"
  by (induction hs arbitrary: s) simp_all

text \<open>
  Restoring a state from a list of headers succeeds exactly for a non-empty list in which
  each header extends the one before it, and then holds that list, well formed, with its last
  header as the tip.
\<close>
theorem from_canonical_chain_correct:
  assumes "inj_on hash (set hs)" and "\<forall>x \<in> set (butlast hs). height x \<noteq> - 1"
    and "0 < n" and "d \<noteq> 0"
  shows "(hs \<noteq> [] \<and> ascends hs \<longleftrightarrow> is_ok (from_canonical_chain hs n d)) \<and>
    (\<forall>s. from_canonical_chain hs n d = Inr s \<longrightarrow>
       chain_wf s \<and> canonical_chain s = hs \<and> tip s = Some (last hs) \<and> max_reorg_depth s = d)"
proof -
  obtain s0 where s0: "chain_new n d = Inr s0"
    using assms by (simp add: chain_new_def)
  then have wf: "chain_wf s0" "canonical_chain s0 = []" "max_reorg_depth s0 = d"
    using chain_new_wf by (auto simp: chain_new_def canonical_chain_def bt_values_def bt_new_def
        split: if_splits)
  have restored: "chain_wf s \<and> canonical_chain s = hs \<and> tip s = Some (last hs) \<and> max_reorg_depth s = d"
    if "ascends hs" "hs \<noteq> []" "s = (fold insert_canonical hs s0)\<lparr>tip := Some (last hs)\<rparr>" for s
  proof -
    have "index_wf (fold insert_canonical hs s0) \<and> canonical_chain (fold insert_canonical hs s0) = hs"
      using fold_insert_wf [of s0 hs] wf assms(1) ascending_heights [of hs] that
      by (simp add: fold_insert_events chain_wf_def ascends_def)
    then show ?thesis
      using that(1,2) wf(3) assms(4)
      unfolding that(3) chain_wf_def by (simp add: ascends_def fold_insert_events)
  qed
  show ?thesis
  proof (cases "hs \<noteq> [] \<and> ascends hs")
    case True
    then have "from_canonical_chain hs n d = Inr ((fold insert_canonical hs s0)\<lparr>tip := Some (last hs)\<rparr>)"
      using s0 first_broken_link_None [OF assms(2)] by (simp add: from_canonical_chain_def)
    with True restored show ?thesis by simp
  next
    case False
    then have "\<not> is_ok (from_canonical_chain hs n d)"
      using s0 first_broken_link_None [OF assms(2)] by (auto simp: from_canonical_chain_def)
    with False show ?thesis by (auto simp: is_ok_iff)
  qed
qed

lemma from_canonical_chain_correct_witness:
  "is_ok (from_canonical_chain [ex_g, ex_b1] 8 4)"
  using from_canonical_chain_correct [of "[ex_g, ex_b1]" 8 4]
  by (simp add: inj_on_def ascends_def links_def ex_blocks)

section \<open>Completeness\<close>

text \<open>
  What a resolver must answer for the walk over \<open>aps\<close> to succeed: it knows each header by its
  hash, and takes none of the new ones for canonical.  At their heights it may still hold the blocks of
  the branch that is rolled back, as the database does.  The resolver may change its own state.
\<close>

definition serves :: "'r ancestry_resolver \<Rightarrow> block_header list \<Rightarrow> bool" where
  "serves R hs \<longleftrightarrow> (\<forall>x \<in> set hs. \<forall>r. fst (header_by_hash R (hash x) r) = Inr (Some x))"

definition not_canonical :: "'r ancestry_resolver \<Rightarrow> chain_state \<Rightarrow> block_header list \<Rightarrow> bool" where
  "not_canonical R s hs \<longleftrightarrow>
     (\<forall>x \<in> set hs. hash x \<notin> canonical_hashes s \<and>
        (\<forall>r. fst (canonical_header_by_hash R (hash x) r) = Inr None \<and>
             (\<exists>c. fst (canonical_header_at_height R (height x) r) = Inr c \<and> (\<forall>y. c = Some y \<longrightarrow> hash y \<noteq> hash x))))"

lemma no_canonical_match:
  assumes "not_canonical R s [x]"
  shows "\<exists>r'. canonical_match R s x r = (Inr None, r')"
proof -
  from assms obtain r1 where 1: "canonical_header_by_hash R (hash x) r = (Inr None, r1)"
    unfolding not_canonical_def by (metis list.set_intros(1) prod.collapse)
  from assms obtain c r2 where 2: "canonical_header_at_height R (height x) r1 = (Inr c, r2)" "\<forall>y. c = Some y \<longrightarrow> hash y \<noteq> hash x"
    unfolding not_canonical_def by (metis list.set_intros(1) prod.collapse)
  have "\<not> is_known_canonical s x" using assms by (simp add: not_canonical_def is_known_canonical_def)
  with 1 2 show ?thesis by (auto simp: canonical_match_def split: option.split)
qed

text \<open>A name for one header per hash, over everything the cache and the segment can return.\<close>

definition local_names :: "chain_state \<Rightarrow> block_header list \<Rightarrow> bool" where
  "local_names s hs \<longleftrightarrow>
     (\<forall>x \<in> set hs. (\<forall>y. cached_header s (hash x) = Some y \<longrightarrow> y = x) \<and>
        (\<forall>y \<in> set (canonical_chain s). hash y = hash x \<longrightarrow> y = x))"

lemma local_names_mono: "local_names s hs \<Longrightarrow> set hs' \<subseteq> set hs \<Longrightarrow> local_names s hs'"
  by (auto simp: local_names_def)

lemma parent_for_served:
  assumes "index_wf s" and "links c p" and "local_names s [p]"
    and "serves R [p] \<or> p \<in> set (canonical_chain s)"
  shows "\<exists>r'. parent_for R s c r = (Inr p, r')"
proof -
  have c0: "height c \<noteq> 0" "height c - 1 = height p"
    using assms(2) links_height [OF assms(2)] by (auto simp: links_succ word_less_nat_alt)
  have "local_parent s c = Some p \<or> (local_parent s c = None \<and> serves R [p])"
  proof (cases "cache_get (cache s) (parent_hash c)")
    case None
    then have lp: "local_parent s c = (case bt_get (canonical_by_height s) (height p) of
        Some q \<Rightarrow> if hash q = hash p then Some q else None | None \<Rightarrow> None)"
      using assms(2) c0 by (simp add: local_parent_def links_def split: option.split)
    have held: "p \<in> set (canonical_chain s) \<longleftrightarrow> bt_get (canonical_by_height s) (height p) = Some p"
      using index_wf_get [OF assms(1)] by blast
    show ?thesis
    proof (cases "bt_get (canonical_by_height s) (height p)")
      case None
      with lp held assms(4) show ?thesis by simp
    next
      case (Some q)
      then have "q \<in> set (canonical_chain s)" using index_wf_get [OF assms(1)] by blast
      with lp held assms(3,4) Some show ?thesis by (auto simp: local_names_def)
    qed
  next
    case (Some y)
    with assms show ?thesis
      by (auto simp: local_parent_def Let_def links_def local_names_def cached_header_def)
  qed
  moreover have "\<exists>r'. header_by_hash R (hash p) r = (Inr (Some p), r')" if "serves R [p]"
    using that by (auto simp: serves_def) (metis prod.collapse)
  ultimately show ?thesis
    using c0 assms(2)
    by (auto simp: parent_for_def links_def [of c p] validate_parent_link_def links_succ [OF assms(2)])
qed

lemma within_depth: "n \<le> unat d \<Longrightarrow> \<not> (of_nat n :: u64) > d"
proof -
  assume "n \<le> unat d"
  then have "unat (of_nat n :: u64) \<le> n"
    by (simp add: unsigned_of_nat)
  with \<open>n \<le> unat d\<close> show ?thesis by (simp add: word_less_nat_alt)
qed

lemma ascends_last:
  "ascends (a # xs @ [x]) \<longleftrightarrow> ascends (a # xs) \<and> links x (last (a # xs))"
  using successively_append_iff [of "\<lambda>p c. links c p" "a # xs" "[x]"] by (simp add: ascends_def)

lemma resolve_loop_complete:
  assumes "index_wf s" and "a \<in> set (canonical_chain s)"
  shows "ascends (a # aps) \<Longrightarrow> serves R (butlast aps) \<Longrightarrow> not_canonical R s aps \<Longrightarrow>
    local_names s (a # aps) \<Longrightarrow> length acc + length aps \<le> unat (max_reorg_depth s) \<Longrightarrow>
    \<exists>r'. resolve_loop R s (last (a # aps)) acc r = (Inr (a, acc @ rev aps), r')"
proof (induction aps arbitrary: acc r rule: rev_induct)
  case Nil
  have "is_known_canonical s a"
    using assms index_wf_get [OF assms(1)] by (auto simp: is_known_canonical_def index_wf_def)
  then show ?case by (subst resolve_loop.simps) (simp add: canonical_match_def)
next
  case (snoc x xs)
  let ?p = "last (a # xs)"
  have link: "links x ?p" and asc: "ascends (a # xs)"
    using snoc.prems(1) by (simp_all add: ascends_last)
  have "\<forall>z \<in> set xs. serves R [z]"
    using snoc.prems(2) by (simp add: serves_def)
  then have "serves R [?p] \<or> ?p \<in> set (canonical_chain s)"
    using assms(2) by (cases xs rule: rev_cases) auto
  moreover have "local_names s [?p]"
    by (rule local_names_mono [OF snoc.prems(4)]) (use last_in_set [of "a # xs"] in fastforce)
  ultimately have parent: "\<exists>r'. parent_for R s x r = (Inr ?p, r')" for r
    by (intro parent_for_served [OF assms(1) link])
  obtain r1 where "canonical_match R s x r = (Inr None, r1)"
    using no_canonical_match [of R s x r] snoc.prems(3) by (auto simp: not_canonical_def)
  moreover obtain r2 where "parent_for R s x r1 = (Inr ?p, r2)" using parent by blast
  moreover have "\<not> of_nat (Suc (length acc)) > max_reorg_depth s"
    using snoc.prems(5) by (intro within_depth) simp
  moreover have "\<exists>r'. resolve_loop R s ?p (acc @ [x]) r2 = (Inr (a, (acc @ [x]) @ rev xs), r')"
    using snoc.prems asc
    by (intro snoc.IH) (auto simp: serves_def not_canonical_def local_names_def dest: in_set_butlastD)
  ultimately show ?case
    by (subst resolve_loop.simps) (auto simp: Let_def)
qed

lemma rollback_loop_complete:
  assumes "index_wf s"
  shows "set (a # ups) \<subseteq> set (canonical_chain s) \<Longrightarrow> ascends (a # ups) \<Longrightarrow>
    local_names s (a # ups) \<Longrightarrow> length acc + length ups \<le> unat (max_reorg_depth s) \<Longrightarrow>
    \<exists>r'. rollback_loop R s (last (a # ups)) a acc r = (Inr (a, acc @ rev ups), r')"
proof (induction ups arbitrary: acc r rule: rev_induct)
  case Nil
  show ?case by (subst rollback_loop.simps) simp
next
  case (snoc x xs)
  let ?p = "last (a # xs)"
  have link: "links x ?p" and asc: "ascends (a # xs)"
    using snoc.prems(2) by (simp_all add: ascends_last)
  have "height a < height x"
    using ascending_heights [of "a # xs @ [x]"] snoc.prems(2) by (simp add: ascends_def)
  moreover have "local_names s [?p]" "?p \<in> set (canonical_chain s)"
    by (rule local_names_mono [OF snoc.prems(3)]) (use last_in_set [of "a # xs"] snoc.prems(1) in fastforce)+
  then have "\<exists>r'. parent_for R s x r = (Inr ?p, r')"
    by (intro parent_for_served [OF assms(1) link] disjI2)
  then obtain r1 where "parent_for R s x r = (Inr ?p, r1)" ..
  moreover have "\<not> of_nat (Suc (length acc)) > max_reorg_depth s"
    using snoc.prems(4) by (intro within_depth) simp
  moreover have "\<exists>r'. rollback_loop R s ?p a (acc @ [x]) r1 = (Inr (a, (acc @ [x]) @ rev xs), r')"
    using snoc.prems asc by (intro snoc.IH) (auto simp: local_names_def)
  ultimately show ?case
    by (subst rollback_loop.simps) (auto simp: Let_def)
qed

text \<open>
  C10: A fork within the bounds is always resolved.  If the held segment is \<open>low @ a # ups\<close>,
  a new branch \<open>aps\<close> extends \<open>a\<close>, both branches fit in the maximal reorg depth, the ancestor
  is not below the finalized height, and the resolver serves the new headers by hash and takes
  none of them for canonical (it may hold other blocks at their heights), then \<open>apply\<close> succeeds with exactly the reorg that rolls back \<open>ups\<close>
  from the tip down and applies \<open>aps\<close> upwards.
\<close>
theorem apply_resolves_forks:
  assumes wf: "chain_wf s" and chain: "canonical_chain s = low @ a # ups" and "ups \<noteq> []"
    and "ascends (a # aps)" and "aps \<noteq> []"
    and "length ups \<le> unat (max_reorg_depth s)" and "length aps \<le> unat (max_reorg_depth s)"
    and "\<And>f. finalized_height s = Some f \<Longrightarrow> f \<le> height a"
    and "serves R (butlast aps)" and "not_canonical R s aps"
    and names: "local_names s (a # aps @ ups)"
  shows "\<exists>s' r'. chain_apply R (last aps) s r =
    (Inr \<lparr>transition = Reorg, common_ancestor = Some a,
          events = map Rollback (rev ups) @ map Apply aps\<rparr>, s', r')"
proof -
  let ?n = "last aps" and ?t = "last ups"
  have idx: "index_wf s" using wf by (simp add: chain_wf_def)
  have t: "tip s = Some ?t" using wf chain assms(3) by (simp add: chain_wf_def)
  have tc: "?t \<in> set (canonical_chain s)" using chain assms(3) by simp
  have hashes: "canonical_hashes s = hash ` set (canonical_chain s)" using idx by (simp add: index_wf_def)
  have new: "hash x \<noteq> hash y" if "x \<in> set aps" "y \<in> set (canonical_chain s)" for x y
    using assms(10) that by (auto simp: not_canonical_def hashes)
  have up: "ascends (a # ups)"
    using wf by (auto simp: chain_wf_def chain ascends_def successively_append_iff)
  have "\<exists>r'. resolve_loop R s ?n [] r = (Inr (a, rev aps), r')"
    using resolve_loop_complete [OF idx _ assms(4,9,10), of "[]" r] chain assms(5,7) names
    by (simp add: local_names_def)
  then obtain r1 where resolve: "resolve_common_ancestor R s ?n r = (Inr (a, rev aps), r1)"
    by (auto simp: resolve_common_ancestor_def)
  have "local_names s (a # ups)" using names by (simp add: local_names_def)
  from rollback_loop_complete [OF idx _ up this, of "[]" R r1]
  have "\<exists>r'. rollback_loop R s ?t a [] r1 = (Inr (a, rev ups), r')"
    using chain assms(3,6) by auto
  then obtain r2 where rb: "rollback_path R s ?t a r1 = (Inr (rev ups), r2)"
    by (auto simp: rollback_path_def)
  have "hash a \<noteq> hash ?t"
  proof
    assume "hash a = hash ?t"
    with names tc have "?t = a" by (auto simp: local_names_def)
    with ascending_heights [of "a # ups"] up assms(3) show False by (auto simp: ascends_def)
  qed
  moreover have "parent_hash ?n = hash (last (a # butlast aps))"
    using assms(4,5) ascends_last [of a "butlast aps" ?n] by (auto simp: links_def)
  moreover have "last (a # butlast aps) = a \<or> last (a # butlast aps) \<in> set aps"
    using last_in_set [of "a # butlast aps"] in_set_butlastD [of _ aps] by auto
  ultimately have "parent_hash ?n \<noteq> hash ?t"
    using new [OF _ tc] by (auto simp del: last.simps)
  moreover have "\<not> is_known_canonical s ?n" "hash ?t \<noteq> hash ?n"
    using assms(5,10) new [OF _ tc, of ?n] by (auto simp: not_canonical_def is_known_canonical_def)
  moreover have "enforce_finalized_boundary s a = Inr ()"
    using assms(8) by (auto simp: enforce_finalized_boundary_def not_less split: option.split)
  moreover have "branch_transition (map Rollback (rev ups) @ map Apply aps) = Reorg"
    using assms(3) by (cases ups rule: rev_cases) (auto simp: branch_transition_def)
  ultimately show ?thesis
    by (simp add: chain_apply_def t branch_batch_def resolve rb)
qed

text \<open>The resolver still holds the old block \<open>ex_b2\<close>, at the height of \<open>ex_f2\<close>.\<close>

lemma apply_resolves_forks_witness:
  "\<exists>s'. chain_apply (ex_resolver ex_f2 (Some ex_b2)) ex_f3 (ex_state [ex_g, ex_b1, ex_b2]) () =
     (Inr \<lparr>transition = Reorg, common_ancestor = Some ex_b1,
        events = [Rollback ex_b2, Apply ex_f2, Apply ex_f3]\<rparr>, s', ())"
proof -
  have "local_names (ex_state [ex_g, ex_b1, ex_b2]) (ex_b1 # [ex_f2, ex_f3] @ [ex_b2])"
    unfolding local_names_def ex_state_fields
    by (simp add: cached_header_def cache_get_def ex_eval)
  moreover have "not_canonical (ex_resolver ex_f2 (Some ex_b2)) (ex_state [ex_g, ex_b1, ex_b2]) [ex_f2, ex_f3]"
    by (simp add: not_canonical_def ex_resolver_def ex_eval)
  moreover have "serves (ex_resolver ex_f2 (Some ex_b2)) [ex_f2]"
    by (simp add: serves_def ex_resolver_def)
  moreover have "ascends [ex_b1, ex_f2, ex_f3]"
    by (simp add: ascends_def links_def ex_blocks)
  ultimately show ?thesis
    using apply_resolves_forks [OF ex_state_wf, of "[ex_g]" ex_b1 "[ex_b2]" "[ex_f2, ex_f3]"
        "ex_resolver ex_f2 (Some ex_b2)" "()"]
    by (simp add: ex_state_fields) (simp add: ex_blocks)
qed

end
