(* ===== verification/Rust_Strings.thy ===== *)
theory Rust_Strings
  imports Byte_Array
begin

text \<open>
  The string methods of the Rust standard library that the sources call.  A \<open>str\<close> is the list of
  its UTF-8 bytes, as a char list; the methods below look at ASCII characters only, so working on
  bytes is what the library does.
\<close>

definition char_nat :: "char \<Rightarrow> nat" where
  "char_nat c = of_char c"

definition ascii_lower :: "char \<Rightarrow> char" where
  "ascii_lower c = (if 65 \<le> char_nat c \<and> char_nat c \<le> 90 then char_of (char_nat c + 32) else c)"

definition to_ascii_lowercase :: "string \<Rightarrow> string" where
  "to_ascii_lowercase s = map ascii_lower s"

fun starts_with :: "string \<Rightarrow> string \<Rightarrow> bool" where
  "starts_with s [] = True"
| "starts_with [] (c # cs) = False"
| "starts_with (d # ds) (c # cs) = (d = c \<and> starts_with ds cs)"

text \<open>\<open>s.contains(needle)\<close>.\<close>

fun str_contains :: "string \<Rightarrow> string \<Rightarrow> bool" where
  "str_contains [] needle = (needle = [])"
| "str_contains (c # cs) needle = (starts_with (c # cs) needle \<or> str_contains cs needle)"

lemma starts_with_iff: "starts_with s p \<longleftrightarrow> (\<exists>r. s = p @ r)"
  by (induction s p rule: starts_with.induct) auto

lemma str_contains_iff: "str_contains s p \<longleftrightarrow> (\<exists>l r. s = l @ p @ r)"
proof (induction s)
  case (Cons c cs)
  have "(\<exists>l r. c # cs = l @ p @ r) \<longleftrightarrow> (\<exists>r. c # cs = p @ r) \<or> (\<exists>l r. cs = l @ p @ r)"
    by (metis append_Cons append_Nil list.exhaust list.inject)
  with Cons show ?case by (simp add: starts_with_iff)
qed auto

text \<open>The decimal digits that \<open>Display\<close> prints for an unsigned number.\<close>

fun show_nat :: "nat \<Rightarrow> string" where
  "show_nat n =
     (if n < 10 then [char_of (48 + n)] else show_nat (n div 10) @ [char_of (48 + n mod 10)])"

declare show_nat.simps [simp del]

definition show_u64 :: "u64 \<Rightarrow> string" where
  "show_u64 w = show_nat (unat w)"

lemma show_nat_read:
  "foldl (\<lambda>a c. 10 * a + ((of_char c :: nat) - 48)) 0 (show_nat n) = n"
proof (induction n rule: show_nat.induct)
  case (1 n)
  have "(of_char (char_of (48 + k) :: char) :: nat) = 48 + k" if "k < 10" for k :: nat
    using that by (simp add: of_char_of take_bit_eq_mod)
  with 1 show ?case by (subst show_nat.simps) (simp add: div_mult_mod_eq)
qed

lemma show_nat_inject [simp]: "show_nat m = show_nat n \<longleftrightarrow> m = n"
  by (metis show_nat_read)

lemma show_u64_inject [simp]: "show_u64 a = show_u64 b \<longleftrightarrow> a = b"
  unfolding show_u64_def show_nat_inject by (metis word_eq_unat)

text \<open>\<open>Display\<close> of a signed integer.\<close>

definition show_int :: "int \<Rightarrow> string" where
  "show_int i = (if i < 0 then CHR ''-'' # show_nat (nat (- i)) else show_nat (nat i))"

fun join :: "string \<Rightarrow> string list \<Rightarrow> string" where
  "join sep [] = []"
| "join sep [s] = s"
| "join sep (s # t # ts) = s @ sep @ join sep (t # ts)"

section \<open>Hexadecimal text\<close>

text \<open>\<open>write!(output, "{byte:02x}")\<close> for each byte after \<open>0x\<close>.\<close>

definition hex_digit :: "nat \<Rightarrow> char" where
  "hex_digit n = (if n < 10 then char_of (48 + n) else char_of (87 + n))"

definition hex_byte :: "u8 \<Rightarrow> string" where
  "hex_byte b = [hex_digit (unat b div 16), hex_digit (unat b mod 16)]"

definition hex_bytes :: "u8 list \<Rightarrow> string" where
  "hex_bytes bs = ''0x'' @ concat (map hex_byte bs)"

definition hex_hash :: "block_hash \<Rightarrow> string" where
  "hex_hash h = hex_bytes (bytes_of h)"

lemma char_nat_char_of [simp]: "n < 256 \<Longrightarrow> char_nat (char_of n) = n"
  by (simp add: char_nat_def of_char_of)

lemma hex_digit_code: "n < 16 \<Longrightarrow> char_nat (hex_digit n) = (if n < 10 then 48 + n else 87 + n)"
  by (simp add: hex_digit_def)

section \<open>Trimming\<close>

text \<open>
  \<open>str::trim\<close> takes the characters with the Unicode property \<open>White_Space\<close> off both ends.  These
  are their encodings.
\<close>

definition whitespace :: "nat list list" where
  "whitespace =
     [[9], [10], [11], [12], [13], [32], [194, 133], [194, 160], [225, 154, 128]] @
     map (\<lambda>n. [226, 128, n]) ([128 ..< 139] @ [168, 169, 175]) @ [[226, 129, 159], [227, 128, 128]]"

definition strip_prefix :: "string \<Rightarrow> string \<Rightarrow> string option" where
  "strip_prefix p s = (if starts_with s p then Some (drop (length p) s) else None)"

definition leading :: "string list \<Rightarrow> string \<Rightarrow> string option" where
  "leading ws s = find (\<lambda>w. w \<noteq> [] \<and> starts_with s w) ws"

function strip_leading :: "string list \<Rightarrow> string \<Rightarrow> string" where
  "strip_leading ws s = (case leading ws s of None \<Rightarrow> s | Some w \<Rightarrow> strip_leading ws (drop (length w) s))"
  by pat_completeness auto

termination
proof (relation "measure (\<lambda>(ws, s). length s)")
  fix ws s w
  assume "leading ws s = Some w"
  then have "w \<noteq> [] \<and> starts_with s w" by (auto simp: leading_def find_Some_iff)
  then have "0 < length w" "length w \<le> length s" by (auto simp: starts_with_iff)
  then have "length s - length w < length s" by linarith
  then show "((ws, drop (length w) s), ws, s) \<in> measure (\<lambda>(ws, s). length s)" by simp
qed simp

declare strip_leading.simps [simp del]

definition trim_start :: "string \<Rightarrow> string" where
  "trim_start s = strip_leading (map (map char_of) whitespace) s"

definition trim_end :: "string \<Rightarrow> string" where
  "trim_end s = rev (strip_leading (map (\<lambda>w. rev (map char_of w)) whitespace) (rev s))"

definition str_trim :: "string \<Rightarrow> string" where
  "str_trim s = trim_end (trim_start s)"

section \<open>Other methods\<close>

definition ends_with :: "string \<Rightarrow> string \<Rightarrow> bool" where
  "ends_with s p = starts_with (rev s) (rev p)"

text \<open>\<open>s.replace([' ', '-'], "_")\<close> and the like.\<close>

definition replace_chars :: "char list \<Rightarrow> char \<Rightarrow> string \<Rightarrow> string" where
  "replace_chars cs d s = map (\<lambda>c. if c \<in> set cs then d else c) s"

definition is_ascii_hexdigit :: "char \<Rightarrow> bool" where
  "is_ascii_hexdigit c \<longleftrightarrow>
     48 \<le> char_nat c \<and> char_nat c \<le> 57 \<or> 65 \<le> char_nat c \<and> char_nat c \<le> 70 \<or> 97 \<le> char_nat c \<and> char_nat c \<le> 102"

text \<open>\<open>s.strip_prefix("0x").unwrap_or(s)\<close>.\<close>

definition without_0x :: "string \<Rightarrow> string" where
  "without_0x s = (case strip_prefix ''0x'' s of None \<Rightarrow> s | Some r \<Rightarrow> r)"

lemma without_0x_hex [simp]: "without_0x (hex_bytes bs) = concat (map hex_byte bs)"
  by (simp add: without_0x_def strip_prefix_def hex_bytes_def)

lemma hex_digit_is_hex: "n < 16 \<Longrightarrow> is_ascii_hexdigit (hex_digit n)"
  by (auto simp: is_ascii_hexdigit_def hex_digit_code)

lemma hex_byte_is_hex: "list_all is_ascii_hexdigit (hex_byte b)"
  using unsigned_less [of b, where ?'a = nat] by (simp add: hex_byte_def hex_digit_is_hex)

lemma hex_bytes_shape:
  "length (concat (map hex_byte bs)) = 2 * length bs" "list_all is_ascii_hexdigit (concat (map hex_byte bs))"
proof -
  show "length (concat (map hex_byte bs)) = 2 * length bs" by (induction bs) (simp_all add: hex_byte_def)
  show "list_all is_ascii_hexdigit (concat (map hex_byte bs))"
    by (induction bs) (use hex_byte_is_hex in simp_all)
qed

lemma strip_leading_none: "leading ws s = None \<Longrightarrow> strip_leading ws s = s"
  by (subst strip_leading.simps) simp

lemma trim_ascii:
  assumes "\<forall>c \<in> set s. 33 \<le> char_nat c \<and> char_nat c < 128"
  shows "str_trim s = s"
proof -
  have no: "leading ws t = None" if A: "\<forall>w \<in> set ws. w \<noteq> [] \<longrightarrow> (char_nat (hd w) < 33 \<or> 128 \<le> char_nat (hd w))"
    and B: "\<forall>c \<in> set t. 33 \<le> char_nat c \<and> char_nat c < 128" for ws t
  proof -
    have "\<not> starts_with t w" if w: "w \<in> set ws" "w \<noteq> []" for w
    proof
      assume "starts_with t w"
      then have "hd w \<in> set t" using w(2) by (auto simp: starts_with_iff)
      with A B w show False by fastforce
    qed
    then show ?thesis by (auto simp: leading_def find_None_iff)
  qed
  have "leading (map (map char_of) whitespace) s = None"
    by (rule no) (use assms in \<open>auto simp: whitespace_def\<close>)
  then have 1: "trim_start s = s" by (simp add: trim_start_def strip_leading_none)
  have "leading (map (\<lambda>w. rev (map char_of w)) whitespace) (rev s) = None"
    by (rule no) (use assms in \<open>auto simp: whitespace_def\<close>)
  then show ?thesis by (simp add: str_trim_def 1 trim_end_def strip_leading_none)
qed

section \<open>Reading hexadecimal text\<close>

text \<open>The check of the settings and of the ABI decoder: so many hexadecimal digits after \<open>0x\<close>.\<close>

definition hex_of_length :: "nat \<Rightarrow> string \<Rightarrow> bool" where
  "hex_of_length n s \<longleftrightarrow> length (without_0x s) = n \<and> list_all is_ascii_hexdigit (without_0x s)"

definition hex_value :: "char \<Rightarrow> nat" where
  "hex_value c =
     (let n = char_nat c in if n \<le> 57 then n - 48 else if n \<le> 70 then n - 55 else n - 87)"

lemma char_nat_inject: "char_nat c = char_nat d \<longleftrightarrow> c = d"
  by (simp add: char_nat_def of_char_eq_iff)

lemma lower_hex_digit:
  assumes "is_ascii_hexdigit c"
  shows "hex_value c < 16 \<and> ascii_lower c = hex_digit (hex_value c)"
proof -
  have "char_nat (ascii_lower c) = char_nat (hex_digit (hex_value c)) \<and> hex_value c < 16"
    using assms by (auto simp: is_ascii_hexdigit_def ascii_lower_def hex_digit_code hex_value_def Let_def)
  then show ?thesis by (simp add: char_nat_inject)
qed

fun unhex :: "string \<Rightarrow> u8 list" where
  "unhex (c # d # s) = of_nat (16 * hex_value c + hex_value d) # unhex s"
| "unhex _ = []"

lemma unhex_text:
  "list_all is_ascii_hexdigit s \<Longrightarrow> length s = 2 * n \<Longrightarrow>
   length (unhex s) = n \<and> to_ascii_lowercase s = concat (map hex_byte (unhex s))"
proof (induction n arbitrary: s)
  case (Suc n)
  then obtain c d s' where s: "s = c # d # s'" by (cases s rule: list.exhaust; cases "tl s") auto
  with Suc.prems Suc.IH [of s'] have IH: "length (unhex s') = n" "to_ascii_lowercase s' = concat (map hex_byte (unhex s'))"
    by auto
  let ?b = "of_nat (16 * hex_value c + hex_value d) :: u8"
  have cd: "hex_value c < 16" "ascii_lower c = hex_digit (hex_value c)"
    "hex_value d < 16" "ascii_lower d = hex_digit (hex_value d)"
    using lower_hex_digit [of c] lower_hex_digit [of d] Suc.prems(1) s by simp_all
  then have "16 * hex_value c + hex_value d < 2 ^ 8" by simp
  then have "unat ?b = 16 * hex_value c + hex_value d"
    by (simp add: unsigned_of_nat take_bit_nat_eq_self del: of_nat_add of_nat_mult)
  then have "hex_byte ?b = [ascii_lower c, ascii_lower d]" using cd by (simp add: hex_byte_def)
  with s IH show ?case by (simp add: to_ascii_lowercase_def)
qed (simp add: to_ascii_lowercase_def)

lemma hex_text_bytes:
  "list_all is_ascii_hexdigit s \<Longrightarrow> length s = 2 * n \<Longrightarrow>
   \<exists>bs. length bs = n \<and> to_ascii_lowercase s = concat (map hex_byte bs)"
  using unhex_text by blast

lemma hex_byte_lower: "map ascii_lower (hex_byte b) = hex_byte b"
proof -
  have "ascii_lower (hex_digit n) = hex_digit n" if "n < 16" for n
    using that by (auto simp: ascii_lower_def hex_digit_code)
  then show ?thesis using unsigned_less [of b, where ?'a = nat] by (simp add: hex_byte_def)
qed

lemma lower_is_hex: "is_ascii_hexdigit (ascii_lower c) \<longleftrightarrow> is_ascii_hexdigit c"
  by (auto simp: ascii_lower_def is_ascii_hexdigit_def)

lemma hex_of_length_iff:
  "hex_of_length (2 * n) s \<longleftrightarrow> (\<exists>bs. length bs = n \<and> to_ascii_lowercase (without_0x s) = concat (map hex_byte bs))"
  (is "?l \<longleftrightarrow> ?r")
proof
  assume ?l
  then show ?r using hex_text_bytes by (simp add: hex_of_length_def)
next
  assume ?r
  then obtain bs where bs: "length bs = n" "map ascii_lower (without_0x s) = concat (map hex_byte bs)"
    by (auto simp: to_ascii_lowercase_def)
  have "length (without_0x s) = 2 * n" using arg_cong [OF bs(2), of length] bs(1) by (simp add: hex_bytes_shape)
  moreover have "list_all is_ascii_hexdigit (map ascii_lower (without_0x s))" by (simp add: bs(2) hex_bytes_shape)
  then have "list_all is_ascii_hexdigit (without_0x s)" by (simp add: list_all_iff lower_is_hex)
  ultimately show ?l by (simp add: hex_of_length_def)
qed

lemma hex_byte_inj: "hex_byte b = hex_byte c \<Longrightarrow> b = c"
proof -
  assume eq: "hex_byte b = hex_byte c"
  have inj: "m = n" if "m < 16" "n < 16" "hex_digit m = hex_digit n" for m n
  proof -
    from that(3) have "char_nat (hex_digit m) = char_nat (hex_digit n)" by (rule arg_cong)
    then show ?thesis unfolding hex_digit_code [OF that(1)] hex_digit_code [OF that(2)] by (auto split: if_splits)
  qed
  from eq have "hex_digit (unat b div 16) = hex_digit (unat c div 16)" "hex_digit (unat b mod 16) = hex_digit (unat c mod 16)"
    by (simp_all add: hex_byte_def)
  moreover have "unat b div 16 < 16" "unat c div 16 < 16"
    using unsigned_less [of b, where ?'a = nat] unsigned_less [of c, where ?'a = nat] by simp_all
  ultimately have "unat b div 16 = unat c div 16" "unat b mod 16 = unat c mod 16" by (simp_all add: inj)
  then show "b = c" by (metis div_mult_mod_eq word_eq_unat)
qed

lemma hex_text_inj: "concat (map hex_byte bs) = concat (map hex_byte cs) \<Longrightarrow> bs = cs"
proof (induction bs arbitrary: cs)
  case Nil
  then show ?case by (cases cs) (simp_all add: hex_byte_def)
next
  case (Cons b bs)
  have len: "length (hex_byte b) = 2" for b by (simp add: hex_byte_def)
  show ?case
  proof (cases cs)
    case Nil
    with Cons.prems show ?thesis by (simp add: hex_byte_def)
  next
    case (Cons c cs')
    then have "hex_byte b = hex_byte c \<and> concat (map hex_byte bs) = concat (map hex_byte cs')"
      using Cons.prems by (simp add: append_eq_append_conv len)
    with Cons.IH hex_byte_inj Cons show ?thesis by blast
  qed
qed

lemma hex_hash_inject [simp]: "hex_hash a = hex_hash b \<longleftrightarrow> a = b"
  using hex_text_inj [of "bytes_of a" "bytes_of b"] by (auto simp: hex_hash_def hex_bytes_def bytes_of_inject_iff)

end
