(* ===== verification/Backfill.thy ===== *)
theory Backfill
  imports Header_Cache Rust_Strings
begin

text \<open>
  The pure parts of \<open>chainweave-core/src/backfill.rs\<close> that do not hold fetched data: block
  ranges, the planner that cuts a range into requests, the adaptive log-range sizer, the
  classification of RPC failures, the retry policy, and the request budget.

  A \<open>Duration\<close> is its number of nanoseconds; \<open>saturating_mul\<close> and \<open>saturating_add\<close> stop at
  \<open>Duration::MAX\<close>.
\<close>

section \<open>Errors\<close>

datatype backfill_error =
    InvalidRange u64 u64
  | EmptyRangeSpan
  | EmptyWorkerCount
  | InvalidSizerBounds u64 u64
  | InitialSizerOutOfBounds u64 u64 u64
  | EmptyRetryAttempts
  | EmptyRetryDelay
  | InvalidRetryBounds
  | EmptyRequestBudget
  | EmptyCostBudget
  | RequestBudgetExceeded u64
  | CostBudgetExceeded u64
  | RangeBeyondTarget u64 u64
  | StaleRange u64 u64
  | DuplicateRange u64
  | MissingParentAnchor u64
  | InvalidParentAnchor u64 u64
  | UnexpectedParentAnchor
  | HeaderCountMismatch u64 u64 u64 nat
  | HeaderHeightMismatch nat u64 u64
  | BrokenParentLink u64
  | EmptyFetchedRange u64
  | FetchedSuffixInvalidated u64 block_hash block_hash
  | Commit string

section \<open>Ranges and the planner\<close>

record backfill_range =
  from_block :: u64
  to_block :: u64

definition range_new :: "u64 \<Rightarrow> u64 \<Rightarrow> backfill_error + backfill_range" where
  "range_new f t = (if f > t then Inl (InvalidRange f t) else Inr \<lparr>from_block = f, to_block = t\<rparr>)"

definition range_len :: "backfill_range \<Rightarrow> u64" where
  "range_len r = sat_add (sat_sub (to_block r) (from_block r)) 1"

definition range_contains :: "backfill_range \<Rightarrow> u64 \<Rightarrow> bool" where
  "range_contains r h \<longleftrightarrow> from_block r \<le> h \<and> h \<le> to_block r"

record backfill_plan =
  full_range :: backfill_range
  request_ranges :: "backfill_range list"
  plan_workers :: nat

record range_planner =
  max_blocks_per_request :: u64
  bounded_workers :: nat

definition planner_new :: "u64 \<Rightarrow> nat \<Rightarrow> backfill_error + range_planner" where
  "planner_new m w =
     (if m = 0 then Inl EmptyRangeSpan
      else if w = 0 then Inl EmptyWorkerCount
      else Inr \<lparr>max_blocks_per_request = m, bounded_workers = w\<rparr>)"

text \<open>
  The loop of \<open>plan\<close>.  The \<open>- 1\<close> wraps for a span of zero, as the code's would: a planner with
  a zero span has no way past \<open>planner_new\<close>, but its fields are public.
\<close>

definition request_end :: "u64 \<Rightarrow> u64 \<Rightarrow> u64 \<Rightarrow> u64" where
  "request_end m f t = min (sat_add f (m - 1)) t"

lemma request_end_ge: "f \<le> t \<Longrightarrow> f \<le> request_end m f t"
  by (simp add: request_end_def word_le_nat_alt sat_simps u64_le_max)

lemma request_end_le: "request_end m f t \<le> t"
  by (simp add: request_end_def)

function (sequential) plan_loop :: "u64 \<Rightarrow> u64 \<Rightarrow> u64 \<Rightarrow> backfill_range list" where
  "plan_loop m f t =
     (if f \<le> t then
        (let e = request_end m f t;
             r = \<lparr>from_block = f, to_block = e\<rparr>
         in if e = - 1 then [r] else r # plan_loop m (e + 1) t)
      else [])"
  by pat_completeness auto
termination
proof (relation "measure (\<lambda>(m, f, t). 2 ^ 64 - unat f)")
  fix m f t x :: u64 and r
  assume "f \<le> t" and "x = request_end m f t" and "x \<noteq> - 1"
  then have "unat f < unat (x + 1)"
    using request_end_ge [of f t m] by (simp add: unat_succ word_le_nat_alt)
  with u64_le_max [of "x + 1"] show "((m, x + 1, t), m, f, t) \<in> measure (\<lambda>(m, f, t). 2 ^ 64 - unat f)"
    by simp
qed simp

declare plan_loop.simps [simp del]

definition plan :: "range_planner \<Rightarrow> backfill_range \<Rightarrow> backfill_plan" where
  "plan p r =
     \<lparr>full_range = r,
      request_ranges = plan_loop (max_blocks_per_request p) (from_block r) (to_block r),
      plan_workers = bounded_workers p\<rparr>"

section \<open>The log-range sizer\<close>

record log_range_sizer =
  current_blocks :: u64
  min_blocks :: u64
  max_blocks :: u64

definition sizer_new :: "u64 \<Rightarrow> u64 \<Rightarrow> u64 \<Rightarrow> backfill_error + log_range_sizer" where
  "sizer_new initial lo hi =
     (if lo = 0 \<or> initial = 0 \<or> hi = 0 then Inl EmptyRangeSpan
      else if lo > hi then Inl (InvalidSizerBounds lo hi)
      else if initial < lo \<or> initial > hi then Inl (InitialSizerOutOfBounds initial lo hi)
      else Inr \<lparr>current_blocks = initial, min_blocks = lo, max_blocks = hi\<rparr>)"

definition record_success :: "log_range_sizer \<Rightarrow> log_range_sizer" where
  "record_success z =
     z\<lparr>current_blocks := max (min (sat_mul (current_blocks z) 2) (max_blocks z)) (min_blocks z)\<rparr>"

definition record_provider_limit :: "log_range_sizer \<Rightarrow> log_range_sizer" where
  "record_provider_limit z = z\<lparr>current_blocks := max (current_blocks z div 2) (min_blocks z)\<rparr>"

definition next_range :: "log_range_sizer \<Rightarrow> u64 \<Rightarrow> u64 \<Rightarrow> backfill_range option" where
  "next_range z f t =
     (if f > t then None
      else Some \<lparr>from_block = f, to_block = min (sat_add f (current_blocks z - 1)) t\<rparr>)"

section \<open>Failures and retries\<close>

type_synonym duration = nat

definition duration_max :: duration where
  "duration_max = (2 ^ 64 - 1) * 10 ^ 9 + 999999999"

definition dur_add :: "duration \<Rightarrow> duration \<Rightarrow> duration" where
  "dur_add a b = min (a + b) duration_max"

definition dur_mul :: "duration \<Rightarrow> u32 \<Rightarrow> duration" where
  "dur_mul a n = min (a * unat n) duration_max"

definition from_millis :: "u64 \<Rightarrow> duration" where
  "from_millis ms = unat ms * 10 ^ 6"

definition as_millis :: "duration \<Rightarrow> nat" where
  "as_millis d = d div 10 ^ 6"

text \<open>\<open>u64::try_from(d.as_millis()).unwrap_or(u64::MAX)\<close>.\<close>

definition millis_u64 :: "duration \<Rightarrow> u64" where
  "millis_u64 d = (if as_millis d < 2 ^ 64 then of_nat (as_millis d) else - 1)"

datatype rpc_failure =
    Timeout
  | RateLimited "duration option"
  | ProviderLimit
  | Transient
  | Permanent

definition from_http_status :: "u16 \<Rightarrow> rpc_failure" where
  "from_http_status st =
     (if st = 408 \<or> st = 425 \<or> 500 \<le> st \<and> st \<le> 599 then Transient
      else if st = 429 then RateLimited None
      else Permanent)"

definition from_rpc_message :: "string \<Rightarrow> rpc_failure" where
  "from_rpc_message message =
     (let lower = to_ascii_lowercase message in
      if str_contains lower ''too many requests'' \<or> str_contains lower ''rate limit''
        \<or> str_contains lower ''rate-limit'' \<or> str_contains lower '' 429''
        \<or> str_contains lower ''status 429''
      then RateLimited None
      else if str_contains lower ''more than'' \<or> str_contains lower ''too many results''
        \<or> str_contains lower ''response size'' \<or> str_contains lower ''block range''
        \<or> str_contains lower ''limit exceeded'' \<or> str_contains lower ''query timeout exceeded''
      then ProviderLimit
      else if str_contains lower ''timed out'' \<or> str_contains lower ''timeout''
        \<or> str_contains lower ''deadline''
      then Timeout
      else if str_contains lower ''pruned history unavailable'' then Transient
      else Permanent)"

record retry_policy =
  max_attempts :: u32
  base_delay :: duration
  max_delay :: duration
  jitter :: duration

definition retry_new :: "u32 \<Rightarrow> duration \<Rightarrow> duration \<Rightarrow> duration \<Rightarrow> backfill_error + retry_policy" where
  "retry_new n base mx j =
     (if n = 0 then Inl EmptyRetryAttempts
      else if base = 0 \<or> mx = 0 then Inl EmptyRetryDelay
      else if base > mx then Inl InvalidRetryBounds
      else Inr \<lparr>max_attempts = n, base_delay = base, max_delay = mx, jitter = j\<rparr>)"

datatype retry_decision = RetryAfter duration | GiveUp

text \<open>
  \<open>jitter_for\<close> takes a remainder by \<open>jitter_ms + 1\<close>.  The sum wraps to zero for a jitter of
  \<open>u64::MAX\<close> milliseconds or more, and the remainder then panics: \<open>None\<close>.
\<close>

definition jitter_for :: "retry_policy \<Rightarrow> u32 \<Rightarrow> duration option" where
  "jitter_for p attempt =
     (let jitter_ms = millis_u64 (jitter p)
      in if jitter_ms = 0 then Some 0
         else if jitter_ms + 1 = 0 then None
         else Some (from_millis ((ucast attempt * 37) mod (jitter_ms + 1))))"

text \<open>\<open>1_u32.checked_shl(exponent)\<close> is \<open>None\<close> for an exponent of 32 or more.\<close>

definition checked_shl_one :: "u32 \<Rightarrow> u32 option" where
  "checked_shl_one e = (if e < 32 then Some (push_bit (unat e) 1) else None)"

definition backoff :: "retry_policy \<Rightarrow> u32 \<Rightarrow> duration option" where
  "backoff p attempt =
     (let exponent = min (sat_sub attempt 1) 31;
          multiplier = (case checked_shl_one exponent of Some m \<Rightarrow> m | None \<Rightarrow> - 1);
          base = min (dur_mul (base_delay p) multiplier) (max_delay p)
      in map_option (\<lambda>j. min (dur_add base j) (max_delay p)) (jitter_for p attempt))"

definition decision :: "retry_policy \<Rightarrow> rpc_failure \<Rightarrow> u32 \<Rightarrow> retry_decision option" where
  "decision p failure attempt =
     (if failure = Permanent \<or> attempt \<ge> max_attempts p then Some GiveUp
      else case failure of
        RateLimited (Some delay) \<Rightarrow> Some (RetryAfter (min delay (max_delay p)))
      | _ \<Rightarrow> map_option RetryAfter (backoff p attempt))"

section \<open>The request budget\<close>

datatype rpc_method = GetBlockByNumber | GetBlockByHash | GetLogs

fun default_cost :: "rpc_method \<Rightarrow> u64" where
  "default_cost GetBlockByNumber = 1"
| "default_cost GetBlockByHash = 1"
| "default_cost GetLogs = 5"

record rpc_budget =
  max_requests :: u64
  max_cost_units :: u64
  requests :: u64
  cost_units :: u64

definition budget_new :: "u64 \<Rightarrow> u64 \<Rightarrow> backfill_error + rpc_budget" where
  "budget_new mr mc =
     (if mr = 0 then Inl EmptyRequestBudget
      else if mc = 0 then Inl EmptyCostBudget
      else Inr \<lparr>max_requests = mr, max_cost_units = mc, requests = 0, cost_units = 0\<rparr>)"

definition budget_record ::
    "rpc_method \<Rightarrow> u64 \<Rightarrow> rpc_budget \<Rightarrow> (backfill_error + unit) \<times> rpc_budget" where
  "budget_record method cost b =
     (let next_requests = sat_add (requests b) 1;
          next_cost = sat_add (cost_units b) (max cost (default_cost method))
      in if next_requests > max_requests b then (Inl (RequestBudgetExceeded (max_requests b)), b)
         else if next_cost > max_cost_units b
         then (Inl (CostBudgetExceeded (max_cost_units b)), b)
         else (Inr (), b\<lparr>requests := next_requests, cost_units := next_cost\<rparr>))"

section \<open>The planner\<close>

definition blocks :: "backfill_range \<Rightarrow> nat list" where
  "blocks r = [unat (from_block r) ..< Suc (unat (to_block r))]"

lemma length_blocks: "from_block r \<le> to_block r \<Longrightarrow> length (blocks r) = Suc (unat (to_block r) - unat (from_block r))"
  by (simp add: blocks_def word_le_nat_alt)

lemma request_end_span:
  assumes "m \<noteq> 0"
  shows "unat (request_end m f t) < unat f + unat m"
proof -
  have "0 < unat m" using assms by (simp add: unat_pos)
  then show ?thesis
    using assms by (simp add: request_end_def sat_simps unat_pred)
qed

lemma plan_loop_covers:
  "concat (map blocks (plan_loop m f t)) = [unat f ..< Suc (unat t)]"
proof (induction m f t rule: plan_loop.induct)
  case (1 m f t)
  show ?case
  proof (cases "f \<le> t")
    case False
    then show ?thesis by (subst plan_loop.simps) (simp add: word_le_nat_alt)
  next
    case True
    let ?e = "request_end m f t"
    have bounds: "unat f \<le> unat ?e" "unat ?e \<le> unat t"
      using True request_end_ge [of f t m] request_end_le [of m f t] by (simp_all add: word_le_nat_alt)
    show ?thesis
    proof (cases "?e = - 1")
      case last: True
      then have "unat t = unat ?e"
        using bounds(2) u64_le_max [of t] by (simp add: unat_max_word)
      with True last show ?thesis by (subst plan_loop.simps) (simp add: Let_def blocks_def)
    next
      case False
      have "concat (map blocks (plan_loop m (?e + 1) t)) = [Suc (unat ?e) ..< Suc (unat t)]"
        using 1 [OF True refl refl False] by (simp add: unat_succ False del: upt_Suc)
      moreover have "[unat f ..< Suc (unat ?e)] @ [Suc (unat ?e) ..< Suc (unat t)] = [unat f ..< Suc (unat t)]"
        using bounds upt_add_eq_append [of "unat f" "Suc (unat ?e)" "unat t - unat ?e"]
        by (simp del: upt_Suc)
      ultimately show ?thesis
        using True False by (subst plan_loop.simps) (simp add: Let_def blocks_def del: upt_Suc)
    qed
  qed
qed

lemma plan_loop_sizes:
  "m \<noteq> 0 \<Longrightarrow> r \<in> set (plan_loop m f t) \<Longrightarrow>
   from_block r \<le> to_block r \<and> length (blocks r) \<le> unat m"
proof (induction m f t rule: plan_loop.induct)
  case (1 m f t)
  show ?case
  proof (cases "r = \<lparr>from_block = f, to_block = request_end m f t\<rparr> \<and> f \<le> t")
    case True
    with request_end_ge [of f t m] request_end_span [OF 1(2), of f t] show ?thesis
      by (auto simp: length_blocks word_le_nat_alt)
  next
    case False
    with 1(3) have "f \<le> t" "request_end m f t \<noteq> - 1" "r \<in> set (plan_loop m (request_end m f t + 1) t)"
      by (simp_all add: plan_loop.simps [of m f t] Let_def split: if_splits)
    with 1 show ?thesis by simp
  qed
qed

text \<open>
  The planner cuts a range into consecutive requests that cover every block of it exactly
  once and in order, each request non-empty and of at most the configured span; this includes the
  range that ends at the last block number.
\<close>
theorem plan_partitions_range:
  assumes "planner_new m w = Inr p"
  shows "concat (map blocks (request_ranges (plan p r))) = blocks r \<and>
    (\<forall>q \<in> set (request_ranges (plan p r)).
       from_block q \<le> to_block q \<and> length (blocks q) \<le> unat m)"
proof -
  have "max_blocks_per_request p = m" "m \<noteq> 0"
    using assms by (auto simp: planner_new_def split: if_splits)
  then show ?thesis
    using plan_loop_covers [of m "from_block r" "to_block r"] plan_loop_sizes [of m]
    by (simp add: plan_def blocks_def [of r])
qed

lemma plan_partitions_range_witness:
  "concat (map blocks (request_ranges (plan \<lparr>max_blocks_per_request = 10, bounded_workers = 2\<rparr>
      \<lparr>from_block = 5, to_block = 31\<rparr>))) = [5 ..< 32]"
  using plan_partitions_range [of 10 2 "\<lparr>max_blocks_per_request = 10, bounded_workers = 2\<rparr>"
      "\<lparr>from_block = 5, to_block = 31\<rparr>"]
  by (simp add: planner_new_def blocks_def del: upt_Suc)

section \<open>The sizer\<close>

definition sizer_wf :: "log_range_sizer \<Rightarrow> bool" where
  "sizer_wf z \<longleftrightarrow> min_blocks z \<noteq> 0 \<and> min_blocks z \<le> current_blocks z \<and> current_blocks z \<le> max_blocks z"

datatype sizer_outcome = Success | ProviderLimited

fun record_outcome :: "sizer_outcome \<Rightarrow> log_range_sizer \<Rightarrow> log_range_sizer" where
  "record_outcome Success z = record_success z"
| "record_outcome ProviderLimited z = record_provider_limit z"

lemma sizer_new_wf: "sizer_new i lo hi = Inr z \<Longrightarrow> sizer_wf z"
  by (auto simp: sizer_new_def sizer_wf_def not_less split: if_splits)

lemma record_outcome_wf: "sizer_wf z \<Longrightarrow> sizer_wf (record_outcome out z)"
  by (cases out) (auto simp: sizer_wf_def record_success_def record_provider_limit_def max_def min_def
      word_le_nat_alt unat_div intro: le_trans [OF div_le_dividend])

text \<open>
  From any accepted configuration and after any sequence of outcomes the span stays within
  its bounds, the range proposed next starts where asked, is non-empty, does not pass the target,
  and has at most the current span.
\<close>
theorem sizer_stays_bounded:
  assumes "sizer_new i lo hi = Inr z0" and "z = fold record_outcome os z0"
  shows "lo \<le> current_blocks z \<and> current_blocks z \<le> hi \<and>
    (case next_range z f t of
       None \<Rightarrow> t < f
     | Some r \<Rightarrow> from_block r = f \<and> f \<le> to_block r \<and> to_block r \<le> t \<and>
         length (blocks r) \<le> unat (current_blocks z))"
proof -
  have bounds: "min_blocks (fold record_outcome os x) = min_blocks x \<and>
      max_blocks (fold record_outcome os x) = max_blocks x" for x
  proof (induction os arbitrary: x)
    case (Cons out os)
    then show ?case by (cases out) (simp_all add: record_success_def record_provider_limit_def)
  qed simp
  have "sizer_wf z"
    unfolding assms(2) using sizer_new_wf [OF assms(1)]
    by (induction os arbitrary: z0) (auto intro: record_outcome_wf)
  moreover have "min_blocks z = lo" "max_blocks z = hi"
    using assms bounds [of z0] by (auto simp: sizer_new_def split: if_splits)
  moreover have "next_range z f t = (if f > t then None
      else Some \<lparr>from_block = f, to_block = request_end (current_blocks z) f t\<rparr>)"
    by (simp add: next_range_def request_end_def)
  ultimately show ?thesis
    using request_end_ge [of f t "current_blocks z"] request_end_le [of "current_blocks z" f t]
      request_end_span [of "current_blocks z" f t]
    by (auto simp: sizer_wf_def length_blocks word_le_nat_alt word_less_nat_alt unat_pos)
qed

lemma sizer_stays_bounded_witness:
  "current_blocks (fold record_outcome [Success, ProviderLimited, ProviderLimited]
     \<lparr>current_blocks = 100, min_blocks = 10, max_blocks = 1000\<rparr>) \<le> 1000"
  using sizer_stays_bounded [of 100 10 1000 "\<lparr>current_blocks = 100, min_blocks = 10, max_blocks = 1000\<rparr>"
      _ "[Success, ProviderLimited, ProviderLimited]" 0 0]
  by (simp add: sizer_new_def)

section \<open>Retries\<close>

lemma jitter_for_bound:
  assumes "as_millis (jitter p) < 2 ^ 64 - 1"
  obtains j where "jitter_for p a = Some j" "j \<le> jitter p"
proof (cases "millis_u64 (jitter p) = 0")
  case True
  with that show ?thesis by (simp add: jitter_for_def)
next
  case False
  let ?ms = "millis_u64 (jitter p)"
  have ms: "unat ?ms = as_millis (jitter p)"
    using assms by (simp add: millis_u64_def unsigned_of_nat take_bit_nat_eq_self)
  with assms have "?ms \<noteq> - 1" by (auto simp: unat_max_word)
  then have succ: "unat (?ms + 1) = Suc (as_millis (jitter p))" "?ms + 1 \<noteq> 0"
    by (simp_all add: unat_succ ms eq_neg_iff_add_eq_0)
  have "unat ((ucast a * 37) mod (?ms + 1)) \<le> as_millis (jitter p)"
    using succ(1) mod_less_divisor [of "unat (?ms + 1)" "unat (ucast a * 37 :: u64)"]
    by (simp add: unat_mod)
  then have "from_millis ((ucast a * 37) mod (?ms + 1)) \<le> as_millis (jitter p) * 10 ^ 6"
    unfolding from_millis_def by (rule mult_right_mono) simp
  also have "\<dots> \<le> jitter p" by (simp add: as_millis_def)
  finally show ?thesis
    using that False succ(2) by (simp add: jitter_for_def Let_def)
qed

lemma backoff_multiplier:
  "(case checked_shl_one (min (sat_sub a 1) 31) of Some m \<Rightarrow> m | None \<Rightarrow> - 1) =
     push_bit (min (unat a - 1) 31) (1 :: u32)"
proof -
  have "unat (min (sat_sub a 1) 31 :: u32) = min (unat a - 1) 31"
    by (simp add: sat_simps)
  then show ?thesis by (simp add: checked_shl_one_def word_less_nat_alt)
qed

lemma unat_shl_one: "k < 32 \<Longrightarrow> unat (push_bit k (1 :: u32)) = 2 ^ k"
  using power_strict_increasing [of k 32 "2 :: nat"] unsigned_push_bit_eq [of k "1 :: u32", where ?'a = nat]
  by (simp add: take_bit_nat_eq_self push_bit_eq_mult [where ?'a = nat] del: push_bit_of_1)

text \<open>
  A retry decision is always reached while the configured jitter is below the largest
  \<open>u64\<close> number of milliseconds; it gives up exactly on a permanent failure or when the attempts
  are used up; a delay never exceeds the maximum, and the backoff delay lies between the doubled
  base delay (cut at the maximum) and that plus the jitter.
\<close>
theorem retry_delay_bounds:
  assumes "retry_new n base mx j = Inr p" and "mx \<le> duration_max" and "as_millis j < 2 ^ 64 - 1"
  shows "\<exists>d. decision p f a = Some d \<and> (d = GiveUp \<longleftrightarrow> f = Permanent \<or> n \<le> a) \<and>
    (\<forall>t. d = RetryAfter t \<longrightarrow> t \<le> mx \<and>
       ((\<forall>r. f \<noteq> RateLimited (Some r)) \<longrightarrow>
          min (base * 2 ^ min (unat a - 1) 31) mx \<le> t \<and> t \<le> base * 2 ^ min (unat a - 1) 31 + j))"
proof (cases "f = Permanent \<or> n \<le> a")
  case True
  with assms(1) show ?thesis by (auto simp: decision_def retry_new_def split: if_splits)
next
  case False
  have p: "max_attempts p = n" "base_delay p = base" "max_delay p = mx" "jitter p = j"
    using assms(1) by (auto simp: retry_new_def split: if_splits)
  obtain g where g: "jitter_for p a = Some g" "g \<le> j"
    using jitter_for_bound [of p a] assms(3) p(4) by auto
  let ?k = "min (unat a - 1) 31"
  let ?t = "min (dur_add (min (base * 2 ^ ?k) mx) g) mx"
  have "min (dur_mul base (push_bit ?k 1)) mx = min (base * 2 ^ ?k) mx"
    using assms(2) unat_shl_one [of ?k] by (auto simp: dur_mul_def min_def simp del: push_bit_of_1)
  then have b: "backoff p a = Some ?t"
    unfolding backoff_def backoff_multiplier Let_def by (simp add: p g)
  have "dur_add x g \<le> x + g" "x \<le> mx \<Longrightarrow> x \<le> dur_add x g" for x
    using assms(2) by (simp_all add: dur_add_def)
  from this [of "min (base * 2 ^ ?k) mx"] g(2)
  have t: "?t \<le> mx" "min (base * 2 ^ ?k) mx \<le> ?t" "?t \<le> base * 2 ^ ?k + j"
    by linarith+
  show ?thesis
  proof (cases "\<exists>r. f = RateLimited (Some r)")
    case True
    with False p show ?thesis by (auto simp: decision_def)
  next
    case no: False
    with False p b have "decision p f a = Some (RetryAfter ?t)"
      by (cases f) (auto simp: decision_def split: option.split)
    with t obtain t where d: "decision p f a = Some (RetryAfter t)" and
      t: "t \<le> mx" "min (base * 2 ^ ?k) mx \<le> t" "t \<le> base * 2 ^ ?k + j" by blast
    have "\<not> (f = Permanent \<or> n \<le> a)" by (fact False)
    with d t show ?thesis by auto
  qed
qed

lemma retry_delay_bounds_witness:
  "\<exists>d. decision \<lparr>max_attempts = 5, base_delay = 100, max_delay = 1000, jitter = 7\<rparr> Timeout 3 = Some d"
  using retry_delay_bounds [of 5 100 1000 7 "\<lparr>max_attempts = 5, base_delay = 100, max_delay = 1000, jitter = 7\<rparr>"
      Timeout 3]
  by (auto simp: retry_new_def duration_max_def as_millis_def)

section \<open>The budget\<close>

text \<open>The calls that were let through, with what they cost.\<close>

fun run_budget :: "(rpc_method \<times> u64) list \<Rightarrow> rpc_budget \<Rightarrow> nat list \<times> rpc_budget" where
  "run_budget [] b = ([], b)"
| "run_budget ((m, c) # calls) b =
     (case budget_record m c b of
        (Inr _, b') \<Rightarrow> apfst (Cons (unat (max c (default_cost m)))) (run_budget calls b')
      | (Inl _, b') \<Rightarrow> run_budget calls b')"

lemma budget_record_cases:
  assumes "budget_record m c b = (res, b')" and "max_requests b \<noteq> - 1" and "max_cost_units b \<noteq> - 1"
    and "requests b \<le> max_requests b" and "cost_units b \<le> max_cost_units b"
  shows "(is_ok res \<longrightarrow> unat (requests b') = Suc (unat (requests b)) \<and>
       unat (cost_units b') = unat (cost_units b) + unat (max c (default_cost m))) \<and>
     (\<not> is_ok res \<longrightarrow> b' = b) \<and>
     requests b' \<le> max_requests b \<and> cost_units b' \<le> max_cost_units b \<and>
     max_requests b' = max_requests b \<and> max_cost_units b' = max_cost_units b"
proof -
  have lim: "unat (max_requests b) < 18446744073709551615" "unat (max_cost_units b) < 18446744073709551615"
    using assms(2,3) u64_le_max [of "max_requests b"] u64_le_max [of "max_cost_units b"]
    by (auto simp: word_eq_unat unat_max_word)
  show ?thesis
    using assms(1,4,5) lim
    by (auto simp: budget_record_def Let_def word_less_nat_alt word_le_nat_alt sat_simps split: if_splits)
qed

text \<open>
  C28: However many calls are attempted, those let through number exactly the counted requests
  and cost exactly the counted units, and neither passes its limit (the limits below the largest
  \<open>u64\<close>, where the saturating counters stop counting).
\<close>
theorem budget_never_exceeded:
  assumes "budget_new mr mc = Inr b0" and "mr \<noteq> - 1" and "mc \<noteq> - 1"
    and "run_budget calls b0 = (costs, b)"
  shows "length costs = unat (requests b) \<and> length costs \<le> unat mr \<and>
    sum_list costs = unat (cost_units b) \<and> sum_list costs \<le> unat mc"
proof -
  have "length costs + unat (requests x) = unat (requests b) \<and>
      sum_list costs + unat (cost_units x) = unat (cost_units b) \<and>
      requests b \<le> max_requests x \<and> cost_units b \<le> max_cost_units x"
    if "run_budget calls x = (costs, b)" "max_requests x \<noteq> - 1" "max_cost_units x \<noteq> - 1"
      "requests x \<le> max_requests x" "cost_units x \<le> max_cost_units x" for x costs
    using that
  proof (induction calls x arbitrary: costs rule: run_budget.induct)
    case (2 m c calls x)
    obtain res x' where rec: "budget_record m c x = (res, x')" by (cases "budget_record m c x")
    note step = budget_record_cases [OF rec 2(4-7)]
    show ?case
    proof (cases res)
      case (Inl e)
      with 2(3) rec have "run_budget calls x' = (costs, b)" by simp
      with 2(1) [OF rec [symmetric] Inl, of costs] step 2(4-7) Inl show ?thesis by simp
    next
      case (Inr u)
      with 2(3) rec obtain cs where "run_budget calls x' = (cs, b)"
        "costs = unat (max c (default_cost m)) # cs"
        by (cases "run_budget calls x'") auto
      with 2(2) [OF rec [symmetric] Inr, of cs] step 2(4-7) Inr show ?thesis by simp
    qed
  qed simp
  note run = this [OF assms(4)]
  have b0: "b0 = \<lparr>max_requests = mr, max_cost_units = mc, requests = 0, cost_units = 0\<rparr>"
    using assms(1) by (simp add: budget_new_def split: if_splits)
  from run assms(2,3) show ?thesis
    unfolding b0 by (simp add: word_le_nat_alt)
qed

lemma budget_never_exceeded_witness:
  "fst (run_budget [(GetLogs, 0), (GetBlockByHash, 3), (GetLogs, 1)]
     \<lparr>max_requests = 10, max_cost_units = 9, requests = 0, cost_units = 0\<rparr>) = [5, 3] \<and> sum_list [5, 3 :: nat] \<le> 9"
proof -
  have run: "run_budget [(GetLogs, 0), (GetBlockByHash, 3), (GetLogs, 1)]
     \<lparr>max_requests = 10, max_cost_units = 9, requests = 0, cost_units = 0\<rparr> =
     ([5, 3], \<lparr>max_requests = 10, max_cost_units = 9, requests = 2, cost_units = 8\<rparr>)"
    by (simp add: budget_record_def Let_def sat_add_def)
  with budget_never_exceeded [OF _ _ _ run, of 10 9] show ?thesis
    by (simp add: budget_new_def)
qed

end
