(* ===== verification/Backfill_Commit.thy ===== *)
theory Backfill_Commit
  imports Backfill Chain_Correct
begin

text \<open>
  Fetched ranges and the ordered commit coordinator of \<open>chainweave-core/src/backfill.rs\<close>.
  Workers push fetched ranges in any order; the coordinator holds them in a map keyed by first
  block and hands them to the sink in block order, each one only when its first header extends
  the last committed header.

  The sink (\<open>RangeCommitSink\<close>, and its asynchronous twin with the same body) is the function
  \<open>'l commit_fn\<close> over the sink's own state, its error already converted by \<open>From<S::Error>\<close>.
\<close>

section \<open>Fetched ranges\<close>

record 'l fetched_range =
  fr_range :: backfill_range
  fr_headers :: "block_header list"
  fr_logs :: "'l list"

text \<open>The loop of \<open>validate_headers\<close>, with the offset and the header before it.\<close>

fun validate_from ::
    "backfill_range \<Rightarrow> nat \<Rightarrow> block_header option \<Rightarrow> block_header list \<Rightarrow> backfill_error + unit" where
  "validate_from r offset parent [] = Inr ()"
| "validate_from r offset parent (blk # rest) =
     (let expected_height = from_block r + of_nat offset in
      if height blk \<noteq> expected_height
      then Inl (HeaderHeightMismatch offset expected_height (height blk))
      else if (case parent of
                 Some p \<Rightarrow> parent_hash blk \<noteq> hash p \<or> height blk \<noteq> height p + 1
               | None \<Rightarrow> False)
      then Inl (BrokenParentLink (height blk))
      else validate_from r (Suc offset) (Some blk) rest)"

definition validate_headers :: "backfill_range \<Rightarrow> block_header list \<Rightarrow> backfill_error + unit" where
  "validate_headers r headers =
     (let expected = range_len r in
      if of_nat (length headers) \<noteq> expected
      then Inl (HeaderCountMismatch (from_block r) (to_block r) expected (length headers))
      else validate_from r 0 None headers)"

definition fetched_new ::
    "backfill_range \<Rightarrow> block_header list \<Rightarrow> 'l list \<Rightarrow> backfill_error + 'l fetched_range" where
  "fetched_new r headers logs =
     tryR (validate_headers r headers) (\<lambda>_.
       Inr \<lparr>fr_range = r, fr_headers = headers, fr_logs = logs\<rparr>)"

fun first_header :: "'l fetched_range \<Rightarrow> block_header option" where
  "first_header f = (case fr_headers f of [] \<Rightarrow> None | blk # _ \<Rightarrow> Some blk)"

fun last_header :: "'l fetched_range \<Rightarrow> block_header option" where
  "last_header f = (if fr_headers f = [] then None else Some (last (fr_headers f)))"

record backfill_handoff =
  captured_head :: block_header
  backfilled_through :: block_header

definition needs_reconcile :: "backfill_handoff \<Rightarrow> bool" where
  "needs_reconcile h \<longleftrightarrow>
     hash (captured_head h) \<noteq> hash (backfilled_through h) \<or>
     height (captured_head h) \<noteq> height (backfilled_through h)"

section \<open>The coordinator\<close>

record 'l coordinator =
  next_height :: u64
  target_height :: u64
  parent_anchor :: "block_header option"
  pending :: "(u64, 'l fetched_range) btree_map"

record commit_progress =
  committed_ranges :: nat
  committed_blocks :: u64
  committed_logs :: nat
  last_committed_height :: "u64 option"

definition progress_default :: commit_progress where
  "progress_default =
     \<lparr>committed_ranges = 0, committed_blocks = 0, committed_logs = 0, last_committed_height = None\<rparr>"

type_synonym ('l, 's) commit_fn = "'l fetched_range \<Rightarrow> 's \<Rightarrow> (backfill_error + unit) \<times> 's"

definition coordinator_new :: "u64 \<Rightarrow> u64 \<Rightarrow> block_header option \<Rightarrow> backfill_error + 'l coordinator" where
  "coordinator_new f t anchor =
     (if f > t then Inl (InvalidRange f t)
      else if f = 0 \<and> anchor \<noteq> None then Inl UnexpectedParentAnchor
      else tryR
        (if f > 0 then
           (case anchor of
              None \<Rightarrow> Inl (MissingParentAnchor f)
            | Some a \<Rightarrow>
                if height a + 1 \<noteq> f then Inl (InvalidParentAnchor (height a) f) else Inr ())
         else Inr ())
        (\<lambda>_. Inr \<lparr>next_height = f, target_height = t, parent_anchor = anchor, pending = bt_new\<rparr>))"

definition is_complete :: "'l coordinator \<Rightarrow> bool" where
  "is_complete c \<longleftrightarrow> next_height c > target_height c"

definition insert_pending ::
    "'l fetched_range \<Rightarrow> 'l coordinator \<Rightarrow> (backfill_error + unit) \<times> 'l coordinator" where
  "insert_pending f c =
     (let fb = from_block (fr_range f) in
      if to_block (fr_range f) > target_height c
      then (Inl (RangeBeyondTarget (to_block (fr_range f)) (target_height c)), c)
      else if fb < next_height c then (Inl (StaleRange fb (next_height c)), c)
      else let c' = c\<lparr>pending := bt_insert fb f (pending c)\<rparr> in
        (case bt_get (pending c) fb of
           Some _ \<Rightarrow> (Inl (DuplicateRange fb), c')
         | None \<Rightarrow> (Inr (), c')))"

definition discard_suffix :: "u64 \<Rightarrow> 'l coordinator \<Rightarrow> 'l coordinator" where
  "discard_suffix refetch_from c =
     (let c' = c\<lparr>pending := snd (bt_split_off refetch_from (pending c))\<rparr>
      in c'\<lparr>pending := bt_clear (pending c')\<rparr>)"

definition validate_ready_range ::
    "'l fetched_range \<Rightarrow> 'l coordinator \<Rightarrow> (backfill_error + block_header) \<times> 'l coordinator" where
  "validate_ready_range f c =
     (case (first_header f, parent_anchor c) of
        (Some blk, Some anchor) \<Rightarrow>
          if parent_hash blk \<noteq> hash anchor \<or> height blk \<noteq> height anchor + 1
          then (Inl (FetchedSuffixInvalidated (height blk) (hash anchor) (parent_hash blk)),
                discard_suffix (height blk) c)
          else (ok_or (last_header f) (EmptyFetchedRange (next_height c)), c)
      | _ \<Rightarrow> (ok_or (last_header f) (EmptyFetchedRange (next_height c)), c))"

definition advance :: "block_header \<Rightarrow> 'l coordinator \<Rightarrow> 'l coordinator" where
  "advance blk c = c\<lparr>parent_anchor := Some blk, next_height := sat_add (height blk) 1\<rparr>"

definition note_commit ::
    "'l fetched_range \<Rightarrow> block_header \<Rightarrow> commit_progress \<Rightarrow> commit_progress" where
  "note_commit f blk p =
     p\<lparr>committed_ranges := committed_ranges p + 1,
       committed_blocks := committed_blocks p + range_len (fr_range f),
       committed_logs := committed_logs p + length (fr_logs f),
       last_committed_height := Some (height blk)\<rparr>"

text \<open>The loop of \<open>drain_ready\<close>: each turn takes one entry out of the pending map.\<close>

lemma bt_remove_shorter [simp]: "bt_get m k = Some v \<Longrightarrow> length (bt_remove k m) < length m"
  using bt_get_Some_set [of m k v] unfolding bt_remove_def
  by (auto intro!: length_filter_less)

lemma validate_ready_range_pending:
  "validate_ready_range f c = (Inr blk, c') \<Longrightarrow> c' = c"
  by (auto simp: validate_ready_range_def try_simps split: option.splits if_splits)

function (sequential) drain_loop ::
    "('l, 's) commit_fn \<Rightarrow> commit_progress \<Rightarrow> 'l coordinator \<Rightarrow> 's \<Rightarrow>
      (backfill_error + commit_progress) \<times> 'l coordinator \<times> 's" where
  "drain_loop commit p c s =
     (case bt_get (pending c) (next_height c) of
        None \<Rightarrow> (Inr p, c, s)
      | Some f \<Rightarrow>
          (case validate_ready_range f (c\<lparr>pending := bt_remove (next_height c) (pending c)\<rparr>) of
             (Inl e, c') \<Rightarrow> (Inl e, c', s)
           | (Inr blk, c') \<Rightarrow>
               (case commit f s of
                  (Inl e, s') \<Rightarrow> (Inl e, c', s')
                | (Inr _, s') \<Rightarrow> drain_loop commit (note_commit f blk p) (advance blk c') s')))"
  by pat_completeness auto
termination
  by (relation "measure (\<lambda>(commit, p, c, s). length (pending c))")
    (auto simp: advance_def dest!: validate_ready_range_pending [OF sym])

declare drain_loop.simps [simp del]

definition drain_ready ::
    "('l, 's) commit_fn \<Rightarrow> 'l coordinator \<Rightarrow> 's \<Rightarrow>
      (backfill_error + commit_progress) \<times> 'l coordinator \<times> 's" where
  "drain_ready commit c s = drain_loop commit progress_default c s"

definition push ::
    "('l, 's) commit_fn \<Rightarrow> 'l fetched_range \<Rightarrow> 'l coordinator \<Rightarrow> 's \<Rightarrow>
      (backfill_error + commit_progress) \<times> 'l coordinator \<times> 's" where
  "push commit f c s =
     (case insert_pending f c of
        (Inl e, c') \<Rightarrow> (Inl e, c', s)
      | (Inr _, c') \<Rightarrow> drain_ready commit c' s)"

section \<open>Validation of a fetched range\<close>

definition fetched_ok :: "'l fetched_range \<Rightarrow> bool" where
  "fetched_ok f \<longleftrightarrow>
     from_block (fr_range f) \<le> to_block (fr_range f) \<and>
     map (\<lambda>x. unat (height x)) (fr_headers f) = blocks (fr_range f) \<and> ascends (fr_headers f)"

lemma ascends_Cons: "ascends (x # xs) \<longleftrightarrow> (xs = [] \<or> links (hd xs) x) \<and> ascends xs"
  by (cases xs) (auto simp: ascends_def)

lemma ascends_append:
  "ascends (xs @ ys) \<longleftrightarrow> ascends xs \<and> ascends ys \<and> (xs = [] \<or> ys = [] \<or> links (hd ys) (last xs))"
  by (auto simp: ascends_def successively_append_iff)

lemma unat_add_small: "unat f + n < 2 ^ 64 \<Longrightarrow> unat (f + of_nat n) = unat f + n"
  for f :: u64
  by (simp add: unat_word_ariths unsigned_of_nat take_bit_nat_eq_self)

lemma validate_from_ok:
  assumes "unat (from_block r) + (n + length hs) \<le> 2 ^ 64"
    and "\<And>p. parent = Some p \<Longrightarrow> 0 < n"
  shows "is_ok (validate_from r n parent hs) \<longleftrightarrow>
    map (\<lambda>x. unat (height x)) hs = [unat (from_block r) + n ..< unat (from_block r) + n + length hs] \<and>
    ascends (case parent of None \<Rightarrow> hs | Some p \<Rightarrow> p # hs)"
  using assms
proof (induction r n parent hs rule: validate_from.induct)
  case (1 r n parent)
  then show ?case by (simp add: ascends_def split: option.split)
next
  case (2 r n parent blk rest)
  let ?e = "from_block r + of_nat n"
  have e: "unat ?e = unat (from_block r) + n"
    using 2(2) by (intro unat_add_small) simp
  have hd: "[unat (from_block r) + n ..< unat (from_block r) + n + length (blk # rest)] =
      unat ?e # [unat (from_block r) + Suc n ..< unat (from_block r) + Suc n + length rest]"
    by (simp add: e upt_conv_Cons del: upt_Suc)
  show ?case
  proof (cases "height blk = ?e")
    case False
    then show ?thesis unfolding hd by (simp add: Let_def word_eq_unat del: upt_Suc)
  next
    case eq: True
    have link: "parent_hash blk = hash p \<and> height blk = height p + 1 \<longleftrightarrow> links blk p"
      if "parent = Some p" for p
    proof -
      have "unat (height blk) = unat (from_block r) + n" "0 < n" using eq e 2(3) that by auto
      then have "height blk \<noteq> 0" by (auto simp: unat_pos)
      then show ?thesis
        using links_succ [of blk p] links_intro [of blk p] links_def [of blk p] by blast
    qed
    show ?thesis
    proof (cases "\<exists>p. parent = Some p \<and> \<not> links blk p")
      case True
      with link eq show ?thesis by (auto simp: Let_def ascends_Cons)
    next
      case False
      with link eq have step: "validate_from r n parent (blk # rest) = validate_from r (Suc n) (Some blk) rest"
        by (cases parent) (auto simp: Let_def)
      have "is_ok (validate_from r (Suc n) (Some blk) rest) \<longleftrightarrow>
        map (\<lambda>x. unat (height x)) rest = [unat (from_block r) + Suc n ..< unat (from_block r) + Suc n + length rest]
        \<and> ascends (blk # rest)"
        using 2(1) [OF refl] 2(2) eq False link
        by (auto split: option.splits simp del: upt_Suc)
      then show ?thesis
        unfolding step hd using eq False
        by (auto simp: ascends_Cons e split: option.split simp del: upt_Suc)
    qed
  qed
qed

lemma validate_headers_ok:
  assumes "from_block r \<le> to_block r" and "length headers < 2 ^ 64 - 1"
  shows "is_ok (validate_headers r headers) \<longleftrightarrow>
    map (\<lambda>x. unat (height x)) headers = blocks r \<and> ascends headers"
proof -
  let ?n = "length headers"
  have len: "unat (range_len r) = min (Suc (unat (to_block r) - unat (from_block r))) (2 ^ 64 - 1)"
    by (simp add: range_len_def sat_simps)
  have n: "unat (of_nat ?n :: u64) = ?n"
    using assms(2) by (simp add: unsigned_of_nat take_bit_nat_eq_self)
  have count: "of_nat ?n = range_len r \<longleftrightarrow> ?n = length (blocks r)"
    using assms n len by (auto simp: word_eq_unat [of "of_nat ?n"] length_blocks)
  show ?thesis
  proof (cases "?n = length (blocks r)")
    case False
    then have "map (\<lambda>x. unat (height x)) headers \<noteq> blocks r" by (metis length_map)
    with False count show ?thesis by (simp add: validate_headers_def Let_def)
  next
    case True
    then have "unat (from_block r) + ?n = Suc (unat (to_block r))"
      using assms(1) by (simp add: length_blocks word_le_nat_alt)
    then have "is_ok (validate_from r 0 None headers) \<longleftrightarrow>
      map (\<lambda>x. unat (height x)) headers = blocks r \<and> ascends headers"
      using validate_from_ok [of r 0 headers None] u64_le_max [of "to_block r"]
      by (simp add: blocks_def del: upt_Suc)
    with True count show ?thesis
      by (cases "validate_from r 0 None headers")
        (simp_all add: validate_headers_def Let_def)
  qed
qed

text \<open>
  A fetched range is accepted exactly when its headers are the blocks of the range, in order,
  none missing, each linked to the one before it.
\<close>
theorem fetched_range_validation:
  assumes "from_block r \<le> to_block r" and "length headers < 2 ^ 64 - 1"
  shows "is_ok (fetched_new r headers logs) \<longleftrightarrow>
    map (\<lambda>x. unat (height x)) headers = blocks r \<and> ascends headers"
  using validate_headers_ok [OF assms]
  by (cases "validate_headers r headers") (simp_all add: fetched_new_def)

lemma fetched_new_ok:
  assumes "fetched_new r headers logs = Inr f" and "from_block r \<le> to_block r"
    and "length headers < 2 ^ 64 - 1"
  shows "fetched_ok f"
  using assms validate_headers_ok [OF assms(2,3)]
  by (auto simp: fetched_new_def fetched_ok_def try_simps)

lemma fetched_okD:
  assumes "fetched_ok f"
  shows "fr_headers f \<noteq> []" "height (hd (fr_headers f)) = from_block (fr_range f)"
    "height (last (fr_headers f)) = to_block (fr_range f)" "ascends (fr_headers f)"
proof -
  let ?r = "fr_range f"
  have m: "map (\<lambda>x. unat (height x)) (fr_headers f) = [unat (from_block ?r) ..< Suc (unat (to_block ?r))]"
    and le: "unat (from_block ?r) \<le> unat (to_block ?r)"
    using assms by (auto simp: fetched_ok_def blocks_def word_le_nat_alt simp del: upt_Suc)
  then show ne: "fr_headers f \<noteq> []" by auto
  show "height (hd (fr_headers f)) = from_block ?r"
    using arg_cong [OF m, of hd] ne le by (simp add: hd_map word_eq_unat del: upt_Suc)
  show "height (last (fr_headers f)) = to_block ?r"
    using arg_cong [OF m, of last] ne le by (simp add: last_map word_eq_unat)
  show "ascends (fr_headers f)" using assms by (simp add: fetched_ok_def)
qed

section \<open>The coordinator over any sink\<close>

text \<open>
  What the coordinator needs to know of a sink: a view of the headers it has committed, extended
  by the headers of a range that it accepts and unchanged when it reports an error.
\<close>

locale range_commit_sink =
  fixes commit :: "('l, 's) commit_fn" and view :: "'s \<Rightarrow> block_header list"
  assumes commit_ok: "commit f s = (Inr u, s') \<Longrightarrow> view s' = view s @ fr_headers f"
    and commit_err: "commit f s = (Inl e, s') \<Longrightarrow> view s' = view s"

definition follows :: "block_header option \<Rightarrow> block_header list \<Rightarrow> bool" where
  "follows anchor hs \<longleftrightarrow> ascends (case anchor of None \<Rightarrow> hs | Some a \<Rightarrow> a # hs)"

definition next_after :: "block_header option \<Rightarrow> u64 \<Rightarrow> bool" where
  "next_after anchor n \<longleftrightarrow> (\<forall>a. anchor = Some a \<longrightarrow> n = sat_add (height a) 1)"

lemma next_after_simps [simp]:
  "next_after None n" "next_after (Some a) n \<longleftrightarrow> n = sat_add (height a) 1"
  by (simp_all add: next_after_def)

lemma sat_add_one: "a \<noteq> - 1 \<Longrightarrow> sat_add a 1 = a + 1"
  for a :: u64
  using u64_le_max [of a] by (simp add: sat_add_def word_eq_unat [of a "- 1"] unat_max_word)

definition coord_wf :: "'l coordinator \<Rightarrow> bool" where
  "coord_wf c \<longleftrightarrow>
     bt_inv (pending c) \<and>
     (\<forall>k f. bt_get (pending c) k = Some f \<longrightarrow>
        fetched_ok f \<and> from_block (fr_range f) = k \<and> to_block (fr_range f) \<le> target_height c) \<and>
     next_after (parent_anchor c) (next_height c)"

lemma coordinator_new_wf: "coordinator_new f t a = Inr c \<Longrightarrow> coord_wf c \<and> parent_anchor c = a \<and> target_height c = t"
proof -
  have succ: "a + 1 = f \<Longrightarrow> 0 < f \<Longrightarrow> f = sat_add a 1" for a f :: u64
    using sat_add_one [of a] by (cases "a = - 1") auto
  assume "coordinator_new f t a = Inr c"
  then show ?thesis
    by (auto simp: coordinator_new_def coord_wf_def try_simps bt_new_def bt_get_def succ word_gt_0
        split: if_splits option.splits)
qed

lemma insert_pending_wf:
  assumes "coord_wf c" and "fetched_ok f" and "insert_pending f c = (res, c')"
  shows "coord_wf c' \<and> parent_anchor c' = parent_anchor c \<and> target_height c' = target_height c \<and>
    next_height c' = next_height c"
  using assms
  by (auto simp: insert_pending_def Let_def coord_wf_def not_less split: if_splits option.splits)

definition end_of :: "block_header option \<Rightarrow> block_header list \<Rightarrow> block_header option" where
  "end_of anchor hs = (if hs = [] then anchor else Some (last hs))"

lemma end_of_simps [simp]:
  "end_of a [] = a" "hs \<noteq> [] \<Longrightarrow> end_of a hs = Some (last hs)"
  "end_of (end_of a xs) ys = end_of a (xs @ ys)"
  by (auto simp: end_of_def)

lemma follows_Nil [simp]: "follows a []"
  by (cases a) (auto simp: follows_def ascends_def)

lemma follows_append: "follows a (xs @ ys) \<longleftrightarrow> follows a xs \<and> follows (end_of a xs) ys"
  by (cases a) (auto simp: follows_def ascends_append ascends_Cons end_of_def)

text \<open>A range that passes the check extends the anchor.\<close>

lemma validate_ready_range_ok:
  assumes "validate_ready_range f c = (Inr blk, c')" and "fetched_ok f"
    and "next_after (parent_anchor c) (from_block (fr_range f))"
  shows "blk = last (fr_headers f) \<and> c' = c \<and> follows (parent_anchor c) (fr_headers f)"
proof -
  note ok = fetched_okD [OF assms(2)]
  obtain x xs where hs: "fr_headers f = x # xs" using ok(1) by (cases "fr_headers f") auto
  have "links x a" if a: "parent_anchor c = Some a" for a
  proof -
    from assms(1) hs a have l: "parent_hash x = hash a" "height x = height a + 1"
      by (auto simp: validate_ready_range_def split: if_splits)
    moreover have "unat (height x) = min (unat (height a) + 1) (2 ^ 64 - 1)"
      using assms(3) a ok(2) hs by (simp add: sat_simps)
    then have "height x \<noteq> 0" by (auto simp: unat_pos)
    ultimately show ?thesis by (intro links_intro)
  qed
  with assms(1) hs ok(4) show ?thesis
    by (auto simp: validate_ready_range_def follows_def ascends_Cons try_simps
        split: if_splits option.splits)
qed

lemma validate_ready_range_wf:
  assumes "coord_wf c" and "validate_ready_range f c = (res, c')"
  shows "coord_wf c' \<and> parent_anchor c' = parent_anchor c \<and> target_height c' = target_height c"
  using assms
  by (auto simp: validate_ready_range_def discard_suffix_def bt_clear_def Let_def coord_wf_def
      bt_get_def split: option.splits if_splits)

lemma coord_wf_remove: "coord_wf c \<Longrightarrow> coord_wf (c\<lparr>pending := bt_remove k (pending c)\<rparr>)"
  by (auto simp: coord_wf_def split: if_splits)

lemma coord_wf_advance: "coord_wf c \<Longrightarrow> coord_wf (advance blk c)"
  by (auto simp: coord_wf_def advance_def)

lemma drain_loop_cases:
  assumes "drain_loop commit p c s = (res, c', s')"
  obtains (idle) "bt_get (pending c) (next_height c) = None" "res = Inr p" "c' = c" "s' = s"
  | (invalid) f e where "bt_get (pending c) (next_height c) = Some f" "res = Inl e" "s' = s"
      "validate_ready_range f (c\<lparr>pending := bt_remove (next_height c) (pending c)\<rparr>) = (Inl e, c')"
  | (refused) f e blk where "bt_get (pending c) (next_height c) = Some f" "res = Inl e"
      "validate_ready_range f (c\<lparr>pending := bt_remove (next_height c) (pending c)\<rparr>) = (Inr blk, c')"
      "commit f s = (Inl e, s')"
  | (step) f blk c1 s1 u where "bt_get (pending c) (next_height c) = Some f"
      "validate_ready_range f (c\<lparr>pending := bt_remove (next_height c) (pending c)\<rparr>) = (Inr blk, c1)"
      "commit f s = (Inr u, s1)"
      "drain_loop commit (note_commit f blk p) (advance blk c1) s1 = (res, c', s')"
proof (cases "bt_get (pending c) (next_height c)")
  case None
  then have "drain_loop commit p c s = (Inr p, c, s)" by (subst drain_loop.simps) simp
  with assms have "res = Inr p" "c' = c" "s' = s" by simp_all
  with None show ?thesis by (rule idle)
next
  case (Some f)
  let ?c = "c\<lparr>pending := bt_remove (next_height c) (pending c)\<rparr>"
  obtain v c1 where v: "validate_ready_range f ?c = (v, c1)" by (cases "validate_ready_range f ?c")
  obtain w s1 where w: "commit f s = (w, s1)" by (cases "commit f s")
  have eq: "drain_loop commit p c s = (case v of Inl e \<Rightarrow> (Inl e, c1, s)
      | Inr blk \<Rightarrow> (case w of Inl e \<Rightarrow> (Inl e, c1, s1)
          | Inr _ \<Rightarrow> drain_loop commit (note_commit f blk p) (advance blk c1) s1))"
    by (subst drain_loop.simps, cases v; cases w) (simp_all add: Some v w)
  show ?thesis
  proof (cases v)
    case (Inl e)
    with assms eq have "res = Inl e" "s' = s" "c' = c1" by simp_all
    with v Inl invalid [OF Some, of e] show ?thesis by simp
  next
    case v': (Inr blk)
    show ?thesis
    proof (cases w)
      case (Inl e)
      with assms eq v' have "res = Inl e" "s' = s1" "c' = c1" by simp_all
      with v v' w Inl refused [OF Some, of e blk] show ?thesis by simp
    next
      case (Inr u)
      with assms eq v' have "drain_loop commit (note_commit f blk p) (advance blk c1) s1 = (res, c', s')"
        by simp
      with v v' w Inr step [OF Some, of blk c1 u s1] show ?thesis by simp
    qed
  qed
qed

context range_commit_sink
begin

lemma drain_sound:
  "coord_wf c \<Longrightarrow> drain_loop commit p c s = (res, c', s') \<Longrightarrow>
   \<exists>hs. view s' = view s @ hs \<and> follows (parent_anchor c) hs \<and> coord_wf c' \<and>
     parent_anchor c' = end_of (parent_anchor c) hs \<and>
     target_height c' = target_height c"
proof (induction c arbitrary: p s rule: measure_induct_rule [of "\<lambda>c. length (pending c)"])
  case (less c)
  let ?c = "c\<lparr>pending := bt_remove (next_height c) (pending c)\<rparr>"
  have wf: "coord_wf ?c" by (rule coord_wf_remove [OF less.prems(1)])
  from less.prems(2) show ?case
  proof (cases rule: drain_loop_cases)
    case idle
    with less.prems(1) show ?thesis by (intro exI [of _ "[]"]) auto
  next
    case (invalid f e)
    with validate_ready_range_wf [OF wf invalid(4)] show ?thesis
      by (intro exI [of _ "[]"]) auto
  next
    case (refused f e blk)
    with validate_ready_range_wf [OF wf refused(3)] commit_err [OF refused(4)] show ?thesis
      by (intro exI [of _ "[]"]) auto
  next
    case (step f blk c1 s1 u)
    have f: "fetched_ok f" "from_block (fr_range f) = next_height c"
      using less.prems(1) step(1) by (auto simp: coord_wf_def)
    have "next_after (parent_anchor ?c) (from_block (fr_range f))"
      using less.prems(1) f(2) by (simp add: coord_wf_def)
    from validate_ready_range_ok [OF step(2) f(1) this]
    have ok: "blk = last (fr_headers f)" "c1 = ?c" "follows (parent_anchor c) (fr_headers f)" by auto
    have "length (pending (advance blk c1)) < length (pending c)"
      using step(1) by (simp add: ok advance_def)
    from less.IH [OF this coord_wf_advance step(4)] wf ok(2) obtain hs where
      "view s' = view s1 @ hs" "follows (Some blk) hs" "coord_wf c'"
      "parent_anchor c' = end_of (Some blk) hs"
      "target_height c' = target_height c"
      by (auto simp: advance_def)
    moreover have "end_of (parent_anchor c) (fr_headers f) = Some blk"
      using ok fetched_okD(1) [OF f(1)] by simp
    ultimately show ?thesis
      using ok commit_ok [OF step(3)] end_of_simps(3) [of "parent_anchor c" "fr_headers f" hs]
      by (intro exI [of _ "fr_headers f @ hs"]) (simp add: follows_append del: end_of_simps)
  qed
qed

lemma push_sound:
  assumes "coord_wf c" and "fetched_ok f" and "push commit f c s = (res, c', s')"
  shows "\<exists>hs. view s' = view s @ hs \<and> follows (parent_anchor c) hs \<and> coord_wf c' \<and>
     parent_anchor c' = end_of (parent_anchor c) hs \<and>
     target_height c' = target_height c"
proof -
  obtain r c1 where i: "insert_pending f c = (r, c1)" by (cases "insert_pending f c")
  note wf = insert_pending_wf [OF assms(1,2) i]
  show ?thesis
  proof (cases r)
    case (Inl e)
    with assms(3) i wf show ?thesis
      by (intro exI [of _ "[]"]) (auto simp: push_def)
  next
    case (Inr u)
    with assms(3) i have "drain_loop commit progress_default c1 s = (res, c', s')"
      by (simp add: push_def drain_ready_def)
    from drain_sound [OF conjunct1 [OF wf] this] wf show ?thesis by simp
  qed
qed

end

text \<open>A caller that pushes one range after the other, whatever each push returns.\<close>

fun push_all ::
    "('l, 's) commit_fn \<Rightarrow> 'l fetched_range list \<Rightarrow> 'l coordinator \<Rightarrow> 's \<Rightarrow> 'l coordinator \<times> 's" where
  "push_all commit [] c s = (c, s)"
| "push_all commit (f # fs) c s =
     (case push commit f c s of (_, c', s') \<Rightarrow> push_all commit fs c' s')"

context range_commit_sink
begin

lemma push_all_sound:
  "coord_wf c \<Longrightarrow> \<forall>f \<in> set fs. fetched_ok f \<Longrightarrow> push_all commit fs c s = (c', s') \<Longrightarrow>
   \<exists>hs. view s' = view s @ hs \<and> follows (parent_anchor c) hs \<and> coord_wf c' \<and>
     parent_anchor c' = end_of (parent_anchor c) hs \<and>
     target_height c' = target_height c"
proof (induction fs arbitrary: c s)
  case Nil
  then show ?case
    by (intro exI [of _ "[]"]) auto
next
  case (Cons f fs)
  obtain r c1 s1 where p: "push commit f c s = (r, c1, s1)" by (cases "push commit f c s")
  have ok: "fetched_ok f" using Cons.prems(2) by simp
  from push_sound [OF Cons.prems(1) ok p] obtain hs where
    1: "view s1 = view s @ hs" "follows (parent_anchor c) hs" "coord_wf c1"
    "parent_anchor c1 = end_of (parent_anchor c) hs"
    "target_height c1 = target_height c" by blast
  have "push_all commit fs c1 s1 = (c', s')" using Cons.prems(3) p by simp
  from Cons.IH [OF 1(3) _ this] Cons.prems(2) obtain ks where
    "view s' = view s1 @ ks" "follows (parent_anchor c1) ks" "coord_wf c'"
    "parent_anchor c' = end_of (parent_anchor c1) ks"
    "target_height c' = target_height c1" by auto
  with 1 show ?case
    by (intro exI [of _ "hs @ ks"]) (auto simp: follows_append)
qed

end

section \<open>Every sink\<close>

text \<open>Any sink, with a log of the headers of the ranges that it accepted.\<close>

definition log_commit :: "('l, 's) commit_fn \<Rightarrow> ('l, block_header list \<times> 's) commit_fn" where
  "log_commit commit f s =
     (case commit f (snd s) of
        (Inl e, s') \<Rightarrow> (Inl e, fst s, s')
      | (Inr u, s') \<Rightarrow> (Inr u, fst s @ fr_headers f, s'))"

interpretation logged: range_commit_sink "log_commit commit" fst for commit
  by unfold_locales (auto simp: log_commit_def split: prod.splits sum.splits)

text \<open>
  C22: Whatever well-formed ranges are pushed, in whatever order, with whatever errors of the
  coordinator or of the sink in between, the headers that reach the sink are one linked chain
  that starts right after the parent anchor (at the first block without an anchor): no gap, no
  overlap and no block of another branch is ever committed.
\<close>
theorem pushes_commit_one_chain:
  assumes "coordinator_new f t anchor = Inr c" and "\<forall>x \<in> set fs. fetched_ok x"
    and "push_all (log_commit commit) fs c ([], s) = (c', hs, s')"
  shows "follows anchor hs \<and> parent_anchor c' = end_of anchor hs \<and>
    next_after (parent_anchor c') (next_height c')"
proof -
  from coordinator_new_wf [OF assms(1)] have c: "coord_wf c" "parent_anchor c = anchor" by auto
  from logged.push_all_sound [OF c(1) assms(2,3)] c(2) show ?thesis
    by (auto simp: coord_wf_def)
qed

section \<open>All ranges arrive\<close>

text \<open>
  A cut of the blocks from the anchor to the target into fetched ranges, in block order.
\<close>

definition partition_ok :: "block_header option \<Rightarrow> u64 \<Rightarrow> u64 \<Rightarrow> 'l fetched_range list \<Rightarrow> bool" where
  "partition_ok anchor n target rest \<longleftrightarrow>
     next_after anchor n \<and> (\<forall>f \<in> set rest. fetched_ok f \<and> to_block (fr_range f) \<le> target) \<and>
     follows anchor (concat (map fr_headers rest)) \<and>
     (rest = [] \<longrightarrow> target < n) \<and> (rest \<noteq> [] \<longrightarrow> from_block (fr_range (hd rest)) = n \<and> to_block (fr_range (last rest)) = target)"

text \<open>The pending map holds the pushed ranges (\<open>P\<close>) that are not committed yet (\<open>rest\<close>).\<close>

definition awaiting :: "'l coordinator \<Rightarrow> 'l fetched_range set \<Rightarrow> 'l fetched_range list \<Rightarrow> bool" where
  "awaiting c P rest \<longleftrightarrow>
     bt_inv (pending c) \<and>
     (\<forall>k f. bt_get (pending c) k = Some f \<longleftrightarrow> f \<in> P \<inter> set rest \<and> from_block (fr_range f) = k) \<and>
     partition_ok (parent_anchor c) (next_height c) (target_height c) rest"

lemma partition_ascending:
  assumes "partition_ok anchor n target rest" 
  shows "sorted_wrt (\<lambda>f g. from_block (fr_range f) < from_block (fr_range g)) rest"
proof -
  have "\<forall>f \<in> set rest. fetched_ok f" and "ascends (concat (map fr_headers rest))"
    using assms by (auto simp: partition_ok_def follows_def ascends_Cons split: option.splits)
  then show ?thesis
  proof (induction rest)
    case (Cons f rest)
    have "from_block (fr_range f) < from_block (fr_range g)" if "g \<in> set rest" for g
    proof -
      have ok: "fr_headers f \<noteq> []" "fr_headers g \<noteq> []"
        and hd: "height (hd (fr_headers f)) = from_block (fr_range f)"
          "height (hd (fr_headers g)) = from_block (fr_range g)"
        using Cons.prems(1) that fetched_okD(1,2) by auto
      have "sorted_wrt (\<lambda>x y. height x < height y) (fr_headers f @ concat (map fr_headers rest))"
        using Cons.prems(2) ascending_heights by (simp add: ascends_def)
      moreover have "hd (fr_headers f) \<in> set (fr_headers f)" using ok by simp
      moreover have "hd (fr_headers g) \<in> set (concat (map fr_headers rest))" using ok that by (auto intro!: bexI [of _ g])
      ultimately show ?thesis unfolding hd [symmetric] sorted_wrt_append by blast
    qed
    moreover have "ascends (concat (map fr_headers rest))"
      using Cons.prems(2) by (simp add: ascends_append)
    ultimately show ?case using Cons by simp
  qed simp
qed

lemma partition_distinct:
  assumes "partition_ok anchor n target rest"
    and "f \<in> set rest" and "g \<in> set rest" and "from_block (fr_range f) = from_block (fr_range g)"
  shows "f = g"
  using partition_ascending [OF assms(1)] assms(2-4)
  by (induction rest) auto

lemma partition_step:
  assumes "partition_ok anchor n target (f # rest)"
    and "target \<noteq> - 1"
  shows "partition_ok (Some (last (fr_headers f))) (sat_add (height (last (fr_headers f))) 1) target rest"
proof -
  have ok: "fetched_ok f" and fol: "follows anchor (fr_headers f @ concat (map fr_headers rest))"
    and all: "\<forall>g \<in> set rest. fetched_ok g \<and> to_block (fr_range g) \<le> target"
    and le: "to_block (fr_range f) \<le> target"
    using assms by (auto simp: partition_ok_def)
  note f = fetched_okD [OF ok]
  have top: "height (last (fr_headers f)) \<noteq> - 1"
    using le assms(2) f(3) by (auto simp: word_le_nat_alt word_eq_unat unat_max_word)
       (metis u64_le_max le_antisym)
  then have succ: "sat_add (height (last (fr_headers f))) 1 = height (last (fr_headers f)) + 1"
    by (rule sat_add_one)
  have rest: "follows (Some (last (fr_headers f))) (concat (map fr_headers rest))"
    using fol f(1) by (simp add: follows_append)
  have "target < height (last (fr_headers f)) + 1" if "rest = []"
    using assms(1) that f(3) top by (simp add: partition_ok_def word_less_nat_alt unat_succ)
  moreover have "from_block (fr_range g) = height (last (fr_headers f)) + 1" if "rest = g # gs" for g gs
  proof -
    have g: "fr_headers g \<noteq> []" "height (hd (fr_headers g)) = from_block (fr_range g)"
      using all that fetched_okD(1,2) [of g] by auto
    then have "links (hd (fr_headers g)) (last (fr_headers f))"
      using rest that by (simp add: follows_def ascends_Cons)
    then show ?thesis using g(2) by (auto dest: links_succ)
  qed
  ultimately show ?thesis
    using all rest assms(1) unfolding partition_ok_def by (cases rest) (auto simp: succ)
qed

lemma awaiting_step:
  assumes "awaiting c P (f # rest)" and "target_height c \<noteq> - 1" and "f \<in> P"
  shows "awaiting (advance (last (fr_headers f)) (c\<lparr>pending := bt_remove (next_height c) (pending c)\<rparr>)) P rest"
proof -
  have p: "partition_ok (parent_anchor c) (next_height c) (target_height c) (f # rest)"
    and b: "bt_inv (pending c)"
    and get: "\<And>k g. bt_get (pending c) k = Some g \<longleftrightarrow> g \<in> P \<inter> set (f # rest) \<and> from_block (fr_range g) = k"
    using assms(1) by (auto simp: awaiting_def)
  have n: "from_block (fr_range f) = next_height c" using p by (simp add: partition_ok_def)
  have above: "\<forall>g \<in> set rest. from_block (fr_range g) \<noteq> next_height c"
    using partition_ascending [OF p] n by auto
  have "bt_get (bt_remove (next_height c) (pending c)) k = Some g \<longleftrightarrow>
      g \<in> P \<inter> set rest \<and> from_block (fr_range g) = k" for k g
    using above n by (auto simp: get)
  with partition_step [OF p assms(2)] b show ?thesis
    by (auto simp: awaiting_def advance_def)
qed

lemma links_hash: "links c p \<Longrightarrow> parent_hash c = hash p"
  by (simp add: links_def)

lemma validate_awaiting:
  assumes "partition_ok (parent_anchor c) n t (f # rest)"
  shows "validate_ready_range f c = (Inr (last (fr_headers f)), c)"
proof -
  have "fetched_ok f" and fol: "follows (parent_anchor c) (fr_headers f)"
    using assms by (auto simp: partition_ok_def follows_append)
  note f = fetched_okD [OF this(1)]
  from f(1) fol show ?thesis
    by (cases "fr_headers f"; cases "parent_anchor c")
      (auto simp: validate_ready_range_def follows_def ascends_Cons dest: links_succ links_hash)
qed

context range_commit_sink
begin

lemma drain_complete:
  assumes "\<And>f s. is_ok (fst (commit f s))"
  shows "awaiting c P rest \<Longrightarrow> target_height c \<noteq> - 1 \<Longrightarrow>
    \<exists>pre rest' p' c' s'. drain_loop commit p c s = (Inr p', c', s') \<and> rest = pre @ rest' \<and>
      set pre \<subseteq> P \<and> (rest' \<noteq> [] \<longrightarrow> hd rest' \<notin> P) \<and> awaiting c' P rest' \<and>
      target_height c' = target_height c \<and> view s' = view s @ concat (map fr_headers pre)"
proof (induction rest arbitrary: c p s)
  case Nil
  then have "bt_get (pending c) (next_height c) = None" by (simp add: awaiting_def)
  with Nil show ?case
    by (intro exI [of _ "[]"] exI [of _ p] exI [of _ c] exI [of _ s])
      (simp add: drain_loop.simps [of commit p c s])
next
  case (Cons f rest)
  have part: "partition_ok (parent_anchor c) (next_height c) (target_height c) (f # rest)"
    and get: "\<And>k g. bt_get (pending c) k = Some g \<longleftrightarrow> g \<in> P \<inter> set (f # rest) \<and> from_block (fr_range g) = k"
    using Cons.prems(1) by (auto simp: awaiting_def)
  have n: "from_block (fr_range f) = next_height c" using part by (simp add: partition_ok_def)
  show ?case
  proof (cases "f \<in> P")
    case False
    have "bt_get (pending c) (next_height c) = None"
    proof (rule ccontr)
      assume "bt_get (pending c) (next_height c) \<noteq> None"
      then obtain g where "g \<in> P" "g \<in> set (f # rest)" "from_block (fr_range g) = next_height c"
        using get by auto
      with partition_distinct [OF part, of g f] n False show False by auto
    qed
    with Cons.prems False show ?thesis
      by (intro exI [of _ "[]"] exI [of _ "f # rest"] exI [of _ p] exI [of _ c] exI [of _ s])
        (simp add: drain_loop.simps [of commit p c s])
  next
    case True
    let ?c = "c\<lparr>pending := bt_remove (next_height c) (pending c)\<rparr>"
    let ?l = "last (fr_headers f)"
    from True n get have g: "bt_get (pending c) (next_height c) = Some f" by simp
    have v: "validate_ready_range f ?c = (Inr ?l, ?c)"
      using part by (intro validate_awaiting [of _ "next_height c" "target_height c" _ rest]) simp
    obtain u s1 where w: "commit f s = (Inr u, s1)"
      using assms [of f s] by (cases "commit f s") (auto simp: is_ok_iff)
    have run: "drain_loop commit p c s = drain_loop commit (note_commit f ?l p) (advance ?l ?c) s1"
      by (subst drain_loop.simps) (simp add: g v w)
    have t: "target_height (advance ?l ?c) = target_height c" by (simp add: advance_def)
    from Cons.IH [OF awaiting_step [OF Cons.prems True], of "note_commit f ?l p" s1,
        unfolded t, OF Cons.prems(2)] obtain pre rest' p' c' s' where
      "drain_loop commit (note_commit f ?l p) (advance ?l ?c) s1 = (Inr p', c', s')" "rest = pre @ rest'"
      "set pre \<subseteq> P" "rest' \<noteq> [] \<longrightarrow> hd rest' \<notin> P" "awaiting c' P rest'"
      "target_height c' = target_height c" "view s' = view s1 @ concat (map fr_headers pre)"
      by blast
    with run True commit_ok [OF w] show ?thesis
      by (intro exI [of _ "f # pre"] exI [of _ rest'] exI [of _ p'] exI [of _ c'] exI [of _ s']) simp
  qed
qed

lemma push_complete:
  assumes "\<And>f s. is_ok (fst (commit f s))" and "awaiting c P rest" and "target_height c \<noteq> - 1"
    and "f \<in> set rest" and "f \<notin> P"
  shows "\<exists>pre rest' p' c' s'. push commit f c s = (Inr p', c', s') \<and> rest = pre @ rest' \<and>
    set pre \<subseteq> insert f P \<and> (rest' \<noteq> [] \<longrightarrow> hd rest' \<notin> insert f P) \<and>
    awaiting c' (insert f P) rest' \<and> target_height c' = target_height c \<and>
    view s' = view s @ concat (map fr_headers pre)"
proof -
  let ?k = "from_block (fr_range f)"
  let ?c = "c\<lparr>pending := bt_insert ?k f (pending c)\<rparr>"
  have part: "partition_ok (parent_anchor c) (next_height c) (target_height c) rest" and b: "bt_inv (pending c)"
    and get: "\<And>k g. bt_get (pending c) k = Some g \<longleftrightarrow> g \<in> P \<inter> set rest \<and> from_block (fr_range g) = k"
    using assms(2) by (auto simp: awaiting_def)
  have new: "bt_get (pending c) ?k = None"
  proof (rule ccontr)
    assume "bt_get (pending c) ?k \<noteq> None"
    then obtain g where "g \<in> P" "g \<in> set rest" "from_block (fr_range g) = ?k" using get by auto
    with partition_distinct [OF part, of g f] assms(4,5) show False by auto
  qed
  have "next_height c \<le> ?k"
    using partition_ascending [OF part] part assms(4) by (cases rest) (auto simp: partition_ok_def)
  then have i: "insert_pending f c = (Inr (), ?c)"
    using new part assms(4) by (auto simp: insert_pending_def Let_def partition_ok_def not_less)
  have "bt_get (bt_insert ?k f (pending c)) k = Some g \<longleftrightarrow>
      g \<in> insert f P \<inter> set rest \<and> from_block (fr_range g) = k" for k g
  proof (cases "k = ?k")
    case True
    have "g \<in> insert f P \<inter> set rest \<and> from_block (fr_range g) = ?k \<longleftrightarrow> g = f"
      using partition_distinct [OF part assms(4), of g] assms(4) by (metis Int_iff insertI1)
    with True b show ?thesis by auto
  next
    case False
    with b show ?thesis by (auto simp: get)
  qed
  then have "awaiting ?c (insert f P) rest"
    using part b by (simp add: awaiting_def)
  from drain_complete [OF assms(1) this, of progress_default s] assms(3) show ?thesis
    by (simp add: push_def i drain_ready_def)
qed

lemma push_all_complete:
  assumes "\<And>f s. is_ok (fst (commit f s))"
  shows "awaiting c P rest \<Longrightarrow> target_height c \<noteq> - 1 \<Longrightarrow> distinct fs \<Longrightarrow>
    set fs \<inter> P = {} \<Longrightarrow> set rest \<subseteq> P \<union> set fs \<Longrightarrow> set fs \<subseteq> set rest \<Longrightarrow>
    (rest \<noteq> [] \<longrightarrow> hd rest \<notin> P) \<Longrightarrow>
    \<exists>c' s'. push_all commit fs c s = (c', s') \<and> view s' = view s @ concat (map fr_headers rest) \<and>
      is_complete c'"
proof (induction fs arbitrary: c P rest s)
  case Nil
  then have "rest = []" by (cases rest) auto
  with Nil show ?case by (auto simp: awaiting_def partition_ok_def is_complete_def)
next
  case (Cons f fs)
  have "f \<in> set rest" "f \<notin> P" using Cons.prems by auto
  from push_complete [OF assms Cons.prems(1,2) this, of s] obtain pre rest' p' c1 s1 where
    p: "push commit f c s = (Inr p', c1, s1)" "rest = pre @ rest'" "set pre \<subseteq> insert f P"
    "rest' \<noteq> [] \<longrightarrow> hd rest' \<notin> insert f P" "awaiting c1 (insert f P) rest'"
    "target_height c1 = target_height c" "view s1 = view s @ concat (map fr_headers pre)"
    by blast
  have "sorted_wrt (\<lambda>f g. from_block (fr_range f) < from_block (fr_range g)) rest"
    using Cons.prems(1) partition_ascending by (auto simp: awaiting_def)
  then have "distinct rest"
    using strict_sorted_iff [of "map (\<lambda>f. from_block (fr_range f)) rest"]
    by (simp add: sorted_wrt_map distinct_map)
  then have "set fs \<subseteq> set rest'"
    using Cons.prems p(2,3) by auto
  from Cons.IH [OF p(5), of s1] p Cons.prems this show ?case by auto
qed

end

text \<open>
  C26: The order in which the workers deliver is irrelevant.  Let the fetched ranges \<open>parts\<close> cut
  the blocks from the anchor to the target (below the last block number) into linked pieces; then
  pushing them in any order into a sink that accepts commits every header exactly once, in block
  order, and the coordinator is complete.
\<close>
theorem pushes_in_any_order_complete:
  assumes "coordinator_new f t anchor = Inr c" and "t \<noteq> - 1"
    and "\<And>f s. is_ok (fst (commit f s))"
    and "partition_ok anchor f t parts" and "set fs = set parts" and "distinct fs"
  shows "\<exists>c' s'. push_all (log_commit commit) fs c ([], s) =
    (c', concat (map fr_headers parts), s') \<and> is_complete c'"
proof -
  have c: "parent_anchor c = anchor" "target_height c = t" "next_height c = f" "pending c = bt_new"
    using assms(1) by (auto simp: coordinator_new_def try_simps split: if_splits option.splits)
  have acc: "is_ok (fst (log_commit commit f s))" for f s
    using assms(3) [of f "snd s"]
    by (auto simp: log_commit_def is_ok_iff split: prod.split sum.split)
  have "awaiting c {} parts"
    using assms(4) by (simp add: awaiting_def c)
  from logged.push_all_complete [OF acc this, of fs "([], s)"] assms(2,5,6) c(2) show ?thesis
    by (auto simp: prod_eq_iff)
qed

section \<open>Sample ranges\<close>

definition ex_part :: "u8 \<Rightarrow> u64 \<Rightarrow> nat fetched_range" where
  "ex_part i n =
     \<lparr>fr_range = \<lparr>from_block = n, to_block = n + 1\<rparr>,
      fr_headers = [BlockHeader (fill i) (fill (i - 1)) n, BlockHeader (fill (i + 1)) (fill i) (n + 1)],
      fr_logs = []\<rparr>"

definition ex_anchor :: block_header where "ex_anchor = BlockHeader (fill 1) (fill 0) 10"

definition ex_sink :: "(nat, nat) commit_fn" where "ex_sink f s = (Inr (), s + 1)"

definition ex_coord :: "nat coordinator" where
  "ex_coord = \<lparr>next_height = 11, target_height = 14, parent_anchor = Some ex_anchor, pending = bt_new\<rparr>"

lemma ex_coord: "coordinator_new 11 14 (Some ex_anchor) = Inr ex_coord"
  by (simp add: coordinator_new_def ex_coord_def ex_anchor_def)

lemma ex_parts_ok: "fetched_ok (ex_part 2 11)" "fetched_ok (ex_part 4 13)"
  by (simp_all add: fetched_ok_def ex_part_def blocks_def ascends_def links_def upt_rec)

lemma pushes_commit_one_chain_witness:
  "follows (Some ex_anchor)
     (fst (snd (push_all (log_commit ex_sink) [ex_part 4 13, ex_part 2 11] ex_coord ([], 0))))"
proof -
  obtain c' hs s' where p:
    "push_all (log_commit ex_sink) [ex_part 4 13, ex_part 2 11] ex_coord ([], 0) = (c', hs, s')"
    by (cases "push_all (log_commit ex_sink) [ex_part 4 13, ex_part 2 11] ex_coord ([], 0)") auto
  show ?thesis
    unfolding p using pushes_commit_one_chain [OF ex_coord _ p] ex_parts_ok by simp
qed

lemma pushes_in_any_order_complete_witness:
  "\<exists>c' s'. push_all (log_commit ex_sink) [ex_part 4 13, ex_part 2 11] ex_coord ([], 0) =
     (c', fr_headers (ex_part 2 11) @ fr_headers (ex_part 4 13), s') \<and> is_complete c'"
proof -
  have "partition_ok (Some ex_anchor) 11 14 [ex_part 2 11, ex_part 4 13]"
    using ex_parts_ok
    by (simp add: partition_ok_def follows_def ascends_def links_def)
      (simp add: ex_part_def ex_anchor_def sat_add_def)
  then show ?thesis
    using pushes_in_any_order_complete [OF ex_coord, of ex_sink "[ex_part 2 11, ex_part 4 13]"
        "[ex_part 4 13, ex_part 2 11]" 0]
    by (auto simp: ex_sink_def ex_part_def)
qed

lemma fetched_range_validation_witness:
  "is_ok (fetched_new \<lparr>from_block = 11, to_block = 12\<rparr> (fr_headers (ex_part 2 11)) ([] :: nat list))"
  using fetched_range_validation [of "\<lparr>from_block = 11, to_block = 12\<rparr>" "fr_headers (ex_part 2 11)" "[] :: nat list"]
  by (simp add: ex_part_def blocks_def ascends_def links_def upt_rec)

end
