(* ===== verification/Live.thy ===== *)
theory Live
  imports Backfill_Commit
begin

text \<open>
  The live tracker of \<open>chainweave-core/src/live.rs\<close>: one reconciliation pass over a source of
  blocks and a sink that persists the canonical chain.

  The source (\<open>LiveSource\<close>) and the sink (\<open>LiveSink\<close>) are the records \<open>live_source\<close> and
  \<open>live_sink\<close> of their methods over their own states, and every method returns the new state: those that
  take \<open>&mut self\<close> because they write to it, and the reads of the sink because each may fail by itself,
  and which ones do is part of that state.  The cancellation callback may answer differently each time, so it is a function
  of the number of polls made so far.
\<close>

section \<open>Data\<close>

record live_config =
  lc_max_reorg_depth :: u64
  live_budget_cost_units_per_minute :: u64
  poll_interval :: duration
  explicit_start :: "u64 option"
  lc_finalized_height :: "u64 option"
  budget_window :: duration
  lc_retry_policy :: retry_policy

datatype live_readiness = Ready | Degraded | Unavailable

datatype live_halt_reason = MaxReorgDepth | MissingExplicitStart | HaltFinalizedBoundary | Correctness

record live_report =
  final_checkpoint :: "block_header option"
  readiness :: live_readiness
  readiness_transitions :: "live_readiness list"
  rollback_order :: "u64 list"
  apply_order :: "u64 list"
  committed_before_fault :: "u64 list"
  panics :: u64
  partial_commits_before_recovery :: u64
  continued_after_budget_exhaustion :: bool
  manual_clock_advances :: "u64 list"
  verifier_disagreements :: u64
  shutdown_completed :: bool
  halted :: "live_halt_reason option"

definition report_new :: "block_header option \<Rightarrow> live_report" where
  "report_new c =
     \<lparr>final_checkpoint = c, readiness = Ready, readiness_transitions = [], rollback_order = [],
      apply_order = [], committed_before_fault = [], panics = 0,
      partial_commits_before_recovery = 0, continued_after_budget_exhaustion = False,
      manual_clock_advances = [], verifier_disagreements = 0, shutdown_completed = False,
      halted = None\<rparr>"

definition report_halted :: "block_header option \<Rightarrow> live_halt_reason \<Rightarrow> live_report" where
  "report_halted c reason = (report_new c)\<lparr>readiness := Unavailable, halted := Some reason\<rparr>"

definition report_transition :: "live_readiness \<Rightarrow> live_report \<Rightarrow> live_report" where
  "report_transition to rep =
     (if readiness rep \<noteq> to
      then rep\<lparr>readiness := to, readiness_transitions := readiness_transitions rep @ [to]\<rparr>
      else rep)"

datatype live_head_event = Wake block_header | Disconnect | Reconnect

datatype verifier_status = Match | Disagree | VerifierUnavailable

datatype live_source_error_kind = TransientError | ReconcileError

record ('b, 'e, 's) live_source =
  current_head :: "'s \<Rightarrow> ('e + block_header) \<times> 's"
  block_by_number :: "u64 \<Rightarrow> 's \<Rightarrow> ('e + 'b) \<times> 's"
  block_by_hash :: "block_hash \<Rightarrow> 's \<Rightarrow> ('e + 'b) \<times> 's"
  header_by_number :: "u64 \<Rightarrow> 's \<Rightarrow> ('e + block_header option) \<times> 's"
  source_header_by_hash :: "block_hash \<Rightarrow> 's \<Rightarrow> ('e + block_header option) \<times> 's"
  block_header_of :: "'b \<Rightarrow> block_header"
  block_logs_match_header :: "'b \<Rightarrow> bool"
  source_error_kind :: "'e \<Rightarrow> live_source_error_kind"
  source_error_string :: "'e \<Rightarrow> string"
  verify_recent :: "u64 \<Rightarrow> block_hash \<Rightarrow> 's \<Rightarrow> ('e + verifier_status) \<times> 's"

record ('b, 'k) live_sink =
  sink_commit_range :: "('b, 'k) commit_fn"
  sink_commit_batch :: "chain_batch \<Rightarrow> 'b list \<Rightarrow> 'k \<Rightarrow> (string + unit) \<times> 'k"
  checkpoint :: "'k \<Rightarrow> block_header option \<times> 'k"
  sink_header_at_height :: "u64 \<Rightarrow> 'k \<Rightarrow> block_header option \<times> 'k"
  sink_header_by_hash :: "block_hash \<Rightarrow> 'k \<Rightarrow> block_header option \<times> 'k"

datatype live_error =
    Source string
  | Sink string
  | Cancelled
  | Reconcile string
  | Chain chain_error
  | Backfill backfill_error

section \<open>The window budget\<close>

record window_budget =
  wb_budget :: rpc_budget
  wb_window :: duration
  exhausted_once :: bool

definition window_budget_new :: "live_config \<Rightarrow> live_error + window_budget" where
  "window_budget_new cfg =
     tryR (map_err Backfill (budget_new (- 1) (live_budget_cost_units_per_minute cfg))) (\<lambda>b.
       Inr \<lparr>wb_budget = b, wb_window = budget_window cfg, exhausted_once = False\<rparr>)"

definition as_secs :: "duration \<Rightarrow> u64" where
  "as_secs d = of_nat (d div 10 ^ 9)"

definition window_record ::
    "rpc_method \<Rightarrow> window_budget \<times> live_report \<Rightarrow> (live_error + unit) \<times> window_budget \<times> live_report" where
  "window_record m wr =
     (case wr of (w, rep) \<Rightarrow>
        if exhausted_once w then (Inr (), w, rep)
        else (case budget_record m (default_cost m) (wb_budget w) of
           (Inr _, b) \<Rightarrow> (Inr (), w\<lparr>wb_budget := b\<rparr>, rep)
         | (Inl _, b) \<Rightarrow>
             (let w1 = w\<lparr>wb_budget := b, exhausted_once := True\<rparr>;
                  rep1 = report_transition Unavailable (report_transition Degraded
                    (rep\<lparr>continued_after_budget_exhaustion := True\<rparr>));
                  rep2 = rep1\<lparr>manual_clock_advances :=
                    manual_clock_advances rep1 @ [max (as_secs (wb_window w)) 1]\<rparr>
              in case budget_new (- 1) (- 1) of
                   Inl e \<Rightarrow> (Inl (Backfill e), w1, rep2)
                 | Inr fresh \<Rightarrow>
                     (case budget_record m (default_cost m) fresh of
                        (r, b') \<Rightarrow> (map_err Backfill r, w1\<lparr>wb_budget := b'\<rparr>, rep2)))))"

section \<open>The state of one pass\<close>

record ('s, 'k) pass =
  src :: 's
  snk :: 'k
  budget :: window_budget
  report :: live_report
  polls :: nat

definition record_call :: "rpc_method \<Rightarrow> ('s, 'k) pass \<Rightarrow> (live_error + unit) \<times> ('s, 'k) pass" where
  "record_call m p =
     (case window_record m (budget p, report p) of
        (r, w, rep) \<Rightarrow> (r, p\<lparr>budget := w, report := rep\<rparr>))"

definition ensure_not_cancelled ::
    "(nat \<Rightarrow> bool) \<Rightarrow> ('s, 'k) pass \<Rightarrow> (live_error + unit) \<times> ('s, 'k) pass" where
  "ensure_not_cancelled is_cancelled p =
     (if is_cancelled (polls p) then Inl Cancelled else Inr (), p\<lparr>polls := Suc (polls p)\<rparr>)"

definition set_degraded :: "('s, 'k) pass \<Rightarrow> ('s, 'k) pass" where
  "set_degraded p = p\<lparr>report := report_transition Degraded (report p)\<rparr>"

definition mark_ready_if_healthy :: "live_report \<Rightarrow> live_report" where
  "mark_ready_if_healthy rep =
     (if halted rep = None \<and> verifier_disagreements rep = 0 then report_transition Ready rep else rep)"

text \<open>A call of the source with its error mapped, as \<open>source.m(\<dots>).map_err(\<dots>)?\<close>.\<close>

definition ask ::
    "('s \<Rightarrow> ('e + 'a) \<times> 's) \<Rightarrow> ('e \<Rightarrow> live_error) \<Rightarrow> ('s, 'k) pass \<Rightarrow> (live_error + 'a) \<times> ('s, 'k) pass" where
  "ask m err p = (case m (src p) of (r, s) \<Rightarrow> (map_err err r, p\<lparr>src := s\<rparr>))"

text \<open>A read of the sink.\<close>

definition look :: "('k \<Rightarrow> 'a \<times> 'k) \<Rightarrow> ('s, 'k) pass \<Rightarrow> 'a \<times> ('s, 'k) pass" where
  "look m p = (case m (snk p) of (x, k) \<Rightarrow> (x, p\<lparr>snk := k\<rparr>))"

definition plain_error :: "('b, 'e, 's) live_source \<Rightarrow> 'e \<Rightarrow> live_error" where
  "plain_error S e = Source (source_error_string S e)"

definition source_error :: "('b, 'e, 's) live_source \<Rightarrow> 'e \<Rightarrow> live_error" where
  "source_error S e =
     (case source_error_kind S e of
        TransientError \<Rightarrow> Source (source_error_string S e)
      | ReconcileError \<Rightarrow> Reconcile (source_error_string S e))"

definition mismatch_error :: "u64 \<Rightarrow> live_error" where
  "mismatch_error h = Source (''block/log hash mismatch persisted at height '' @ show_u64 h)"

section \<open>Fetching blocks\<close>

definition validate_or_refetch_number ::
    "('b, 'e, 's) live_source \<Rightarrow> u64 \<Rightarrow> 'b \<Rightarrow> ('s, 'k) pass \<Rightarrow>
      (live_error + block_header \<times> 'b) \<times> ('s, 'k) pass" where
  "validate_or_refetch_number S h block p =
     (if block_logs_match_header S block then (Inr (block_header_of S block, block), p)
      else
        tryS (record_call GetBlockByNumber (set_degraded p)) (\<lambda>_ p.
        tryS (ask (block_by_number S h) (source_error S) p) (\<lambda>block p.
        tryS (record_call GetLogs p) (\<lambda>_ p.
          if \<not> block_logs_match_header S block then (Inl (mismatch_error h), p)
          else (Inr (block_header_of S block, block), p)))))"

definition validate_or_refetch_hash ::
    "('b, 'e, 's) live_source \<Rightarrow> block_header \<Rightarrow> 'b \<Rightarrow> ('s, 'k) pass \<Rightarrow> (live_error + 'b) \<times> ('s, 'k) pass" where
  "validate_or_refetch_hash S expected block p =
     (if block_header_of S block = expected \<and> block_logs_match_header S block then (Inr block, p)
      else
        tryS (record_call GetBlockByHash (set_degraded p)) (\<lambda>_ p.
        tryS (ask (block_by_hash S (hash expected)) (source_error S) p) (\<lambda>block p.
        tryS (record_call GetLogs p) (\<lambda>_ p.
          if block_header_of S block \<noteq> expected \<or> \<not> block_logs_match_header S block
          then (Inl (mismatch_error (height expected)), p)
          else (Inr block, p)))))"

type_synonym ('b, 's, 'k) pushing = "'b coordinator \<times> ('s, 'k) pass"

definition with_coord ::
    "(('s, 'k) pass \<Rightarrow> (live_error + 'a) \<times> ('s, 'k) pass) \<Rightarrow> ('b, 's, 'k) pushing \<Rightarrow>
      (live_error + 'a) \<times> ('b, 's, 'k) pushing" where
  "with_coord m cp = (case m (snd cp) of (r, p) \<Rightarrow> (r, fst cp, p))"

definition push_block ::
    "('b, 'k) live_sink \<Rightarrow> u64 \<Rightarrow> block_header \<times> 'b \<Rightarrow> ('b, 's, 'k) pushing \<Rightarrow>
      (live_error + unit) \<times> ('b, 's, 'k) pushing" where
  "push_block K h hb cp =
     (case tryR (range_new h h) (\<lambda>r. fetched_new r [fst hb] [snd hb]) of
        Inl e \<Rightarrow> (Inl (Backfill e), cp)
      | Inr fetched \<Rightarrow>
          (case push (sink_commit_range K) fetched (fst cp) (snk (snd cp)) of
             (res, c, k) \<Rightarrow>
               let p = (snd cp)\<lparr>snk := k\<rparr>
               in case res of
                    Inl e \<Rightarrow> (Inl (Backfill e), c, p)
                  | Inr progress \<Rightarrow>
                      (Inr (), c,
                       if committed_blocks progress > 0
                       then p\<lparr>report := (report p)\<lparr>apply_order := apply_order (report p) @ [h]\<rparr>\<rparr>
                       else p)))"

definition fetch_and_push_height ::
    "('b, 'e, 's) live_source \<Rightarrow> ('b, 'k) live_sink \<Rightarrow> u64 \<Rightarrow> ('b, 's, 'k) pushing \<Rightarrow>
      (live_error + unit) \<times> ('b, 's, 'k) pushing" where
  "fetch_and_push_height S K h cp =
     tryS (with_coord (\<lambda>p.
         tryS (record_call GetBlockByNumber p) (\<lambda>_ p.
         tryS (ask (block_by_number S h) (source_error S) p) (\<lambda>block p.
         tryS (record_call GetLogs p) (\<lambda>_ p.
           validate_or_refetch_number S h block p)))) cp)
       (\<lambda>hb cp. push_block K h hb cp)"

section \<open>Reconciling one head\<close>

definition live_resolver ::
    "('b, 'e, 's) live_source \<Rightarrow> ('b, 'k) live_sink \<Rightarrow> ('s \<times> 'k) ancestry_resolver" where
  "live_resolver S K =
     \<lparr>header_by_hash = (\<lambda>h (s, k). case source_header_by_hash S h s of
        (r, s) \<Rightarrow> (map_err (\<lambda>e. ResolverError (source_error_string S e)) r, s, k)),
      canonical_header_by_hash = (\<lambda>h (s, k). case sink_header_by_hash K h k of (x, k) \<Rightarrow> (Inr x, s, k)),
      canonical_header_at_height = (\<lambda>n (s, k). case sink_header_at_height K n k of (x, k) \<Rightarrow> (Inr x, s, k))\<rparr>"

text \<open>The loop over the events of a batch, which fetches the blocks to apply.\<close>

fun fetch_events ::
    "('b, 'e, 's) live_source \<Rightarrow> (nat \<Rightarrow> bool) \<Rightarrow> chain_event list \<Rightarrow> 'b list \<Rightarrow> ('s, 'k) pass \<Rightarrow>
      (live_error + 'b list) \<times> ('s, 'k) pass" where
  "fetch_events S cancelled [] blks p = (Inr blks, p)"
| "fetch_events S cancelled (Rollback x # es) blks p =
     tryS (ensure_not_cancelled cancelled p) (\<lambda>_ p.
       fetch_events S cancelled es blks
         (p\<lparr>report := (report p)\<lparr>rollback_order := rollback_order (report p) @ [height x]\<rparr>\<rparr>))"
| "fetch_events S cancelled (Apply x # es) blks p =
     tryS (ensure_not_cancelled cancelled p) (\<lambda>_ p.
     tryS (record_call GetBlockByHash
         (p\<lparr>report := (report p)\<lparr>apply_order := apply_order (report p) @ [height x]\<rparr>\<rparr>)) (\<lambda>_ p.
     tryS (ask (block_by_hash S (hash x)) (source_error S) p) (\<lambda>block p.
     tryS (record_call GetLogs p) (\<lambda>_ p.
     tryS (validate_or_refetch_hash S x block p) (\<lambda>block p.
       fetch_events S cancelled es (blks @ [block]) p)))))"

text \<open>Without a checkpoint, or when it cannot be read, there is nothing to do.\<close>

definition apply_chain_state ::
    "live_config \<Rightarrow> ('b, 'e, 's) live_source \<Rightarrow> ('b, 'k) live_sink \<Rightarrow> (nat \<Rightarrow> bool) \<Rightarrow> block_header \<Rightarrow>
      ('s, 'k) pass \<Rightarrow> (live_error + unit) \<times> ('s, 'k) pass" where
  "apply_chain_state cfg S K cancelled head p =
     (case look (checkpoint K) p of
        (None, p) \<Rightarrow> (Inr (), p)
      | (Some c, p) \<Rightarrow>
          tryS (map_err Chain (from_tip c 256 (lc_max_reorg_depth cfg)), p) (\<lambda>state p.
            case chain_apply (live_resolver S K) head
                   (set_finalized_height (lc_finalized_height cfg) state) (src p, snk p) of
              (Inl e, _, s, k) \<Rightarrow>
                (let p = p\<lparr>src := s, snk := k\<rparr> in
                 case e of
                   MaxDepthExceeded _ \<Rightarrow>
                     (case look (checkpoint K) p of
                        (c, p) \<Rightarrow> (Inr (), p\<lparr>report := report_halted c MaxReorgDepth\<rparr>))
                 | FinalizedBoundary _ _ \<Rightarrow>
                     (case look (checkpoint K) p of
                        (c, p) \<Rightarrow> (Inr (), p\<lparr>report := report_halted c HaltFinalizedBoundary\<rparr>))
                 | _ \<Rightarrow> (Inl (Chain e), p))
            | (Inr batch, _, s, k) \<Rightarrow>
                tryS (fetch_events S cancelled (events batch) [] (p\<lparr>src := s, snk := k\<rparr>)) (\<lambda>blks p.
                  case sink_commit_batch K batch blks (snk p) of
                    (r, k) \<Rightarrow> (map_err Sink r, p\<lparr>snk := k\<rparr>))))"

definition reconcile_current_head ::
    "live_config \<Rightarrow> ('b, 'e, 's) live_source \<Rightarrow> ('b, 'k) live_sink \<Rightarrow> (nat \<Rightarrow> bool) \<Rightarrow>
      ('s, 'k) pass \<Rightarrow> (live_error + unit) \<times> ('s, 'k) pass" where
  "reconcile_current_head cfg S K cancelled p =
     tryS (ensure_not_cancelled cancelled p) (\<lambda>_ p.
     tryS (record_call GetBlockByNumber (set_degraded p)) (\<lambda>_ p.
     tryS (ask (current_head S) (plain_error S) p) (\<lambda>head p.
       apply_chain_state cfg S K cancelled head p)))"

section \<open>Catching up\<close>

definition heights :: "u64 \<Rightarrow> u64 \<Rightarrow> u64 list" where
  "heights f t = map of_nat [unat f ..< Suc (unat t)]"

fun push_heights ::
    "('b, 'e, 's) live_source \<Rightarrow> ('b, 'k) live_sink \<Rightarrow> (nat \<Rightarrow> bool) \<Rightarrow> u64 list \<Rightarrow>
      ('b, 's, 'k) pushing \<Rightarrow> (live_error + unit) \<times> ('b, 's, 'k) pushing" where
  "push_heights S K cancelled [] cp = (Inr (), cp)"
| "push_heights S K cancelled (h # hs) cp =
     tryS (with_coord (ensure_not_cancelled cancelled) cp) (\<lambda>_ cp.
     tryS (fetch_and_push_height S K h cp) (\<lambda>_ cp.
       push_heights S K cancelled hs cp))"

definition catch_up_from_start ::
    "live_config \<Rightarrow> ('b, 'e, 's) live_source \<Rightarrow> ('b, 'k) live_sink \<Rightarrow> (nat \<Rightarrow> bool) \<Rightarrow> block_header \<Rightarrow>
      ('s, 'k) pass \<Rightarrow> (live_error + unit) \<times> ('s, 'k) pass" where
  "catch_up_from_start cfg S K cancelled head p =
     (let f = (case explicit_start cfg of Some n \<Rightarrow> n | None \<Rightarrow> 0) in
      case coordinator_new f (height head) None of
        Inl e \<Rightarrow> (Inl (Backfill e), p)
      | Inr c \<Rightarrow>
          (case push_heights S K cancelled (heights f (height head)) (c, p) of
             (r, _, p) \<Rightarrow> (r, p)))"

text \<open>
  The loop of \<open>catch_up_from_checkpoint\<close> leaves through reconciliation when a fetched block does
  not extend what is committed, or when the source asks for it.
\<close>

definition clear_applies :: "('s, 'k) pass \<Rightarrow> ('s, 'k) pass" where
  "clear_applies p = p\<lparr>report := (report p)\<lparr>apply_order := []\<rparr>\<rparr>"

fun catch_up_heights ::
    "live_config \<Rightarrow> ('b, 'e, 's) live_source \<Rightarrow> ('b, 'k) live_sink \<Rightarrow> (nat \<Rightarrow> bool) \<Rightarrow> u64 list \<Rightarrow>
      ('b, 's, 'k) pushing \<Rightarrow> (live_error + unit) \<times> ('s, 'k) pass" where
  "catch_up_heights cfg S K cancelled [] cp = (Inr (), snd cp)"
| "catch_up_heights cfg S K cancelled (h # hs) cp =
     (case with_coord (ensure_not_cancelled cancelled) cp of
        (Inl e, cp) \<Rightarrow> (Inl e, snd cp)
      | (Inr _, cp) \<Rightarrow>
          (case fetch_and_push_height S K h cp of
             (Inr _, cp) \<Rightarrow> catch_up_heights cfg S K cancelled hs cp
           | (Inl e, cp) \<Rightarrow>
               (case e of
                  Backfill (FetchedSuffixInvalidated _ _ _) \<Rightarrow>
                    reconcile_current_head cfg S K cancelled (clear_applies (snd cp))
                | Reconcile _ \<Rightarrow>
                    reconcile_current_head cfg S K cancelled (clear_applies (snd cp))
                | _ \<Rightarrow> (Inl e, snd cp))))"

definition catch_up_from_checkpoint ::
    "live_config \<Rightarrow> ('b, 'e, 's) live_source \<Rightarrow> ('b, 'k) live_sink \<Rightarrow> (nat \<Rightarrow> bool) \<Rightarrow> block_header \<Rightarrow>
      block_header \<Rightarrow> ('s, 'k) pass \<Rightarrow> (live_error + unit) \<times> ('s, 'k) pass" where
  "catch_up_from_checkpoint cfg S K cancelled c head p =
     (let start = height c + 1 in
      case coordinator_new start (height head) (Some c) of
        Inl e \<Rightarrow> (Inl (Backfill e), p)
      | Inr co \<Rightarrow> catch_up_heights cfg S K cancelled (heights start (height head)) (co, p))"

section \<open>One pass\<close>

text \<open>Storing the final checkpoint in the report and returning it.\<close>

definition finish :: "('b, 'k) live_sink \<Rightarrow> (live_error + unit) \<times> ('s, 'k) pass \<Rightarrow>
    (live_error + live_report) \<times> ('s, 'k) pass" where
  "finish K m =
     tryS m (\<lambda>_ p.
       case look (checkpoint K) p of
         (c, p) \<Rightarrow>
           (let rep = mark_ready_if_healthy ((report p)\<lparr>final_checkpoint := c\<rparr>)
            in (Inr rep, p\<lparr>report := rep\<rparr>)))"

definition follow_head ::
    "live_config \<Rightarrow> ('b, 'e, 's) live_source \<Rightarrow> ('b, 'k) live_sink \<Rightarrow> (nat \<Rightarrow> bool) \<Rightarrow> block_header \<Rightarrow>
      block_header \<Rightarrow> ('s, 'k) pass \<Rightarrow> (live_error + live_report) \<times> ('s, 'k) pass" where
  "follow_head cfg S K cancelled c head p =
     (if height head < height c then
        tryS (record_call GetBlockByNumber p) (\<lambda>_ p.
        tryS (ask (header_by_number S (height head)) (plain_error S) p) (\<lambda>remote p.
          case look (sink_header_at_height K (height head)) p of
            (found, p) \<Rightarrow>
              if (case (remote, found) of
                    (Some remote, Some local) \<Rightarrow> hash remote = hash local
                  | _ \<Rightarrow> False)
              then (let rep = report_transition Degraded ((report p)\<lparr>final_checkpoint := Some c\<rparr>)
                    in (Inr rep, p\<lparr>report := rep\<rparr>))
              else finish K (apply_chain_state cfg S K cancelled head p)))
      else if height head = height c then
        finish K (if hash head \<noteq> hash c then apply_chain_state cfg S K cancelled head p
                  else (Inr (), p))
      else finish K (catch_up_from_checkpoint cfg S K cancelled c head p))"

definition note_head_event :: "live_head_event \<Rightarrow> live_report \<Rightarrow> live_report" where
  "note_head_event e rep =
     (case e of
        Disconnect \<Rightarrow> report_transition Unavailable rep
      | Reconnect \<Rightarrow> rep
      | Wake _ \<Rightarrow> rep)"

definition note_verifier :: "verifier_status \<Rightarrow> ('s, 'k) pass \<Rightarrow> ('s, 'k) pass" where
  "note_verifier v p =
     (if v = Disagree
      then p\<lparr>report := report_transition Degraded
             ((report p)\<lparr>verifier_disagreements := verifier_disagreements (report p) + 1\<rparr>)\<rparr>
      else p)"

definition run_with_cancellation ::
    "live_config \<Rightarrow> ('b, 'e, 's) live_source \<Rightarrow> ('b, 'k) live_sink \<Rightarrow> live_head_event list \<Rightarrow>
      (nat \<Rightarrow> bool) \<Rightarrow> 's \<Rightarrow> 'k \<Rightarrow> (live_error + live_report) \<times> 's \<times> 'k" where
  "run_with_cancellation cfg S K evs cancelled s k =
     (case checkpoint K k of
        (c, k) \<Rightarrow>
          (let rep = fold note_head_event evs (report_new c) in
           if cancelled 0 then (Inl Cancelled, s, k)
           else case window_budget_new cfg of
             Inl e \<Rightarrow> (Inl e, s, k)
           | Inr w \<Rightarrow>
               (case
                  tryS (record_call GetBlockByNumber \<lparr>src = s, snk = k, budget = w, report = rep, polls = 1\<rparr>)
                    (\<lambda>_ p.
                  tryS (ask (current_head S) (plain_error S) p) (\<lambda>head p.
                  tryS (ask (verify_recent S (height head) (hash head)) (plain_error S) p) (\<lambda>v p.
                    case look (checkpoint K) (note_verifier v p) of
                      (None, p) \<Rightarrow>
                        if explicit_start cfg = None
                        then (Inr (report_halted (Some head) MissingExplicitStart), p)
                        else finish K (catch_up_from_start cfg S K cancelled head p)
                    | (Some c, p) \<Rightarrow> follow_head cfg S K cancelled c head p)))
                of (r, p) \<Rightarrow> (r, src p, snk p))))"

definition run ::
    "live_config \<Rightarrow> ('b, 'e, 's) live_source \<Rightarrow> ('b, 'k) live_sink \<Rightarrow> live_head_event list \<Rightarrow>
      's \<Rightarrow> 'k \<Rightarrow> (live_error + live_report) \<times> 's \<times> 'k" where
  "run cfg S K evs s k = run_with_cancellation cfg S K evs (\<lambda>_. False) s k"

end
