(* ===== verification/Live_Correct.thy ===== *)
theory Live_Correct
  imports Live
begin

text \<open>
  Correctness of the live tracker over any store that keeps one canonical chain: what a pass does to
  the persisted chain, whatever the source answers.  The store is the locale \<open>chain_store\<close>; the
  theory Live_Store interprets it on the PostgreSQL sink.
\<close>

section \<open>Headers reached by the walks\<close>

definition resolver_genuine :: "(block_header \<Rightarrow> bool) \<Rightarrow> 'r ancestry_resolver \<Rightarrow> bool" where
  "resolver_genuine genuine R \<longleftrightarrow>
     (\<forall>h r x r'. header_by_hash R h r = (Inr (Some x), r') \<longrightarrow> genuine x)"

definition state_genuine :: "(block_header \<Rightarrow> bool) \<Rightarrow> chain_state \<Rightarrow> bool" where
  "state_genuine genuine s \<longleftrightarrow>
     (\<forall>h x. cache_get (cache s) h = Some x \<longrightarrow> genuine x) \<and>
     (\<forall>k x. bt_get (canonical_by_height s) k = Some x \<longrightarrow> genuine x)"

lemma apfst_map_err_Inr [simp]: "apfst (map_err f) m = (Inr x, r) \<longleftrightarrow> m = (Inr x, r)"
  by (cases m; cases "fst m") auto

lemma parent_for_genuine:
  assumes "resolver_genuine genuine R" and "state_genuine genuine s" and "parent_for R s c r = (Inr p, r')"
  shows "genuine p"
proof -
  have "genuine x" if "local_parent s c = Some x" for x
    using that assms(2) by (auto simp: local_parent_def state_genuine_def Let_def split: option.splits if_splits)
  moreover have "genuine x" if "header_by_hash R h r = (Inr (Some x), r1)" for h r x r1
    using that assms(1) by (auto simp: resolver_genuine_def)
  ultimately show ?thesis
    using assms(3) by (auto simp: parent_for_def try_simps split: option.splits if_splits)
qed

lemma resolve_loop_genuine:
  "resolve_loop R s cur acc r = (Inr (a, path), r') \<Longrightarrow> resolver_genuine genuine R \<Longrightarrow> state_genuine genuine s \<Longrightarrow>
   genuine cur \<Longrightarrow> \<forall>x \<in> set acc. genuine x \<Longrightarrow>
   genuine a \<and> (\<forall>x \<in> set path. genuine x)"
proof (induction "unat (height cur)" arbitrary: cur acc r rule: less_induct)
  case less
  from less.prems(1) show ?case
  proof (cases rule: resolve_loop_cases)
    case found
    then show ?thesis using less.prems by simp
  next
    case (step p r1 r2)
    have g: "genuine p" by (rule parent_for_genuine [OF less.prems(2,3) step(2)])
    have "unat (height p) < unat (height cur)" by (rule parent_for_decreases [OF step(2)])
    from less.hyps [OF this step(3) less.prems(2,3) g] less.prems(4,5) show ?thesis by simp
  qed
qed

text \<open>What all reads of the resolver keep, a whole walk keeps, and its last match was made under it.\<close>

definition resolver_keeps :: "('r \<Rightarrow> bool) \<Rightarrow> 'r ancestry_resolver \<Rightarrow> bool" where
  "resolver_keeps P R \<longleftrightarrow>
     (\<forall>h r. P r \<longrightarrow> P (snd (header_by_hash R h r)) \<and> P (snd (canonical_header_by_hash R h r))) \<and>
     (\<forall>n r. P r \<longrightarrow> P (snd (canonical_header_at_height R n r)))"

lemma resolver_keepsD:
  assumes "resolver_keeps P R" and "P r"
  shows "P (snd (header_by_hash R h r))" "P (snd (canonical_header_by_hash R h r))" "P (snd (canonical_header_at_height R n r))"
  using assms by (simp_all add: resolver_keeps_def)

lemma tryS_keeps:
  assumes "P (snd m)" and "\<And>x s. m = (Inr x, s) \<Longrightarrow> P s \<Longrightarrow> P (snd (k x s))"
  shows "P (snd (tryS m k))"
  using assms by (cases m; cases "fst m") auto

lemma canonical_match_keeps:
  assumes R: "resolver_keeps P R" and "P r"
  shows "P (snd (canonical_match R s x r))"
proof -
  have "P (snd (case at of Some c \<Rightarrow> if hash c = hash x then (tryR (validate_same_header x c) (\<lambda>_. Inr (Some c)), r')
      else (Inr None, r') | None \<Rightarrow> (Inr None, r')))" if "P r'" for at r'
    using that by (simp split: option.split)
  then show ?thesis
    using assms(2) resolver_keepsD [OF R]
    unfolding canonical_match_def
    by (auto intro!: tryS_keeps [where P = P] split: option.split)
qed

lemma parent_for_keeps:
  assumes R: "resolver_keeps P R" and "P r"
  shows "P (snd (parent_for R s x r))"
proof -
  have "P (snd (case local_parent s x of Some p \<Rightarrow> (Inr (Some p), r) | None \<Rightarrow> apfst (map_err Resolver) (header_by_hash R (parent_hash x) r)))"
    using assms(2) resolver_keepsD(1) [OF R] by (simp split: option.split)
  then show ?thesis
    using assms(2) unfolding parent_for_def
    by (simp add: tryS_keeps [where P = P] split: option.split)
qed

lemma resolve_loop_keeps:
  "resolver_keeps P R \<Longrightarrow> P r \<Longrightarrow> P (snd (resolve_loop R s cur acc r))"
proof (induction R s cur acc r rule: resolve_loop.induct)
  case (1 R s cur acc r)
  show ?case
  proof (subst resolve_loop.simps, rule tryS_keeps [where P = P])
    show "P (snd (canonical_match R s cur r))" by (rule canonical_match_keeps [OF 1(2,3)])
    fix m r1
    assume m: "canonical_match R s cur r = (Inr m, r1)" and r1: "P r1"
    show "P (snd (case m of Some canonical \<Rightarrow> (Inr (canonical, acc), r1)
        | None \<Rightarrow> let pushed = acc @ [cur] in
            if of_nat (length pushed) > max_reorg_depth s then (Inl (MaxDepthExceeded (max_reorg_depth s)), r1)
            else tryS (parent_for R s cur r1) (\<lambda>p r. resolve_loop R s p pushed r)))"
    proof (cases m)
      case None
      have "P (snd (tryS (parent_for R s cur r1) (\<lambda>p r. resolve_loop R s p (acc @ [cur]) r)))"
        if d: "\<not> of_nat (length (acc @ [cur])) > max_reorg_depth s"
      proof (rule tryS_keeps [where P = P])
        show "P (snd (parent_for R s cur r1))" by (rule parent_for_keeps [OF 1(2) r1])
        show "P (snd (resolve_loop R s p (acc @ [cur]) r2))" if "parent_for R s cur r1 = (Inr p, r2)" "P r2" for p r2
          using 1(1) [OF m None refl d that(1) 1(2) that(2)] .
      qed
      with None r1 show ?thesis by (simp add: Let_def)
    qed (use r1 in simp)
  qed
qed

lemma rollback_loop_keeps:
  "resolver_keeps P R \<Longrightarrow> P r \<Longrightarrow> P (snd (rollback_loop R s cur anc acc r))"
proof (induction R s cur anc acc r rule: rollback_loop.induct)
  case (1 R s cur anc acc r)
  have "P (snd (tryS (parent_for R s cur r) (\<lambda>p r. rollback_loop R s p anc (acc @ [cur]) r)))"
    if d: "height anc < height cur" "\<not> of_nat (length (acc @ [cur])) > max_reorg_depth s"
  proof (rule tryS_keeps [where P = P])
    show "P (snd (parent_for R s cur r))" by (rule parent_for_keeps [OF 1(2,3)])
    show "P (snd (rollback_loop R s p anc (acc @ [cur]) r2))" if "parent_for R s cur r = (Inr p, r2)" "P r2" for p r2
      using 1(1) [OF d(1) refl d(2) that(1) 1(2) that(2)] .
  qed
  then show ?case using 1(3) by (subst rollback_loop.simps) (simp add: Let_def)
qed

lemma branch_batch_keeps:
  assumes R: "resolver_keeps P R" and "P r"
  shows "P (snd (branch_batch R s t n r))"
  unfolding branch_batch_def resolve_common_ancestor_def
proof (rule tryS_keeps [where P = P])
  show "P (snd (resolve_loop R s n [] r))" by (rule resolve_loop_keeps [OF assms])
  fix ap r1
  assume r1: "P r1"
  have path: "P (snd (rollback_path R s t a r1))" for a
    unfolding rollback_path_def
    by (rule tryS_keeps [where P = P], rule rollback_loop_keeps [OF R r1]) (simp split: prod.split)
  show "P (snd ((\<lambda>(ancestor, replacement_descending) r.
     tryS (enforce_finalized_boundary s ancestor, r) (\<lambda>_ r.
     tryS (rollback_path R s t ancestor r) (\<lambda>rollbacks r.
       let applies = rev replacement_descending;
           es = map Rollback rollbacks @ map Apply applies
       in (Inr \<lparr>transition = branch_transition es, common_ancestor = Some ancestor, events = es\<rparr>, r)))) ap r1))"
  proof (cases ap)
    case (Pair a path0)
    show ?thesis unfolding Pair prod.case
    proof (rule tryS_keeps [where P = P])
      show "P (snd (tryS (rollback_path R s t a r2) (\<lambda>rollbacks r.
         let applies = rev path0; es = map Rollback rollbacks @ map Apply applies
         in (Inr \<lparr>transition = branch_transition es, common_ancestor = Some a, events = es\<rparr>, r))))"
        if "(enforce_finalized_boundary s a, r1) = (Inr u, r2)" for u r2
        using that path by (intro tryS_keeps [where P = P]) (simp_all add: Let_def)
    qed (simp add: r1)
  qed
qed

lemma chain_apply_keeps:
  assumes "resolver_keeps P R" and "P r" and "chain_apply R head s r = (res, s', r')"
  shows "P r'"
proof -
  have "P (snd (branch_batch R s t head r))" for t by (rule branch_batch_keeps [OF assms(1,2)])
  then have "P r2" if "branch_batch R s t head r = (x, r2)" for t x r2 using that by (metis snd_conv)
  then show ?thesis
    using assms(2,3)
    by (auto simp: chain_apply_def Let_def split: if_splits option.splits prod.splits sum.splits)
qed

lemma resolve_loop_matched:
  "resolve_loop R s cur acc r = (Inr (a, path), r') \<Longrightarrow> resolver_keeps P R \<Longrightarrow> P r \<Longrightarrow>
   \<exists>r0 r1. P r0 \<and> canonical_match R s a r0 = (Inr (Some a), r1)"
proof (induction R s cur acc r rule: resolve_loop.induct)
  case (1 R s cur acc r)
  from "1.prems"(1) obtain m r1 where m: "canonical_match R s cur r = (Inr m, r1)"
    by (subst (asm) resolve_loop.simps) (auto simp: try_simps)
  show ?case
  proof (cases m)
    case (Some c)
    with m have "c = cur" by (auto dest: canonical_match_eq)
    with "1.prems"(1) m Some have "a = cur" by (subst (asm) resolve_loop.simps) simp
    with m Some \<open>c = cur\<close> "1.prems"(3) show ?thesis by blast
  next
    case None
    with "1.prems"(1) m obtain p r2 where
      d: "\<not> of_nat (length (acc @ [cur])) > max_reorg_depth s" and
      p: "parent_for R s cur r1 = (Inr p, r2)" and
      rest: "resolve_loop R s p (acc @ [cur]) r2 = (Inr (a, path), r')"
      by (subst (asm) resolve_loop.simps) (auto simp: try_simps Let_def split: if_splits)
    have "P r1" using canonical_match_keeps [OF "1.prems"(2,3), of s cur] m by simp
    then have "P r2" using parent_for_keeps [OF "1.prems"(2), of r1 s cur] p by simp
    from "1.IH" [OF m None refl d p rest "1.prems"(2) this] show ?thesis .
  qed
qed

lemma rollback_loop_genuine:
  "rollback_loop R s cur anc acc r = (Inr (c, path), r') \<Longrightarrow> resolver_genuine genuine R \<Longrightarrow> state_genuine genuine s \<Longrightarrow>
   genuine cur \<Longrightarrow> \<forall>x \<in> set acc. genuine x \<Longrightarrow> \<forall>x \<in> set path. genuine x"
proof (induction "unat (height cur)" arbitrary: cur acc r rule: less_induct)
  case less
  from less.prems(1) show ?case
  proof (cases rule: rollback_loop_cases)
    case reached
    then show ?thesis using less.prems by simp
  next
    case (step p r1 r2)
    have g: "genuine p" by (rule parent_for_genuine [OF less.prems(2,3) step(3)])
    have "unat (height p) < unat (height cur)" by (rule parent_for_decreases [OF step(3)])
    from less.hyps [OF this step(4) less.prems(2,3) g] less.prems(4,5) show ?thesis by simp
  qed
qed

lemma branch_batch_genuine:
  assumes "branch_batch R s t n r = (Inr b, r')" and "resolver_genuine genuine R" and "state_genuine genuine s"
    and "genuine t" and "genuine n" and "resolver_keeps P R" and "P r"
  shows "\<exists>a. common_ancestor b = Some a \<and> genuine a \<and> (\<forall>e \<in> set (events b). genuine (event_header e)) \<and>
    (\<exists>r0 r1. P r0 \<and> canonical_match R s a r0 = (Inr (Some a), r1))"
proof -
  from assms(1) obtain a path rbs cur r1 r2 where
    p: "resolve_loop R s n [] r = (Inr (a, path), r1)" and
    q: "rollback_loop R s t a [] r1 = (Inr (cur, rbs), r2)" and
    b: "common_ancestor b = Some a" "events b = map Rollback rbs @ map Apply (rev path)"
    by (auto simp: branch_batch_def resolve_common_ancestor_def rollback_path_def try_simps Let_def split: if_splits)
  have "genuine a" "\<forall>x \<in> set path. genuine x"
    using resolve_loop_genuine [OF p assms(2,3,5)] by simp_all
  moreover have "\<forall>x \<in> set rbs. genuine x"
    using rollback_loop_genuine [OF q assms(2,3,4)] by simp
  ultimately show ?thesis using b resolve_loop_matched [where P = P, OF p assms(6,7)] by auto
qed

section \<open>The state that a pass builds from its checkpoint\<close>

lemma from_tip_fields:
  assumes "from_tip c n d = Inr s"
  shows "tip s = Some c" "max_reorg_depth s = d" "d \<noteq> 0" "finalized_height s = None"
    "is_known_canonical s x \<longleftrightarrow> x = c" "genuine c \<Longrightarrow> state_genuine genuine s"
proof -
  from assms obtain s0 where s0: "chain_new n d = Inr s0" and s: "s = (insert_canonical c s0)\<lparr>tip := Some c\<rparr>"
    by (auto simp: from_tip_def try_simps)
  from s0 have n: "d \<noteq> 0" "s0 = \<lparr>cache = cache_new n, max_reorg_depth = d, finalized_height = None, tip = None,
      canonical_by_height = bt_new, canonical_hashes = {}\<rparr>"
    by (auto simp: chain_new_def split: if_splits)
  show "tip s = Some c" "max_reorg_depth s = d" "d \<noteq> 0" "finalized_height s = None"
    using s n by (simp_all add: insert_canonical_def)
  have bt: "bt_get (canonical_by_height s) k = (if k = height c then Some c else None)" for k
    using s n by (simp add: insert_canonical_def)
  have ch: "canonical_hashes s = {hash c}" using s n by (simp add: insert_canonical_def)
  show "is_known_canonical s x \<longleftrightarrow> x = c"
    using ch by (auto simp: is_known_canonical_def bt)
  have "cache_get (cache_new n) h = None" for h by (simp add: cache_get_def cache_new_def)
  then have "cache_get (cache s) h = Some y \<Longrightarrow> y = c" for h y
    using s n cache_get_insert_other [of h c "cache_new n"]
    by (cases "h = hash c") (auto simp: insert_canonical_def)
  then show "genuine c \<Longrightarrow> state_genuine genuine s"
    by (auto simp: state_genuine_def bt split: if_splits)
qed

text \<open>
  The persisted chain and the rollbacks of a batch: descending from its tip through genuine parents
  to one of its blocks retraces exactly its upper part.
\<close>

lemma branch_retraces:
  assumes asc: "ascends v" and v: "v \<noteq> []" "last v = c" and br: "branch c rbs a"
    and above: "\<forall>x \<in> set rbs. height a < height x" and a: "a \<in> set v"
    and gen: "names_blocks genuine" "\<forall>x \<in> set v \<union> set rbs. genuine x"
  shows "\<exists>low. v = low @ a # rev rbs"
proof -
  have "successively links (rev v)" using asc by (simp add: ascends_def successively_rev)
  moreover have "hd (rev v) = c" using v by (simp add: hd_rev)
  moreover have "inj_on hash (set (rev v) \<union> set rbs \<union> {a})"
    using gen a by (auto simp: inj_on_def names_blocks_def)
  ultimately consider zs where "rev v = rbs @ a # zs" | zs where "rbs = rev v @ zs"
    using branch_prefix [OF br, of "rev v"] v(1) by auto
  then show ?thesis
  proof cases
    case 1
    then have "v = rev (rbs @ a # zs)" by (metis rev_rev_ident)
    then show ?thesis by (intro exI [of _ "rev zs"]) simp
  next
    case 2
    with a above show ?thesis by auto
  qed
qed

section \<open>The persisted chain\<close>

text \<open>
  How the canonical chain of a store may move during a pass: it is extended by linked blocks, or its
  upper part is replaced by linked blocks, at most \<open>max_reorg_depth\<close> of each and nothing at or below
  the finalized height.
\<close>

inductive evolves :: "live_config \<Rightarrow> block_header list \<Rightarrow> block_header list \<Rightarrow> bool" for cfg where
  stay: "evolves cfg v v"
| extend: "evolves cfg v w \<Longrightarrow> ascends (w @ hs) \<Longrightarrow> evolves cfg v (w @ hs)"
| replace: "evolves cfg v (low @ a # ups) \<Longrightarrow> ascends (low @ a # aps) \<Longrightarrow>
    length ups \<le> unat (lc_max_reorg_depth cfg) \<Longrightarrow> length aps \<le> unat (lc_max_reorg_depth cfg) \<Longrightarrow>
    (\<And>f x. lc_finalized_height cfg = Some f \<Longrightarrow> x \<in> set ups \<Longrightarrow> f < height x) \<Longrightarrow>
    evolves cfg v (low @ a # aps)"

lemma evolves_trans: "evolves cfg v w \<Longrightarrow> evolves cfg u v \<Longrightarrow> evolves cfg u w"
  by (induction rule: evolves.induct) (auto intro: evolves.intros)

lemma evolves_ascends: "evolves cfg v w \<Longrightarrow> ascends v \<Longrightarrow> ascends w"
  by (induction rule: evolves.induct) auto

text \<open>The source names blocks by their hashes: all headers it returns are genuine.\<close>

definition source_genuine :: "(block_header \<Rightarrow> bool) \<Rightarrow> ('b, 'e, 's) live_source \<Rightarrow> bool" where
  "source_genuine genuine S \<longleftrightarrow>
     (\<forall>s x s'. current_head S s = (Inr x, s') \<longrightarrow> genuine x) \<and>
     (\<forall>h s b s'. block_by_number S h s = (Inr b, s') \<longrightarrow> genuine (block_header_of S b)) \<and>
     (\<forall>h s x s'. source_header_by_hash S h s = (Inr (Some x), s') \<longrightarrow> genuine x)"

text \<open>
  A store that keeps one canonical chain.  Any read may fail, and then finds nothing.  \<open>anchored\<close> says that
  the sink knows the end of a chain that is not empty; it then takes no block 0.
\<close>

locale chain_store =
  fixes K :: "('b, 'k) live_sink" and hdr :: "'b \<Rightarrow> block_header"
    and genuine :: "block_header \<Rightarrow> bool" and inv :: "'k \<Rightarrow> bool" and anchored :: "'k \<Rightarrow> bool"
    and view :: "'k \<Rightarrow> block_header list"
  assumes names: "inv k \<Longrightarrow> names_blocks genuine"
    and view_ok: "inv k \<Longrightarrow> ascends (view k) \<and> (\<forall>x \<in> set (view k). genuine x \<and> height x \<noteq> - 1)"
    and checkpoint_tip: "inv k \<Longrightarrow> checkpoint K k = (c, k') \<Longrightarrow>
      inv k' \<and> view k' = view k \<and> (anchored k \<longrightarrow> anchored k') \<and> (c = None \<or> c = tip_of (view k))"
    and at_height: "inv k \<Longrightarrow> sink_header_at_height K n k = (x, k') \<Longrightarrow>
      inv k' \<and> view k' = view k \<and> (\<forall>y. x = Some y \<longrightarrow> y \<in> set (view k))"
    and by_hash: "inv k \<Longrightarrow> sink_header_by_hash K h k = (x, k') \<Longrightarrow>
      inv k' \<and> view k' = view k \<and> (\<forall>y. x = Some y \<longrightarrow> y \<in> set (view k))"
    and commit_range: "inv k \<Longrightarrow> fetched_ok f \<Longrightarrow> length (fr_headers f) = 1 \<Longrightarrow>
      ascends (view k @ fr_headers f) \<Longrightarrow> map hdr (fr_logs f) = fr_headers f \<Longrightarrow>
      \<forall>x \<in> set (fr_headers f). genuine x \<Longrightarrow> sink_commit_range K f k = (r, k') \<Longrightarrow>
      inv k' \<and> (view k' = view k \<or> view k' = view k @ fr_headers f) \<and>
      (\<forall>u. r = Inr u \<longrightarrow> view k' = view k @ fr_headers f)"
    and refuse_genesis: "inv k \<Longrightarrow> anchored k \<Longrightarrow> view k \<noteq> [] \<Longrightarrow> fetched_ok f \<Longrightarrow> from_block (fr_range f) = 0 \<Longrightarrow>
      length (fr_headers f) = 1 \<Longrightarrow> map hdr (fr_logs f) = fr_headers f \<Longrightarrow> sink_commit_range K f k = (r, k') \<Longrightarrow>
      inv k' \<and> view k' = view k \<and> (\<exists>e. r = Inl e)"
    and commit_batch: "inv k \<Longrightarrow> view k = low @ a # ups \<Longrightarrow>
      events b = map Rollback (rev ups) @ map Apply aps \<Longrightarrow> events b \<noteq> [] \<Longrightarrow>
      common_ancestor b = Some a \<Longrightarrow> ascends (a # aps) \<Longrightarrow> \<forall>x \<in> set aps. genuine x \<Longrightarrow>
      map hdr bs = aps \<Longrightarrow> sink_commit_batch K b bs k = (res, k') \<Longrightarrow>
      inv k' \<and> (view k' = view k \<or> view k' = low @ a # aps) \<and>
      (\<forall>u. res = Inr u \<longrightarrow> view k' = low @ a # aps)"
    and commit_nothing: "inv k \<Longrightarrow> events b = [] \<Longrightarrow> sink_commit_batch K b bs k = (res, k') \<Longrightarrow>
      inv k' \<and> view k' = view k"

section \<open>Steps that leave the store alone\<close>

definition keeps_store :: "(('s, 'k) pass \<Rightarrow> ('e + 'a) \<times> ('s, 'k) pass) \<Rightarrow> bool" where
  "keeps_store m \<longleftrightarrow> (\<forall>p r p'. m p = (r, p') \<longrightarrow> snk p' = snk p)"

lemma keeps_storeD: "keeps_store m \<Longrightarrow> m p = (r, p') \<Longrightarrow> snk p' = snk p"
  by (auto simp: keeps_store_def)

lemma keeps_store_tryS [intro]:
  assumes "keeps_store m" and "\<And>x. keeps_store (k x)"
  shows "keeps_store (\<lambda>p. tryS (m p) k)"
proof -
  have "snk p' = snk p" if "tryS (m p) k = (r, p')" for p r p'
    using that assms by (cases "m p"; cases "fst (m p)") (auto simp: keeps_store_def)
  then show ?thesis by (simp add: keeps_store_def)
qed

lemma keeps_store_basic [intro]:
  "keeps_store (record_call m)" "keeps_store (ensure_not_cancelled ic)" "keeps_store (ask f err)"
  "keeps_store (\<lambda>p. (r, p))"
  by (auto simp: keeps_store_def record_call_def ensure_not_cancelled_def ask_def split: prod.splits)

lemma keeps_store_if [intro]: "keeps_store m \<Longrightarrow> keeps_store n \<Longrightarrow> keeps_store (\<lambda>p. if b then m p else n p)"
  by (simp add: keeps_store_def)

lemma keeps_store_degraded [intro]: "keeps_store m \<Longrightarrow> keeps_store (\<lambda>p. m (set_degraded p))"
  by (simp add: keeps_store_def set_degraded_def)

lemma keeps_store_report [intro]: "keeps_store m \<Longrightarrow> keeps_store (\<lambda>p. m (p\<lparr>report := g p\<rparr>))"
  by (simp add: keeps_store_def)

lemma keeps_store_refetch [intro]:
  "keeps_store (validate_or_refetch_number S h blk)" "keeps_store (validate_or_refetch_hash S x blk)"
  unfolding validate_or_refetch_number_def validate_or_refetch_hash_def by (auto intro!: keeps_store_if keeps_store_tryS)

lemma keeps_store_events [intro]: "keeps_store (fetch_events S ic es bs)"
proof (induction es arbitrary: bs)
  case Nil
  show ?case by (simp add: keeps_store_def)
next
  case (Cons e es)
  show ?case
  proof (cases e)
    case (Apply x)
    show ?thesis unfolding Apply fetch_events.simps by (intro keeps_store_tryS keeps_store_report Cons.IH) auto
  next
    case (Rollback x)
    show ?thesis unfolding Rollback fetch_events.simps by (intro keeps_store_tryS keeps_store_report Cons.IH) auto
  qed
qed

text \<open>The blocks fetched for a batch have the headers that it applies.\<close>

lemma refetch_hash_header:
  "validate_or_refetch_hash S x blk p = (Inr b, p') \<Longrightarrow> block_header_of S b = x"
  by (auto simp: validate_or_refetch_hash_def try_simps split: if_splits)

fun applied :: "chain_event list \<Rightarrow> block_header list" where
  "applied [] = []"
| "applied (Rollback x # es) = applied es"
| "applied (Apply x # es) = x # applied es"

lemma applied_reorg [simp]: "applied (map Rollback rbs @ map Apply aps) = aps"
proof -
  have "applied (map Apply aps) = aps" by (induction aps) auto
  then show ?thesis by (induction rbs) auto
qed

lemma fetch_events_headers:
  "fetch_events S ic es bs p = (Inr bs', p') \<Longrightarrow>
   map (block_header_of S) bs' = map (block_header_of S) bs @ applied es"
proof (induction es arbitrary: bs p)
  case (Cons e es)
  show ?case
  proof (cases e)
    case (Apply x)
    with Cons.prems obtain b0 p1 b p2 where "validate_or_refetch_hash S x b0 p1 = (Inr b, p2)"
      "fetch_events S ic es (bs @ [b]) p2 = (Inr bs', p')"
      by (auto simp: try_simps)
    then show ?thesis using Cons.IH Apply by (auto dest: refetch_hash_header)
  next
    case (Rollback x)
    with Cons.prems Cons.IH show ?thesis by (auto simp: try_simps)
  qed
qed simp

section \<open>Applying a head\<close>

lemma ascends_replace: "ascends (low @ a # ups) \<Longrightarrow> ascends (a # aps) \<Longrightarrow> ascends (low @ a # aps)"
  unfolding ascends_append by simp

lemma canonical_match_source:
  assumes "canonical_match R s a r0 = (Inr (Some c), r1)" and "resolver_keeps P R" and "P r0"
  shows "is_known_canonical s a \<or> (\<exists>r r'. P r \<and> canonical_header_by_hash R (hash a) r = (Inr (Some c), r')) \<or>
    (\<exists>r r'. P r \<and> canonical_header_at_height R (height a) r = (Inr (Some c), r'))"
proof (cases "is_known_canonical s a")
  case False
  with assms(1) obtain by_hash r2 where h: "canonical_header_by_hash R (hash a) r0 = (Inr by_hash, r2)"
    by (auto simp: canonical_match_def try_simps)
  have r2: "P r2" using assms(2,3) h unfolding resolver_keeps_def by (metis snd_conv)
  show ?thesis
  proof (cases by_hash)
    case (Some x)
    with assms False h show ?thesis by (auto simp: canonical_match_def try_simps)
  next
    case None
    with assms(1) False h r2 show ?thesis
      by (auto simp: canonical_match_def try_simps split: option.splits if_splits)
  qed
qed simp

context chain_store
begin

lemma reads_keep_view: "resolver_keeps (\<lambda>(r, k). inv k \<and> view k = v) (live_resolver S K)"
  unfolding resolver_keeps_def
  by (auto simp: live_resolver_def split: prod.splits dest: at_height by_hash)

lemma resolver_finds_canonical:
  assumes "from_tip c n d = Inr s" and "c \<in> set v" and "inv (snd r0)" "view (snd r0) = v"
    and "canonical_match (live_resolver S K) (set_finalized_height f s) a r0 = (Inr (Some a), r1)"
  shows "a \<in> set v"
proof -
  have "is_known_canonical (set_finalized_height f s) a \<longleftrightarrow> a = c"
    using from_tip_fields(5) [OF assms(1), of a] by (simp add: is_known_canonical_def set_finalized_height_def)
  moreover have "case r0 of (r, k) \<Rightarrow> inv k \<and> view k = v" using assms(3,4) by (cases r0) simp
  ultimately show ?thesis
    using canonical_match_source [OF assms(5) reads_keep_view [of v]] assms(2)
    by (fastforce simp: live_resolver_def split: prod.splits dest: at_height by_hash)
qed

lemma head_batch:
  assumes k: "inv k" and S: "source_genuine genuine S" and head: "genuine head"
    and c: "tip_of (view k) = Some c" and s: "from_tip c 256 (lc_max_reorg_depth cfg) = Inr s"
    and app: "chain_apply (live_resolver S K) head (set_finalized_height (lc_finalized_height cfg) s) (r, k) = (Inr b, s', r')"
    and ne: "events b \<noteq> []"
  obtains low a ups aps where "view k = low @ a # ups" "common_ancestor b = Some a"
    "events b = map Rollback (rev ups) @ map Apply aps" "ascends (a # aps)" "\<forall>x \<in> set aps. genuine x"
    "length ups \<le> unat (lc_max_reorg_depth cfg)" "length aps \<le> unat (lc_max_reorg_depth cfg)"
    "\<And>f x. lc_finalized_height cfg = Some f \<Longrightarrow> x \<in> set ups \<Longrightarrow> f < height x"
proof -
  let ?s = "set_finalized_height (lc_finalized_height cfg) s" and ?R = "live_resolver S K"
  note fields = from_tip_fields [OF s]
  have v: "view k \<noteq> []" "last (view k) = c" using c by (auto simp: tip_of_def split: if_splits)
  then have cv: "c \<in> set (view k)" by auto
  have asc: "ascends (view k)" and gv: "\<forall>x \<in> set (view k). genuine x" and "height c \<noteq> - 1"
    using view_ok [OF k] cv by auto
  have gs: "state_genuine genuine ?s"
    using fields(6) [of genuine] gv cv by (simp add: state_genuine_def set_finalized_height_def)
  have gR: "resolver_genuine genuine ?R"
    using S unfolding resolver_genuine_def live_resolver_def source_genuine_def
    by (auto simp: map_err_Inr split: prod.splits) blast
  have f: "tip ?s = Some c" "max_reorg_depth ?s = lc_max_reorg_depth cfg" "finalized_height ?s = lc_finalized_height cfg"
    using fields by (simp_all add: set_finalized_height_def)
  have d1: "1 \<le> unat (lc_max_reorg_depth cfg)"
    using fields(3) by (metis Suc_le_eq One_nat_def unat_gt_0)
  from app show ?thesis
  proof (cases rule: chain_apply_cases)
    case duplicate
    with ne show ?thesis by simp
  next
    case bootstrap
    with f show ?thesis by simp
  next
    case (extend t)
    with f have t: "t = c" by simp
    have "links head c"
      using extend(2,3) t \<open>height c \<noteq> - 1\<close> by (intro links_intro) (auto simp: eq_neg_iff_add_eq_0)
    then show ?thesis
      using extend t v d1 head by (intro that [of "butlast (view k)" c "[]" "[head]"]) (auto simp: ascends_def)
  next
    case (branch t)
    with f have t: "t = c" by simp
    have here: "case (r, k) of (r, k') \<Rightarrow> inv k' \<and> view k' = view k" using k by simp
    from branch_batch_genuine [OF branch(4) gR gs _ _ reads_keep_view here, unfolded t] gv cv head obtain a r0 r1 where
      a: "common_ancestor b = Some a" "genuine a" "\<forall>e \<in> set (events b). genuine (event_header e)"
      and m: "inv (snd r0)" "view (snd r0) = view k" "canonical_match ?R ?s a r0 = (Inr (Some a), r1)"
      by (auto simp: case_prod_beta)
    from branch_batch_shape [OF branch(4)] a(1) obtain rbs aps where
      ev: "events b = map Rollback rbs @ map Apply aps" and sh: "reorg_shape ?s c head a rbs aps" by (auto simp: t)
    have av: "a \<in> set (view k)" by (rule resolver_finds_canonical [OF s cv m])
    have ge: "\<forall>x \<in> set rbs. genuine x" "\<forall>x \<in> set aps. genuine x" using a(3) by (simp_all add: ev ball_Un)
    then have g: "\<forall>x \<in> set (view k) \<union> set rbs. genuine x" using gv by auto
    have above: "\<forall>x \<in> set rbs. height a < height x" and br: "branch c rbs a" using sh by (auto simp: reorg_shape_def)
    from branch_retraces [OF asc v br above av names [OF k] g] obtain low where "view k = low @ a # rev rbs" ..
    moreover have "f' < height x" if "lc_finalized_height cfg = Some f'" "x \<in> set (rev rbs)" for f' x
      using sh above f that by (fastforce simp: reorg_shape_def)
    ultimately show ?thesis
      using sh a(1) ge ev f by (intro that [of low a "rev rbs" aps]) (auto simp: reorg_shape_def)
  qed
qed

lemma look_checkpoint:
  assumes "inv (snk p)" and "look (checkpoint K) p = (c, p')"
  shows "inv (snk p')" "view (snk p') = view (snk p)" "anchored (snk p) \<Longrightarrow> anchored (snk p')"
    "c = None \<or> c = tip_of (view (snk p))" "src p' = src p"
  using assms checkpoint_tip by (auto simp: look_def split: prod.splits)

lemma apply_head_evolves:
  assumes k0: "inv (snk p0)" and S: "source_genuine genuine S" "block_header_of S = hdr" and head: "genuine head"
    and run: "apply_chain_state cfg S K ic head p0 = (r, p')"
  shows "inv (snk p') \<and> evolves cfg (view (snk p0)) (view (snk p'))"
proof -
  obtain c0 p where lk: "look (checkpoint K) p0 = (c0, p)" by (rule prod.exhaust)
  note k = look_checkpoint(1) [OF k0 lk] and v = look_checkpoint(2) [OF k0 lk]
  have stay: ?thesis if "inv (snk p')" "view (snk p') = view (snk p)" using that v by (simp add: evolves.stay)
  show ?thesis
  proof (cases c0)
    case None
    with run lk have "p' = p" by (simp add: apply_chain_state_def)
    with k show ?thesis by (intro stay) simp_all
  next
    case (Some c)
    have tip: "tip_of (view (snk p)) = Some c" using look_checkpoint(4) [OF k0 lk] Some v by simp
    show ?thesis
    proof (cases "from_tip c 256 (lc_max_reorg_depth cfg)")
      case (Inl e)
      with run lk Some have "p' = p" by (simp add: apply_chain_state_def)
      with k show ?thesis by (intro stay) simp_all
    next
      case s: (Inr s)
      obtain res s' src' k1 where app: "chain_apply (live_resolver S K) head
          (set_finalized_height (lc_finalized_height cfg) s) (src p, snk p) = (res, s', src', k1)" by (metis prod_cases4)
      have "case (src', k1) of (r, k') \<Rightarrow> inv k' \<and> view k' = view (snk p)"
        by (rule chain_apply_keeps [OF reads_keep_view _ app]) (simp add: k)
      then have k1: "inv k1" "view k1 = view (snk p)" by simp_all
      show ?thesis
      proof (cases res)
        case (Inl e)
        obtain c1 p1 where lk1: "look (checkpoint K) (p\<lparr>src := src', snk := k1\<rparr>) = (c1, p1)" by (rule prod.exhaust)
        have "inv (snk p1)" "view (snk p1) = view (snk p)" using look_checkpoint(1,2) [OF _ lk1] k1 by simp_all
        with run lk Some s app Inl lk1 k1 show ?thesis
          by (intro stay) (cases e; auto simp: apply_chain_state_def Let_def)+
      next
        case (Inr b)
        obtain fr p1 where ev: "fetch_events S ic (events b) [] (p\<lparr>src := src', snk := k1\<rparr>) = (fr, p1)" by fastforce
        have p1: "snk p1 = k1" using keeps_storeD [OF keeps_store_events ev] by simp
        show ?thesis
        proof (cases fr)
          case (Inl e)
          with run lk Some s app Inr ev have "p' = p1" by (simp add: apply_chain_state_def)
          with p1 k1 show ?thesis by (intro stay) simp_all
        next
          case blks: (Inr bs)
          obtain cr k' where com: "sink_commit_batch K b bs k1 = (cr, k')" by fastforce
          from run lk Some s app Inr ev blks com p1 have p': "snk p' = k'"
            by (auto simp: apply_chain_state_def)
          show ?thesis
          proof (cases "events b = []")
            case True
            from commit_nothing [OF k1(1) True com] k1(2) show ?thesis by (intro stay) (simp_all add: p')
          next
            case False
            from head_batch [OF k S(1) head tip s app [unfolded Inr] False]
            obtain low a ups aps where sh: "view (snk p) = low @ a # ups" "common_ancestor b = Some a"
              "events b = map Rollback (rev ups) @ map Apply aps" "ascends (a # aps)" "\<forall>x \<in> set aps. genuine x"
              "length ups \<le> unat (lc_max_reorg_depth cfg)" "length aps \<le> unat (lc_max_reorg_depth cfg)"
              "\<And>f x. lc_finalized_height cfg = Some f \<Longrightarrow> x \<in> set ups \<Longrightarrow> f < height x" by blast
            have "map hdr bs = aps"
              using fetch_events_headers [OF ev [unfolded blks]] sh(3) S(2) by simp
            from commit_batch [OF k1(1) _ sh(3) False sh(2,4,5) this com] sh(1) k1(2) have
              "inv k'" "view k' = view (snk p) \<or> view k' = low @ a # aps" by auto
            moreover have asc: "ascends (low @ a # aps)"
              using view_ok [OF k] sh(1,4) by (auto intro: ascends_replace)
            have "evolves cfg (view (snk p)) (low @ a # ups)"
              using evolves.stay [of cfg "view (snk p)"] sh(1) by simp
            then have "evolves cfg (view (snk p)) (low @ a # aps)"
              by (rule evolves.replace [OF _ asc sh(6,7,8)])
            ultimately show ?thesis by (auto simp: p' v intro: evolves.stay)
          qed
        qed
      qed
    qed
  qed
qed
end

section \<open>Pushing one block at a time\<close>

definition coord_ready :: "'l coordinator \<Rightarrow> block_header list \<Rightarrow> u64 \<Rightarrow> bool" where
  "coord_ready c v h \<longleftrightarrow> pending c = bt_new \<and> next_height c = h \<and> parent_anchor c = tip_of v \<and>
     next_after (tip_of v) h"

lemma pending_one [simp]: "bt_remove k (bt_insert k f bt_new) = bt_new"
  by (simp add: bt_remove_def bt_new_def)

lemma drain_none: "bt_get (pending c) (next_height c) = None \<Longrightarrow> drain_loop commit p c s = (Inr p, c, s)"
  by (subst drain_loop.simps) simp

lemma push_single:
  assumes c: "coord_ready c v h" and f: "fetched_ok f" and r: "from_block (fr_range f) = h"
    and push: "push commit f c s = (res, c', s')"
  shows "(s' = s \<and> (\<exists>e. res = Inl e)) \<or>
    (\<exists>cr. commit f s = (cr, s') \<and> follows (tip_of v) (fr_headers f) \<and> (\<forall>e. cr = Inl e \<longrightarrow> res = Inl e) \<and>
      (\<forall>u. cr = Inr u \<longrightarrow> pending c' = bt_new \<and> parent_anchor c' = Some (last (fr_headers f)) \<and>
        next_height c' = sat_add (height (last (fr_headers f))) 1))"
proof (cases "insert_pending f c")
  case (Pair ir c1)
  show ?thesis
  proof (cases ir)
    case (Inl e)
    with push Pair show ?thesis by (auto simp: push_def)
  next
    case (Inr u)
    with Pair c r have c1: "c1 = c\<lparr>pending := bt_insert h f bt_new\<rparr>"
      by (auto simp: insert_pending_def Let_def coord_ready_def split: if_splits option.splits)
    let ?c2 = "c1\<lparr>pending := bt_remove (next_height c1) (pending c1)\<rparr>"
    have c2: "?c2 = c" "bt_get (pending c1) (next_height c1) = Some f"
      using c by (simp_all add: c1 coord_ready_def)
    have d: "drain_loop commit progress_default c1 s = (res, c', s')"
      using push Pair Inr by (simp add: push_def drain_ready_def)
    obtain vr c3 where v: "validate_ready_range f c = (vr, c3)" by fastforce
    show ?thesis
    proof (cases vr)
      case (Inl e)
      with d c2 v show ?thesis by (subst (asm) drain_loop.simps) auto
    next
      case (Inr blk)
      from validate_ready_range_ok [OF v [unfolded Inr] f] c r have
        b: "blk = last (fr_headers f)" "c3 = c" "follows (tip_of v) (fr_headers f)"
        by (simp_all add: coord_ready_def)
      obtain cr s1 where com: "commit f s = (cr, s1)" by fastforce
      show ?thesis
      proof (cases cr)
        case (Inl e)
        with d c2 v Inr com b show ?thesis by (subst (asm) drain_loop.simps) auto
      next
        case (Inr w)
        have "bt_get (pending (advance blk c)) (next_height (advance blk c)) = None"
          using c by (simp add: advance_def coord_ready_def)
        note stop = drain_none [OF this]
        have "drain_loop commit progress_default c1 s =
            drain_loop commit (note_commit f blk progress_default) (advance blk c) s1"
          using c2 v \<open>vr = Inr blk\<close> com b Inr by (subst drain_loop.simps) simp
        with d have "s' = s1" "c' = advance blk c" by (simp_all add: stop)
        with com Inr b c show ?thesis by (simp add: advance_def coord_ready_def)
      qed
    qed
  qed
qed

lemma refetch_number_header:
  "validate_or_refetch_number S h blk p = (Inr (x, b), p') \<Longrightarrow> x = block_header_of S b"
  by (auto simp: validate_or_refetch_number_def try_simps split: if_splits)

lemma fetched_single:
  assumes "tryR (range_new h h) (\<lambda>r. fetched_new r [x] [b]) = Inr f"
  shows "fetched_ok f \<and> from_block (fr_range f) = h \<and> fr_headers f = [x] \<and> fr_logs f = [b] \<and> height x = h"
proof -
  from assms obtain r where r: "range_new h h = Inr r" and f: "fetched_new r [x] [b] = Inr f" by (auto simp: try_simps)
  from r have r': "from_block r = h" "to_block r = h" by (auto simp: range_new_def split: if_splits)
  have ok: "fetched_ok f" by (rule fetched_new_ok [OF f]) (simp_all add: r')
  from f have fields: "fr_range f = r" "fr_headers f = [x]" "fr_logs f = [b]" by (auto simp: fetched_new_def try_simps)
  with fetched_okD(2) [OF ok] ok r' show ?thesis by simp
qed

lemma ask_Inr: "ask f err p = (Inr x, p') \<longleftrightarrow> (\<exists>s. f (src p) = (Inr x, s) \<and> p' = p\<lparr>src := s\<rparr>)"
  by (auto simp: ask_def map_err_Inr split: prod.split)

lemma source_genuineD:
  assumes "source_genuine genuine S"
  shows "current_head S s = (Inr x, s') \<Longrightarrow> genuine x"
    "block_by_number S h s = (Inr b, s') \<Longrightarrow> genuine (block_header_of S b)"
  using assms unfolding source_genuine_def by blast+

lemma refetch_number_genuine:
  assumes "source_genuine genuine S" and "genuine (block_header_of S blk)"
    and "validate_or_refetch_number S h blk p = (Inr (x, b), p')"
  shows "genuine (block_header_of S b)"
  using assms(2,3) source_genuineD(2) [OF assms(1)]
  by (auto simp: validate_or_refetch_number_def try_simps ask_Inr split: if_splits)

lemma new_coordinator_ready:
  assumes "coordinator_new f t a = Inr c" and "a = tip_of v"
  shows "coord_ready c v f"
proof -
  have "next_height c = f \<and> pending c = bt_new"
    using assms(1) by (auto simp: coordinator_new_def try_simps split: if_splits option.splits)
  moreover from coordinator_new_wf [OF assms(1)] have "next_after a (next_height c)" "parent_anchor c = a"
    by (auto simp: coord_wf_def)
  ultimately show ?thesis using assms(2) by (simp add: coord_ready_def)
qed

text \<open>Heights one after the other.\<close>

fun rising :: "u64 \<Rightarrow> u64 list \<Rightarrow> bool" where
  "rising h [] \<longleftrightarrow> True"
| "rising h (x # xs) \<longleftrightarrow> x = h \<and> rising (sat_add h 1) xs"

lemma rising_upt: "m \<le> 2 ^ 64 \<Longrightarrow> rising (of_nat n) (map of_nat [n..<m])"
proof (induction "m - n" arbitrary: n)
  case (Suc d)
  then have nm: "n < m" and up: "[n..<m] = n # [Suc n..<m]" by (simp_all add: upt_conv_Cons)
  have "rising (sat_add (of_nat n) 1) (map of_nat [Suc n..<m])"
  proof (cases "Suc n < m")
    case True
    then have "Suc n < 2 ^ 64" using Suc.prems by simp
    then have "sat_add (of_nat n) 1 = (of_nat (Suc n) :: u64)"
      by (simp add: sat_add_def word_eq_unat [of _ "of_nat (Suc n)"] sat_simps unsigned_of_nat take_bit_nat_eq_self)
    with Suc.hyps(1) [of "Suc n"] Suc.hyps(2) Suc.prems show ?thesis by (simp del: of_nat_Suc)
  qed simp
  then show ?case by (simp add: up)
qed simp

lemma rising_heights: "rising f (heights f t)"
  using rising_upt [of "Suc (unat t)" "unat f"] u64_le_max [of t] by (simp add: heights_def del: upt_Suc)

context chain_store
begin

text \<open>One height: an error that left the sink alone, or one commit of the fetched block.\<close>

lemma push_height_outcome:
  assumes S: "source_genuine genuine S" "block_header_of S = hdr" and c: "coord_ready c v h"
    and run: "fetch_and_push_height S K h (c, p) = (r, c', p')"
  shows "(snk p' = snk p \<and> (\<exists>e. r = Inl e)) \<or>
    (\<exists>f x cr. fetched_ok f \<and> from_block (fr_range f) = h \<and> fr_headers f = [x] \<and> map hdr (fr_logs f) = [x] \<and> genuine x \<and>
       height x = h \<and> follows (tip_of v) [x] \<and> sink_commit_range K f (snk p) = (cr, snk p') \<and>
       (\<forall>e. cr = Inl e \<longrightarrow> (\<exists>e. r = Inl e)) \<and>
       (\<forall>u. cr = Inr u \<longrightarrow> coord_ready c' (v @ [x]) (sat_add h 1)))"
proof -
  let ?m = "\<lambda>p. tryS (record_call GetBlockByNumber p) (\<lambda>_ p.
      tryS (ask (block_by_number S h) (source_error S) p) (\<lambda>block p.
      tryS (record_call GetLogs p) (\<lambda>_ p. validate_or_refetch_number S h block p)))"
  obtain mr p1 where m: "?m p = (mr, p1)" by (cases "?m p")
  have "keeps_store ?m" by (intro keeps_store_tryS keeps_store_basic keeps_store_refetch)
  from keeps_storeD [OF this m] have p1: "snk p1 = snk p" .
  show ?thesis
  proof (cases mr)
    case (Inl e)
    with run m p1 show ?thesis by (auto simp: fetch_and_push_height_def with_coord_def)
  next
    case (Inr xb)
    obtain x b where xb: "xb = (x, b)" by (cases xb)
    from m obtain b0 s0 s1 p3 where got: "block_by_number S h s0 = (Inr b0, s1)"
      and val: "validate_or_refetch_number S h b0 p3 = (Inr (x, b), p1)"
      unfolding Inr xb by (auto simp: try_simps ask_Inr)
    note b0 = source_genuineD(2) [OF S(1) got]
    from refetch_number_genuine [OF S(1) b0 val] refetch_number_header [OF val] S(2)
    have x: "genuine x" "hdr b = x" by auto
    from run m have pb: "push_block K h (x, b) (c, p1) = (r, c', p')"
      by (simp add: fetch_and_push_height_def with_coord_def Inr xb)
    show ?thesis
    proof (cases "tryR (range_new h h) (\<lambda>r. fetched_new r [x] [b])")
      case (Inl e)
      with pb p1 show ?thesis by (auto simp: push_block_def)
    next
      case (Inr f)
      from fetched_single [OF Inr] have f: "fetched_ok f" "from_block (fr_range f) = h" "fr_headers f = [x]"
        "fr_logs f = [b]" "height x = h" by auto
      obtain res c2 k' where pu: "push (sink_commit_range K) f c (snk p1) = (res, c2, k')" by (metis prod_cases3)
      from pb Inr pu have p': "snk p' = k'" "c' = c2" and res: "\<forall>e. res = Inl e \<longrightarrow> r = Inl (Backfill e)"
        by (auto simp: push_block_def Let_def split: sum.splits if_splits)
      from push_single [OF c f(1,2) pu] show ?thesis
      proof (elim disjE exE conjE)
        fix e assume "k' = snk p1" "res = Inl e"
        with p' p1 res show ?thesis by simp
      next
        fix cr
        assume com: "sink_commit_range K f (snk p1) = (cr, k')" and fol: "follows (tip_of v) (fr_headers f)"
          and err: "\<forall>e. cr = Inl e \<longrightarrow> res = Inl e"
          and ok: "\<forall>u. cr = Inr u \<longrightarrow> pending c2 = bt_new \<and> parent_anchor c2 = Some (last (fr_headers f)) \<and>
             next_height c2 = sat_add (height (last (fr_headers f))) 1"
        have "coord_ready c2 (v @ [x]) (sat_add h 1)" if "cr = Inr u" for u
          using ok that f by (simp add: coord_ready_def)
        with com fol err res f x p' p1 show ?thesis by (intro disjI2 exI [of _ f] exI [of _ x] exI [of _ cr]) auto
      qed
    qed
  qed
qed

lemma push_height_evolves:
  assumes k: "inv (snk p)" and S: "source_genuine genuine S" "block_header_of S = hdr"
    and c: "coord_ready c (view (snk p)) h"
    and run: "fetch_and_push_height S K h (c, p) = (r, c', p')"
  shows "inv (snk p') \<and> evolves cfg (view (snk p)) (view (snk p')) \<and>
    (\<forall>u. r = Inr u \<longrightarrow> coord_ready c' (view (snk p')) (sat_add h 1))"
  using push_height_outcome [OF S c run]
proof (elim disjE exE conjE)
  fix e assume "snk p' = snk p" "r = Inl e"
  with k show ?thesis by (simp add: evolves.stay)
next
  fix f x cr
  assume f: "fetched_ok f" "fr_headers f = [x]" "map hdr (fr_logs f) = [x]" and x: "genuine x"
    and fol: "follows (tip_of (view (snk p))) [x]" and com: "sink_commit_range K f (snk p) = (cr, snk p')"
    and err: "\<forall>e. cr = Inl e \<longrightarrow> (\<exists>e. r = Inl e)"
    and ok: "\<forall>u. cr = Inr u \<longrightarrow> coord_ready c' (view (snk p) @ [x]) (sat_add h 1)"
  have asc: "ascends (view (snk p) @ [x])"
    using fol view_ok [OF k] by (auto simp: follows_def tip_of_def ascends_append ascends_Cons split: if_splits)
  from commit_range [OF k f(1) _ _ _ _ com] asc f x
  have k': "inv (snk p')" "view (snk p') = view (snk p) \<or> view (snk p') = view (snk p) @ [x]"
    "\<forall>u. cr = Inr u \<longrightarrow> view (snk p') = view (snk p) @ [x]" by auto
  moreover have "evolves cfg (view (snk p)) (view (snk p) @ [x])"
    using asc by (intro evolves.extend evolves.stay)
  moreover have "coord_ready c' (view (snk p')) (sat_add h 1)" if "r = Inr u" for u
    using that err ok k'(3) by (cases cr) auto
  ultimately show ?thesis by (auto intro: evolves.stay)
qed

text \<open>Block 0 on a chain that is not empty.\<close>

lemma push_genesis_refused:
  assumes k: "inv (snk p)" "anchored (snk p)" "view (snk p) \<noteq> []" and S: "source_genuine genuine S" "block_header_of S = hdr"
    and c: "coord_ready c [] 0" and run: "fetch_and_push_height S K 0 (c, p) = (r, c', p')"
  shows "inv (snk p') \<and> view (snk p') = view (snk p) \<and> (\<exists>e. r = Inl e)"
  using push_height_outcome [OF S c run]
proof (elim disjE exE conjE)
  fix e assume "snk p' = snk p" "r = Inl e"
  with k show ?thesis by simp
next
  fix f x cr
  assume f: "fetched_ok f" "from_block (fr_range f) = 0" "fr_headers f = [x]" "map hdr (fr_logs f) = [x]"
    and com: "sink_commit_range K f (snk p) = (cr, snk p')" and err: "\<forall>e. cr = Inl e \<longrightarrow> (\<exists>e. r = Inl e)"
  from refuse_genesis [OF k f(1,2) _ _ com] f(3,4) err show ?thesis by auto
qed

lemma reconcile_evolves:
  assumes k: "inv (snk p)" and S: "source_genuine genuine S" "block_header_of S = hdr"
    and run: "reconcile_current_head cfg S K ic p = (r, p')"
  shows "inv (snk p') \<and> evolves cfg (view (snk p)) (view (snk p'))"
proof -
  let ?m = "\<lambda>p. tryS (ensure_not_cancelled ic p) (\<lambda>_ p. tryS (record_call GetBlockByNumber (set_degraded p)) (\<lambda>_ p.
      ask (current_head S) (plain_error S) p))"
  obtain mr p1 where m: "?m p = (mr, p1)" by (cases "?m p")
  have "keeps_store ?m" by (intro keeps_store_tryS keeps_store_basic keeps_store_degraded)
  from keeps_storeD [OF this m] have p1: "snk p1 = snk p" .
  have eq: "reconcile_current_head cfg S K ic p = tryS (?m p) (\<lambda>head p. apply_chain_state cfg S K ic head p)"
    by (simp add: reconcile_current_head_def tryS_def split: prod.splits sum.splits)
  show ?thesis
  proof (cases mr)
    case (Inl e)
    with run have "p' = p1" by (simp add: eq m)
    with p1 k show ?thesis by (simp add: evolves.stay)
  next
    case (Inr head)
    with m obtain s0 s1 where "current_head S s0 = (Inr head, s1)" by (auto simp: try_simps ask_Inr)
    then have g: "genuine head" by (rule source_genuineD(1) [OF S(1)])
    from run have "apply_chain_state cfg S K ic head p1 = (r, p')" by (simp add: eq m Inr)
    from apply_head_evolves [OF _ S g this] k show ?thesis by (simp add: p1)
  qed
qed

lemma cancelled_poll:
  assumes "with_coord (ensure_not_cancelled ic) (c, p) = (r, cp)"
  shows "fst cp = c \<and> snk (snd cp) = snk p"
  using assms by (auto simp: with_coord_def ensure_not_cancelled_def)

lemma push_heights_evolves:
  "push_heights S K ic hs (c, p) = (r, c', p') \<Longrightarrow> inv (snk p) \<Longrightarrow> source_genuine genuine S \<Longrightarrow>
   block_header_of S = hdr \<Longrightarrow> coord_ready c (view (snk p)) h \<Longrightarrow> rising h hs \<Longrightarrow>
   inv (snk p') \<and> evolves cfg (view (snk p)) (view (snk p'))"
proof (induction hs arbitrary: c p h)
  case Nil
  then show ?case by (auto intro: evolves.stay)
next
  case (Cons x hs)
  obtain pr c1 p1 where poll: "with_coord (ensure_not_cancelled ic) (c, p) = (pr, c1, p1)" by (metis prod_cases3)
  from cancelled_poll [OF poll] have 1: "c1 = c" "snk p1 = snk p" by simp_all
  have x: "x = h" "rising (sat_add h 1) hs" using Cons.prems(6) by simp_all
  show ?case
  proof (cases pr)
    case (Inl e)
    with Cons.prems 1 poll show ?thesis by (auto intro: evolves.stay)
  next
    case (Inr u)
    obtain fr c2 p2 where f: "fetch_and_push_height S K h (c, p1) = (fr, c2, p2)" by (metis prod_cases3)
    have ready: "coord_ready c (view (snk p1)) h" "inv (snk p1)" using Cons.prems 1 by simp_all
    from push_height_evolves [OF ready(2) Cons.prems(3,4) ready(1) f]
    have 2: "inv (snk p2)" "evolves cfg (view (snk p)) (view (snk p2))"
      "\<forall>u. fr = Inr u \<longrightarrow> coord_ready c2 (view (snk p2)) (sat_add h 1)" by (simp_all add: 1)
    show ?thesis
    proof (cases fr)
      case (Inl e)
      with Cons.prems(1) poll Inr x 1 f 2 show ?thesis by auto
    next
      case ok: (Inr u)
      with Cons.prems(1) poll Inr x 1 f have "push_heights S K ic hs (c2, p2) = (r, c', p')" by simp
      from Cons.IH [OF this 2(1) Cons.prems(3,4) _ x(2)] 2 ok show ?thesis by (auto intro: evolves_trans)
    qed
  qed
qed

lemma catch_up_heights_evolves:
  "catch_up_heights cfg S K ic hs (c, p) = (r, p') \<Longrightarrow> inv (snk p) \<Longrightarrow> source_genuine genuine S \<Longrightarrow>
   block_header_of S = hdr \<Longrightarrow> coord_ready c (view (snk p)) h \<Longrightarrow> rising h hs \<Longrightarrow>
   inv (snk p') \<and> evolves cfg (view (snk p)) (view (snk p'))"
proof (induction hs arbitrary: c p h)
  case Nil
  then show ?case by (auto intro: evolves.stay)
next
  case (Cons x hs)
  obtain pr c1 p1 where poll: "with_coord (ensure_not_cancelled ic) (c, p) = (pr, c1, p1)" by (metis prod_cases3)
  from cancelled_poll [OF poll] have 1: "c1 = c" "snk p1 = snk p" by simp_all
  have x: "x = h" "rising (sat_add h 1) hs" using Cons.prems(6) by simp_all
  show ?case
  proof (cases pr)
    case (Inl e)
    with Cons.prems 1 poll show ?thesis by (auto intro: evolves.stay)
  next
    case (Inr u)
    obtain fr c2 p2 where f: "fetch_and_push_height S K h (c, p1) = (fr, c2, p2)" by (metis prod_cases3)
    have ready: "coord_ready c (view (snk p1)) h" "inv (snk p1)" using Cons.prems 1 by simp_all
    from push_height_evolves [OF ready(2) Cons.prems(3,4) ready(1) f]
    have 2: "inv (snk p2)" "evolves cfg (view (snk p)) (view (snk p2))"
      "\<forall>u. fr = Inr u \<longrightarrow> coord_ready c2 (view (snk p2)) (sat_add h 1)" by (simp_all add: 1)
    show ?thesis
    proof (cases fr)
      case (Inl e)
      have clear: "snk (clear_applies p2) = snk p2" by (simp add: clear_applies_def)
      have rec: "inv (snk p') \<and> evolves cfg (view (snk p)) (view (snk p'))"
        if "reconcile_current_head cfg S K ic (clear_applies p2) = (r, p')"
        using reconcile_evolves [OF _ Cons.prems(3,4) that] 2 by (auto simp: clear intro: evolves_trans)
      from Cons.prems(1) poll Inr x 1 f Inl
      have "reconcile_current_head cfg S K ic (clear_applies p2) = (r, p') \<or> p' = p2"
        by (auto split: live_error.splits backfill_error.splits)
      with rec 2 show ?thesis by auto
    next
      case ok: (Inr u)
      with Cons.prems(1) poll Inr x 1 f have "catch_up_heights cfg S K ic hs (c2, p2) = (r, p')" by simp
      from Cons.IH [OF this 2(1) Cons.prems(3,4) _ x(2)] 2 ok show ?thesis by (auto intro: evolves_trans)
    qed
  qed
qed

lemma catch_up_from_start_evolves:
  assumes k: "inv (snk p)" "anchored (snk p)" and S: "source_genuine genuine S" "block_header_of S = hdr"
    and run: "catch_up_from_start cfg S K ic head p = (r, p')"
  shows "inv (snk p') \<and> evolves cfg (view (snk p)) (view (snk p'))"
proof -
  let ?f = "case explicit_start cfg of Some n \<Rightarrow> n | None \<Rightarrow> 0"
  show ?thesis
  proof (cases "coordinator_new ?f (height head) None :: backfill_error + 'b coordinator")
    case (Inl e)
    with run k show ?thesis by (auto simp: catch_up_from_start_def Let_def intro: evolves.stay)
  next
    case (Inr c)
    obtain pr c1 p1 where ph: "push_heights S K ic (heights ?f (height head)) (c, p) = (pr, c1, p1)" by (metis prod_cases3)
    with run Inr have p': "p' = p1" by (auto simp: catch_up_from_start_def Let_def)
    have ready: "coord_ready c [] ?f" using new_coordinator_ready [OF Inr] by simp
    show ?thesis
    proof (cases "view (snk p) = []")
      case True
      with ready push_heights_evolves [OF ph k(1) S _ rising_heights] p' show ?thesis by simp
    next
      case False
      have f0: "?f = 0" using Inr by (auto simp: coordinator_new_def try_simps word_gt_0 split: if_splits)
      obtain hs where hs: "heights ?f (height head) = 0 # hs"
        unfolding f0 by (simp add: heights_def upt_conv_Cons del: upt_Suc)
      obtain qr c2 p2 where poll: "with_coord (ensure_not_cancelled ic) (c, p) = (qr, c2, p2)" by (metis prod_cases3)
      from cancelled_poll [OF poll] have 1: "c2 = c" "snk p2 = snk p" by simp_all
      show ?thesis
      proof (cases qr)
        case (Inl e)
        with ph hs poll p' 1 k(1) show ?thesis by (simp add: evolves.stay)
      next
        case (Inr u)
        obtain fr c3 p3 where f: "fetch_and_push_height S K 0 (c, p2) = (fr, c3, p3)" by (metis prod_cases3)
        from push_genesis_refused [OF _ _ _ S _ f] k False 1 ready f0 obtain e where
          "inv (snk p3)" "view (snk p3) = view (snk p)" "fr = Inl e" by auto
        with ph hs poll Inr p' 1 f show ?thesis by (simp add: evolves.stay)
      qed
    qed
  qed
qed

lemma catch_up_from_checkpoint_evolves:
  assumes k: "inv (snk p)" and S: "source_genuine genuine S" "block_header_of S = hdr"
    and c: "tip_of (view (snk p)) = Some c" and run: "catch_up_from_checkpoint cfg S K ic c head p = (r, p')"
  shows "inv (snk p') \<and> evolves cfg (view (snk p)) (view (snk p'))"
proof (cases "coordinator_new (height c + 1) (height head) (Some c) :: backfill_error + 'b coordinator")
  case (Inl e)
  with run k show ?thesis by (auto simp: catch_up_from_checkpoint_def Let_def intro: evolves.stay)
next
  case (Inr co)
  have "coord_ready co (view (snk p)) (height c + 1)"
    using new_coordinator_ready [OF Inr] c by simp
  from catch_up_heights_evolves [OF _ k S this rising_heights] run Inr show ?thesis
    by (auto simp: catch_up_from_checkpoint_def Let_def)
qed

lemma finish_evolves:
  assumes "finish K m = (r, p')" and "inv (snk (snd m)) \<and> evolves cfg v (view (snk (snd m)))"
  shows "inv (snk p') \<and> evolves cfg v (view (snk p'))"
proof -
  obtain mr p1 where m: "m = (mr, p1)" by (rule prod.exhaust)
  obtain c p2 where lk: "look (checkpoint K) p1 = (c, p2)" by (rule prod.exhaust)
  show ?thesis
    using assms m lk look_checkpoint(1,2) [OF _ lk] by (cases mr) (auto simp: finish_def Let_def)
qed

lemma follow_head_evolves:
  assumes k: "inv (snk p)" and S: "source_genuine genuine S" "block_header_of S = hdr" and head: "genuine head"
    and c: "tip_of (view (snk p)) = Some c" and run: "follow_head cfg S K ic c head p = (r, p')"
  shows "inv (snk p') \<and> evolves cfg (view (snk p)) (view (snk p'))"
proof -
  have app: "inv (snk p2) \<and> evolves cfg (view (snk p)) (view (snk p2))"
    if "inv (snk p1)" "view (snk p1) = view (snk p)" "apply_chain_state cfg S K ic head p1 = (r2, p2)" for p1 r2 p2
    using apply_head_evolves [OF that(1) S head that(3)] that(2) by simp
  consider (lower) "height head < height c" | (same) "height head = height c" | (above) "height c < height head"
    by (rule linorder_cases)
  then show ?thesis
  proof cases
    case lower
    let ?m = "\<lambda>p. tryS (record_call GetBlockByNumber p) (\<lambda>_ p. ask (header_by_number S (height head)) (plain_error S) p)"
    obtain mr p1 where m: "?m p = (mr, p1)" by (cases "?m p")
    have "keeps_store ?m" by (intro keeps_store_tryS keeps_store_basic)
    from keeps_storeD [OF this m] have p1: "snk p1 = snk p" .
    let ?agree = "\<lambda>remote found. case (remote, found) of
        (Some remote, Some local) \<Rightarrow> hash remote = hash local | _ \<Rightarrow> False"
    have eq: "follow_head cfg S K ic c head p = tryS (?m p) (\<lambda>remote p.
        case look (sink_header_at_height K (height head)) p of (found, p) \<Rightarrow>
          if ?agree remote found
          then (let rep = report_transition Degraded ((report p)\<lparr>final_checkpoint := Some c\<rparr>)
                in (Inr rep, p\<lparr>report := rep\<rparr>))
          else finish K (apply_chain_state cfg S K ic head p))"
      using lower by (simp add: follow_head_def tryS_def split: prod.splits sum.splits)
    show ?thesis
    proof (cases mr)
      case (Inl e)
      with run have "p' = p1" by (simp add: eq m)
      with p1 k show ?thesis by (simp add: evolves.stay)
    next
      case (Inr remote)
      obtain found p2 where lk: "look (sink_header_at_height K (height head)) p1 = (found, p2)" by (rule prod.exhaust)
      have p2: "inv (snk p2)" "view (snk p2) = view (snk p)"
        using lk at_height [of "snk p"] k p1 by (auto simp: look_def split: prod.splits)
      show ?thesis
      proof (cases "?agree remote found")
        case True
        with run lk have "snk p' = snk p2" by (auto simp: eq m Inr Let_def)
        with p2 show ?thesis by (simp add: evolves.stay)
      next
        case False
        with run lk have "finish K (apply_chain_state cfg S K ic head p2) = (r, p')"
          by (simp only: eq m Inr tryS_simps prod.case if_False)
        from finish_evolves [OF this app [OF p2 prod.collapse [symmetric]]] show ?thesis .
      qed
    qed
  next
    case same
    then have "finish K (if hash head \<noteq> hash c then apply_chain_state cfg S K ic head p else (Inr (), p)) = (r, p')"
      using run by (simp add: follow_head_def)
    moreover have "inv (snk (snd m)) \<and> evolves cfg (view (snk p)) (view (snk (snd m)))"
      if "m = (if hash head \<noteq> hash c then apply_chain_state cfg S K ic head p else (Inr (), p))" for m
      using that app [OF k refl prod.collapse [symmetric]] k by (simp add: evolves.stay)
    ultimately show ?thesis by (rule finish_evolves [OF _ _]) simp
  next
    case above
    then have "\<not> height head < height c" "height head \<noteq> height c" by auto
    with run have "finish K (catch_up_from_checkpoint cfg S K ic c head p) = (r, p')"
      by (simp only: follow_head_def if_False)
    from finish_evolves [OF this catch_up_from_checkpoint_evolves [OF k S c prod.collapse [symmetric]]] show ?thesis .
  qed
qed

lemma pass_evolves:
  assumes k0: "inv k0" "anchored k0" and S: "source_genuine genuine S" "block_header_of S = hdr"
    and run: "run_with_cancellation cfg S K evs ic s k0 = (r, s', k')"
  shows "inv k' \<and> evolves cfg (view k0) (view k')"
proof -
  obtain c0 k where c0: "checkpoint K k0 = (c0, k)" by (rule prod.exhaust)
  from checkpoint_tip [OF k0(1) c0] k0(2) have k: "inv k" "view k = view k0" "anchored k" by simp_all
  have stay: ?thesis if "inv k'" "view k' = view k0" using that by (simp add: evolves.stay)
  show ?thesis
  proof (cases "ic 0")
    case True
    with run c0 k show ?thesis by (intro stay) (auto simp: run_with_cancellation_def Let_def)
  next
    case go: False
    show ?thesis
    proof (cases "window_budget_new cfg")
      case (Inl e)
      with run k go c0 show ?thesis by (intro stay) (auto simp: run_with_cancellation_def Let_def)
    next
      case w: (Inr w)
      let ?p = "\<lparr>src = s, snk = k, budget = w, report = fold note_head_event evs (report_new c0), polls = 1\<rparr>"
      let ?m = "\<lambda>p. tryS (record_call GetBlockByNumber p) (\<lambda>_ p. ask (current_head S) (plain_error S) p)"
      let ?n = "\<lambda>head. ask (verify_recent S (height head) (hash head)) (plain_error S)"
      let ?rest = "\<lambda>head p. case look (checkpoint K) p of
          (None, p) \<Rightarrow> if explicit_start cfg = None then (Inr (report_halted (Some head) MissingExplicitStart), p)
            else finish K (catch_up_from_start cfg S K ic head p)
        | (Some c, p) \<Rightarrow> follow_head cfg S K ic c head p"
      have eq: "tryS (record_call GetBlockByNumber p) (\<lambda>_ p. tryS (ask (current_head S) (plain_error S) p) (\<lambda>head p.
          tryS (?n head p) (\<lambda>v p. ?rest head (note_verifier v p)))) =
        tryS (?m p) (\<lambda>head p. tryS (?n head p) (\<lambda>v p. ?rest head (note_verifier v p)))" for p
        by (simp add: tryS_def split: prod.splits sum.splits)
      obtain mr p1 where m: "?m ?p = (mr, p1)" by (cases "?m ?p")
      have "keeps_store ?m" by (intro keeps_store_tryS keeps_store_basic)
      from keeps_storeD [OF this m] have p1: "snk p1 = k" by simp
      show ?thesis
      proof (cases mr)
        case (Inl e)
        with run go w m p1 k c0 show ?thesis by (intro stay) (auto simp: run_with_cancellation_def Let_def eq)
      next
        case head: (Inr head)
        with m obtain s0 s1 where "current_head S s0 = (Inr head, s1)" by (auto simp: try_simps ask_Inr)
        then have g: "genuine head" by (rule source_genuineD(1) [OF S(1)])
        obtain nr p2 where n: "?n head p1 = (nr, p2)" by fastforce
        from keeps_storeD [OF keeps_store_basic(3) n] p1 have p2: "snk p2 = k" by simp
        show ?thesis
        proof (cases nr)
          case (Inl e)
          with run go w m head n p2 k c0 show ?thesis
            by (intro stay) (auto simp: run_with_cancellation_def Let_def eq)
        next
          case v: (Inr v)
          let ?q = "note_verifier v p2"
          have q: "snk ?q = k" using p2 by (simp add: note_verifier_def)
          obtain rr p3 where rest: "?rest head ?q = (rr, p3)" by fastforce
          from run go w m head n v rest c0 have k': "k' = snk p3"
            by (simp add: run_with_cancellation_def Let_def eq)
          obtain c1 p4 where lk: "look (checkpoint K) ?q = (c1, p4)" by (rule prod.exhaust)
          have p4: "inv (snk p4)" "view (snk p4) = view k0" "anchored (snk p4)" "c1 = None \<or> c1 = tip_of (view k0)"
            using look_checkpoint [OF _ lk] k q by simp_all
          show ?thesis
          proof (cases c1)
            case (Some c)
            with rest lk have "follow_head cfg S K ic c head p4 = (rr, p3)" by simp
            from follow_head_evolves [OF p4(1) S g _ this] p4(2,4) Some show ?thesis by (simp add: k')
          next
            case None
            show ?thesis
            proof (cases "explicit_start cfg = None")
              case True
              with rest lk None have "p3 = p4" by simp
              with p4 show ?thesis by (intro stay) (simp_all add: k')
            next
              case False
              with rest lk None have fin: "finish K (catch_up_from_start cfg S K ic head p4) = (rr, p3)" by simp
              from finish_evolves [OF fin catch_up_from_start_evolves [OF p4(1,3) S prod.collapse [symmetric]]]
              show ?thesis by (simp add: k' p4(2))
            qed
          qed
        qed
      qed
    qed
  qed
qed
end

end
