(* ===== verification/Json.thy ===== *)
theory Json
  imports Rust_Strings
begin

text \<open>
  \<open>serde_json::Value\<close> as the sources build and read it: numbers are integers, an object is its
  list of members.
\<close>

datatype json =
    JNull
  | JBool bool
  | JNum int
  | JStr string
  | JArr "json list"
  | JObj "(string \<times> json) list"

definition j_opt :: "('a \<Rightarrow> json) \<Rightarrow> 'a option \<Rightarrow> json" where
  "j_opt f m = (case m of None \<Rightarrow> JNull | Some x \<Rightarrow> f x)"

text \<open>\<open>value.get(key)\<close>: a member of an object, nothing for any other value.\<close>

definition j_get :: "string \<Rightarrow> json \<Rightarrow> json option" where
  "j_get k v = (case v of JObj ms \<Rightarrow> map_of ms k | _ \<Rightarrow> None)"

lemma j_get_JObj [simp]: "j_get k (JObj ms) = map_of ms k"
  by (simp add: j_get_def)

text \<open>Reading a value of one kind, and a member.\<close>

definition j_str :: "json \<Rightarrow> string option" where
  "j_str v = (case v of JStr s \<Rightarrow> Some s | _ \<Rightarrow> None)"

text \<open>\<open>as_i64\<close> and \<open>as_u64\<close> of a number.\<close>

definition j_i64 :: "json \<Rightarrow> int option" where
  "j_i64 v = (case v of JNum n \<Rightarrow> if - (2 ^ 63) \<le> n \<and> n < 2 ^ 63 then Some n else None | _ \<Rightarrow> None)"

definition j_u64 :: "json \<Rightarrow> u64 option" where
  "j_u64 v = (case v of JNum n \<Rightarrow> u64_of_int n | _ \<Rightarrow> None)"

definition j_u32 :: "json \<Rightarrow> u32 option" where
  "j_u32 v = (case v of JNum n \<Rightarrow> u32_of_int n | _ \<Rightarrow> None)"

definition j_field :: "string \<Rightarrow> (json \<Rightarrow> 'a option) \<Rightarrow> json \<Rightarrow> 'a option" where
  "j_field k f v = Option.bind (j_get k v) f"

end
