(* ===== verification/Database.thy ===== *)
theory Database
  imports Json Header_Cache
begin

text \<open>
  The schema of \<open>migrations/20260831000000_postgres_chain_state.sql\<close>: its five tables as maps from
  primary keys to rows, and the statements that the writer runs on them, each with the constraints
  of the schema that it can break.

  A column \<open>BYTEA CHECK (octet_length = 32)\<close> is a \<open>block_hash\<close>; \<open>BIGINT\<close> and \<open>INT\<close> columns are
  integers; a chain ID (\<open>NUMERIC\<close>) is the \<open>u64\<close> whose decimal text the writer casts.  The
  columns \<open>inserted_at\<close> and \<open>updated_at\<close>, never read, are left out; \<open>now()\<close> is the field
  \<open>db_now\<close>.
\<close>

section \<open>Tables\<close>

record block_row =
  br_parent :: block_hash
  br_height :: int
  br_timestamp :: int
  is_canonical :: bool
  br_status :: string
  br_status_source :: string

record log_row =
  lr_block_number :: int
  lr_transaction_index :: int
  lr_tx_hash :: block_hash
  lr_address :: address
  lr_topics :: "block_hash list"
  lr_data :: "u8 list"
  lr_decoded_event :: "json option"
  lr_decoder_version :: "string option"

record outbox_row =
  event_id :: int
  ev_chain :: u64
  ev_kind :: string
  ev_block_hash :: block_hash
  ev_block_height :: int
  ev_payload :: json
  ev_created :: int
  published_at :: "int option"

record database =
  chain_identity :: "(u64, block_hash) hash_map"
  blocks_table :: "(u64 \<times> block_hash, block_row) hash_map"
  logs_table :: "(u64 \<times> block_hash \<times> int, log_row) hash_map"
  checkpoint_table :: "(u64, int \<times> block_hash) hash_map"
  outbox_table :: "outbox_row list"
  outbox_seq :: int
  db_now :: int

definition empty_db :: database where
  "empty_db = \<lparr>chain_identity = hm_new, blocks_table = hm_new, logs_table = hm_new,
     checkpoint_table = hm_new, outbox_table = [], outbox_seq = 1, db_now = 0\<rparr>"

datatype db_error = UniqueViolation | ForeignKeyViolation | CheckViolation | ConnectionLost

section \<open>Queries\<close>

definition get_block :: "u64 \<Rightarrow> block_hash \<Rightarrow> database \<Rightarrow> block_row option" where
  "get_block c h db = hm_get (blocks_table db) (c, h)"

text \<open>The canonical rows of a chain, with the hash of each.\<close>

definition canonical_rows :: "u64 \<Rightarrow> database \<Rightarrow> (block_hash \<times> block_row) list" where
  "canonical_rows c db =
     map (\<lambda>((_, h), r). (h, r)) (filter (\<lambda>((c', _), r). c' = c \<and> is_canonical r) (blocks_table db))"

definition find_canonical ::
    "u64 \<Rightarrow> int \<Rightarrow> database \<Rightarrow> (block_hash \<times> block_row) option" where
  "find_canonical c n db = find (\<lambda>(_, r). br_height r = n) (canonical_rows c db)"

definition block_at :: "u64 \<Rightarrow> block_hash \<Rightarrow> int \<Rightarrow> database \<Rightarrow> bool" where
  "block_at c h n db \<longleftrightarrow> (case get_block c h db of Some r \<Rightarrow> br_height r = n | None \<Rightarrow> False)"

definition canonical_at :: "u64 \<Rightarrow> block_hash \<Rightarrow> int \<Rightarrow> database \<Rightarrow> bool" where
  "canonical_at c h n db \<longleftrightarrow>
     (case get_block c h db of Some r \<Rightarrow> br_height r = n \<and> is_canonical r | None \<Rightarrow> False)"

text \<open>Another row than \<open>(c, h)\<close> occupies the canonical height: the index \<open>uq_blocks_canonical_height\<close>.\<close>

definition height_taken :: "u64 \<Rightarrow> block_hash \<Rightarrow> int \<Rightarrow> database \<Rightarrow> bool" where
  "height_taken c h n db \<longleftrightarrow> list_ex (\<lambda>(h', r). h' \<noteq> h \<and> br_height r = n) (canonical_rows c db)"

section \<open>Statements\<close>

text \<open>
  \<open>INSERT INTO chain_identity \<dots> ON CONFLICT (chain_id) DO UPDATE \<dots> WHERE genesis_hash =
  EXCLUDED.genesis_hash\<close>: the number of rows affected.
\<close>

definition insert_identity ::
    "u64 \<Rightarrow> block_hash \<Rightarrow> database \<Rightarrow> (db_error + nat) \<times> database" where
  "insert_identity c g db =
     (case hm_get (chain_identity db) c of
        Some g' \<Rightarrow> (if g' = g then (Inr 1, db) else (Inr 0, db))
      | None \<Rightarrow>
          if c = 0 then (Inl CheckViolation, db)
          else if list_ex (\<lambda>(_, g'). g' = g) (chain_identity db) then (Inl UniqueViolation, db)
          else (Inr 1, db\<lparr>chain_identity := hm_insert c g (chain_identity db)\<rparr>))"

text \<open>\<open>UPDATE blocks SET is_canonical = FALSE \<dots>\<close>: whether a row was changed.\<close>

definition update_uncanonical ::
    "u64 \<Rightarrow> block_hash \<Rightarrow> int \<Rightarrow> database \<Rightarrow> (db_error + bool) \<times> database" where
  "update_uncanonical c h n db =
     (case get_block c h db of
        Some r \<Rightarrow>
          if br_height r = n \<and> is_canonical r
          then (Inr True, db\<lparr>blocks_table := hm_insert (c, h) (r\<lparr>is_canonical := False\<rparr>) (blocks_table db)\<rparr>)
          else (Inr False, db)
      | None \<Rightarrow> (Inr False, db))"

text \<open>
  \<open>INSERT INTO blocks \<dots> ON CONFLICT (chain_id, block_hash) DO UPDATE SET is_canonical = TRUE, \<dots>
  WHERE blocks.is_canonical = FALSE RETURNING height\<close>: whether a row came back.
\<close>

definition upsert_canonical ::
    "u64 \<Rightarrow> block_hash \<Rightarrow> block_row \<Rightarrow> database \<Rightarrow> (db_error + bool) \<times> database" where
  "upsert_canonical c h new db =
     (case get_block c h db of
        None \<Rightarrow>
          if hm_get (chain_identity db) c = None then (Inl ForeignKeyViolation, db)
          else if height_taken c h (br_height new) db then (Inl UniqueViolation, db)
          else (Inr True, db\<lparr>blocks_table := hm_insert (c, h) (new\<lparr>is_canonical := True\<rparr>) (blocks_table db)\<rparr>)
      | Some old \<Rightarrow>
          if is_canonical old then (Inr False, db)
          else if height_taken c h (br_height old) db then (Inl UniqueViolation, db)
          else (Inr True,
            db\<lparr>blocks_table := hm_insert (c, h)
                 (old\<lparr>is_canonical := True, br_timestamp := br_timestamp new,
                      br_status := br_status new, br_status_source := br_status_source new\<rparr>)
                 (blocks_table db)\<rparr>))"

text \<open>\<open>COALESCE\<close> of two nullable columns.\<close>

definition coalesce :: "'a option \<Rightarrow> 'a option \<Rightarrow> 'a option" where
  "coalesce a b = (case a of Some x \<Rightarrow> Some x | None \<Rightarrow> b)"

definition same_raw_log :: "log_row \<Rightarrow> log_row \<Rightarrow> bool" where
  "same_raw_log a b \<longleftrightarrow>
     lr_block_number a = lr_block_number b \<and> lr_transaction_index a = lr_transaction_index b \<and>
     lr_tx_hash a = lr_tx_hash b \<and> lr_address a = lr_address b \<and> lr_topics a = lr_topics b \<and>
     lr_data a = lr_data b"

definition upsert_log ::
    "u64 \<Rightarrow> block_hash \<Rightarrow> int \<Rightarrow> log_row \<Rightarrow> database \<Rightarrow> (db_error + unit) \<times> database" where
  "upsert_log c h i new db =
     (case hm_get (logs_table db) (c, h, i) of
        None \<Rightarrow>
          if 4 < length (lr_topics new) then (Inl CheckViolation, db)
          else if \<not> block_at c h (lr_block_number new) db then (Inl ForeignKeyViolation, db)
          else (Inr (), db\<lparr>logs_table := hm_insert (c, h, i) new (logs_table db)\<rparr>)
      | Some old \<Rightarrow>
          if 4 < length (lr_topics new) then (Inl CheckViolation, db)
          else (Inr (), db\<lparr>logs_table := hm_insert (c, h, i)
             (if same_raw_log old new
              then old\<lparr>lr_decoded_event := coalesce (lr_decoded_event new) (lr_decoded_event old),
                       lr_decoder_version := coalesce (lr_decoder_version new) (lr_decoder_version old)\<rparr>
              else old) (logs_table db)\<rparr>))"

text \<open>
  \<open>INSERT INTO outbox_events \<dots> RETURNING event_id\<close>: the identity column takes the next value of
  its sequence, also when the statement then fails.
\<close>

definition insert_outbox ::
    "u64 \<Rightarrow> string \<Rightarrow> block_hash \<Rightarrow> int \<Rightarrow> json \<Rightarrow> database \<Rightarrow> (db_error + int) \<times> database" where
  "insert_outbox c kind h n payload db =
     (let i = outbox_seq db; db' = db\<lparr>outbox_seq := i + 1\<rparr> in
      if \<not> block_at c h n db then (Inl ForeignKeyViolation, db')
      else (Inr i, db'\<lparr>outbox_table := outbox_table db @
        [\<lparr>event_id = i, ev_chain = c, ev_kind = kind, ev_block_hash = h, ev_block_height = n,
          ev_payload = payload, ev_created = db_now db, published_at = None\<rparr>]\<rparr>))"

definition upsert_checkpoint ::
    "u64 \<Rightarrow> int \<Rightarrow> block_hash \<Rightarrow> database \<Rightarrow> (db_error + unit) \<times> database" where
  "upsert_checkpoint c n h db =
     (if \<not> block_at c h n db then (Inl ForeignKeyViolation, db)
      else (Inr (), db\<lparr>checkpoint_table := hm_insert c (n, h) (checkpoint_table db)\<rparr>))"

end
