(* ===== verification/Postgres.thy ===== *)
theory Postgres
  imports Database Backfill_Commit "HOL-Library.Product_Lexorder"
begin

text \<open>
  The writer of \<open>chainweave-sink/src/postgres.rs\<close> over the schema of Database: durable batches,
  the transaction that applies one, the reads of persisted state, the backfill committer, and
  startup reconciliation.

  A transaction works on its own copy of the database; only \<open>COMMIT\<close> publishes it.  What the
  environment can do to it is the record \<open>faults\<close>: the connection may be lost at any statement,
  and a commit whose answer is lost may or may not have been kept.  A crash point parks the
  process inside the transaction for ever, which is how the code's fault-injection hook models a
  crash.
\<close>

section \<open>Data\<close>

datatype block_status = Unsafe | Safe | Finalized
datatype status_source = Observed | Native | Depth

fun status_str :: "block_status \<Rightarrow> string" where
  "status_str Unsafe = ''unsafe''"
| "status_str Safe = ''safe''"
| "status_str Finalized = ''finalized''"

fun source_str :: "status_source \<Rightarrow> string" where
  "source_str Observed = ''observed''"
| "source_str Native = ''native''"
| "source_str Depth = ''depth''"

record raw_log =
  transaction_index :: u32
  log_index :: u32
  tx_hash :: block_hash
  log_address :: address
  topics :: "block_hash list"
  log_data :: "u8 list"
  decoded_event :: "json option"
  decoder_version :: "string option"

record indexed_block =
  ib_header :: block_header
  timestamp :: int
  ib_status :: block_status
  ib_status_source :: status_source
  block_logs :: "raw_log list"

datatype durable_event = DApply indexed_block | DRollback block_header

record durable_batch =
  db_transition :: chain_transition
  db_common_ancestor :: "block_header option"
  db_events :: "durable_event list"

record pg_checkpoint =
  last_height :: u64
  last_hash :: block_hash

record outbox_event =
  oe_event_id :: int
  oe_event_kind :: string
  oe_block_hash :: block_hash
  oe_block_height :: u64

datatype crash_point = BeforeCommit | AfterCommit | TransactionStep nat

record apply_report =
  applied_blocks :: nat
  rolled_back_blocks :: nat
  upserted_logs :: nat
  appended_outbox_events :: nat

definition apply_report_default :: apply_report where
  "apply_report_default =
     \<lparr>applied_blocks = 0, rolled_back_blocks = 0, upserted_logs = 0, appended_outbox_events = 0\<rparr>"

datatype pg_error =
    EmptyChainId
  | InvalidChainId string
  | InvalidHashLength nat
  | InvalidAddressLength nat
  | HeightOverflow u64
  | IntOverflow u32
  | MissingApplyBlock string
  | UnexpectedApplyBlock string
  | MissingRollbackBlock string
  | NonCanonicalCheckpoint string u64
  | ChainIdentityMismatch string
  | Database db_error

record pg_writer =
  chain_id :: u64

definition writer_new :: "u64 \<Rightarrow> pg_error + pg_writer" where
  "writer_new c = (if c = 0 then Inl EmptyChainId else Inr \<lparr>chain_id = c\<rparr>)"

section \<open>Conversions\<close>

definition pg_height :: "u64 \<Rightarrow> pg_error + int" where
  "pg_height v = (if unat v \<le> i64_max then Inr (uint v) else Inl (HeightOverflow v))"

definition pg_int :: "u32 \<Rightarrow> pg_error + int" where
  "pg_int v = (if unat v \<le> i32_max then Inr (uint v) else Inl (IntOverflow v))"

definition hash_from_vec :: "u8 list \<Rightarrow> pg_error + block_hash" where
  "hash_from_vec v = map_err InvalidHashLength (array_of_vec v)"

definition address_from_vec :: "u8 list \<Rightarrow> pg_error + address" where
  "address_from_vec v = map_err InvalidAddressLength (array_of_vec v)"

definition row_height :: "int \<Rightarrow> pg_error + u64" where
  "row_height n = ok_or (u64_of_int n) (HeightOverflow (- 1))"

definition row_to_checkpoint :: "int \<Rightarrow> u8 list \<Rightarrow> pg_error + pg_checkpoint" where
  "row_to_checkpoint n h =
     tryR (row_height n) (\<lambda>n. tryR (hash_from_vec h) (\<lambda>h. Inr \<lparr>last_height = n, last_hash = h\<rparr>))"

definition row_to_header :: "u8 list \<Rightarrow> u8 list \<Rightarrow> int \<Rightarrow> pg_error + block_header" where
  "row_to_header h p n =
     tryR (row_height n) (\<lambda>n.
     tryR (hash_from_vec h) (\<lambda>h. tryR (hash_from_vec p) (\<lambda>p. Inr (BlockHeader h p n))))"

definition row_to_raw_log :: "int \<Rightarrow> log_row \<Rightarrow> pg_error + raw_log" where
  "row_to_raw_log i r =
     tryR (ok_or (u32_of_int (lr_transaction_index r)) (IntOverflow (- 1))) (\<lambda>ti.
     tryR (ok_or (u32_of_int i) (IntOverflow (- 1))) (\<lambda>li.
     tryR (mapR (\<lambda>t. hash_from_vec (bytes_of t)) (lr_topics r)) (\<lambda>ts.
     tryR (hash_from_vec (bytes_of (lr_tx_hash r))) (\<lambda>tx.
     tryR (address_from_vec (bytes_of (lr_address r))) (\<lambda>a.
       Inr \<lparr>transaction_index = ti, log_index = li, tx_hash = tx, log_address = a, topics = ts,
            log_data = lr_data r, decoded_event = lr_decoded_event r,
            decoder_version = lr_decoder_version r\<rparr>)))))"

definition row_to_outbox_event :: "outbox_row \<Rightarrow> pg_error + outbox_event" where
  "row_to_outbox_event r =
     tryR (row_height (ev_block_height r)) (\<lambda>n.
     tryR (hash_from_vec (bytes_of (ev_block_hash r))) (\<lambda>h.
       Inr \<lparr>oe_event_id = event_id r, oe_event_kind = ev_kind r, oe_block_hash = h,
            oe_block_height = n\<rparr>))"

section \<open>Durable batches\<close>

text \<open>The loop over the events, with the map of the blocks not yet used.\<close>

fun durable_events ::
    "chain_event list \<Rightarrow> (block_hash, indexed_block) hash_map \<Rightarrow>
      pg_error + durable_event list \<times> (block_hash, indexed_block) hash_map" where
  "durable_events [] blks = Inr ([], blks)"
| "durable_events (Rollback blk # es) blks =
     tryR (durable_events es blks) (\<lambda>(ds, rest). Inr (DRollback blk # ds, rest))"
| "durable_events (Apply blk # es) blks =
     tryR (ok_or (hm_get blks (hash blk)) (MissingApplyBlock (hex_hash (hash blk)))) (\<lambda>b.
     tryR (durable_events es (hm_remove (hash blk) blks)) (\<lambda>(ds, rest). Inr (DApply b # ds, rest)))"

definition from_chain_batch :: "chain_batch \<Rightarrow> indexed_block list \<Rightarrow> pg_error + durable_batch" where
  "from_chain_batch b apply_blocks =
     (let blks = fold (\<lambda>blk m. hm_insert (hash (ib_header blk)) blk m) apply_blocks hm_new in
      tryR (durable_events (events b) blks) (\<lambda>(ds, rest).
        case hm_keys rest of
          extra # _ \<Rightarrow> Inl (UnexpectedApplyBlock (hex_hash extra))
        | [] \<Rightarrow> Inr \<lparr>db_transition = transition b, db_common_ancestor = common_ancestor b,
                      db_events = ds\<rparr>))"

definition durable_is_empty :: "durable_batch \<Rightarrow> bool" where
  "durable_is_empty b \<longleftrightarrow> db_events b = []"

section \<open>Transactions\<close>

record faults =
  lost_at :: "nat \<Rightarrow> bool"
  commit_kept :: bool

datatype tx_stop = Parked | Failed pg_error

record txn =
  tx_db :: database
  tx_statements :: nat
  gate_step :: nat

definition run_stmt ::
    "faults \<Rightarrow> (database \<Rightarrow> (db_error + 'a) \<times> database) \<Rightarrow> txn \<Rightarrow> (tx_stop + 'a) \<times> txn" where
  "run_stmt flt f t =
     (if lost_at flt (tx_statements t)
      then (Inl (Failed (Database ConnectionLost)), t\<lparr>tx_statements := Suc (tx_statements t)\<rparr>)
      else case f (tx_db t) of
        (r, db) \<Rightarrow> (map_err (\<lambda>e. Failed (Database e)) r,
                   t\<lparr>tx_db := db, tx_statements := Suc (tx_statements t)\<rparr>))"

definition convert :: "pg_error + 'a \<Rightarrow> txn \<Rightarrow> (tx_stop + 'a) \<times> txn" where
  "convert r t = (map_err Failed r, t)"

definition crash_gate_hit :: "crash_point option \<Rightarrow> txn \<Rightarrow> (tx_stop + unit) \<times> txn" where
  "crash_gate_hit cp t =
     (case cp of
        None \<Rightarrow> (Inr (), t)
      | Some c \<Rightarrow>
          if c = TransactionStep (gate_step t) then (Inl Parked, t)
          else (Inr (), t\<lparr>gate_step := Suc (gate_step t)\<rparr>))"

definition rollback_block :: "faults \<Rightarrow> pg_writer \<Rightarrow> block_header \<Rightarrow> txn \<Rightarrow> (tx_stop + bool) \<times> txn" where
  "rollback_block flt w blk t =
     tryS (run_stmt flt (\<lambda>db. (Inr (get_block (chain_id w) (hash blk) db), db)) t) (\<lambda>exists t.
       if exists = None then (Inl (Failed (MissingRollbackBlock (hex_hash (hash blk)))), t)
       else tryS (convert (pg_height (height blk)) t) (\<lambda>n t.
         run_stmt flt (update_uncanonical (chain_id w) (hash blk) n) t))"

definition block_to_row :: "int \<Rightarrow> indexed_block \<Rightarrow> block_row" where
  "block_to_row n b =
     \<lparr>br_parent = parent_hash (ib_header b), br_height = n, br_timestamp = timestamp b,
      is_canonical = True, br_status = status_str (ib_status b),
      br_status_source = source_str (ib_status_source b)\<rparr>"

definition upsert_block :: "faults \<Rightarrow> pg_writer \<Rightarrow> indexed_block \<Rightarrow> txn \<Rightarrow> (tx_stop + bool) \<times> txn" where
  "upsert_block flt w b t =
     tryS (convert (pg_height (height (ib_header b))) t) (\<lambda>n t.
       run_stmt flt (upsert_canonical (chain_id w) (hash (ib_header b)) (block_to_row n b)) t)"

definition log_to_row :: "int \<Rightarrow> int \<Rightarrow> raw_log \<Rightarrow> log_row" where
  "log_to_row n ti l =
     \<lparr>lr_block_number = n, lr_transaction_index = ti, lr_tx_hash = tx_hash l,
      lr_address = log_address l, lr_topics = topics l, lr_data = log_data l,
      lr_decoded_event = decoded_event l, lr_decoder_version = decoder_version l\<rparr>"

fun upsert_logs_of ::
    "faults \<Rightarrow> pg_writer \<Rightarrow> block_header \<Rightarrow> raw_log list \<Rightarrow> nat \<Rightarrow> txn \<Rightarrow> (tx_stop + nat) \<times> txn" where
  "upsert_logs_of flt w blk [] count t = (Inr count, t)"
| "upsert_logs_of flt w blk (l # ls) count t =
     tryS (convert (pg_height (height blk)) t) (\<lambda>n t.
     tryS (convert (pg_int (transaction_index l)) t) (\<lambda>ti t.
     tryS (convert (pg_int (log_index l)) t) (\<lambda>li t.
     tryS (run_stmt flt (upsert_log (chain_id w) (hash blk) li (log_to_row n ti l)) t) (\<lambda>_ t.
       upsert_logs_of flt w blk ls (count + 1) t))))"

definition upsert_logs :: "faults \<Rightarrow> pg_writer \<Rightarrow> indexed_block \<Rightarrow> txn \<Rightarrow> (tx_stop + nat) \<times> txn" where
  "upsert_logs flt w b t = upsert_logs_of flt w (ib_header b) (block_logs b) 0 t"

definition log_json :: "raw_log \<Rightarrow> json" where
  "log_json l = JObj
     [(''transaction_index'', JNum (uint (transaction_index l))),
      (''log_index'', JNum (uint (log_index l))),
      (''tx_hash'', JStr (hex_hash (tx_hash l))),
      (''address'', JStr (hex_bytes (bytes_of (log_address l)))),
      (''topics'', JArr (map (\<lambda>h. JStr (hex_hash h)) (topics l))),
      (''data'', JStr (hex_bytes (log_data l))),
      (''decoded_event'', j_opt (\<lambda>v. v) (decoded_event l)),
      (''decoder_version'', j_opt JStr (decoder_version l))]"

definition outbox_payload :: "pg_writer \<Rightarrow> string \<Rightarrow> block_header \<Rightarrow> indexed_block option \<Rightarrow> json" where
  "outbox_payload w kind blk b = JObj
     [(''schema_version'', JNum 1),
      (''transition'', JStr kind),
      (''chain_id'', JStr (show_u64 (chain_id w))),
      (''block_hash'', JStr (hex_hash (hash blk))),
      (''parent_hash'', JStr (hex_hash (parent_hash blk))),
      (''block_height'', JNum (uint (height blk))),
      (''status'', j_opt (\<lambda>v. JStr (status_str (ib_status v))) b),
      (''status_source'', j_opt (\<lambda>v. JStr (source_str (ib_status_source v))) b),
      (''log_count'', JNum (case b of None \<Rightarrow> 0 | Some v \<Rightarrow> int (length (block_logs v)))),
      (''logs'', JArr (case b of None \<Rightarrow> [] | Some v \<Rightarrow> map log_json (block_logs v)))]"

definition append_outbox ::
    "faults \<Rightarrow> pg_writer \<Rightarrow> string \<Rightarrow> block_header \<Rightarrow> indexed_block option \<Rightarrow> txn \<Rightarrow> (tx_stop + int) \<times> txn" where
  "append_outbox flt w kind blk b t =
     tryS (convert (pg_height (height blk)) t) (\<lambda>n t.
       run_stmt flt (insert_outbox (chain_id w) kind (hash blk) n (outbox_payload w kind blk b)) t)"

definition move_checkpoint :: "faults \<Rightarrow> pg_writer \<Rightarrow> block_header \<Rightarrow> txn \<Rightarrow> (tx_stop + unit) \<times> txn" where
  "move_checkpoint flt w target t =
     tryS (convert (pg_height (height target)) t) (\<lambda>n t.
     tryS (run_stmt flt (\<lambda>db. (Inr (canonical_at (chain_id w) (hash target) n db), db)) t) (\<lambda>canonical t.
       if \<not> canonical
       then (Inl (Failed (NonCanonicalCheckpoint (hex_hash (hash target)) (height target))), t)
       else run_stmt flt (upsert_checkpoint (chain_id w) n (hash target)) t))"

text \<open>One turn of the loop over the events: the report and the checkpoint target so far.\<close>

definition apply_event ::
    "faults \<Rightarrow> pg_writer \<Rightarrow> block_header option \<Rightarrow> durable_event \<Rightarrow>
      apply_report \<times> block_header option \<Rightarrow> txn \<Rightarrow>
      (tx_stop + apply_report \<times> block_header option) \<times> txn" where
  "apply_event flt w anc e rt t =
     (case e of
        DRollback blk \<Rightarrow>
          tryS (rollback_block flt w blk t) (\<lambda>changed t.
            if changed then
              tryS (append_outbox flt w ''rollback'' blk None t) (\<lambda>_ t.
                (Inr ((fst rt)\<lparr>rolled_back_blocks := rolled_back_blocks (fst rt) + 1,
                             appended_outbox_events := appended_outbox_events (fst rt) + 1\<rparr>, anc), t))
            else (Inr (fst rt, anc), t))
      | DApply b \<Rightarrow>
          tryS (upsert_block flt w b t) (\<lambda>changed t.
          tryS (upsert_logs flt w b t) (\<lambda>n t.
            let rep = (fst rt)\<lparr>upserted_logs := upserted_logs (fst rt) + n\<rparr> in
            if changed then
              tryS (append_outbox flt w ''apply'' (ib_header b) (Some b) t) (\<lambda>_ t.
                (Inr (rep\<lparr>applied_blocks := applied_blocks rep + 1,
                         appended_outbox_events := appended_outbox_events rep + 1\<rparr>,
                      Some (ib_header b)), t))
            else (Inr (rep, Some (ib_header b)), t))))"

fun apply_events ::
    "faults \<Rightarrow> crash_point option \<Rightarrow> pg_writer \<Rightarrow> block_header option \<Rightarrow> durable_event list \<Rightarrow>
      apply_report \<times> block_header option \<Rightarrow> txn \<Rightarrow>
      (tx_stop + apply_report \<times> block_header option) \<times> txn" where
  "apply_events flt cp w anc [] rt t = (Inr rt, t)"
| "apply_events flt cp w anc (e # es) rt t =
     tryS (crash_gate_hit cp t) (\<lambda>_ t.
     tryS (apply_event flt w anc e rt t) (\<lambda>rt t.
     tryS (crash_gate_hit cp t) (\<lambda>_ t.
       apply_events flt cp w anc es rt t)))"

definition move_target ::
    "faults \<Rightarrow> crash_point option \<Rightarrow> pg_writer \<Rightarrow> block_header option \<Rightarrow> txn \<Rightarrow> (tx_stop + unit) \<times> txn" where
  "move_target flt cp w target t =
     (case target of
        None \<Rightarrow> (Inr (), t)
      | Some blk \<Rightarrow>
          tryS (crash_gate_hit cp t) (\<lambda>_ t.
          tryS (move_checkpoint flt w blk t) (\<lambda>_ t.
            crash_gate_hit cp t)))"

text \<open>Everything between \<open>BEGIN\<close> and \<open>COMMIT\<close>.\<close>

definition batch_body ::
    "faults \<Rightarrow> crash_point option \<Rightarrow> pg_writer \<Rightarrow> durable_batch \<Rightarrow> txn \<Rightarrow> (tx_stop + apply_report) \<times> txn" where
  "batch_body flt cp w b t =
     tryS (run_stmt flt (\<lambda>db. (Inr (), db)) t) (\<lambda>_ t.
     tryS (crash_gate_hit cp t) (\<lambda>_ t.
     tryS (apply_events flt cp w (db_common_ancestor b) (db_events b)
         (apply_report_default, db_common_ancestor b) t) (\<lambda>(rep, target) t.
     tryS (move_target flt cp w target t) (\<lambda>_ t.
       if cp = Some BeforeCommit then (Inl Parked, t) else (Inr rep, t)))))"

datatype 'a write_result = Returned "pg_error + 'a" | Crashed

text \<open>
  An abandoned transaction leaves the database as it was, except for the sequence, which does not
  roll back.
\<close>

definition abandon :: "database \<Rightarrow> txn \<Rightarrow> database" where
  "abandon db t = db\<lparr>outbox_seq := outbox_seq (tx_db t)\<rparr>"

definition apply_batch_inner ::
    "faults \<Rightarrow> crash_point option \<Rightarrow> pg_writer \<Rightarrow> durable_batch \<Rightarrow> database \<Rightarrow>
      apply_report write_result \<times> database" where
  "apply_batch_inner flt cp w b db =
     (if durable_is_empty b then (Returned (Inr apply_report_default), db)
      else case batch_body flt cp w b \<lparr>tx_db = db, tx_statements = 0, gate_step = 0\<rparr> of
        (Inl Parked, t) \<Rightarrow> (Crashed, abandon db t)
      | (Inl (Failed e), t) \<Rightarrow> (Returned (Inl e), abandon db t)
      | (Inr rep, t) \<Rightarrow>
          if lost_at flt (tx_statements t)
          then (Returned (Inl (Database ConnectionLost)),
                if commit_kept flt then tx_db t else abandon db t)
          else if cp = Some AfterCommit then (Crashed, tx_db t)
          else (Returned (Inr rep), tx_db t))"

definition apply_batch ::
    "faults \<Rightarrow> pg_writer \<Rightarrow> durable_batch \<Rightarrow> database \<Rightarrow> (pg_error + apply_report) \<times> database" where
  "apply_batch flt w b db =
     (case apply_batch_inner flt None w b db of
        (Returned r, db') \<Rightarrow> (r, db')
      | (Crashed, db') \<Rightarrow> (Inl (Database ConnectionLost), db'))"

section \<open>Reads\<close>

definition ensure_chain_identity ::
    "pg_writer \<Rightarrow> block_hash \<Rightarrow> database \<Rightarrow> (pg_error + unit) \<times> database" where
  "ensure_chain_identity w g db =
     (case insert_identity (chain_id w) g db of
        (Inl e, db') \<Rightarrow> (Inl (Database e), db')
      | (Inr n, db') \<Rightarrow> if n = 0 then (Inl (ChainIdentityMismatch (show_u64 (chain_id w))), db') else (Inr (), db'))"

text \<open>\<open>.map(row \<dots>).transpose()\<close>.\<close>

definition transpose :: "('e + 'a) option \<Rightarrow> 'e + 'a option" where
  "transpose m = (case m of None \<Rightarrow> Inr None | Some (Inl e) \<Rightarrow> Inl e | Some (Inr x) \<Rightarrow> Inr (Some x))"

definition read_checkpoint :: "pg_writer \<Rightarrow> database \<Rightarrow> pg_error + pg_checkpoint option" where
  "read_checkpoint w db =
     transpose (map_option (\<lambda>(n, h). row_to_checkpoint n (bytes_of h))
       (hm_get (checkpoint_table db) (chain_id w)))"

definition header_of_row :: "block_hash \<times> block_row \<Rightarrow> pg_error + block_header" where
  "header_of_row hr = row_to_header (bytes_of (fst hr)) (bytes_of (br_parent (snd hr))) (br_height (snd hr))"

definition canonical_header_at :: "pg_writer \<Rightarrow> u64 \<Rightarrow> database \<Rightarrow> pg_error + block_header option" where
  "canonical_header_at w n db =
     tryR (pg_height n) (\<lambda>n. transpose (map_option header_of_row (find_canonical (chain_id w) n db)))"

definition canonical_header_of :: "pg_writer \<Rightarrow> block_hash \<Rightarrow> database \<Rightarrow> pg_error + block_header option" where
  "canonical_header_of w h db =
     transpose (map_option (\<lambda>r. header_of_row (h, r))
       (case get_block (chain_id w) h db of
          Some r \<Rightarrow> if is_canonical r then Some r else None
        | None \<Rightarrow> None))"

definition canonical_headers_descending ::
    "pg_writer \<Rightarrow> u64 \<Rightarrow> u64 \<Rightarrow> database \<Rightarrow> pg_error + block_header list" where
  "canonical_headers_descending w from_height to_exclusive db =
     tryR (pg_height to_exclusive) (\<lambda>lo.
     tryR (pg_height from_height) (\<lambda>hi.
       mapR header_of_row
         (rev (sort_key (\<lambda>(_, r). br_height r)
           (filter (\<lambda>(_, r). lo < br_height r \<and> br_height r \<le> hi) (canonical_rows (chain_id w) db))))))"

definition outbox_events :: "pg_writer \<Rightarrow> database \<Rightarrow> pg_error + outbox_event list" where
  "outbox_events w db =
     mapR row_to_outbox_event
       (sort_key event_id (filter (\<lambda>r. ev_chain r = chain_id w) (outbox_table db)))"

record canonical_range_summary =
  canonical_blocks :: nat
  min_height :: "u64 option"
  max_height :: "u64 option"

definition range_summary ::
    "pg_writer \<Rightarrow> u64 \<Rightarrow> u64 \<Rightarrow> database \<Rightarrow> pg_error + canonical_range_summary" where
  "range_summary w f t db =
     tryR (pg_height f) (\<lambda>lo.
     tryR (pg_height t) (\<lambda>hi.
       let ns = map (\<lambda>(_, r). br_height r)
         (filter (\<lambda>(_, r). lo \<le> br_height r \<and> br_height r \<le> hi) (canonical_rows (chain_id w) db))
       in tryR (transpose (map_option row_height (if ns = [] then None else Some (Min (set ns))))) (\<lambda>mn.
          tryR (transpose (map_option row_height (if ns = [] then None else Some (Max (set ns))))) (\<lambda>mx.
            Inr \<lparr>canonical_blocks = length ns, min_height = mn, max_height = mx\<rparr>))))"

text \<open>
  The logs of canonical blocks: the join of the two tables, ordered by block, transaction and log.
\<close>

definition canonical_log_rows :: "u64 \<Rightarrow> database \<Rightarrow> ((block_hash \<times> int) \<times> log_row) list" where
  "canonical_log_rows c db =
     sort_key (\<lambda>((_, i), r). (lr_block_number r, lr_transaction_index r, i))
       (map (\<lambda>((_, h, i), r). ((h, i), r))
         (filter (\<lambda>((c', h, _), r). c' = c \<and>
             (case get_block c h db of Some b \<Rightarrow> is_canonical b | None \<Rightarrow> False))
           (logs_table db)))"

definition canonical_logs :: "pg_writer \<Rightarrow> database \<Rightarrow> pg_error + raw_log list" where
  "canonical_logs w db =
     mapR (\<lambda>((_, i), r). row_to_raw_log i r) (canonical_log_rows (chain_id w) db)"

record normalized_log_record =
  nl_block_hash :: block_hash
  nl_tx_hash :: block_hash
  nl_log_index :: u32
  nl_address :: address
  nl_topics :: "block_hash list"
  nl_data :: "u8 list"

definition normalized_row :: "(block_hash \<times> int) \<times> log_row \<Rightarrow> pg_error + normalized_log_record" where
  "normalized_row hr =
     (case hr of ((h, i), r) \<Rightarrow>
        tryR (hash_from_vec (bytes_of h)) (\<lambda>h.
        tryR (hash_from_vec (bytes_of (lr_tx_hash r))) (\<lambda>tx.
        tryR (ok_or (u32_of_int i) (IntOverflow (- 1))) (\<lambda>li.
        tryR (address_from_vec (bytes_of (lr_address r))) (\<lambda>a.
        tryR (mapR (\<lambda>t. hash_from_vec (bytes_of t)) (lr_topics r)) (\<lambda>ts.
          Inr \<lparr>nl_block_hash = h, nl_tx_hash = tx, nl_log_index = li, nl_address = a,
               nl_topics = ts, nl_data = lr_data r\<rparr>))))))"

definition canonical_log_records ::
    "pg_writer \<Rightarrow> u64 \<Rightarrow> u64 \<Rightarrow> address option \<Rightarrow> database \<Rightarrow> pg_error + normalized_log_record list" where
  "canonical_log_records w f t a db =
     tryR (pg_height f) (\<lambda>lo.
     tryR (pg_height t) (\<lambda>hi.
       mapR normalized_row
         (filter (\<lambda>(_, r). lo \<le> lr_block_number r \<and> lr_block_number r \<le> hi \<and>
             (case a of None \<Rightarrow> True | Some a \<Rightarrow> lr_address r = a))
           (canonical_log_rows (chain_id w) db))))"

section \<open>The backfill committer\<close>

record committer =
  cm_writer :: pg_writer
  cm_parent_anchor :: "block_header option"
  last_committed_hash :: "block_hash option"

definition committer_new :: "pg_writer \<Rightarrow> block_header option \<Rightarrow> committer" where
  "committer_new w anchor = \<lparr>cm_writer = w, cm_parent_anchor = anchor, last_committed_hash = None\<rparr>"

text \<open>
  \<open>commit_range\<close>, with the error text already turned into \<open>BackfillError::Commit\<close>; \<open>show_error\<close> is
  the \<open>Display\<close> of the writer's errors.
\<close>

definition committer_commit ::
    "(pg_error \<Rightarrow> string) \<Rightarrow> faults \<Rightarrow> indexed_block fetched_range \<Rightarrow> committer \<times> database \<Rightarrow>
      (backfill_error + unit) \<times> committer \<times> database" where
  "committer_commit show_error flt f cd =
     (let c = fst cd; db = snd cd in
      if fr_headers f = [] then (Inl (Commit ''cannot commit empty fetched range''), c, db)
      else
        let last_header = last (fr_headers f);
            batch = \<lparr>transition = (if cm_parent_anchor c \<noteq> None then Gap else Bootstrap),
                     common_ancestor = cm_parent_anchor c, events = map Apply (fr_headers f)\<rparr>
        in case from_chain_batch batch (fr_logs f) of
             Inl e \<Rightarrow> (Inl (Commit (show_error e)), c, db)
           | Inr durable \<Rightarrow>
               (case apply_batch flt (cm_writer c) durable db of
                  (Inl e, db') \<Rightarrow> (Inl (Commit (show_error e)), c, db')
                | (Inr _, db') \<Rightarrow>
                    (Inr (), c\<lparr>cm_parent_anchor := Some last_header,
                               last_committed_hash := Some (hash last_header)\<rparr>, db')))"

end
