(* ===== verification/Postgres_Correct.thy ===== *)
theory Postgres_Correct
  imports Postgres
begin

text \<open>
  Correctness of the writer: the invariant of the persisted state and its preservation by every
  batch, the atomicity of a batch under lost connections and crashes, the journal as an account
  of the canonical set, and the idempotence of a retried batch.
\<close>

section \<open>The persisted state\<close>

definition canonical :: "u64 \<Rightarrow> block_hash \<Rightarrow> database \<Rightarrow> bool" where
  "canonical c h db \<longleftrightarrow> (\<exists>r. get_block c h db = Some r \<and> is_canonical r)"

text \<open>The canonical set that the journal of a chain describes, event by event.\<close>

definition replay_event :: "u64 \<Rightarrow> outbox_row \<Rightarrow> block_hash set \<Rightarrow> block_hash set" where
  "replay_event c e s =
     (if ev_chain e \<noteq> c then s
      else if ev_kind e = ''apply'' then insert (ev_block_hash e) s
      else if ev_kind e = ''rollback'' then s - {ev_block_hash e}
      else s)"

definition replay :: "u64 \<Rightarrow> outbox_row list \<Rightarrow> block_hash set" where
  "replay c es = fold (replay_event c) es {}"

definition rows_wf :: "database \<Rightarrow> bool" where
  "rows_wf db \<longleftrightarrow>
     hm_inv (blocks_table db) \<and> hm_inv (checkpoint_table db) \<and>
     (\<forall>c h r. get_block c h db = Some r \<longrightarrow> 0 \<le> br_height r \<and> br_height r < 2 ^ 63) \<and>
     (\<forall>c h r h' r'. get_block c h db = Some r \<longrightarrow> is_canonical r \<longrightarrow>
        get_block c h' db = Some r' \<longrightarrow> is_canonical r' \<longrightarrow> br_height r = br_height r' \<longrightarrow> h = h') \<and>
     (\<forall>c n h. hm_get (checkpoint_table db) c = Some (n, h) \<longrightarrow> block_at c h n db)"

definition journal_wf :: "database \<Rightarrow> bool" where
  "journal_wf db \<longleftrightarrow>
     sorted_wrt (<) (map event_id (outbox_table db)) \<and>
     (\<forall>e \<in> set (outbox_table db). event_id e < outbox_seq db \<and>
        block_at (ev_chain e) (ev_block_hash e) (ev_block_height e) db) \<and>
     (\<forall>c. replay c (outbox_table db) = {h. canonical c h db})"

definition db_inv :: "database \<Rightarrow> bool" where
  "db_inv db \<longleftrightarrow> rows_wf db \<and> journal_wf db"

lemma canonical_rows_iff:
  assumes "rows_wf db"
  shows "(h, r) \<in> set (canonical_rows c db) \<longleftrightarrow> get_block c h db = Some r \<and> is_canonical r"
proof -
  have "((c, h), r) \<in> set (blocks_table db) \<longleftrightarrow> get_block c h db = Some r"
    using assms by (simp add: rows_wf_def get_block_def hm_get_def hm_inv_def)
  then show ?thesis by (force simp: canonical_rows_def)
qed

lemma height_taken_iff:
  assumes "rows_wf db"
  shows "height_taken c h n db \<longleftrightarrow>
    (\<exists>h' r. h' \<noteq> h \<and> get_block c h' db = Some r \<and> is_canonical r \<and> br_height r = n)"
  using canonical_rows_iff [OF assms, of _ _ c] by (auto simp: height_taken_def list_ex_iff)

lemma replay_append: "replay c (es @ es') = fold (replay_event c) es' (replay c es)"
  by (simp add: replay_def)

text \<open>Writing one row of \<open>blocks\<close>.\<close>

definition set_row :: "u64 \<Rightarrow> block_hash \<Rightarrow> block_row \<Rightarrow> database \<Rightarrow> database" where
  "set_row c h r db = db\<lparr>blocks_table := hm_insert (c, h) r (blocks_table db)\<rparr>"

lemma set_row_simps [simp]:
  "get_block c' h' (set_row c h r db) = (if c' = c \<and> h' = h then Some r else get_block c' h' db)"
  "checkpoint_table (set_row c h r db) = checkpoint_table db"
  "outbox_table (set_row c h r db) = outbox_table db"
  "outbox_seq (set_row c h r db) = outbox_seq db"
  "chain_identity (set_row c h r db) = chain_identity db"
  by (auto simp: set_row_def get_block_def)

lemma rows_wf_set_row:
  assumes "rows_wf db" and "0 \<le> br_height r" and "br_height r < 2 ^ 63"
    and "\<And>old. get_block c h db = Some old \<Longrightarrow> br_height old = br_height r"
    and "is_canonical r \<Longrightarrow> \<not> height_taken c h (br_height r) db"
  shows "rows_wf (set_row c h r db)"
proof -
  have "hm_inv (blocks_table (set_row c h r db))"
    using assms(1) by (simp add: rows_wf_def set_row_def)
  moreover have "block_at c' h' n (set_row c h r db)" if "block_at c' h' n db" for c' h' n
    using that assms(4) by (auto simp: block_at_def split: option.splits)
  ultimately show ?thesis
    using assms height_taken_iff [OF assms(1), of c h "br_height r"]
    unfolding rows_wf_def by (auto split: if_splits)
qed

section \<open>The statements\<close>

lemma update_uncanonical_cases:
  assumes "update_uncanonical c h n db = (Inr b, db')"
  obtains (unchanged) "\<not> b" "db' = db" "\<not> canonical_at c h n db"
  | (changed) r where "b" "get_block c h db = Some r" "br_height r = n" "is_canonical r"
      "db' = set_row c h (r\<lparr>is_canonical := False\<rparr>) db"
  using assms
  by (auto simp: update_uncanonical_def set_row_def canonical_at_def split: option.splits if_splits)

lemma upsert_canonical_cases:
  assumes "upsert_canonical c h new db = (Inr b, db')"
  obtains (unchanged) r where "\<not> b" "db' = db" "get_block c h db = Some r" "is_canonical r"
  | (changed) r where "b" "db' = set_row c h r db" "is_canonical r"
      "\<not> height_taken c h (br_height r) db" "\<not> canonical c h db"
      "get_block c h db = None \<Longrightarrow> r = new\<lparr>is_canonical := True\<rparr>"
      "\<And>old. get_block c h db = Some old \<Longrightarrow> br_height r = br_height old \<and> br_parent r = br_parent old"
proof (cases "get_block c h db")
  case None
  with assms changed [of "new\<lparr>is_canonical := True\<rparr>"] show ?thesis
    by (auto simp: upsert_canonical_def set_row_def canonical_def split: if_splits)
next
  case (Some old)
  with assms unchanged [of old] changed [of "old\<lparr>is_canonical := True, br_timestamp := br_timestamp new,
        br_status := br_status new, br_status_source := br_status_source new\<rparr>"] show ?thesis
    by (auto simp: upsert_canonical_def set_row_def canonical_def split: if_splits)
qed

definition outbox_entry :: "u64 \<Rightarrow> string \<Rightarrow> block_hash \<Rightarrow> int \<Rightarrow> json \<Rightarrow> database \<Rightarrow> outbox_row" where
  "outbox_entry c kind h n payload db =
     \<lparr>event_id = outbox_seq db, ev_chain = c, ev_kind = kind, ev_block_hash = h,
      ev_block_height = n, ev_payload = payload, ev_created = db_now db, published_at = None\<rparr>"

lemma insert_outbox_Inr:
  "insert_outbox c kind h n payload db = (Inr i, db') \<longleftrightarrow>
     block_at c h n db \<and> i = outbox_seq db \<and>
     db' = db\<lparr>outbox_seq := outbox_seq db + 1,
       outbox_table := outbox_table db @ [outbox_entry c kind h n payload db]\<rparr>"
  by (auto simp: insert_outbox_def Let_def outbox_entry_def)

lemma get_block_outbox [simp]:
  "get_block c h (db\<lparr>outbox_seq := i, outbox_table := es\<rparr>) = get_block c h db"
  "get_block c h (db\<lparr>logs_table := ls\<rparr>) = get_block c h db"
  "get_block c h (db\<lparr>checkpoint_table := cs\<rparr>) = get_block c h db"
  "get_block c h (db\<lparr>outbox_seq := i\<rparr>) = get_block c h db"
  by (simp_all add: get_block_def)

lemma block_at_outbox [simp]:
  "block_at c h n (db\<lparr>outbox_seq := i, outbox_table := es\<rparr>) = block_at c h n db"
  "block_at c h n (db\<lparr>logs_table := ls\<rparr>) = block_at c h n db"
  "block_at c h n (db\<lparr>checkpoint_table := cs\<rparr>) = block_at c h n db"
  "block_at c h n (db\<lparr>outbox_seq := i\<rparr>) = block_at c h n db"
  by (simp_all add: block_at_def)

text \<open>
  The invariant survives a change of one row together with the journal entry that describes it.
\<close>

lemma db_inv_transition:
  assumes inv: "db_inv db" and row: "rows_wf (set_row c h r db)"
    and kind: "kind = (if is_canonical r then ''apply'' else ''rollback'')"
    and height: "br_height r = n"
    and same: "\<And>old. get_block c h db = Some old \<Longrightarrow> br_height old = n"
  shows "db_inv ((set_row c h r db)\<lparr>outbox_seq := outbox_seq db + 1,
     outbox_table := outbox_table db @ [outbox_entry c kind h n payload db]\<rparr>)"
proof -
  let ?db = "(set_row c h r db)\<lparr>outbox_seq := outbox_seq db + 1,
     outbox_table := outbox_table db @ [outbox_entry c kind h n payload db]\<rparr>"
  have j: "journal_wf db" using inv by (simp add: db_inv_def)
  have at: "block_at c' h' n' ?db" if "block_at c' h' n' db" for c' h' n'
    using that same height by (auto simp: block_at_def split: option.splits)
  have new: "block_at c h n ?db" using height by (simp add: block_at_def)
  have can: "canonical c' h' ?db \<longleftrightarrow> (if c' = c \<and> h' = h then is_canonical r else canonical c' h' db)" for c' h'
    by (auto simp: canonical_def)
  have "sorted_wrt (<) (map event_id (outbox_table ?db))"
    using j by (auto simp: journal_wf_def sorted_wrt_append outbox_entry_def)
  moreover have "\<forall>e \<in> set (outbox_table ?db). event_id e < outbox_seq ?db \<and>
      block_at (ev_chain e) (ev_block_hash e) (ev_block_height e) ?db"
    using j at new by (auto simp: journal_wf_def outbox_entry_def)
  moreover have "replay c' (outbox_table ?db) = {h'. canonical c' h' ?db}" for c'
  proof -
    have old: "replay c' (outbox_table db) = {h'. canonical c' h' db}"
      using j by (simp add: journal_wf_def)
    show ?thesis
      unfolding can by (auto simp: replay_append replay_event_def outbox_entry_def kind old)
  qed
  moreover have "rows_wf (d\<lparr>outbox_seq := i, outbox_table := es\<rparr>) = rows_wf d" for d i es
    by (simp add: rows_wf_def)
  then have "rows_wf ?db" using row by simp
  ultimately show ?thesis by (simp add: db_inv_def journal_wf_def)
qed

definition journaled ::
    "u64 \<Rightarrow> string \<Rightarrow> block_hash \<Rightarrow> block_row \<Rightarrow> json \<Rightarrow> database \<Rightarrow> database" where
  "journaled c kind h r payload db =
     (set_row c h r db)\<lparr>outbox_seq := outbox_seq db + 1,
        outbox_table := outbox_table db @ [outbox_entry c kind h (br_height r) payload db]\<rparr>"

lemma journaled_simps [simp]:
  "get_block c' h' (journaled c kind h r pl db) = (if c' = c \<and> h' = h then Some r else get_block c' h' db)"
  "checkpoint_table (journaled c kind h r pl db) = checkpoint_table db"
  "chain_identity (journaled c kind h r pl db) = chain_identity db"
  by (simp_all add: journaled_def)

lemma logs_irrelevant [simp]:
  "db_inv (db\<lparr>logs_table := ls\<rparr>) = db_inv db"
  "journal_wf (db\<lparr>logs_table := ls\<rparr>) = journal_wf db"
  "rows_wf (db\<lparr>logs_table := ls\<rparr>) = rows_wf db"
  "canonical c h (db\<lparr>logs_table := ls\<rparr>) = canonical c h db"
  by (simp_all add: db_inv_def rows_wf_def journal_wf_def canonical_def)

lemma set_row_logs: "(set_row c h r db)\<lparr>logs_table := ls\<rparr> = set_row c h r (db\<lparr>logs_table := ls\<rparr>)"
  by (simp add: set_row_def)

lemma outbox_entry_irrelevant [simp]:
  "outbox_entry c kind h n pl (set_row c h r db) = outbox_entry c kind h n pl db"
  by (simp add: outbox_entry_def set_row_def)

lemma run_stmt_Inr:
  "run_stmt flt f t = (Inr x, t') \<longleftrightarrow>
     \<not> lost_at flt (tx_statements t) \<and>
     (\<exists>db. f (tx_db t) = (Inr x, db) \<and> t' = t\<lparr>tx_db := db, tx_statements := Suc (tx_statements t)\<rparr>)"
  by (auto simp: run_stmt_def try_simps split: prod.splits)

lemma convert_Inr [simp]: "convert r t = (Inr x, t') \<longleftrightarrow> r = Inr x \<and> t' = t"
  by (auto simp: convert_def try_simps)

lemma pg_height_Inr: "pg_height v = Inr n \<longleftrightarrow> unat v < 2 ^ 63 \<and> n = uint v"
  by (auto simp: pg_height_def i64_max_def)

lemma pg_height_bounds:
  assumes "pg_height v = Inr n"
  shows "0 \<le> n \<and> n < 2 ^ 63"
proof -
  have "int (unat v) < int (2 ^ 63)" "n = uint v"
    using assms unfolding of_nat_less_iff by (simp_all add: pg_height_Inr)
  then show ?thesis by simp
qed

lemma crash_gate_db: "crash_gate_hit cp t = (Inr u, t') \<Longrightarrow> tx_db t' = tx_db t"
  by (auto simp: crash_gate_hit_def split: option.splits if_splits)

lemma upsert_logs_of_db:
  "upsert_logs_of flt w blk ls k t = (Inr n, t') \<Longrightarrow>
   (\<exists>l. tx_db t' = (tx_db t)\<lparr>logs_table := l\<rparr>)"
proof (induction ls arbitrary: k t)
  case Nil
  then show ?case by (auto intro: exI [of _ "logs_table (tx_db t)"])
next
  case (Cons l ls)
  from Cons.prems obtain n' ti li db where
    u: "upsert_log (chain_id w) (hash blk) li (log_to_row n' ti l) (tx_db t) = (Inr (), db)" and
    rest: "upsert_logs_of flt w blk ls (k + 1) (t\<lparr>tx_db := db, tx_statements := Suc (tx_statements t)\<rparr>) = (Inr n, t')"
    by (auto simp: try_simps run_stmt_Inr)
  from u obtain l1 where "db = (tx_db t)\<lparr>logs_table := l1\<rparr>"
    by (auto simp: upsert_log_def split: option.splits if_splits)
  with Cons.IH [OF rest] show ?case by auto
qed

lemma rollback_block_Inr:
  assumes "rollback_block flt w blk t = (Inr b, t')"
  shows "\<exists>n. pg_height (height blk) = Inr n \<and> get_block (chain_id w) (hash blk) (tx_db t) \<noteq> None \<and>
    update_uncanonical (chain_id w) (hash blk) n (tx_db t) = (Inr b, tx_db t')"
  using assms by (auto simp: rollback_block_def try_simps run_stmt_Inr split: if_splits)

lemma append_outbox_Inr:
  assumes "append_outbox flt w kind blk b t = (Inr i, t')"
  shows "\<exists>n. pg_height (height blk) = Inr n \<and>
    insert_outbox (chain_id w) kind (hash blk) n (outbox_payload w kind blk b) (tx_db t) = (Inr i, tx_db t')"
  using assms by (auto simp: append_outbox_def try_simps run_stmt_Inr)

lemma apply_event_cases:
  assumes "apply_event flt w anc e (rep, tgt) t = (Inr (rep', tgt'), t')"
  obtains (rollback_noop) blk n where "e = DRollback blk" "pg_height (height blk) = Inr n"
      "\<not> canonical_at (chain_id w) (hash blk) n (tx_db t)" "tx_db t' = tx_db t" "tgt' = anc" "rep' = rep"
  | (rollback) blk r pl where "e = DRollback blk" "pg_height (height blk) = Inr (br_height r)"
      "get_block (chain_id w) (hash blk) (tx_db t) = Some r" "is_canonical r" "tgt' = anc"
      "tx_db t' = journaled (chain_id w) ''rollback'' (hash blk) (r\<lparr>is_canonical := False\<rparr>) pl (tx_db t)"
      "rolled_back_blocks rep' = rolled_back_blocks rep + 1"
  | (apply_noop) b r ls where "e = DApply b" "get_block (chain_id w) (hash (ib_header b)) (tx_db t) = Some r"
      "is_canonical r" "tx_db t' = (tx_db t)\<lparr>logs_table := ls\<rparr>" "tgt' = Some (ib_header b)"
      "applied_blocks rep' = applied_blocks rep" "appended_outbox_events rep' = appended_outbox_events rep"
  | (applied) b r ls pl where "e = DApply b" "pg_height (height (ib_header b)) = Inr (br_height r)"
      "is_canonical r" "\<not> canonical (chain_id w) (hash (ib_header b)) (tx_db t)"
      "\<not> height_taken (chain_id w) (hash (ib_header b)) (br_height r) (tx_db t)"
      "get_block (chain_id w) (hash (ib_header b)) (tx_db t) = None \<Longrightarrow>
         br_parent r = parent_hash (ib_header b)"
      "\<And>old. get_block (chain_id w) (hash (ib_header b)) (tx_db t) = Some old \<Longrightarrow>
         br_height old = br_height r \<and> br_parent old = br_parent r"
      "tx_db t' = journaled (chain_id w) ''apply'' (hash (ib_header b)) r pl ((tx_db t)\<lparr>logs_table := ls\<rparr>)"
      "tgt' = Some (ib_header b)" "applied_blocks rep' = applied_blocks rep + 1"
proof (cases e)
  case (DRollback blk)
  with assms obtain b t1 where rb: "rollback_block flt w blk t = (Inr b, t1)"
    by (auto simp: apply_event_def try_simps)
  from rollback_block_Inr [OF rb] obtain n where n: "pg_height (height blk) = Inr n"
    and u: "update_uncanonical (chain_id w) (hash blk) n (tx_db t) = (Inr b, tx_db t1)" by blast
  from u show ?thesis
  proof (cases rule: update_uncanonical_cases)
    case unchanged
    with assms DRollback rb n rollback_noop show ?thesis by (auto simp: apply_event_def)
  next
    case (changed r)
    with assms DRollback rb obtain i where
      ao: "append_outbox flt w ''rollback'' blk None t1 = (Inr i, t')" and "tgt' = anc"
      "rolled_back_blocks rep' = rolled_back_blocks rep + 1"
      by (auto simp: apply_event_def try_simps)
    moreover from append_outbox_Inr [OF ao] n changed have
      "tx_db t' = journaled (chain_id w) ''rollback'' (hash blk) (r\<lparr>is_canonical := False\<rparr>)
        (outbox_payload w ''rollback'' blk None) (tx_db t)"
      by (auto simp: insert_outbox_Inr journaled_def)
    ultimately show ?thesis
      using DRollback n changed rollback [of blk r] by auto
  qed
next
  case (DApply b)
  let ?c = "chain_id w" and ?h = "hash (ib_header b)"
  from assms DApply obtain ch t1 k t2 where ub: "upsert_block flt w b t = (Inr ch, t1)"
    and ul: "upsert_logs flt w b t1 = (Inr k, t2)"
    by (auto simp: apply_event_def try_simps Let_def)
  from upsert_logs_of_db [of flt w "ib_header b" "block_logs b" 0 t1 k t2] ul obtain ls where
    ls: "tx_db t2 = (tx_db t1)\<lparr>logs_table := ls\<rparr>" by (auto simp: upsert_logs_def)
  from ub obtain n where n: "pg_height (height (ib_header b)) = Inr n"
    and uc: "upsert_canonical ?c ?h (block_to_row n b) (tx_db t) = (Inr ch, tx_db t1)"
    by (auto simp: upsert_block_def try_simps run_stmt_Inr)
  have new: "br_parent (block_to_row n b) = parent_hash (ib_header b)"
    by (simp add: block_to_row_def)
  from uc show ?thesis
  proof (cases rule: upsert_canonical_cases)
    case (unchanged r)
    with assms DApply ub ul ls show ?thesis
      by (intro apply_noop [of b r ls]) (auto simp: apply_event_def Let_def)
  next
    case (changed r)
    with assms DApply ub ul obtain i where
      ao: "append_outbox flt w ''apply'' (ib_header b) (Some b) t2 = (Inr i, t')" and
      "tgt' = Some (ib_header b)" "applied_blocks rep' = applied_blocks rep + 1"
      by (auto simp: apply_event_def try_simps Let_def)
    moreover from append_outbox_Inr [OF ao] n have
      at: "block_at ?c ?h n (tx_db t2)" and
      db': "tx_db t' = (tx_db t2)\<lparr>outbox_seq := outbox_seq (tx_db t2) + 1, outbox_table := outbox_table (tx_db t2) @
         [outbox_entry ?c ''apply'' ?h n (outbox_payload w ''apply'' (ib_header b) (Some b)) (tx_db t2)]\<rparr>"
      by (auto simp: insert_outbox_Inr)
    moreover from at ls changed have rn: "br_height r = n" by (simp add: block_at_def)
    moreover have "tx_db t' = journaled ?c ''apply'' ?h r (outbox_payload w ''apply'' (ib_header b) (Some b))
        ((tx_db t)\<lparr>logs_table := ls\<rparr>)"
      using db' rn changed(2) by (simp add: ls journaled_def set_row_logs)
    ultimately show ?thesis
      using DApply n new changed
      by (intro applied [of b r "outbox_payload w ''apply'' (ib_header b) (Some b)" ls]) auto
  qed
qed

lemma apply_event_inv:
  assumes "apply_event flt w anc e (rep, tgt) t = (Inr (rep', tgt'), t')" and inv: "db_inv (tx_db t)"
  shows "db_inv (tx_db t')"
  using assms(1)
proof (cases rule: apply_event_cases)
  case (rollback blk r pl)
  have wf: "rows_wf (tx_db t)" using inv by (simp add: db_inv_def)
  then have "0 \<le> br_height r" "br_height r < 2 ^ 63"
    using rollback(3) by (auto simp: rows_wf_def)
  then have "rows_wf (set_row (chain_id w) (hash blk) (r\<lparr>is_canonical := False\<rparr>) (tx_db t))"
    using rollback(3) by (intro rows_wf_set_row [OF wf]) auto
  then have "db_inv (journaled (chain_id w) ''rollback'' (hash blk) (r\<lparr>is_canonical := False\<rparr>) pl (tx_db t))"
    unfolding journaled_def using rollback(3) by (intro db_inv_transition [OF inv]) simp_all
  then show ?thesis by (simp add: rollback(6))
next
  case (applied b r ls pl)
  let ?db = "(tx_db t)\<lparr>logs_table := ls\<rparr>"
  have inv': "db_inv ?db" and wf: "rows_wf ?db" using inv by (simp_all add: db_inv_def)
  have "\<not> height_taken (chain_id w) (hash (ib_header b)) (br_height r) ?db"
    using applied(5) by (simp add: height_taken_def canonical_rows_def)
  moreover have "get_block (chain_id w) (hash (ib_header b)) ?db = Some old \<Longrightarrow> br_height old = br_height r" for old
    using applied(7) by simp
  ultimately have "rows_wf (set_row (chain_id w) (hash (ib_header b)) r ?db)"
    using pg_height_bounds [OF applied(2)] by (intro rows_wf_set_row [OF wf]) simp_all
  then have "db_inv (journaled (chain_id w) ''apply'' (hash (ib_header b)) r pl ?db)"
    unfolding journaled_def using applied(3,7) by (intro db_inv_transition [OF inv']) simp_all
  then show ?thesis by (simp add: applied(8))
qed (use inv in auto)

section \<open>Transactions as a whole\<close>

text \<open>
  A relation between the databases before and after, which every statement of a transaction has; then
  whole transactions have it, finished or not.  The index of a log is one that \<open>pg_int\<close> let through.
\<close>

locale statement_relation =
  fixes R :: "database \<Rightarrow> database \<Rightarrow> bool"
  assumes refl: "R db db"
    and trans: "R db db1 \<Longrightarrow> R db1 db2 \<Longrightarrow> R db db2"
    and uncanonical: "R db (snd (update_uncanonical c h n db))"
    and canonical: "R db (snd (upsert_canonical c h new db))"
    and log: "pg_int v = Inr i \<Longrightarrow> R db (snd (upsert_log c h i l db))"
    and outbox: "R db (snd (insert_outbox c k h n p db))"
    and checkpoint: "R db (snd (upsert_checkpoint c n h db))"
begin

definition holds :: "(txn \<Rightarrow> 'a \<times> txn) \<Rightarrow> bool" where
  "holds m \<longleftrightarrow> (\<forall>t. R (tx_db t) (tx_db (snd (m t))))"

lemma holds_bind:
  assumes "holds m" and "\<And>x t t'. m t = (Inr x, t') \<Longrightarrow> holds (k x)"
  shows "holds (\<lambda>t. tryS (m t) k)"
  unfolding holds_def
proof
  fix t
  obtain r t1 where m: "m t = (r, t1)" by (cases "m t")
  have 1: "R (tx_db t) (tx_db t1)" using assms(1) m unfolding holds_def by (metis snd_conv)
  show "R (tx_db t) (tx_db (snd (tryS (m t) k)))"
  proof (cases r)
    case (Inr x)
    then have "R (tx_db t1) (tx_db (snd (k x t1)))" using assms(2) m by (simp add: holds_def)
    with 1 m Inr show ?thesis by (auto intro: trans)
  qed (use 1 m in simp)
qed

lemma holds_tryS [intro]: "holds m \<Longrightarrow> (\<And>x. holds (k x)) \<Longrightarrow> holds (\<lambda>t. tryS (m t) k)"
  by (rule holds_bind)

lemma holds_return [intro]: "holds (\<lambda>t. (r, t))"
  by (simp add: holds_def refl)

lemma holds_if [intro]: "holds a \<Longrightarrow> holds b \<Longrightarrow> holds (\<lambda>t. if P then a t else b t)"
  by (simp add: holds_def)

lemma holds_convert [intro]: "holds (convert r)"
  by (simp add: holds_def convert_def refl)

lemma holds_gate [intro]: "holds (crash_gate_hit cp)"
  by (simp add: holds_def crash_gate_hit_def refl split: option.split)

lemma holds_stmt: "(\<And>db. R db (snd (f db))) \<Longrightarrow> holds (run_stmt flt f)"
  by (auto simp: holds_def run_stmt_def refl split: prod.split) (metis snd_conv)

lemmas statements = uncanonical canonical outbox checkpoint refl

lemma holds_logs [intro]: "holds (upsert_logs_of flt w blk ls k)"
proof (induction ls arbitrary: k)
  case Nil
  show ?case by (simp add: holds_def refl)
next
  case (Cons l ls)
  have step: "holds (\<lambda>t. tryS (convert (pg_int (log_index l)) t) (\<lambda>li t.
      tryS (run_stmt flt (upsert_log (chain_id w) (hash blk) li (log_to_row n ti l)) t) (\<lambda>_ t.
        upsert_logs_of flt w blk ls (k + 1) t)))" for n ti
  proof (rule holds_bind [OF holds_convert])
    fix li t t' assume "convert (pg_int (log_index l)) t = (Inr li, t')"
    then have "pg_int (log_index l) = Inr li" by (simp add: convert_def try_simps)
    then show "holds (\<lambda>t. tryS (run_stmt flt (upsert_log (chain_id w) (hash blk) li (log_to_row n ti l)) t) (\<lambda>_ t.
        upsert_logs_of flt w blk ls (k + 1) t))"
      by (intro holds_tryS holds_stmt log Cons.IH)
  qed
  have eq: "upsert_logs_of flt w blk (l # ls) k =
      (\<lambda>t. tryS (convert (pg_height (height blk)) t) (\<lambda>n t.
        tryS (convert (pg_int (transaction_index l)) t) (\<lambda>ti t.
        tryS (convert (pg_int (log_index l)) t) (\<lambda>li t.
        tryS (run_stmt flt (upsert_log (chain_id w) (hash blk) li (log_to_row n ti l)) t) (\<lambda>_ t.
          upsert_logs_of flt w blk ls (k + 1) t)))))"
    by (rule ext) simp
  show ?case unfolding eq
    by (rule holds_tryS [OF holds_convert], rule holds_tryS [OF holds_convert], rule step)
qed

lemma holds_apply_event [intro]: "holds (apply_event flt w anc e rt)"
proof -
  have "holds (rollback_block flt w blk)" "holds (upsert_block flt w b)" "holds (append_outbox flt w k blk bo)" for blk b k bo
    unfolding rollback_block_def upsert_block_def append_outbox_def
    by (auto simp: statements intro!: holds_stmt holds_tryS)
  then show ?thesis
    unfolding apply_event_def upsert_logs_def
    by (cases e) (auto simp: Let_def intro!: holds_tryS)
qed

lemma holds_apply_events [intro]: "holds (apply_events flt cp w anc es rt)"
proof (induction es arbitrary: rt)
  case Nil
  show ?case by (simp add: holds_def refl)
next
  case (Cons e es)
  then show ?case by (auto intro!: holds_tryS)
qed

lemma holds_move_target [intro]: "holds (move_target flt cp w target)"
  unfolding move_target_def move_checkpoint_def
  by (cases target) (auto simp: statements intro!: holds_stmt holds_tryS)

lemma body_holds: "batch_body flt cp w b t = (r, t') \<Longrightarrow> R (tx_db t) (tx_db t')"
proof -
  have "holds (batch_body flt cp w b)"
    unfolding batch_body_def by (auto simp: split_def refl intro!: holds_stmt holds_tryS)
  then show "batch_body flt cp w b t = (r, t') \<Longrightarrow> R (tx_db t) (tx_db t')"
    unfolding holds_def by (metis snd_conv)
qed

end

text \<open>The sequence never goes back.\<close>

interpretation seq: statement_relation "\<lambda>db db'. outbox_seq db \<le> outbox_seq db'"
  by unfold_locales
    (auto simp: update_uncanonical_def upsert_canonical_def upsert_log_def insert_outbox_def upsert_checkpoint_def Let_def
      split: option.split)

section \<open>The invariant\<close>

lemma apply_events_inv:
  "apply_events flt cp w anc es rt t = (Inr rt', t') \<Longrightarrow> db_inv (tx_db t) \<Longrightarrow> db_inv (tx_db t')"
proof (induction es arbitrary: rt t)
  case (Cons e es)
  from Cons.prems obtain u1 t1 rt1 t2 u3 t3 where
    1: "crash_gate_hit cp t = (Inr u1, t1)" and 2: "apply_event flt w anc e rt t1 = (Inr rt1, t2)" and
    3: "crash_gate_hit cp t2 = (Inr u3, t3)" and 4: "apply_events flt cp w anc es rt1 t3 = (Inr rt', t')"
    by (auto simp: try_simps)
  obtain a b c d where rt: "rt = (a, b)" "rt1 = (c, d)" by (cases rt; cases rt1)
  from apply_event_inv [OF 2 [unfolded rt]] Cons.prems(2) have "db_inv (tx_db t2)"
    by (simp add: crash_gate_db [OF 1])
  then show ?case using Cons.IH [OF 4] by (simp add: crash_gate_db [OF 3])
qed simp

lemma upsert_checkpoint_inv:
  assumes "upsert_checkpoint c n h db = (Inr u, db')" and "db_inv db"
  shows "db_inv db'"
  using assms
  by (auto simp: upsert_checkpoint_def db_inv_def rows_wf_def journal_wf_def canonical_def split: if_splits)

lemma move_target_inv:
  assumes "move_target flt cp w target t = (Inr u, t')" and "db_inv (tx_db t)"
  shows "db_inv (tx_db t')"
  using assms
  by (auto simp: move_target_def move_checkpoint_def try_simps run_stmt_Inr split: option.splits if_splits
      dest!: crash_gate_db intro: upsert_checkpoint_inv)

lemma batch_body_parts:
  assumes "batch_body flt cp w b t = (Inr rep, t')"
  obtains u t2 tgt t3 v where "\<not> lost_at flt (tx_statements t)"
    "crash_gate_hit cp (t\<lparr>tx_statements := Suc (tx_statements t)\<rparr>) = (Inr u, t2)"
    "apply_events flt cp w (db_common_ancestor b) (db_events b) (apply_report_default, db_common_ancestor b) t2 =
      (Inr (rep, tgt), t3)"
    "move_target flt cp w tgt t3 = (Inr v, t')" "cp \<noteq> Some BeforeCommit"
  using assms by (auto simp: batch_body_def try_simps run_stmt_Inr split: if_splits)

lemma batch_body_inv:
  assumes "batch_body flt cp w b t = (Inr rep, t')" and "db_inv (tx_db t)"
  shows "db_inv (tx_db t')"
  using assms(1)
proof (cases rule: batch_body_parts)
  case (1 u t2 tgt t3 v)
  with assms(2) have "db_inv (tx_db t2)" by (simp add: crash_gate_db [OF 1(2)])
  from move_target_inv [OF 1(4) apply_events_inv [OF 1(3) this]] show ?thesis .
qed

lemma abandon_inv:
  assumes "db_inv db" and "outbox_seq db \<le> outbox_seq (tx_db t)"
  shows "db_inv (abandon db t)"
  using assms by (auto simp: abandon_def db_inv_def rows_wf_def journal_wf_def canonical_def)

lemma batch_keeps_inv:
  assumes "db_inv db" and "apply_batch_inner flt cp w b db = (res, db')"
  shows "db_inv db'"
proof (cases "durable_is_empty b")
  case True
  with assms show ?thesis by (simp add: apply_batch_inner_def)
next
  case False
  let ?t = "\<lparr>tx_db = db, tx_statements = 0, gate_step = 0\<rparr>"
  obtain r t where body: "batch_body flt cp w b ?t = (r, t)" by (cases "batch_body flt cp w b ?t")
  have "outbox_seq db \<le> outbox_seq (tx_db t)"
    using seq.body_holds [OF body] by simp
  with assms(1) have ab: "db_inv (abandon db t)" by (rule abandon_inv)
  show ?thesis
  proof (cases r)
    case (Inl e)
    with assms(2) False body ab show ?thesis
      by (cases e) (auto simp: apply_batch_inner_def)
  next
    case (Inr rep)
    have "db_inv (tx_db t)" using batch_body_inv [OF body [unfolded Inr]] assms(1) by simp
    with assms(2) False body ab Inr show ?thesis
      by (auto simp: apply_batch_inner_def split: if_splits)
  qed
qed

text \<open>
  C4: Every batch, with any lost connection, any lost commit answer and any crash point, leaves
  the database in a state where each chain has at most one canonical block per height, every
  checkpoint refers to a stored block, event identifiers increase, and replaying the journal of a
  chain gives exactly its set of canonical blocks.
\<close>
theorem batch_preserves_database_invariant:
  assumes "db_inv db" and "apply_batch_inner flt cp w b db = (res, db')"
  shows "db_inv db'"
  using batch_keeps_inv [OF assms] .

section \<open>Atomicity\<close>

definition clean :: faults where
  "clean = \<lparr>lost_at = (\<lambda>_. False), commit_kept = True\<rparr>"

text \<open>A computation that returns a value does so without faults and crash points too.\<close>

definition follows_clean :: "(txn \<Rightarrow> ('e + 'a) \<times> txn) \<Rightarrow> (txn \<Rightarrow> ('e + 'a) \<times> txn) \<Rightarrow> bool" where
  "follows_clean m m0 \<longleftrightarrow>
     (\<forall>t t0 x t'. tx_db t = tx_db t0 \<longrightarrow> m t = (Inr x, t') \<longrightarrow>
        (\<exists>t0'. m0 t0 = (Inr x, t0') \<and> tx_db t0' = tx_db t'))"

lemma follows_cleanD:
  "follows_clean m m0 \<Longrightarrow> tx_db t = tx_db t0 \<Longrightarrow> m t = (Inr x, t') \<Longrightarrow>
   \<exists>t0'. m0 t0 = (Inr x, t0') \<and> tx_db t0' = tx_db t'"
  by (auto simp: follows_clean_def)

lemma follows_clean_tryS [intro]:
  assumes "follows_clean m m0" and "\<And>x. follows_clean (k x) (k0 x)"
  shows "follows_clean (\<lambda>t. tryS (m t) k) (\<lambda>t. tryS (m0 t) k0)"
  unfolding follows_clean_def
proof (intro allI impI)
  fix t t0 :: txn and x t' assume "tx_db t = tx_db t0" "tryS (m t) k = (Inr x, t')"
  then obtain y t1 where 1: "m t = (Inr y, t1)" "k y t1 = (Inr x, t')" by (auto simp: try_simps)
  from follows_cleanD [OF assms(1) \<open>tx_db t = tx_db t0\<close> 1(1)] obtain t01 where
    2: "m0 t0 = (Inr y, t01)" "tx_db t1 = tx_db t01" by auto
  from follows_cleanD [OF assms(2) 2(2) 1(2)] 2 show "\<exists>t0'. tryS (m0 t0) k0 = (Inr x, t0') \<and> tx_db t0' = tx_db t'"
    by simp
qed

lemma follows_clean_if [intro]:
  "follows_clean a a0 \<Longrightarrow> follows_clean b b0 \<Longrightarrow>
   follows_clean (\<lambda>t. if P then a t else b t) (\<lambda>t. if P then a0 t else b0 t)"
  by (simp add: follows_clean_def)

lemma follows_clean_basic [intro]:
  "follows_clean (\<lambda>t. (r, t)) (\<lambda>t. (r, t))"
  "follows_clean (convert c) (convert c)"
  "follows_clean (run_stmt flt f) (run_stmt clean f)"
  "follows_clean (crash_gate_hit cp) (crash_gate_hit None)"
  by (auto simp: follows_clean_def run_stmt_Inr clean_def crash_gate_hit_def split: option.splits if_splits)

lemma follows_clean_upsert_logs [intro]:
  "follows_clean (upsert_logs_of flt w blk ls k) (upsert_logs_of clean w blk ls k)"
proof (induction ls arbitrary: k)
  case Nil
  show ?case by (auto simp: follows_clean_def)
next
  case (Cons l ls)
  then show ?case by (auto intro!: follows_clean_tryS)
qed

lemma follows_clean_apply_event [intro]:
  "follows_clean (apply_event flt w anc e rt) (apply_event clean w anc e rt)"
proof -
  have "follows_clean (rollback_block flt w blk) (rollback_block clean w blk)"
    "follows_clean (upsert_block flt w b) (upsert_block clean w b)"
    "follows_clean (append_outbox flt w k blk bo) (append_outbox clean w k blk bo)" for blk b k bo
    unfolding rollback_block_def upsert_block_def append_outbox_def by (auto intro!: follows_clean_tryS)
  then show ?thesis
    unfolding apply_event_def upsert_logs_def
    by (cases e) (auto simp: Let_def intro!: follows_clean_tryS)
qed

lemma follows_clean_apply_events [intro]:
  "follows_clean (apply_events flt cp w anc es rt) (apply_events clean None w anc es rt)"
proof (induction es arbitrary: rt)
  case Nil
  show ?case by (auto simp: follows_clean_def)
next
  case (Cons e es)
  then show ?case by (auto intro!: follows_clean_tryS)
qed

lemma follows_clean_move_target [intro]:
  "follows_clean (move_target flt cp w tgt) (move_target clean None w tgt)"
  unfolding move_target_def move_checkpoint_def
  by (cases tgt) (auto intro!: follows_clean_tryS)

lemma batch_body_clean:
  assumes "batch_body flt cp w b t = (Inr rep, t')" and "tx_db t0 = tx_db t"
  shows "\<exists>t0'. batch_body clean None w b t0 = (Inr rep, t0') \<and> tx_db t0' = tx_db t'"
  using assms(1)
proof (cases rule: batch_body_parts)
  case (1 u t2 tgt t3 v)
  let ?t0 = "t0\<lparr>tx_statements := Suc (tx_statements t0)\<rparr>"
  have "tx_db t2 = tx_db ?t0" using crash_gate_db [OF 1(2)] assms(2) by simp
  from follows_cleanD [OF follows_clean_apply_events this 1(3)] obtain t3' where
    3: "apply_events clean None w (db_common_ancestor b) (db_events b)
      (apply_report_default, db_common_ancestor b) ?t0 = (Inr (rep, tgt), t3')" "tx_db t3 = tx_db t3'"
    by auto
  from follows_cleanD [OF follows_clean_move_target 3(2) 1(4)] 3 show ?thesis
    by (auto simp: batch_body_def run_stmt_def crash_gate_hit_def clean_def)
qed

lemma batch_all_or_nothing:
  assumes "apply_batch_inner flt cp w b db = (res, db')"
  shows "(\<exists>n. outbox_seq db \<le> n \<and> db' = db\<lparr>outbox_seq := n\<rparr> \<and> (\<forall>rep. res \<noteq> Returned (Inr rep))) \<or>
    (\<exists>rep. apply_batch_inner clean None w b db = (Returned (Inr rep), db') \<and>
       res \<in> {Returned (Inr rep), Crashed, Returned (Inl (Database ConnectionLost))})"
proof (cases "durable_is_empty b")
  case True
  with assms show ?thesis by (auto simp: apply_batch_inner_def)
next
  case False
  let ?t = "\<lparr>tx_db = db, tx_statements = 0, gate_step = 0\<rparr>"
  obtain r t where body: "batch_body flt cp w b ?t = (r, t)" by (cases "batch_body flt cp w b ?t")
  have seq: "outbox_seq db \<le> outbox_seq (tx_db t)"
    using seq.body_holds [OF body] by simp
  show ?thesis
  proof (cases r)
    case (Inl e)
    with assms False body seq show ?thesis
      by (cases e) (auto simp: apply_batch_inner_def abandon_def)
  next
    case (Inr rep)
    from batch_body_clean [OF body [unfolded Inr], of ?t] obtain t0 where
      "batch_body clean None w b ?t = (Inr rep, t0)" "tx_db t0 = tx_db t" by auto
    with False have "apply_batch_inner clean None w b db = (Returned (Inr rep), tx_db t)"
      by (simp add: apply_batch_inner_def clean_def)
    with assms False body Inr seq show ?thesis
      by (auto simp: apply_batch_inner_def abandon_def split: if_splits)
  qed
qed

text \<open>
  C12: A batch is atomic.  Whatever connection is lost, whatever happens to the answer of the
  commit and wherever the process crashes, the database afterwards is either the one before
  (except for the identity sequence, which may have moved on) or the one that the undisturbed
  batch produces; and a success is reported only in the second case, with its report.
\<close>
theorem batch_is_atomic:
  assumes "apply_batch_inner flt cp w b db = (res, db')"
  shows "(\<exists>n. outbox_seq db \<le> n \<and> db' = db\<lparr>outbox_seq := n\<rparr> \<and> (\<forall>rep. res \<noteq> Returned (Inr rep))) \<or>
    (\<exists>rep. apply_batch_inner clean None w b db = (Returned (Inr rep), db') \<and>
       res \<in> {Returned (Inr rep), Crashed, Returned (Inl (Database ConnectionLost))})"
  using batch_all_or_nothing [OF assms] .

section \<open>The canonical chain of the database\<close>

definition row_header :: "block_hash \<Rightarrow> block_row \<Rightarrow> block_header" where
  "row_header h r = BlockHeader h (br_parent r) (word_of_int (br_height r))"

definition canon_set :: "u64 \<Rightarrow> database \<Rightarrow> block_header set" where
  "canon_set c db = {row_header h r | h r. get_block c h db = Some r \<and> is_canonical r}"

lemma canon_set_iff:
  "x \<in> canon_set c db \<longleftrightarrow>
     (\<exists>r. get_block c (hash x) db = Some r \<and> is_canonical r \<and> x = row_header (hash x) r)"
  unfolding canon_set_def row_header_def by auto

definition canon_headers :: "u64 \<Rightarrow> database \<Rightarrow> block_header list" where
  "canon_headers c db =
     map (\<lambda>(h, r). row_header h r) (sort_key (\<lambda>(_, r). br_height r) (canonical_rows c db))"

lemma row_header_simps [simp]:
  "hash (row_header h r) = h" "parent_hash (row_header h r) = br_parent r"
  "height (row_header h r) = word_of_int (br_height r)"
  by (simp_all add: row_header_def)

lemma word_of_small_int:
  assumes "0 \<le> n" and "n < 2 ^ 63"
  shows "uint (word_of_int n :: u64) = n"
  using assms by (simp add: uint_word_of_int)

lemma row_height_word:
  assumes "rows_wf db" and "get_block c h db = Some r"
  shows "uint (word_of_int (br_height r) :: u64) = br_height r"
  using assms by (intro word_of_small_int) (auto simp: rows_wf_def)

lemma set_canon_headers: "rows_wf db \<Longrightarrow> set (canon_headers c db) = canon_set c db"
  by (force simp: canon_headers_def canon_set_def canonical_rows_iff)

lemma canonical_rows_distinct:
  assumes "rows_wf db"
  shows "distinct (map (\<lambda>(_, r). br_height r) (canonical_rows c db))"
proof -
  have "distinct (blocks_table db)"
    using assms by (simp add: rows_wf_def hm_inv_def distinct_map)
  then have "distinct (canonical_rows c db)"
    by (auto simp: canonical_rows_def distinct_map inj_on_def)
  moreover have "inj_on (\<lambda>(_, r). br_height r) (set (canonical_rows c db))"
  proof (rule inj_onI, clarify)
    fix h r h' r'
    assume "(h, r) \<in> set (canonical_rows c db)" "(h', r') \<in> set (canonical_rows c db)"
      "br_height r = br_height r'"
    with canonical_rows_iff [OF assms] assms have "get_block c h db = Some r" "get_block c h' db = Some r'" "h = h'"
      by (auto simp: rows_wf_def)
    then show "h = h' \<and> r = r'" by simp
  qed
  ultimately show ?thesis by (simp add: distinct_map)
qed

lemma canon_headers_ascending:
  assumes "rows_wf db"
  shows "sorted_wrt (\<lambda>x y. height x < height y) (canon_headers c db)"
proof -
  let ?rows = "sort_key (\<lambda>(_, r). br_height r) (canonical_rows c db)"
  have "distinct (map (\<lambda>(_, r). br_height r) ?rows)"
    using canonical_rows_distinct [OF assms, of c] by (simp add: distinct_map)
  then have "sorted_wrt (<) (map (\<lambda>(_, r). br_height r) ?rows)"
    using sorted_sort_key [of "\<lambda>(_, r). br_height r" "canonical_rows c db"] by (simp add: strict_sorted_iff)
  then have "sorted_wrt (\<lambda>x y. br_height (snd x) < br_height (snd y)) ?rows"
    by (simp add: sorted_wrt_map split_def)
  then have "sorted_wrt (\<lambda>x y. height (row_header (fst x) (snd x)) < height (row_header (fst y) (snd y))) ?rows"
  proof (rule sorted_wrt_mono_rel [rotated])
    fix x y assume "x \<in> set ?rows" "y \<in> set ?rows" "br_height (snd x) < br_height (snd y)"
    moreover from this have "get_block c (fst x) db = Some (snd x)" "get_block c (fst y) db = Some (snd y)"
      using canonical_rows_iff [OF assms] by (metis prod.collapse set_sort)+
    ultimately show "height (row_header (fst x) (snd x)) < height (row_header (fst y) (snd y))"
      using row_height_word [OF assms] by (simp add: word_less_def)
  qed
  then show ?thesis by (simp add: canon_headers_def sorted_wrt_map split_def)
qed

lemma canon_headers_eqI:
  assumes "rows_wf db" and "sorted_wrt (\<lambda>x y. height x < height y) xs" and "set xs = canon_set c db"
  shows "canon_headers c db = xs"
proof -
  have "sorted_wrt (<) (map height (canon_headers c db))" "sorted_wrt (<) (map height xs)"
    using canon_headers_ascending [OF assms(1), of c] assms(2) by (simp_all add: sorted_wrt_map)
  then have d: "sorted (map height (canon_headers c db))" "distinct (map height (canon_headers c db))"
    "sorted (map height xs)" "distinct (map height xs)" by (simp_all add: strict_sorted_iff)
  have s: "set (canon_headers c db) = set xs" using set_canon_headers [OF assms(1)] assms(3) by simp
  have "inj_on height (set (canon_headers c db) \<union> set xs)"
    using d(4) by (simp add: s distinct_map)
  from map_sorted_distinct_set_unique [OF this d(1,2,3,4) s] show ?thesis .
qed

section \<open>The effect of a batch\<close>

definition rows_genuine :: "(block_header \<Rightarrow> bool) \<Rightarrow> u64 \<Rightarrow> database \<Rightarrow> bool" where
  "rows_genuine genuine c db \<longleftrightarrow> (\<forall>h r. get_block c h db = Some r \<longrightarrow> genuine (row_header h r))"

fun event_effect :: "durable_event \<Rightarrow> block_header set \<Rightarrow> block_header set" where
  "event_effect (DApply b) s = insert (ib_header b) s"
| "event_effect (DRollback blk) s = s - {blk}"

fun durable_header :: "durable_event \<Rightarrow> block_header" where
  "durable_header (DApply b) = ib_header b"
| "durable_header (DRollback blk) = blk"

lemma canon_set_journaled:
  assumes "rows_genuine genuine c db" and "names_blocks genuine" and "genuine (row_header h r)"
  shows "canon_set c (journaled c k h r pl db) =
    (if is_canonical r then insert (row_header h r) (canon_set c db) else canon_set c db - {row_header h r})"
proof -
  have same: "row_header h r' = row_header h r" if "get_block c h db = Some r'" for r'
    using assms that by (simp add: rows_genuine_def names_blocks_def)
  show ?thesis
  proof (intro set_eqI)
    fix x
    show "x \<in> canon_set c (journaled c k h r pl db) \<longleftrightarrow>
      x \<in> (if is_canonical r then insert (row_header h r) (canon_set c db) else canon_set c db - {row_header h r})"
    proof (cases "hash x = h")
      case True
      with same show ?thesis by (auto simp: canon_set_iff)
    next
      case False
      then have "x \<noteq> row_header h r" by auto
      with False show ?thesis by (simp add: canon_set_iff)
    qed
  qed
qed

lemma apply_event_effect:
  assumes "apply_event flt w anc e (rep, tgt) t = (Inr (rep', tgt'), t')" and inv: "db_inv (tx_db t)"
    and gen: "rows_genuine genuine (chain_id w) (tx_db t)" "names_blocks genuine" "genuine (durable_header e)"
  shows "canon_set (chain_id w) (tx_db t') = event_effect e (canon_set (chain_id w) (tx_db t)) \<and>
    rows_genuine genuine (chain_id w) (tx_db t') \<and>
    tgt' = (case e of DApply b \<Rightarrow> Some (ib_header b) | DRollback _ \<Rightarrow> anc)"
  using assms(1)
proof (cases rule: apply_event_cases)
  case (rollback_noop blk n)
  have "blk \<notin> canon_set (chain_id w) (tx_db t)"
  proof
    assume "blk \<in> canon_set (chain_id w) (tx_db t)"
    then obtain h r where r: "blk = row_header h r" "get_block (chain_id w) h (tx_db t) = Some r" "is_canonical r"
      by (auto simp: canon_set_def)
    moreover have "n = br_height r"
      using rollback_noop(2) r row_height_word [of "tx_db t" "chain_id w" h r] inv
      by (simp add: pg_height_Inr db_inv_def)
    ultimately show False using rollback_noop(3) by (simp add: canonical_at_def)
  qed
  with rollback_noop gen(1) show ?thesis by simp
next
  case (rollback blk r pl)
  have "genuine (row_header (hash blk) r)" using gen(1) rollback(3) by (simp add: rows_genuine_def)
  with gen(2,3) rollback(1) have blk: "row_header (hash blk) r = blk" by (simp add: names_blocks_def)
  let ?r = "r\<lparr>is_canonical := False\<rparr>"
  have rh: "row_header (hash blk) ?r = blk" using blk by (simp add: row_header_def)
  with gen(3) rollback(1) have g: "genuine (row_header (hash blk) ?r)" by simp
  from canon_set_journaled [OF gen(1,2) g] rh
  have "canon_set (chain_id w) (tx_db t') = canon_set (chain_id w) (tx_db t) - {blk}"
    by (simp add: rollback(6))
  moreover have "rows_genuine genuine (chain_id w) (tx_db t')"
    using gen(1) g by (auto simp: rollback(6) rows_genuine_def)
  ultimately show ?thesis using rollback by simp
next
  case (apply_noop b r ls)
  have "genuine (row_header (hash (ib_header b)) r)" using gen(1) apply_noop(2) by (simp add: rows_genuine_def)
  with gen(2,3) apply_noop(1) have "row_header (hash (ib_header b)) r = ib_header b"
    by (simp add: names_blocks_def)
  with apply_noop(2,3) have "ib_header b \<in> canon_set (chain_id w) (tx_db t)"
    unfolding canon_set_def by (metis (mono_tags, lifting) mem_Collect_eq)
  moreover have "canon_set (chain_id w) ((tx_db t)\<lparr>logs_table := ls\<rparr>) = canon_set (chain_id w) (tx_db t)"
    by (simp add: canon_set_def)
  ultimately show ?thesis
    using apply_noop gen(1) by (auto simp: rows_genuine_def)
next
  case (applied b r ls pl)
  let ?db = "(tx_db t)\<lparr>logs_table := ls\<rparr>"
  have gen': "rows_genuine genuine (chain_id w) ?db" using gen(1) by (simp add: rows_genuine_def)
  have "row_header (hash (ib_header b)) r = ib_header b"
  proof (cases "get_block (chain_id w) (hash (ib_header b)) (tx_db t)")
    case None
    have "word_of_int (br_height r) = height (ib_header b)"
      using applied(2) by (simp add: pg_height_Inr)
    with applied(6) [OF None] show ?thesis by (simp add: row_header_def)
  next
    case (Some old)
    then have "genuine (row_header (hash (ib_header b)) old)" using gen(1) by (simp add: rows_genuine_def)
    with gen(2,3) applied(1) have "row_header (hash (ib_header b)) old = ib_header b" by (simp add: names_blocks_def)
    with applied(7) [OF Some] show ?thesis by (simp add: row_header_def)
  qed
  with canon_set_journaled [OF gen' gen(2), of "hash (ib_header b)" r] gen(3) applied
  have "canon_set (chain_id w) (tx_db t') = insert (ib_header b) (canon_set (chain_id w) ?db)"
    "genuine (row_header (hash (ib_header b)) r)" by simp_all
  with gen' applied show ?thesis
    by (auto simp: canon_set_def rows_genuine_def)
qed

lemma apply_events_effect:
  "apply_events flt cp w anc es (rep, tgt) t = (Inr (rep', tgt'), t') \<Longrightarrow> db_inv (tx_db t) \<Longrightarrow>
   rows_genuine genuine (chain_id w) (tx_db t) \<Longrightarrow> names_blocks genuine \<Longrightarrow>
   \<forall>e \<in> set es. genuine (durable_header e) \<Longrightarrow>
   canon_set (chain_id w) (tx_db t') = fold event_effect es (canon_set (chain_id w) (tx_db t)) \<and>
   rows_genuine genuine (chain_id w) (tx_db t') \<and>
   tgt' = (if es = [] then tgt else (case last es of DApply b \<Rightarrow> Some (ib_header b) | DRollback _ \<Rightarrow> anc))"
proof (induction es arbitrary: rep tgt t)
  case (Cons e es)
  from Cons.prems(1) obtain u1 t1 rep1 tgt1 t2 u3 t3 where
    1: "crash_gate_hit cp t = (Inr u1, t1)" and 2: "apply_event flt w anc e (rep, tgt) t1 = (Inr (rep1, tgt1), t2)" and
    3: "crash_gate_hit cp t2 = (Inr u3, t3)" and
    4: "apply_events flt cp w anc es (rep1, tgt1) t3 = (Inr (rep', tgt'), t')"
    by (auto simp: try_simps)
  note d = crash_gate_db [OF 1] crash_gate_db [OF 3]
  have inv1: "db_inv (tx_db t1)" and g1: "rows_genuine genuine (chain_id w) (tx_db t1)"
    using Cons.prems(2,3) by (simp_all add: d)
  have ge: "genuine (durable_header e)" using Cons.prems(5) by simp
  note eff = apply_event_effect [OF 2 inv1 g1 Cons.prems(4) ge]
  have "db_inv (tx_db t3)" using apply_event_inv [OF 2 inv1] by (simp add: d)
  from Cons.IH [OF 4 this] eff Cons.prems(4,5) show ?case by (auto simp: d)
qed simp

lemma move_target_effect:
  assumes "move_target flt cp w (Some blk) t = (Inr u, t')" and "db_inv (tx_db t)"
  shows "hm_get (checkpoint_table (tx_db t')) (chain_id w) = Some (uint (height blk), hash blk) \<and>
    canonical_at (chain_id w) (hash blk) (uint (height blk)) (tx_db t') \<and>
    (\<forall>c h. get_block c h (tx_db t') = get_block c h (tx_db t))"
proof -
  from assms(1) obtain t1 t2 u1 u2 where
    g: "crash_gate_hit cp t = (Inr u1, t1)" "crash_gate_hit cp t2 = (Inr u2, t')" and
    m: "move_checkpoint flt w blk t1 = (Inr (), t2)"
    by (auto simp: move_target_def try_simps)
  from m obtain n where n: "pg_height (height blk) = Inr n" and
    c: "canonical_at (chain_id w) (hash blk) n (tx_db t1)" and
    db: "tx_db t2 = (tx_db t1)\<lparr>checkpoint_table := hm_insert (chain_id w) (n, hash blk) (checkpoint_table (tx_db t1))\<rparr>"
    by (auto simp: move_checkpoint_def try_simps run_stmt_Inr upsert_checkpoint_def split: if_splits)
  then show ?thesis
    using crash_gate_db [OF g(1)] crash_gate_db [OF g(2)]
    by (auto simp: pg_height_Inr canonical_at_def)
qed

lemma batch_effect:
  assumes body: "batch_body flt cp w b t = (Inr rep, t')" and inv: "db_inv (tx_db t)"
    and gen: "rows_genuine genuine (chain_id w) (tx_db t)" "names_blocks genuine"
      "\<forall>e \<in> set (db_events b). genuine (durable_header e)"
    and target: "(if db_events b = [] then db_common_ancestor b else
        (case last (db_events b) of DApply b \<Rightarrow> Some (ib_header b) | DRollback _ \<Rightarrow> db_common_ancestor b)) = Some x"
  shows "canon_set (chain_id w) (tx_db t') = fold event_effect (db_events b) (canon_set (chain_id w) (tx_db t)) \<and>
    rows_genuine genuine (chain_id w) (tx_db t') \<and>
    hm_get (checkpoint_table (tx_db t')) (chain_id w) = Some (uint (height x), hash x) \<and>
    canonical_at (chain_id w) (hash x) (uint (height x)) (tx_db t')"
  using body
proof (cases rule: batch_body_parts)
  case (1 u t2 tgt t3 v)
  have d: "tx_db t2 = tx_db t" by (simp add: crash_gate_db [OF 1(2)])
  have i: "db_inv (tx_db t2)" "rows_genuine genuine (chain_id w) (tx_db t2)"
    using inv gen(1) by (simp_all add: d)
  note eff = apply_events_effect [OF 1(3) i gen(2,3)]
  with target have "tgt = Some x" by simp
  from move_target_effect [OF 1(4) [unfolded this]] apply_events_inv [OF 1(3) i(1)]
  have m: "hm_get (checkpoint_table (tx_db t')) (chain_id w) = Some (uint (height x), hash x)"
    "canonical_at (chain_id w) (hash x) (uint (height x)) (tx_db t')"
    "\<And>c h. get_block c h (tx_db t') = get_block c h (tx_db t3)" by auto
  then have "canon_set (chain_id w) (tx_db t') = canon_set (chain_id w) (tx_db t3)"
    "rows_genuine genuine (chain_id w) (tx_db t') = rows_genuine genuine (chain_id w) (tx_db t3)"
    by (simp_all add: canon_set_def rows_genuine_def)
  with eff m show ?thesis by (simp add: d)
qed

lemma event_effect_reorg:
  "fold event_effect (map DRollback rbs @ map DApply bs) s = (s - set rbs) \<union> ib_header ` set bs"
proof -
  have "fold event_effect (map DRollback rbs) s = s - set rbs"
    by (induction rbs arbitrary: s) auto
  moreover have "fold event_effect (map DApply bs) s = s \<union> ib_header ` set bs" for s
    by (induction bs arbitrary: s) auto
  ultimately show ?thesis by simp
qed

lemma canonical_at_canon_set:
  assumes "rows_wf db" and "genuine x" and "rows_genuine genuine c db" and "names_blocks genuine"
  shows "canonical_at c (hash x) (uint (height x)) db \<longleftrightarrow> x \<in> canon_set c db"
proof -
  have "row_header (hash x) r = x" if "get_block c (hash x) db = Some r" for r
    using assms that by (simp add: rows_genuine_def names_blocks_def)
  moreover have "br_height r = uint (height x)" if "get_block c (hash x) db = Some r" "row_header (hash x) r = x" for r
    using row_height_word [OF assms(1) that(1)] that(2) by (metis row_header_simps(3))
  ultimately show ?thesis by (auto simp: canonical_at_def canon_set_iff split: option.splits)
qed

text \<open>The checkpoint row of a chain is at a given block, or there is none.\<close>

definition checkpoint_at :: "u64 \<Rightarrow> block_header option \<Rightarrow> database \<Rightarrow> bool" where
  "checkpoint_at c target db \<longleftrightarrow>
     hm_get (checkpoint_table db) c = map_option (\<lambda>x. (uint (height x), hash x)) target"

text \<open>
  The outcome of a batch that rolls back the blocks above \<open>base\<close> and applies others in their
  place: nothing, or the whole of it.
\<close>

lemma batch_outcome:
  assumes inv: "db_inv db"
    and run: "apply_batch_inner flt cp w b db = (res, db')"
    and chain: "canon_headers (chain_id w) db = base @ ups"
    and events: "db_events b = map DRollback (rev ups) @ map DApply bs" "db_common_ancestor b = tip_of base"
    and asc': "sorted_wrt (\<lambda>x y. height x < height y) (base @ map ib_header bs)"
    and "base @ map ib_header bs \<noteq> []" and "db_events b \<noteq> []"
    and gen: "rows_genuine genuine (chain_id w) db" "names_blocks genuine"
      "\<forall>x \<in> set bs. genuine (ib_header x)"
  shows "(canon_headers (chain_id w) db' = base @ ups \<and> (\<forall>rep. res \<noteq> Returned (Inr rep)) \<and>
      checkpoint_table db' = checkpoint_table db \<and> blocks_table db' = blocks_table db \<and>
      chain_identity db' = chain_identity db) \<or>
    (canon_headers (chain_id w) db' = base @ map ib_header bs \<and>
     checkpoint_at (chain_id w) (tip_of (base @ map ib_header bs)) db' \<and> rows_genuine genuine (chain_id w) db')"
proof -
  let ?c = "chain_id w" and ?t = "\<lparr>tx_db = db, tx_statements = 0, gate_step = 0\<rparr>"
  have wf: "rows_wf db" using inv by (simp add: db_inv_def)
  from batch_all_or_nothing [OF run] show ?thesis
  proof (elim disjE exE conjE)
    fix n assume n: "db' = db\<lparr>outbox_seq := n\<rparr>" "\<forall>rep. res \<noteq> Returned (Inr rep)"
    then have "canon_headers ?c db' = canon_headers ?c db"
      by (simp add: canon_headers_def canonical_rows_def)
    with n chain show ?thesis by simp
  next
    fix rep assume ok: "apply_batch_inner clean None w b db = (Returned (Inr rep), db')"
    have "\<not> durable_is_empty b" using assms(8) by (simp add: durable_is_empty_def)
    with ok obtain t where body: "batch_body clean None w b ?t = (Inr rep, t)" and db': "db' = tx_db t"
      by (auto simp: apply_batch_inner_def clean_def split: prod.splits sum.splits tx_stop.splits)
    have set0: "canon_set ?c db = set (base @ ups)" using set_canon_headers [OF wf, of ?c] chain by simp
    then have "\<forall>x \<in> set (base @ ups). genuine x"
      using gen(1) by (force simp: canon_set_def rows_genuine_def)
    then have gen': "\<forall>e \<in> set (db_events b). genuine (durable_header e)"
      using gen(3) by (auto simp: events)
    let ?x = "last (base @ map ib_header bs)"
    have target: "(if db_events b = [] then db_common_ancestor b else
        (case last (db_events b) of DApply b \<Rightarrow> Some (ib_header b) | DRollback _ \<Rightarrow> db_common_ancestor b)) = Some ?x"
      using assms(7) by (cases bs rule: rev_cases; cases ups) (simp_all add: events tip_of_def)
    have inv': "db_inv (tx_db ?t)" "rows_genuine genuine ?c (tx_db ?t)" using inv gen(1) by simp_all
    note eff = batch_effect [OF body inv' gen(2) gen' target]
    have asc: "sorted_wrt (\<lambda>x y. height x < height y) (base @ ups)"
      using canon_headers_ascending [OF wf, of ?c] chain by simp
    have "set (base @ ups) - set ups = set base"
      using asc by (auto simp: sorted_wrt_append)
    then have "canon_set ?c db' = set (base @ map ib_header bs)"
      using eff event_effect_reorg [of "rev ups" bs "set (base @ ups)"]
      by (simp add: db' events set0)
    moreover have "rows_wf db'"
      using batch_body_inv [OF body inv'(1)] by (simp add: db' db_inv_def)
    ultimately have "canon_headers ?c db' = base @ map ib_header bs"
      using asc' by (intro canon_headers_eqI) auto
    moreover have "tip_of (base @ map ib_header bs) = Some ?x" using assms(7) by (simp add: tip_of_def)
    ultimately show ?thesis using eff by (simp add: db' checkpoint_at_def)
  qed
qed

text \<open>
  C3: The writer carries out on disk what the chain state computes in memory.  Let the canonical
  chain of the database be \<open>low @ a # ups\<close> and the batch roll back \<open>ups\<close> and apply linked blocks on
  top of the ancestor \<open>a\<close>.  Then afterwards the canonical chain is either unchanged, or it is
  \<open>low @ a\<close> followed by the applied blocks and the checkpoint is at its last block; a reported
  success is the second case.  Hashes are assumed to name blocks.
\<close>
theorem writer_refines_reorg:
  assumes inv: "db_inv db"
    and run: "apply_batch_inner flt cp w b db = (res, db')"
    and chain: "canon_headers (chain_id w) db = low @ a # ups"
    and events: "db_events b = map DRollback (rev ups) @ map DApply bs" "db_common_ancestor b = Some a"
    and linked: "ascends (a # map ib_header bs)" and "db_events b \<noteq> []"
    and gen: "rows_genuine genuine (chain_id w) db" "names_blocks genuine"
      "\<forall>x \<in> set bs. genuine (ib_header x)"
  shows "(canon_headers (chain_id w) db' = low @ a # ups \<and> (\<forall>rep. res \<noteq> Returned (Inr rep)) \<and>
      checkpoint_table db' = checkpoint_table db) \<or>
    (canon_headers (chain_id w) db' = low @ a # map ib_header bs \<and>
     hm_get (checkpoint_table db') (chain_id w) =
       Some (uint (height (last (a # map ib_header bs))), hash (last (a # map ib_header bs))))"
proof -
  have wf: "rows_wf db" using inv by (simp add: db_inv_def)
  have asc: "sorted_wrt (\<lambda>x y. height x < height y) ((low @ [a]) @ map ib_header bs)"
    using canon_headers_ascending [OF wf, of "chain_id w"] chain ascending_heights [of "a # map ib_header bs"] linked
    by (auto simp: sorted_wrt_append ascends_def intro: less_trans)
  have "canon_headers (chain_id w) db = (low @ [a]) @ ups" "db_common_ancestor b = tip_of (low @ [a])"
    using chain events(2) by simp_all
  from batch_outcome [OF inv run this(1) events(1) this(2) asc _ assms(7) gen]
  show ?thesis by (auto simp: checkpoint_at_def tip_of_def)
qed

section \<open>Durable batches from chain batches\<close>

fun carries :: "indexed_block list \<Rightarrow> chain_event \<Rightarrow> durable_event \<Rightarrow> bool" where
  "carries blks (Rollback x) (DRollback y) \<longleftrightarrow> x = y"
| "carries blks (Apply x) (DApply b) \<longleftrightarrow> b \<in> set blks \<and> hash (ib_header b) = hash x"
| "carries blks _ _ \<longleftrightarrow> False"

definition block_map_ok :: "indexed_block list \<Rightarrow> (block_hash, indexed_block) hash_map \<Rightarrow> bool" where
  "block_map_ok blks m \<longleftrightarrow> hm_inv m \<and>
     (\<forall>h b. hm_get m h = Some b \<longrightarrow> b \<in> set blks \<and> hash (ib_header b) = h)"

lemma block_map_ok_remove: "block_map_ok blks m \<Longrightarrow> block_map_ok blks (hm_remove h m)"
  by (auto simp: block_map_ok_def split: if_splits)

lemma durable_events_sound:
  "durable_events es m = Inr (ds, rest) \<Longrightarrow> block_map_ok blks m \<Longrightarrow>
   list_all2 (carries blks) es ds \<and> block_map_ok blks rest \<and>
   dom (hm_get m) = dom (hm_get rest) \<union> {hash x | x. Apply x \<in> set es}"
proof (induction es m arbitrary: ds rest rule: durable_events.induct)
  case (3 blk es m)
  from 3(2) obtain b ds' where b: "hm_get m (hash blk) = Some b"
    and rest: "durable_events es (hm_remove (hash blk) m) = Inr (ds', rest)" and ds: "ds = DApply b # ds'"
    by (auto simp: try_simps)
  have "ok_or (hm_get m (hash blk)) (MissingApplyBlock (hex_hash (hash blk))) = Inr b" by (simp add: b)
  note IH = 3(1) [OF this rest block_map_ok_remove [OF 3(3)]]
  have D: "dom (hm_get m) = insert (hash blk) (dom (hm_get (hm_remove (hash blk) m)))"
    using b by (auto split: if_splits)
  have IH2: "dom (hm_get (hm_remove (hash blk) m)) = dom (hm_get rest) \<union> {hash x | x. Apply x \<in> set es}"
    using IH by blast
  have "dom (hm_get m) = dom (hm_get rest) \<union> {hash x | x. Apply x \<in> set (Apply blk # es)}"
    unfolding D IH2 by auto
  moreover have "carries blks (Apply blk) (DApply b)" using b 3(3) by (simp add: block_map_ok_def)
  ultimately show ?case using IH ds by simp
next
  case (2 blk es m)
  from 2(2) obtain ds' where rest: "durable_events es m = Inr (ds', rest)" and ds: "ds = DRollback blk # ds'"
    by (auto simp: try_simps)
  note IH = 2(1) [OF rest 2(3)]
  have "{hash x | x. Apply x \<in> set (Rollback blk # es)} = {hash x | x. Apply x \<in> set es}" by auto
  with IH ds show ?case by simp
qed simp

lemma block_map_fold:
  "block_map_ok blks m \<Longrightarrow> set bs \<subseteq> set blks \<Longrightarrow>
   block_map_ok blks (fold (\<lambda>blk m. hm_insert (hash (ib_header blk)) blk m) bs m) \<and>
   dom (hm_get (fold (\<lambda>blk m. hm_insert (hash (ib_header blk)) blk m) bs m)) =
     dom (hm_get m) \<union> (hash \<circ> ib_header) ` set bs"
proof (induction bs arbitrary: m)
  case (Cons b bs)
  have "block_map_ok blks (hm_insert (hash (ib_header b)) b m)"
    using Cons.prems by (auto simp: block_map_ok_def)
  from Cons.IH [OF this] Cons.prems(2) show ?case by (auto simp: dom_def split: if_splits)
qed simp

lemma from_chain_batch_sound:
  assumes "from_chain_batch b blks = Inr d"
  shows "list_all2 (carries blks) (events b) (db_events d) \<and> db_transition d = transition b \<and>
    db_common_ancestor d = common_ancestor b \<and>
    (hash \<circ> ib_header) ` set blks = {hash x | x. Apply x \<in> set (events b)}"
proof -
  let ?m = "fold (\<lambda>blk m. hm_insert (hash (ib_header blk)) blk m) blks hm_new"
  from assms obtain ds rest where d1: "durable_events (events b) ?m = Inr (ds, rest)"
    and d2: "(case hm_keys rest of extra # _ \<Rightarrow> Inl (UnexpectedApplyBlock (hex_hash extra))
        | [] \<Rightarrow> Inr \<lparr>db_transition = transition b, db_common_ancestor = common_ancestor b, db_events = ds\<rparr>) = Inr d"
    by (auto simp: from_chain_batch_def Let_def try_simps)
  from d2 have d: "hm_keys rest = []"
    "d = \<lparr>db_transition = transition b, db_common_ancestor = common_ancestor b, db_events = ds\<rparr>"
    by (cases "hm_keys rest"; simp)+
  have "block_map_ok blks hm_new" by (simp add: block_map_ok_def)
  from block_map_fold [OF this subset_refl] have m: "block_map_ok blks ?m"
    "dom (hm_get ?m) = (hash \<circ> ib_header) ` set blks" by auto
  have "dom (hm_get rest) = {}" using set_hm_keys [of rest] d(1) by simp
  with durable_events_sound [OF d1 m(1)] m(2) d(2) show ?thesis by simp
qed

text \<open>
  A durable batch is made exactly of the chain batch: the same rollbacks and, for every
  apply, one of the given blocks with the requested hash, in the same order; and no given block
  is left over.
\<close>
theorem durable_batch_carries_chain_batch:
  assumes "from_chain_batch b blks = Inr d"
  shows "list_all2 (carries blks) (events b) (db_events d) \<and> db_transition d = transition b \<and>
    db_common_ancestor d = common_ancestor b \<and>
    (hash \<circ> ib_header) ` set blks = {hash x | x. Apply x \<in> set (events b)}"
  using from_chain_batch_sound [OF assms] .

text \<open>A batch whose blocks are those that it applies, none twice, is always converted.\<close>

lemma durable_events_applies:
  "list_all2 (\<lambda>x b. hash (ib_header b) = hash x) aps bs \<Longrightarrow> distinct (map hash aps) \<Longrightarrow>
   (\<And>x b. (x, b) \<in> set (zip aps bs) \<Longrightarrow> hm_get m (hash x) = Some b) \<Longrightarrow>
   dom (hm_get m) = hash ` set aps \<Longrightarrow>
   \<exists>rest. durable_events (map Apply aps) m = Inr (map DApply bs, rest) \<and> hm_keys rest = []"
proof (induction aps arbitrary: bs m)
  case Nil
  then have "hm_keys m = []" using set_hm_keys [of m] by simp
  with Nil show ?case by simp
next
  case (Cons x aps)
  then obtain b bs' where bs: "bs = b # bs'" and l: "list_all2 (\<lambda>x b. hash (ib_header b) = hash x) aps bs'"
    by (auto simp: list_all2_Cons1)
  note get = Cons.prems(3) [unfolded bs]
  have b: "hm_get m (hash x) = Some b" by (rule get) simp
  have "\<exists>rest. durable_events (map Apply aps) (hm_remove (hash x) m) =
      Inr (map DApply bs', rest) \<and> hm_keys rest = []"
  proof (rule Cons.IH [OF l])
    show "distinct (map hash aps)" using Cons.prems(2) by simp
    show "hm_get (hm_remove (hash x) m) (hash y) = Some b'" if "(y, b') \<in> set (zip aps bs')" for y b'
    proof -
      have "y \<in> set aps" using that by (rule set_zip_leftD)
      then have "hash y \<noteq> hash x" using Cons.prems(2) by (metis distinct.simps(2) image_eqI list.simps(9) list.set_map)
      moreover have "hm_get m (hash y) = Some b'" using that by (intro get) simp
      ultimately show ?thesis by simp
    qed
    have "dom (hm_get (hm_remove (hash x) m)) = dom (hm_get m) - {hash x}"
      by (auto simp: dom_def)
    then show "dom (hm_get (hm_remove (hash x) m)) = hash ` set aps"
      using Cons.prems(2,4) by auto
  qed
  then show ?case using b bs by auto
qed

lemma durable_events_rollbacks:
  "durable_events (map Rollback rbs @ es) m =
     tryR (durable_events es m) (\<lambda>(ds, rest). Inr (map DRollback rbs @ ds, rest))"
  by (induction rbs) (auto simp: tryR_def split: sum.splits)

section \<open>Every valid batch commits\<close>

text \<open>What the schema asks of the logs of a block.\<close>

definition log_fits :: "raw_log \<Rightarrow> bool" where
  "log_fits l \<longleftrightarrow> unat (transaction_index l) \<le> i32_max \<and> unat (log_index l) \<le> i32_max \<and> length (topics l) \<le> 4"

definition block_fits :: "indexed_block \<Rightarrow> bool" where
  "block_fits b \<longleftrightarrow> unat (height (ib_header b)) \<le> i64_max \<and> (\<forall>l \<in> set (block_logs b). log_fits l)"

lemma run_stmt_clean [simp]:
  "run_stmt clean f t = (case f (tx_db t) of
     (r, db) \<Rightarrow> (map_err (\<lambda>e. Failed (Database e)) r, t\<lparr>tx_db := db, tx_statements := Suc (tx_statements t)\<rparr>))"
  by (simp add: run_stmt_def clean_def)

lemma convert_fits [simp]:
  "unat v \<le> i64_max \<Longrightarrow> convert (pg_height v) t = (Inr (uint v), t)"
  "unat n \<le> i32_max \<Longrightarrow> convert (pg_int n) t = (Inr (uint n), t)"
  by (simp_all add: convert_def pg_height_def pg_int_def)

lemma upsert_log_fits:
  assumes "length (lr_topics new) \<le> 4" and "block_at c h (lr_block_number new) db"
  obtains ls where "upsert_log c h i new db = (Inr (), db\<lparr>logs_table := ls\<rparr>)"
proof (cases "hm_get (logs_table db) (c, h, i)")
  case None
  with assms that show ?thesis by (simp add: upsert_log_def)
next
  case (Some old)
  with assms that show ?thesis by (simp add: upsert_log_def)
qed

lemma upsert_logs_progress:
  "unat (height blk) \<le> i64_max \<Longrightarrow> \<forall>l \<in> set ls. log_fits l \<Longrightarrow>
   block_at (chain_id w) (hash blk) (uint (height blk)) (tx_db t) \<Longrightarrow>
   \<exists>t' l. upsert_logs_of clean w blk ls k t = (Inr (k + length ls), t') \<and> tx_db t' = (tx_db t)\<lparr>logs_table := l\<rparr>"
proof (induction ls arbitrary: k t)
  case Nil
  then show ?case by (auto intro: exI [of _ "logs_table (tx_db t)"])
next
  case (Cons l ls)
  let ?row = "log_to_row (uint (height blk)) (uint (transaction_index l)) l"
  have fits: "log_fits l" using Cons.prems(2) by simp
  obtain l1 where 1: "upsert_log (chain_id w) (hash blk) (uint (log_index l)) ?row (tx_db t) =
      (Inr (), (tx_db t)\<lparr>logs_table := l1\<rparr>)"
    using fits Cons.prems(3) by (elim upsert_log_fits [rotated -1]) (simp_all add: log_to_row_def log_fits_def)
  let ?t = "t\<lparr>tx_db := (tx_db t)\<lparr>logs_table := l1\<rparr>, tx_statements := Suc (tx_statements t)\<rparr>"
  have "block_at (chain_id w) (hash blk) (uint (height blk)) (tx_db ?t)" using Cons.prems(3) by simp
  from Cons.IH [OF Cons.prems(1) _ this, of "k + 1"] Cons.prems(2) obtain t' l2 where
    "upsert_logs_of clean w blk ls (k + 1) ?t = (Inr (k + 1 + length ls), t')"
    "tx_db t' = (tx_db ?t)\<lparr>logs_table := l2\<rparr>" by fastforce
  then show ?case using 1 fits Cons.prems(1) by (auto simp: log_fits_def)
qed

definition more_rolled_back :: "apply_report \<Rightarrow> nat \<Rightarrow> apply_report" where
  "more_rolled_back rep n = rep\<lparr>rolled_back_blocks := rolled_back_blocks rep + n,
     appended_outbox_events := appended_outbox_events rep + n\<rparr>"

definition more_applied :: "apply_report \<Rightarrow> nat \<Rightarrow> nat \<Rightarrow> apply_report" where
  "more_applied rep n l = rep\<lparr>applied_blocks := applied_blocks rep + n, upserted_logs := upserted_logs rep + l,
     appended_outbox_events := appended_outbox_events rep + n\<rparr>"

lemma row_height_fits:
  assumes "rows_wf db" and "get_block c h db = Some r" and "br_height r = uint v"
  shows "unat v \<le> i64_max"
proof -
  have "br_height r < 2 ^ 63" using assms(1,2) by (simp add: rows_wf_def)
  with assms(3) have "int (unat v) \<le> int i64_max" by (simp add: i64_max_def)
  then show ?thesis by (simp only: of_nat_le_iff)
qed

lemma rollback_progress:
  assumes wf: "rows_wf (tx_db t)" and x: "x \<in> canon_set (chain_id w) (tx_db t)"
  shows "\<exists>t'. apply_event clean w anc (DRollback x) (rep, tgt) t = (Inr (more_rolled_back rep 1, anc), t') \<and>
    chain_identity (tx_db t') = chain_identity (tx_db t)"
proof -
  from x obtain r where r: "get_block (chain_id w) (hash x) (tx_db t) = Some r" "is_canonical r"
    "x = row_header (hash x) r" unfolding canon_set_iff by blast
  have h: "height x = word_of_int (br_height r)" using arg_cong [OF r(3), of height] by simp
  with row_height_word [OF wf r(1)] have u: "uint (height x) = br_height r" by simp
  have "unat (height x) \<le> i64_max" by (rule row_height_fits [OF wf r(1) u [symmetric]])
  then show ?thesis
    using r(1,2) u
    by (simp add: apply_event_def rollback_block_def append_outbox_def update_uncanonical_def
        insert_outbox_def block_at_def get_block_def more_rolled_back_def Let_def)
qed

lemma apply_progress:
  assumes wf: "rows_wf (tx_db t)" and fits: "block_fits b"
    and gen: "rows_genuine genuine (chain_id w) (tx_db t)" "names_blocks genuine" "genuine (ib_header b)"
    and free: "\<forall>y \<in> canon_set (chain_id w) (tx_db t). height y \<noteq> height (ib_header b)"
    and ident: "hm_get (chain_identity (tx_db t)) (chain_id w) \<noteq> None"
  shows "\<exists>t'. apply_event clean w anc (DApply b) (rep, tgt) t =
      (Inr (more_applied rep 1 (length (block_logs b)), Some (ib_header b)), t') \<and>
    chain_identity (tx_db t') = chain_identity (tx_db t)"
proof -
  let ?c = "chain_id w" and ?x = "ib_header b"
  have hx: "unat (height ?x) \<le> i64_max" using fits by (simp add: block_fits_def)
  have not_taken: "\<not> height_taken ?c h (uint (height ?x)) (tx_db t)" for h
  proof
    assume "height_taken ?c h (uint (height ?x)) (tx_db t)"
    then obtain h' r where r: "get_block ?c h' (tx_db t) = Some r" "is_canonical r" "br_height r = uint (height ?x)"
      by (auto simp: height_taken_iff [OF wf])
    then have "row_header h' r \<in> canon_set ?c (tx_db t)" by (auto simp: canon_set_def)
    with free r(3) show False by force
  qed
  have "\<exists>r db1. upsert_canonical ?c (hash ?x) (block_to_row (uint (height ?x)) b) (tx_db t) = (Inr True, db1) \<and>
      db1 = set_row ?c (hash ?x) r (tx_db t) \<and> br_height r = uint (height ?x)"
  proof (cases "get_block ?c (hash ?x) (tx_db t)")
    case None
    then show ?thesis using ident not_taken
      by (auto simp: upsert_canonical_def set_row_def block_to_row_def)
  next
    case (Some old)
    then have "genuine (row_header (hash ?x) old)" using gen(1) by (simp add: rows_genuine_def)
    with gen have same: "row_header (hash ?x) old = ?x" by (simp add: names_blocks_def)
    have h: "br_height old = uint (height ?x)"
      using row_height_word [OF wf Some] arg_cong [OF same, of height] by simp
    have "\<not> is_canonical old"
    proof
      assume "is_canonical old"
      with Some same have "?x \<in> canon_set ?c (tx_db t)" by (metis canon_set_iff)
      with free show False by auto
    qed
    with Some h not_taken show ?thesis by (auto simp: upsert_canonical_def set_row_def)
  qed
  then obtain r where 1: "upsert_canonical ?c (hash ?x) (block_to_row (uint (height ?x)) b) (tx_db t) =
      (Inr True, set_row ?c (hash ?x) r (tx_db t))" and r: "br_height r = uint (height ?x)" by auto
  let ?t1 = "t\<lparr>tx_db := set_row ?c (hash ?x) r (tx_db t), tx_statements := Suc (tx_statements t)\<rparr>"
  have at: "block_at ?c (hash ?x) (uint (height ?x)) (tx_db ?t1)" using r by (simp add: block_at_def)
  from upsert_logs_progress [OF hx _ this, of "block_logs b" 0] fits obtain t2 l where
    2: "upsert_logs_of clean w ?x (block_logs b) 0 ?t1 = (Inr (length (block_logs b)), t2)"
    and t2: "tx_db t2 = (tx_db ?t1)\<lparr>logs_table := l\<rparr>" by (auto simp: block_fits_def)
  have at2: "block_at ?c (hash ?x) (uint (height ?x)) (tx_db t2)" using at t2 by simp
  show ?thesis
    using hx 1 2 at2 t2
    by (simp add: apply_event_def upsert_block_def upsert_logs_def append_outbox_def insert_outbox_def
        more_applied_def Let_def)
qed

definition chain_ready :: "(block_header \<Rightarrow> bool) \<Rightarrow> u64 \<Rightarrow> database \<Rightarrow> bool" where
  "chain_ready genuine c db \<longleftrightarrow> db_inv db \<and> rows_genuine genuine c db \<and> hm_get (chain_identity db) c \<noteq> None"

lemma crash_gate_none [simp]: "crash_gate_hit None t = (Inr (), t)"
  by (simp add: crash_gate_hit_def)

lemma more_reports [simp]:
  "more_rolled_back rep 0 = rep" "more_applied rep 0 0 = rep"
  "more_rolled_back (more_rolled_back rep m) n = more_rolled_back rep (m + n)"
  "more_applied (more_applied rep m k) n l = more_applied rep (m + n) (k + l)"
  by (simp_all add: more_rolled_back_def more_applied_def add.assoc)

lemma rollbacks_progress:
  "chain_ready genuine (chain_id w) (tx_db t) \<Longrightarrow> names_blocks genuine \<Longrightarrow>
   set rbs \<subseteq> canon_set (chain_id w) (tx_db t) \<Longrightarrow> distinct rbs \<Longrightarrow>
   \<exists>t'. (\<forall>ds. apply_events clean None w anc (map DRollback rbs @ ds) (rep, anc) t =
          apply_events clean None w anc ds (more_rolled_back rep (length rbs), anc) t') \<and>
     chain_ready genuine (chain_id w) (tx_db t') \<and>
     canon_set (chain_id w) (tx_db t') = canon_set (chain_id w) (tx_db t) - set rbs"
proof (induction rbs arbitrary: rep t)
  case Nil
  then show ?case by auto
next
  case (Cons x rbs)
  let ?c = "chain_id w"
  have r: "db_inv (tx_db t)" "rows_genuine genuine ?c (tx_db t)" "hm_get (chain_identity (tx_db t)) ?c \<noteq> None"
    using Cons.prems(1) by (simp_all add: chain_ready_def)
  then have wf: "rows_wf (tx_db t)" by (simp add: db_inv_def)
  have x: "x \<in> canon_set ?c (tx_db t)" using Cons.prems(3) by simp
  then have gx: "genuine (durable_header (DRollback x))"
    using r(2) by (auto simp: canon_set_def rows_genuine_def)
  from rollback_progress [OF wf x] obtain t1 where
    1: "apply_event clean w anc (DRollback x) (rep, anc) t = (Inr (more_rolled_back rep 1, anc), t1)"
    and id: "chain_identity (tx_db t1) = chain_identity (tx_db t)" by blast
  note eff = apply_event_effect [OF 1 r(1,2) Cons.prems(2) gx]
  have "chain_ready genuine ?c (tx_db t1)"
    using apply_event_inv [OF 1 r(1)] eff id r(3) by (simp add: chain_ready_def)
  moreover have "set rbs \<subseteq> canon_set ?c (tx_db t1)" using eff Cons.prems(3,4) by auto
  ultimately obtain t' where t':
    "\<And>ds. apply_events clean None w anc (map DRollback rbs @ ds) (more_rolled_back rep 1, anc) t1 =
       apply_events clean None w anc ds (more_rolled_back (more_rolled_back rep 1) (length rbs), anc) t'"
    "chain_ready genuine ?c (tx_db t')" "canon_set ?c (tx_db t') = canon_set ?c (tx_db t1) - set rbs"
    using Cons.IH [of t1 "more_rolled_back rep 1"] Cons.prems(2,4) by auto
  then have "canon_set ?c (tx_db t') = canon_set ?c (tx_db t) - set (x # rbs)" using eff by auto
  with t' 1 show ?case by (intro exI [of _ t']) simp
qed

lemma applies_progress:
  "chain_ready genuine (chain_id w) (tx_db t) \<Longrightarrow> names_blocks genuine \<Longrightarrow>
   \<forall>b \<in> set bs. block_fits b \<and> genuine (ib_header b) \<and>
      (\<forall>y \<in> canon_set (chain_id w) (tx_db t). height y < height (ib_header b)) \<Longrightarrow>
   sorted_wrt (\<lambda>x y. height (ib_header x) < height (ib_header y)) bs \<Longrightarrow>
   \<exists>t'. apply_events clean None w anc (map DApply bs) (rep, tgt) t =
        (Inr (more_applied rep (length bs) (sum_list (map (\<lambda>b. length (block_logs b)) bs)),
              if bs = [] then tgt else Some (ib_header (last bs))), t')"
proof (induction bs arbitrary: rep tgt t)
  case Nil
  then show ?case by simp
next
  case (Cons b bs)
  let ?c = "chain_id w"
  have r: "db_inv (tx_db t)" "rows_genuine genuine ?c (tx_db t)" "hm_get (chain_identity (tx_db t)) ?c \<noteq> None"
    using Cons.prems(1) by (simp_all add: chain_ready_def)
  then have wf: "rows_wf (tx_db t)" by (simp add: db_inv_def)
  have b: "block_fits b" "genuine (ib_header b)" "\<forall>y \<in> canon_set ?c (tx_db t). height y \<noteq> height (ib_header b)"
    using Cons.prems(3) by auto
  from apply_progress [OF wf b(1) r(2) Cons.prems(2) b(2,3) r(3)] obtain t1 where
    1: "apply_event clean w anc (DApply b) (rep, tgt) t =
      (Inr (more_applied rep 1 (length (block_logs b)), Some (ib_header b)), t1)"
    and id: "chain_identity (tx_db t1) = chain_identity (tx_db t)" by blast
  note eff = apply_event_effect [OF 1 r(1,2) Cons.prems(2)]
  have set1: "canon_set ?c (tx_db t1) = insert (ib_header b) (canon_set ?c (tx_db t))"
    using eff b(2) by simp
  have "chain_ready genuine ?c (tx_db t1)"
    using apply_event_inv [OF 1 r(1)] eff id r(3) b(2) by (simp add: chain_ready_def)
  moreover have "\<forall>b' \<in> set bs. block_fits b' \<and> genuine (ib_header b') \<and>
      (\<forall>y \<in> canon_set ?c (tx_db t1). height y < height (ib_header b'))"
    using Cons.prems(3,4) by (auto simp: set1)
  ultimately obtain t' where
    "apply_events clean None w anc (map DApply bs) (more_applied rep 1 (length (block_logs b)), Some (ib_header b)) t1 =
      (Inr (more_applied (more_applied rep 1 (length (block_logs b))) (length bs) (sum_list (map (\<lambda>b. length (block_logs b)) bs)),
            if bs = [] then Some (ib_header b) else Some (ib_header (last bs))), t')"
    using Cons.IH [of t1 "more_applied rep 1 (length (block_logs b))" "Some (ib_header b)"] Cons.prems(2,4) by auto
  with 1 show ?case by simp
qed

lemma move_target_progress:
  assumes can: "canonical_at (chain_id w) (hash x) (uint (height x)) (tx_db t)" and wf: "rows_wf (tx_db t)"
  shows "\<exists>t'. move_target clean None w (Some x) t = (Inr (), t')"
proof -
  from can obtain r where r: "get_block (chain_id w) (hash x) (tx_db t) = Some r" "br_height r = uint (height x)"
    by (auto simp: canonical_at_def split: option.splits)
  then have "block_at (chain_id w) (hash x) (uint (height x)) (tx_db t)" by (simp add: block_at_def)
  with can row_height_fits [OF wf r] show ?thesis
    by (simp add: move_target_def move_checkpoint_def upsert_checkpoint_def)
qed

lemma reorg_body_commits:
  assumes inv: "db_inv db" and ident: "hm_get (chain_identity db) (chain_id w) \<noteq> None"
    and chain: "canon_headers (chain_id w) db = low @ a # ups"
    and events: "db_events b = map DRollback (rev ups) @ map DApply bs" "db_common_ancestor b = Some a"
    and linked: "ascends (a # map ib_header bs)" and nonempty: "db_events b \<noteq> []"
    and gen: "rows_genuine genuine (chain_id w) db" "names_blocks genuine"
      "\<forall>x \<in> set bs. genuine (ib_header x) \<and> block_fits x"
  shows "\<exists>t. batch_body clean None w b \<lparr>tx_db = db, tx_statements = 0, gate_step = 0\<rparr> = (Inr
    \<lparr>applied_blocks = length bs, rolled_back_blocks = length ups,
     upserted_logs = sum_list (map (\<lambda>b. length (block_logs b)) bs),
     appended_outbox_events = length ups + length bs\<rparr>, t)"
proof -
  let ?c = "chain_id w" and ?t = "\<lparr>tx_db = db, tx_statements = 1, gate_step = 0\<rparr>"
  let ?rep = "more_applied (more_rolled_back apply_report_default (length (rev ups)))
    (length bs) (sum_list (map (\<lambda>b. length (block_logs b)) bs))"
  let ?x = "last (a # map ib_header bs)"
  have wf: "rows_wf db" using inv by (simp add: db_inv_def)
  have ready: "chain_ready genuine ?c (tx_db ?t)" using inv gen(1) ident by (simp add: chain_ready_def)
  have set0: "canon_set ?c db = set (low @ a # ups)" using set_canon_headers [OF wf, of ?c] chain by simp
  have asc: "sorted_wrt (\<lambda>x y. height x < height y) (low @ a # ups)"
    using canon_headers_ascending [OF wf, of ?c] chain by simp
  then have "distinct (low @ a # ups)"
    by (metis distinct_map sorted_wrt_map strict_sorted_iff)
  then have "distinct (rev ups)" by simp
  moreover have "set (rev ups) \<subseteq> canon_set ?c (tx_db ?t)" by (auto simp: set0)
  ultimately obtain t1 where
    1: "\<And>ds. apply_events clean None w (Some a) (map DRollback (rev ups) @ ds) (apply_report_default, Some a) ?t =
      apply_events clean None w (Some a) ds (more_rolled_back apply_report_default (length (rev ups)), Some a) t1"
    and ready1: "chain_ready genuine ?c (tx_db t1)" and set1: "canon_set ?c (tx_db t1) = set (low @ a # ups) - set ups"
    using rollbacks_progress [OF ready gen(2), of "rev ups" "Some a" apply_report_default] set0 by auto
  have below: "canon_set ?c (tx_db t1) = set (low @ [a])"
    using asc by (auto simp: set1 sorted_wrt_append)
  have heights: "sorted_wrt (\<lambda>x y. height x < height y) (low @ a # map ib_header bs)"
    using asc ascending_heights [of "a # map ib_header bs"] linked
    by (auto simp: sorted_wrt_append ascends_def intro: less_trans)
  then have "\<forall>b \<in> set bs. block_fits b \<and> genuine (ib_header b) \<and>
      (\<forall>y \<in> canon_set ?c (tx_db t1). height y < height (ib_header b))"
    using gen(3) by (auto simp: below sorted_wrt_append)
  moreover have "sorted_wrt (\<lambda>x y. height (ib_header x) < height (ib_header y)) bs"
    using heights by (simp add: sorted_wrt_append sorted_wrt_map)
  ultimately obtain t2 where
    2: "apply_events clean None w (Some a) (map DApply bs)
        (more_rolled_back apply_report_default (length (rev ups)), Some a) t1 =
      (Inr (?rep, if bs = [] then Some a else Some (ib_header (last bs))), t2)"
    using applies_progress [OF ready1 gen(2), of bs "Some a"] by blast
  have tgt: "(if bs = [] then Some a else Some (ib_header (last bs))) = Some ?x"
    by (simp add: last_map)
  have E: "apply_events clean None w (Some a) (db_events b) (apply_report_default, Some a) ?t = (Inr (?rep, Some ?x), t2)"
    using 1 2 by (simp add: events tgt)
  have set0': "\<forall>x \<in> set (low @ a # ups). genuine x"
    using gen(1) set0 by (force simp: canon_set_def rows_genuine_def)
  then have "\<forall>e \<in> set (db_events b). genuine (durable_header e)" using gen(3) by (auto simp: events)
  from apply_events_effect [OF E _ _ gen(2) this] inv gen(1)
  have eff: "canon_set ?c (tx_db t2) = fold event_effect (db_events b) (canon_set ?c db)"
    "rows_genuine genuine ?c (tx_db t2)" by simp_all
  have wf2: "rows_wf (tx_db t2)" using apply_events_inv [OF E] inv by (simp add: db_inv_def)
  have "canon_set ?c (tx_db t2) = set (low @ [a]) \<union> ib_header ` set bs"
    using below event_effect_reorg [of "rev ups" bs "set (low @ a # ups)"]
    by (simp only: eff(1) events(1) set0 set1 set_rev)
  then have "?x \<in> canon_set ?c (tx_db t2)" by (cases bs rule: rev_cases) auto
  moreover have gx: "genuine ?x" using gen(3) set0' by (cases bs rule: rev_cases) auto
  ultimately have can: "canonical_at ?c (hash ?x) (uint (height ?x)) (tx_db t2)"
    using canonical_at_canon_set [OF wf2 gx eff(2) gen(2)] by simp
  from move_target_progress [OF can wf2] obtain t3 where
    "move_target clean None w (Some ?x) t2 = (Inr (), t3)" ..
  with E have "batch_body clean None w b \<lparr>tx_db = db, tx_statements = 0, gate_step = 0\<rparr> = (Inr ?rep, t3)"
    by (simp del: last.simps add: batch_body_def events(2))
  moreover have "?rep = \<lparr>applied_blocks = length bs, rolled_back_blocks = length ups,
     upserted_logs = sum_list (map (\<lambda>b. length (block_logs b)) bs),
     appended_outbox_events = length ups + length bs\<rparr>"
    by (simp add: more_applied_def more_rolled_back_def apply_report_default_def)
  ultimately show ?thesis by simp
qed

text \<open>
  C13: A reorganisation that fits the schema always goes through.  If the database's canonical
  chain is \<open>low @ a # ups\<close>, the chain is registered, the batch rolls back \<open>ups\<close> and applies
  blocks that link to \<open>a\<close>, and nothing is lost, then the writer reports success: every block of
  \<open>ups\<close> was rolled back, every new block applied, with one outbox event for each of them and all
  their logs stored.  No uniqueness, foreign key or check constraint stops it, because the
  rollbacks come first.
\<close>
theorem valid_reorg_commits:
  assumes inv: "db_inv db" and ident: "hm_get (chain_identity db) (chain_id w) \<noteq> None"
    and chain: "canon_headers (chain_id w) db = low @ a # ups"
    and events: "db_events b = map DRollback (rev ups) @ map DApply bs" "db_common_ancestor b = Some a"
    and linked: "ascends (a # map ib_header bs)" and nonempty: "db_events b \<noteq> []"
    and gen: "rows_genuine genuine (chain_id w) db" "names_blocks genuine"
      "\<forall>x \<in> set bs. genuine (ib_header x) \<and> block_fits x"
  shows "\<exists>db'. apply_batch_inner clean None w b db = (Returned (Inr
    \<lparr>applied_blocks = length bs, rolled_back_blocks = length ups,
     upserted_logs = sum_list (map (\<lambda>b. length (block_logs b)) bs),
     appended_outbox_events = length ups + length bs\<rparr>), db')"
proof -
  have "\<not> durable_is_empty b" using nonempty by (simp add: durable_is_empty_def)
  with reorg_body_commits [OF assms] show ?thesis by (auto simp: apply_batch_inner_def clean_def)
qed

section \<open>A sample database\<close>

text \<open>
  Chain 1 with the blocks \<open>pg_a\<close> and \<open>pg_b\<close> at the heights 10 and 11, and a batch that replaces
  \<open>pg_b\<close> by \<open>pg_c\<close>.
\<close>

definition pg_a :: block_header where "pg_a = BlockHeader (fill 1) (fill 0) 10"
definition pg_b :: block_header where "pg_b = BlockHeader (fill 2) (fill 1) 11"
definition pg_c :: block_header where "pg_c = BlockHeader (fill 3) (fill 1) 11"

definition sample_row :: "u8 \<Rightarrow> int \<Rightarrow> block_row" where
  "sample_row p n = \<lparr>br_parent = fill p, br_height = n, br_timestamp = 0, is_canonical = True,
     br_status = ''unsafe'', br_status_source = ''observed''\<rparr>"

definition sample_entry :: "int \<Rightarrow> u8 \<Rightarrow> int \<Rightarrow> outbox_row" where
  "sample_entry i h n = \<lparr>event_id = i, ev_chain = 1, ev_kind = ''apply'', ev_block_hash = fill h,
     ev_block_height = n, ev_payload = JNull, ev_created = 0, published_at = None\<rparr>"

definition sample_db :: database where
  "sample_db = empty_db\<lparr>chain_identity := [(1, fill 9)],
     blocks_table := [((1, fill 1), sample_row 0 10), ((1, fill 2), sample_row 1 11)],
     checkpoint_table := [(1, (11, fill 2))],
     outbox_table := [sample_entry 1 1 10, sample_entry 2 2 11], outbox_seq := 3\<rparr>"

definition sample_writer :: pg_writer where "sample_writer = \<lparr>chain_id = 1\<rparr>"

definition sample_block :: indexed_block where
  "sample_block = \<lparr>ib_header = pg_c, timestamp = 7, ib_status = Unsafe, ib_status_source = Observed,
     block_logs = [\<lparr>transaction_index = 0, log_index = 0, tx_hash = fill 5, log_address = fill 6,
       topics = [fill 7], log_data = [1, 2], decoded_event = None, decoder_version = None\<rparr>]\<rparr>"

definition sample_batch :: chain_batch where
  "sample_batch = \<lparr>transition = Reorg, common_ancestor = Some pg_a, events = [Rollback pg_b, Apply pg_c]\<rparr>"

definition sample_durable :: durable_batch where
  "sample_durable = \<lparr>db_transition = Reorg, db_common_ancestor = Some pg_a,
     db_events = [DRollback pg_b, DApply sample_block]\<rparr>"

lemmas sample_headers = pg_a_def pg_b_def pg_c_def

lemma get_block_sample [simp]:
  "get_block c h sample_db =
     (if c = 1 \<and> h = fill 1 then Some (sample_row 0 10)
      else if c = 1 \<and> h = fill 2 then Some (sample_row 1 11) else None)"
  by (auto simp: get_block_def sample_db_def hm_get_def)

lemma sample_db_inv: "db_inv sample_db"
proof -
  have "rows_wf sample_db"
    unfolding rows_wf_def
    by (auto simp: sample_db_def empty_db_def hm_inv_def hm_get_def block_at_def sample_row_def get_block_def
        split: if_splits)
  moreover have "replay c (outbox_table sample_db) = {h. canonical c h sample_db}" for c
    by (auto simp: replay_def replay_event_def sample_db_def sample_entry_def canonical_def sample_row_def
        get_block_def hm_get_def split: if_splits)
  then have "journal_wf sample_db"
    by (simp add: journal_wf_def) (simp add: sample_db_def sample_entry_def block_at_def sample_row_def
        get_block_def hm_get_def)
  ultimately show ?thesis by (simp add: db_inv_def)
qed

lemma sample_canon: "canon_headers 1 sample_db = [pg_a, pg_b]"
proof -
  have "canonical_rows 1 sample_db = [(fill 1, sample_row 0 10), (fill 2, sample_row 1 11)]"
    by (simp add: canonical_rows_def sample_db_def sample_row_def)
  then show ?thesis
    by (simp add: canon_headers_def sample_row_def row_header_def sample_headers)
qed

lemma sample_genuine: "names_blocks (\<lambda>x. x \<in> {pg_a, pg_b, pg_c})"
    "rows_genuine (\<lambda>x. x \<in> {pg_a, pg_b, pg_c}) 1 sample_db"
  by (auto simp: names_blocks_def rows_genuine_def sample_headers row_header_def sample_row_def split: if_splits)

lemma sample_batch_durable: "from_chain_batch sample_batch [sample_block] = Inr sample_durable"
  by (simp add: from_chain_batch_def sample_batch_def sample_durable_def sample_block_def sample_headers
      hm_insert_def hm_get_def hm_remove_def hm_keys_def hm_new_def)

lemma sample_fits: "block_fits sample_block"
  by (simp add: block_fits_def sample_block_def sample_headers log_fits_def i64_max_def i32_max_def)

lemma sample_linked: "ascends (pg_a # map ib_header [sample_block])"
  by (simp add: ascends_def links_def sample_block_def sample_headers)

lemma sample_events:
  "db_events sample_durable = map DRollback (rev [pg_b]) @ map DApply [sample_block]"
  "db_common_ancestor sample_durable = Some pg_a" "ib_header sample_block = pg_c"
  "chain_id sample_writer = 1"
  by (simp_all add: sample_durable_def sample_block_def sample_writer_def)

text \<open>The second statement of the transaction loses the connection; the batch crashes after commit.\<close>

definition sample_faults :: faults where
  "sample_faults = \<lparr>lost_at = (\<lambda>n. n = 1), commit_kept = False\<rparr>"

theorem batch_preserves_database_invariant_witness:
  "db_inv (snd (apply_batch_inner sample_faults None sample_writer sample_durable sample_db)) \<and>
   db_inv (snd (apply_batch_inner clean (Some AfterCommit) sample_writer sample_durable sample_db))"
  using batch_preserves_database_invariant [OF sample_db_inv prod.collapse [symmetric]] by blast

text \<open>The second event of this batch names a block that the database does not have.\<close>

definition sample_bad :: durable_batch where
  "sample_bad = \<lparr>db_transition = Reorg, db_common_ancestor = Some pg_a,
     db_events = [DRollback pg_b, DRollback pg_c]\<rparr>"

theorem batch_is_atomic_witness:
  "\<exists>n \<ge> 3. snd (apply_batch_inner clean None sample_writer sample_bad sample_db) = sample_db\<lparr>outbox_seq := n\<rparr>"
proof -
  have "fst (apply_batch_inner clean None sample_writer sample_bad sample_db) =
      Returned (Inl (MissingRollbackBlock (hex_hash (hash pg_c))))"
    by (simp add: apply_batch_inner_def batch_body_def sample_bad_def durable_is_empty_def sample_headers
        apply_event_def rollback_block_def update_uncanonical_def sample_row_def append_outbox_def
        insert_outbox_def block_at_def get_block_def hm_get_def sample_events(4) sample_db_def update_conv hm_insert_def
        i64_max_def)
  moreover have "outbox_seq sample_db = 3" by (simp add: sample_db_def)
  ultimately show ?thesis
    using batch_is_atomic [where flt = clean and cp = None and w = sample_writer and b = sample_bad and db = sample_db,
        OF prod.collapse [symmetric]]
    by auto
qed

theorem durable_batch_carries_chain_batch_witness:
  "list_all2 (carries [sample_block]) (events sample_batch) (db_events sample_durable)"
  using durable_batch_carries_chain_batch [OF sample_batch_durable] by simp

theorem valid_reorg_commits_witness:
  "\<exists>db'. apply_batch_inner clean None sample_writer sample_durable sample_db = (Returned (Inr
    \<lparr>applied_blocks = 1, rolled_back_blocks = 1, upserted_logs = 1, appended_outbox_events = 2\<rparr>), db')"
proof -
  have "hm_get (chain_identity sample_db) (chain_id sample_writer) \<noteq> None"
    by (simp add: sample_db_def hm_get_def sample_events)
  moreover have "canon_headers (chain_id sample_writer) sample_db = [] @ pg_a # [pg_b]"
    by (simp add: sample_canon sample_events)
  ultimately show ?thesis
    using valid_reorg_commits [OF sample_db_inv _ _ sample_events(1,2) sample_linked, of sample_writer "[]"
        "\<lambda>x. x \<in> {pg_a, pg_b, pg_c}"] sample_genuine sample_fits
    by (simp add: sample_events sample_block_def numeral_2_eq_2)
qed

theorem writer_refines_reorg_witness:
  "canon_headers 1 (snd (apply_batch_inner clean None sample_writer sample_durable sample_db)) \<in> {[pg_a, pg_b], [pg_a, pg_c]}"
proof -
  have "canon_headers (chain_id sample_writer) sample_db = [] @ pg_a # [pg_b]"
    by (simp add: sample_canon sample_events)
  then show ?thesis
    using writer_refines_reorg [where w = sample_writer and low = "[]" and flt = clean and cp = None and
        genuine = "\<lambda>x. x \<in> {pg_a, pg_b, pg_c}",
        OF sample_db_inv prod.collapse [symmetric] _ sample_events(1,2) sample_linked] sample_genuine
    by (auto simp: sample_events)
qed

section \<open>A batch that is applied again\<close>

lemma rollback_again:
  assumes wf: "rows_wf (tx_db t)" and x: "x \<notin> canon_set (chain_id w) (tx_db t)"
    and there: "get_block (chain_id w) (hash x) (tx_db t) \<noteq> None"
    and gen: "rows_genuine genuine (chain_id w) (tx_db t)" "names_blocks genuine" "genuine x"
  shows "\<exists>t'. apply_event clean w anc (DRollback x) (rep, tgt) t = (Inr (rep, anc), t') \<and> tx_db t' = tx_db t"
proof -
  from there obtain r where r: "get_block (chain_id w) (hash x) (tx_db t) = Some r" by blast
  then have "genuine (row_header (hash x) r)" using gen(1) by (simp add: rows_genuine_def)
  with gen have same: "row_header (hash x) r = x" by (simp add: names_blocks_def)
  have u: "br_height r = uint (height x)"
    using row_height_word [OF wf r] arg_cong [OF same, of height] by simp
  have "\<not> is_canonical r" using x r same unfolding canon_set_iff by metis
  then have "update_uncanonical (chain_id w) (hash x) (uint (height x)) (tx_db t) = (Inr False, tx_db t)"
    using r by (simp add: update_uncanonical_def)
  then show ?thesis using r row_height_fits [OF wf r u]
    by (simp add: apply_event_def rollback_block_def)
qed

lemma apply_again:
  assumes wf: "rows_wf (tx_db t)" and x: "ib_header b \<in> canon_set (chain_id w) (tx_db t)"
    and fits: "block_fits b"
  shows "\<exists>t' ls. apply_event clean w anc (DApply b) (rep, tgt) t =
      (Inr (more_applied rep 0 (length (block_logs b)), Some (ib_header b)), t') \<and>
    tx_db t' = (tx_db t)\<lparr>logs_table := ls\<rparr>"
proof -
  let ?c = "chain_id w" and ?x = "ib_header b"
  from x obtain r where r: "get_block ?c (hash ?x) (tx_db t) = Some r" "is_canonical r"
    "?x = row_header (hash ?x) r" unfolding canon_set_iff by blast
  have u: "br_height r = uint (height ?x)"
    using row_height_word [OF wf r(1)] arg_cong [OF r(3), of height] by simp
  have hx: "unat (height ?x) \<le> i64_max" using fits by (simp add: block_fits_def)
  let ?t = "t\<lparr>tx_db := tx_db t, tx_statements := Suc (tx_statements t)\<rparr>"
  have "block_at ?c (hash ?x) (uint (height ?x)) (tx_db ?t)" using r u by (simp add: block_at_def)
  from upsert_logs_progress [OF hx _ this, of "block_logs b" 0] fits obtain t' l where
    "upsert_logs_of clean w ?x (block_logs b) 0 ?t = (Inr (length (block_logs b)), t')"
    "tx_db t' = (tx_db t)\<lparr>logs_table := l\<rparr>" by (auto simp: block_fits_def)
  moreover have "upsert_canonical ?c (hash ?x) row (tx_db t) = (Inr False, tx_db t)" for row
    using r by (simp add: upsert_canonical_def)
  ultimately show ?thesis
    using hx by (auto simp: apply_event_def upsert_block_def upsert_logs_def more_applied_def Let_def)
qed

lemma rollbacks_again:
  "rows_wf (tx_db t) \<Longrightarrow> rows_genuine genuine (chain_id w) (tx_db t) \<Longrightarrow> names_blocks genuine \<Longrightarrow>
   \<forall>x \<in> set rbs. genuine x \<and> x \<notin> canon_set (chain_id w) (tx_db t) \<and>
      get_block (chain_id w) (hash x) (tx_db t) \<noteq> None \<Longrightarrow>
   \<exists>t'. (\<forall>ds. apply_events clean None w anc (map DRollback rbs @ ds) (rep, anc) t =
          apply_events clean None w anc ds (rep, anc) t') \<and> tx_db t' = tx_db t"
proof (induction rbs arbitrary: t)
  case (Cons x rbs)
  from Cons.prems(4) have x: "x \<notin> canon_set (chain_id w) (tx_db t)"
    "get_block (chain_id w) (hash x) (tx_db t) \<noteq> None" "genuine x" by auto
  from rollback_again [OF Cons.prems(1) x(1,2) Cons.prems(2,3) x(3)] obtain t1 where
    1: "apply_event clean w anc (DRollback x) (rep, anc) t = (Inr (rep, anc), t1)" "tx_db t1 = tx_db t" by blast
  with Cons.IH [of t1] Cons.prems obtain t' where
    "\<And>ds. apply_events clean None w anc (map DRollback rbs @ ds) (rep, anc) t1 =
       apply_events clean None w anc ds (rep, anc) t'" "tx_db t' = tx_db t1" by auto
  with 1 show ?case by (intro exI [of _ t']) simp
qed auto

lemma applies_again:
  "rows_wf (tx_db t) \<Longrightarrow>
   \<forall>b \<in> set bs. block_fits b \<and> ib_header b \<in> canon_set (chain_id w) (tx_db t) \<Longrightarrow>
   \<exists>t' l. apply_events clean None w anc (map DApply bs) (rep, tgt) t =
        (Inr (more_applied rep 0 (sum_list (map (\<lambda>b. length (block_logs b)) bs)),
              if bs = [] then tgt else Some (ib_header (last bs))), t') \<and>
     tx_db t' = (tx_db t)\<lparr>logs_table := l\<rparr>"
proof (induction bs arbitrary: rep tgt t)
  case Nil
  then show ?case by (auto intro: exI [of _ "logs_table (tx_db t)"])
next
  case (Cons b bs)
  from Cons.prems(2) have b: "ib_header b \<in> canon_set (chain_id w) (tx_db t)" "block_fits b" by auto
  from apply_again [OF Cons.prems(1) b] obtain t1 ls where
    1: "apply_event clean w anc (DApply b) (rep, tgt) t =
      (Inr (more_applied rep 0 (length (block_logs b)), Some (ib_header b)), t1)" and
    t1: "tx_db t1 = (tx_db t)\<lparr>logs_table := ls\<rparr>" by blast
  have "rows_wf (tx_db t1)" "canon_set (chain_id w) (tx_db t1) = canon_set (chain_id w) (tx_db t)"
    using Cons.prems(1) by (simp_all add: t1 canon_set_def)
  with Cons.IH [of t1 "more_applied rep 0 (length (block_logs b))" "Some (ib_header b)"] Cons.prems(2)
  obtain t' l where
    "apply_events clean None w anc (map DApply bs) (more_applied rep 0 (length (block_logs b)), Some (ib_header b)) t1 =
      (Inr (more_applied (more_applied rep 0 (length (block_logs b))) 0 (sum_list (map (\<lambda>b. length (block_logs b)) bs)),
            if bs = [] then Some (ib_header b) else Some (ib_header (last bs))), t')"
    "tx_db t' = (tx_db t1)\<lparr>logs_table := l\<rparr>" by auto
  with 1 show ?case by (auto simp: t1)
qed

lemma apply_event_keeps_rows:
  assumes "apply_event flt w anc e (rep, tgt) t = (Inr (rep', tgt'), t')"
    and "get_block c h (tx_db t) \<noteq> None"
  shows "get_block c h (tx_db t') \<noteq> None"
  using assms(1) by (cases rule: apply_event_cases) (use assms(2) in auto)

lemma apply_events_keeps_rows:
  "apply_events flt cp w anc es rt t = (Inr rt', t') \<Longrightarrow> get_block c h (tx_db t) \<noteq> None \<Longrightarrow>
   get_block c h (tx_db t') \<noteq> None"
proof (induction es arbitrary: rt t)
  case (Cons e es)
  from Cons.prems obtain u1 t1 rt1 t2 u3 t3 where
    1: "crash_gate_hit cp t = (Inr u1, t1)" and 2: "apply_event flt w anc e rt t1 = (Inr rt1, t2)" and
    3: "crash_gate_hit cp t2 = (Inr u3, t3)" and 4: "apply_events flt cp w anc es rt1 t3 = (Inr rt', t')"
    by (auto simp: try_simps)
  obtain a b c d where rt: "rt = (a, b)" "rt1 = (c, d)" by (cases rt; cases rt1)
  from apply_event_keeps_rows [OF 2 [unfolded rt]] Cons.prems(2) show ?case
    using Cons.IH [OF 4] by (simp add: crash_gate_db [OF 1] crash_gate_db [OF 3])
qed simp

lemma batch_success:
  assumes "apply_batch_inner flt cp w b db = (Returned (Inr rep), db')" and "\<not> durable_is_empty b"
  shows "\<exists>t. batch_body flt cp w b \<lparr>tx_db = db, tx_statements = 0, gate_step = 0\<rparr> = (Inr rep, t) \<and>
    db' = tx_db t"
  using assms by (auto simp: apply_batch_inner_def split: prod.splits sum.splits tx_stop.splits if_splits)

text \<open>
  Applying a committed batch again, as a client does whose commit answer was lost, is
  harmless: the second run succeeds, changes no row of \<open>blocks\<close>, appends nothing to the outbox and
  leaves the checkpoint where it was.  (The blocks rolled back are not among those applied.)
\<close>
theorem retried_batch_changes_nothing:
  assumes inv: "db_inv db"
    and run: "apply_batch_inner clean None w b db = (Returned (Inr rep), db1)"
    and chain: "canon_headers (chain_id w) db = low @ a # ups"
    and events: "db_events b = map DRollback (rev ups) @ map DApply bs" "db_common_ancestor b = Some a"
    and linked: "ascends (a # map ib_header bs)" and nonempty: "db_events b \<noteq> []"
    and disjoint: "set ups \<inter> ib_header ` set bs = {}"
    and gen: "rows_genuine genuine (chain_id w) db" "names_blocks genuine"
      "\<forall>x \<in> set bs. genuine (ib_header x) \<and> block_fits x"
  shows "\<exists>rep2 db2. apply_batch_inner clean None w b db1 = (Returned (Inr rep2), db2) \<and>
    applied_blocks rep2 = 0 \<and> rolled_back_blocks rep2 = 0 \<and> appended_outbox_events rep2 = 0 \<and>
    blocks_table db2 = blocks_table db1 \<and> outbox_table db2 = outbox_table db1 \<and>
    hm_get (checkpoint_table db2) = hm_get (checkpoint_table db1)"
proof -
  let ?c = "chain_id w" and ?init = "\<lparr>tx_db = db, tx_statements = 0, gate_step = 0\<rparr>"
  let ?t = "\<lparr>tx_db = db1, tx_statements = 1, gate_step = 0\<rparr>" and ?x = "last (a # map ib_header bs)"
  have wf: "rows_wf db" using inv by (simp add: db_inv_def)
  have full: "\<not> durable_is_empty b" using nonempty by (simp add: durable_is_empty_def)
  then obtain t1 where body: "batch_body clean None w b ?init = (Inr rep, t1)" and db1: "db1 = tx_db t1"
    using batch_success [OF run] by blast
  have set0: "canon_set ?c db = set (low @ a # ups)" using set_canon_headers [OF wf, of ?c] chain by simp
  then have g0: "\<forall>x \<in> set (low @ a # ups). genuine x"
    using gen(1) by (force simp: canon_set_def rows_genuine_def)
  have gen': "\<forall>e \<in> set (db_events b). genuine (durable_header e)" using g0 gen(3) by (auto simp: events)
  have target: "(if db_events b = [] then db_common_ancestor b else
      (case last (db_events b) of DApply b \<Rightarrow> Some (ib_header b) | DRollback _ \<Rightarrow> db_common_ancestor b)) = Some ?x"
    by (cases bs rule: rev_cases; cases ups) (simp_all add: events)
  have inv': "db_inv (tx_db ?init)" "rows_genuine genuine ?c (tx_db ?init)" using inv gen(1) by simp_all
  note eff = batch_effect [OF body inv' gen(2) gen' target]
  have wf1: "rows_wf db1" using batch_body_inv [OF body inv'(1)] by (simp add: db1 db_inv_def)
  have set1: "canon_set ?c db1 = (set (low @ a # ups) - set ups) \<union> ib_header ` set bs"
    using eff event_effect_reorg [of "rev ups" bs "set (low @ a # ups)"]
    by (simp add: db1 events(1) set0)
  have rg1: "rows_genuine genuine ?c db1" using eff by (simp add: db1)
  have kept: "get_block ?c (hash x) db1 \<noteq> None" if "x \<in> set ups" for x
  proof -
    have "get_block ?c (hash x) db \<noteq> None"
      using that set0 by (metis Un_iff canon_set_iff list.set_intros(2) option.distinct(1) set_append)
    with body show ?thesis
    proof (cases rule: batch_body_parts)
      case (1 u t2 tgt t3 v)
      have "get_block ?c (hash x) (tx_db t3) \<noteq> None"
        by (rule apply_events_keeps_rows [OF 1(3)]) (use \<open>get_block ?c (hash x) db \<noteq> None\<close> crash_gate_db [OF 1(2)] in simp)
      with 1(4) show ?thesis
        by (auto simp: db1 move_target_def move_checkpoint_def upsert_checkpoint_def try_simps split: option.splits if_splits)
    qed
  qed
  have "\<forall>x \<in> set (rev ups). genuine x \<and> x \<notin> canon_set ?c (tx_db ?t) \<and> get_block ?c (hash x) (tx_db ?t) \<noteq> None"
    using g0 kept disjoint by (auto simp: set1)
  from rollbacks_again [OF _ _ gen(2) this, of "Some a" apply_report_default] wf1 rg1 obtain t2 where
    2: "\<And>ds. apply_events clean None w (Some a) (map DRollback (rev ups) @ ds) (apply_report_default, Some a) ?t =
      apply_events clean None w (Some a) ds (apply_report_default, Some a) t2" and t2: "tx_db t2 = db1" by auto
  have "\<forall>b \<in> set bs. block_fits b \<and> ib_header b \<in> canon_set ?c (tx_db t2)"
    using gen(3) by (auto simp: t2 set1)
  from applies_again [OF _ this, of "Some a" apply_report_default "Some a"] wf1 obtain t3 l where
    3: "apply_events clean None w (Some a) (map DApply bs) (apply_report_default, Some a) t2 =
      (Inr (more_applied apply_report_default 0 (sum_list (map (\<lambda>b. length (block_logs b)) bs)),
        if bs = [] then Some a else Some (ib_header (last bs))), t3)"
    and t3: "tx_db t3 = db1\<lparr>logs_table := l\<rparr>" by (auto simp: t2)
  have tgt: "(if bs = [] then Some a else Some (ib_header (last bs))) = Some ?x" by (simp add: last_map)
  have "canonical_at ?c (hash ?x) (uint (height ?x)) (tx_db t3)"
    using eff by (simp del: last.simps add: t3 db1 canonical_at_def)
  from move_target_progress [OF this] wf1 obtain t4 where
    4: "move_target clean None w (Some ?x) t3 = (Inr (), t4)" by (auto simp: t3)
  then have t4: "blocks_table (tx_db t4) = blocks_table db1" "outbox_table (tx_db t4) = outbox_table db1"
    "hm_get (checkpoint_table (tx_db t4)) = hm_get (checkpoint_table db1)"
    using eff by (auto simp del: last.simps simp: t3 db1 move_target_def move_checkpoint_def upsert_checkpoint_def
        try_simps fun_eq_iff pg_height_Inr convert_Inr split: if_splits)
  have "batch_body clean None w b \<lparr>tx_db = db1, tx_statements = 0, gate_step = 0\<rparr> =
      (Inr (more_applied apply_report_default 0 (sum_list (map (\<lambda>b. length (block_logs b)) bs))), t4)"
    using 2 3 4 by (simp del: last.simps add: batch_body_def events tgt)
  with full t4 show ?thesis
    by (simp add: apply_batch_inner_def clean_def more_applied_def apply_report_default_def)
qed

theorem retried_batch_changes_nothing_witness:
  "\<exists>db1 rep2 db2. snd (apply_batch_inner clean None sample_writer sample_durable sample_db) = db1 \<and>
     apply_batch_inner clean None sample_writer sample_durable db1 = (Returned (Inr rep2), db2) \<and>
     applied_blocks rep2 = 0 \<and> outbox_table db2 = outbox_table db1"
proof -
  have pre: "hm_get (chain_identity sample_db) (chain_id sample_writer) \<noteq> None"
    "canon_headers (chain_id sample_writer) sample_db = [] @ pg_a # [pg_b]"
    "rows_genuine (\<lambda>x. x \<in> {pg_a, pg_b, pg_c}) (chain_id sample_writer) sample_db"
    "\<forall>x \<in> set [sample_block]. ib_header x \<in> {pg_a, pg_b, pg_c} \<and> block_fits x"
    "db_events sample_durable \<noteq> []" "\<not> durable_is_empty sample_durable"
    using sample_fits sample_genuine
    by (simp_all add: sample_canon sample_events) (simp_all add: sample_db_def hm_get_def sample_durable_def durable_is_empty_def)
  obtain rep db1 where run: "apply_batch_inner clean None sample_writer sample_durable sample_db = (Returned (Inr rep), db1)"
    using reorg_body_commits [OF sample_db_inv pre(1,2) sample_events(1,2) sample_linked pre(5,3) sample_genuine(1) pre(4)] pre(6)
    by (auto simp: apply_batch_inner_def clean_def)
  have "set [pg_b] \<inter> ib_header ` set [sample_block] = {}" by (simp add: sample_events sample_headers)
  from retried_batch_changes_nothing [OF sample_db_inv run pre(2) sample_events(1,2) sample_linked pre(5) this pre(3) sample_genuine(1) pre(4)]
  show ?thesis by (auto simp: run)
qed

end
