(* ===== verification/Live_Store.thy ===== *)
theory Live_Store
  imports Live_Correct Postgres_Correct
begin

text \<open>
  The live sink of \<open>chainweave-cli/src/live_runtime.rs\<close>: \<open>PostgresLiveStore\<close> and
  \<open>BlockingPostgresLiveSink\<close> over the PostgreSQL writer, and the live tracker on top of it.

  The state of the sink holds the database, the parent anchor, and what will happen to each of its
  transactions, the faults of the connection and whether shutdown cuts the awaited call short, and to
  each of its reads: the \<open>n\<close>-th read fails when \<open>ps_read_lost k n\<close>, and the caller then sees \<open>None\<close>.
\<close>

section \<open>The store\<close>

text \<open>The variants of \<open>LiveRuntimeError\<close> that the store can return.\<close>

datatype store_error =
    StoreSink pg_error
  | StoreBackfill backfill_error
  | MissingCheckpointHeader u64
  | TaskCancelled

definition checkpoint_header :: "pg_writer \<Rightarrow> database \<Rightarrow> store_error + block_header option" where
  "checkpoint_header w db =
     tryR (map_err StoreSink (read_checkpoint w db)) (\<lambda>cp.
       case cp of
         None \<Rightarrow> Inr None
       | Some cp \<Rightarrow>
           tryR (map_err StoreSink (canonical_header_at w (last_height cp) db)) (\<lambda>blk.
             map_sum id Some (ok_or blk (MissingCheckpointHeader (last_height cp)))))"

definition store_header_at_height ::
    "pg_writer \<Rightarrow> u64 \<Rightarrow> database \<Rightarrow> store_error + block_header option" where
  "store_header_at_height w n db = map_err StoreSink (canonical_header_at w n db)"

definition store_header_by_hash ::
    "pg_writer \<Rightarrow> block_hash \<Rightarrow> database \<Rightarrow> store_error + block_header option" where
  "store_header_by_hash w h db = map_err StoreSink (canonical_header_of w h db)"

text \<open>One block through a coordinator of its own and the backfill committer.\<close>

definition commit_one_block ::
    "(pg_error \<Rightarrow> string) \<Rightarrow> faults \<Rightarrow> pg_writer \<Rightarrow> block_header option \<Rightarrow> indexed_block \<Rightarrow> database \<Rightarrow>
      (store_error + unit) \<times> database" where
  "commit_one_block show_error flt w anchor b db =
     (let h = height (ib_header b) in
      case tryR (range_new h h) (\<lambda>r. fetched_new r [ib_header b] [b]) of
        Inl e \<Rightarrow> (Inl (StoreBackfill e), db)
      | Inr f \<Rightarrow>
          (case coordinator_new h h anchor of
             Inl e \<Rightarrow> (Inl (StoreBackfill e), db)
           | Inr c \<Rightarrow>
               (case push (committer_commit show_error flt) f c (committer_new w anchor, db) of
                  (Inl e, _, _, db') \<Rightarrow> (Inl (StoreBackfill e), db')
                | (Inr _, _, _, db') \<Rightarrow> (Inr (), db'))))"

section \<open>The sink\<close>

record pg_sink =
  ps_writer :: pg_writer
  ps_db :: database
  ps_parent_anchor :: "block_header option"
  ps_faults :: "nat \<Rightarrow> faults"
  ps_shutdown :: "nat \<Rightarrow> bool"
  ps_transactions :: nat
  ps_read_lost :: "nat \<Rightarrow> bool"
  ps_reads :: nat

record display =
  show_pg :: "pg_error \<Rightarrow> string"
  show_store :: "store_error \<Rightarrow> string"

text \<open>\<open>self.handle.block_on(\<dots>).ok().flatten()\<close>.\<close>

definition read_or_none :: "(database \<Rightarrow> store_error + 'a option) \<Rightarrow> pg_sink \<Rightarrow> 'a option \<times> pg_sink" where
  "read_or_none q k =
     (if ps_read_lost k (ps_reads k) then None else (case q (ps_db k) of Inr x \<Rightarrow> x | Inl _ \<Rightarrow> None),
      k\<lparr>ps_reads := Suc (ps_reads k)\<rparr>)"

definition pg_checkpoint_of :: "pg_sink \<Rightarrow> block_header option \<times> pg_sink" where
  "pg_checkpoint_of k = read_or_none (checkpoint_header (ps_writer k)) k"

definition next_transaction :: "database \<Rightarrow> pg_sink \<Rightarrow> pg_sink" where
  "next_transaction db k = k\<lparr>ps_db := db, ps_transactions := Suc (ps_transactions k)\<rparr>"

text \<open>
  \<open>commit_range\<close> of \<open>BlockingPostgresLiveSink\<close>, its error converted by \<open>From<String>\<close>.  When
  shutdown wins the race, the future is dropped: whatever the transaction has done by then stays
  done, but the caller gets the cancellation.
\<close>

definition pg_commit_range :: "display \<Rightarrow> (indexed_block, pg_sink) commit_fn" where
  "pg_commit_range D f k =
     (case fr_headers f of
        [] \<Rightarrow> (Inl (Commit ''cannot commit empty live range''), k)
      | _ # _ \<Rightarrow>
          (case fr_logs f of
             [] \<Rightarrow> (Inl (Commit ''missing live block payload''), k)
           | b # _ \<Rightarrow>
               (case commit_one_block (show_pg D) (ps_faults k (ps_transactions k)) (ps_writer k)
                       (ps_parent_anchor k) b (ps_db k) of
                  (r, db') \<Rightarrow>
                    (let k' = next_transaction db' k in
                     if ps_shutdown k (ps_transactions k)
                     then (Inl (Commit (show_store D TaskCancelled)), k')
                     else case r of
                         Inl e \<Rightarrow> (Inl (Commit (show_store D e)), k')
                       | Inr _ \<Rightarrow> (Inr (), k'\<lparr>ps_parent_anchor := Some (last (fr_headers f))\<rparr>)))))"

definition pg_commit_batch ::
    "display \<Rightarrow> chain_batch \<Rightarrow> indexed_block list \<Rightarrow> pg_sink \<Rightarrow> (string + unit) \<times> pg_sink" where
  "pg_commit_batch D b blks k =
     (case from_chain_batch b blks of
        Inl e \<Rightarrow> (Inl (show_pg D e), k)
      | Inr durable \<Rightarrow>
          (case apply_batch (ps_faults k (ps_transactions k)) (ps_writer k) durable (ps_db k) of
             (Inl e, db') \<Rightarrow> (Inl (show_pg D e), next_transaction db' k)
           | (Inr _, db') \<Rightarrow>
               (case pg_checkpoint_of (next_transaction db' k) of
                  (c, k') \<Rightarrow> (Inr (), k'\<lparr>ps_parent_anchor := c\<rparr>))))"

definition pg_live_sink :: "display \<Rightarrow> (indexed_block, pg_sink) live_sink" where
  "pg_live_sink D =
     \<lparr>sink_commit_range = pg_commit_range D, sink_commit_batch = pg_commit_batch D,
      checkpoint = pg_checkpoint_of,
      sink_header_at_height = (\<lambda>n k. read_or_none (store_header_at_height (ps_writer k) n) k),
      sink_header_by_hash = (\<lambda>h k. read_or_none (store_header_by_hash (ps_writer k) h) k)\<rparr>"

section \<open>Reads of a well-formed database\<close>

lemma hash_from_vec_bytes [simp]: "hash_from_vec (bytes_of h) = Inr h"
  by (simp add: hash_from_vec_def)

lemma row_height_wf:
  assumes "rows_wf db" and "get_block c h db = Some r"
  shows "row_height (br_height r) = Inr (word_of_int (br_height r))"
proof -
  have "0 \<le> br_height r" "br_height r < 2 ^ 63" using assms by (auto simp: rows_wf_def)
  then show ?thesis by (simp add: row_height_def u64_of_int_def ok_or_def)
qed

lemma header_of_row_wf:
  assumes "rows_wf db" and "get_block c h db = Some r"
  shows "header_of_row (h, r) = Inr (row_header h r)"
  using row_height_wf [OF assms] by (simp add: header_of_row_def row_to_header_def row_header_def)

lemma find_SomeD: "find P xs = Some x \<Longrightarrow> P x \<and> x \<in> set xs"
  by (induction xs) (auto split: if_splits)

lemma canonical_unique:
  assumes "rows_wf db" and "get_block c h db = Some r" and "is_canonical r"
    and "get_block c h' db = Some r'" and "is_canonical r'" and "br_height r = br_height r'"
  shows "h = h'"
  using assms by (auto simp: rows_wf_def)

lemma find_canonical_wf:
  assumes "rows_wf db" and "find_canonical c n db = Some (h, r)"
  shows "get_block c h db = Some r \<and> is_canonical r \<and> br_height r = n"
proof -
  from assms(2) have "(h, r) \<in> set (canonical_rows c db)" "br_height r = n"
    by (auto simp: find_canonical_def dest: find_SomeD)
  with canonical_rows_iff [OF assms(1)] show ?thesis by simp
qed

lemma find_canonical_hit:
  assumes wf: "rows_wf db" and r: "get_block c h db = Some r" "is_canonical r"
  shows "find_canonical c (br_height r) db = Some (h, r)"
proof -
  have "(h, r) \<in> set (canonical_rows c db)" using canonical_rows_iff [OF wf] r by simp
  then have "find_canonical c (br_height r) db \<noteq> None"
    by (auto simp: find_canonical_def find_None_iff)
  then obtain h' r' where f: "find_canonical c (br_height r) db = Some (h', r')" by auto
  from find_canonical_wf [OF wf f] have h': "get_block c h' db = Some r'" "is_canonical r'" "br_height r' = br_height r"
    by simp_all
  have "h' = h" by (rule canonical_unique [OF wf h'(1,2) r h'(3)])
  then have "r' = r" using h'(1) r(1) by simp
  with f \<open>h' = h\<close> show ?thesis by simp
qed

lemma canonical_header_at_wf:
  assumes wf: "rows_wf db" and x: "canonical_header_at w n db = Inr (Some x)"
  shows "x \<in> set (canon_headers (chain_id w) db) \<and> height x = n"
proof -
  from x obtain h r where n: "pg_height n = Inr (uint n)" and f: "find_canonical (chain_id w) (uint n) db = Some (h, r)"
    and "header_of_row (h, r) = Inr x"
    by (auto simp: canonical_header_at_def transpose_def pg_height_Inr try_simps split: option.splits sum.splits)
  with find_canonical_wf [OF wf f] header_of_row_wf [OF wf] have "x = row_header h r"
    "get_block (chain_id w) h db = Some r" "is_canonical r" "br_height r = uint n" by auto
  then show ?thesis unfolding set_canon_headers [OF wf] canon_set_def by auto
qed

lemma canonical_header_of_wf:
  assumes wf: "rows_wf db" and x: "canonical_header_of w h db = Inr (Some x)"
  shows "x \<in> set (canon_headers (chain_id w) db)"
proof -
  from x obtain r where r: "get_block (chain_id w) h db = Some r" "is_canonical r" and "header_of_row (h, r) = Inr x"
    by (auto simp: canonical_header_of_def transpose_def split: option.splits sum.splits if_splits)
  with header_of_row_wf [OF wf r(1)] show ?thesis unfolding set_canon_headers [OF wf] canon_set_def by auto
qed

text \<open>The checkpoint of a chain whose checkpoint row is at its last canonical block.\<close>

lemma checkpoint_header_tip:
  assumes wf: "rows_wf db" and cp: "checkpoint_at (chain_id w) (tip_of (canon_headers (chain_id w) db)) db"
  shows "checkpoint_header w db = Inr (tip_of (canon_headers (chain_id w) db))"
proof (cases "canon_headers (chain_id w) db = []")
  case True
  with cp show ?thesis by (simp add: checkpoint_header_def read_checkpoint_def checkpoint_at_def transpose_def)
next
  case False
  let ?x = "last (canon_headers (chain_id w) db)"
  have "?x \<in> canon_set (chain_id w) db" using False set_canon_headers [OF wf] last_in_set by blast
  then obtain r where r: "get_block (chain_id w) (hash ?x) db = Some r" "is_canonical r" "?x = row_header (hash ?x) r"
    unfolding canon_set_iff by blast
  have u: "uint (height ?x) = br_height r"
    using row_height_word [OF wf r(1)] arg_cong [OF r(3), of height] by simp
  from cp False have "hm_get (checkpoint_table db) (chain_id w) = Some (uint (height ?x), hash ?x)"
    by (simp add: checkpoint_at_def tip_of_def)
  then have 1: "read_checkpoint w db = Inr (Some \<lparr>last_height = height ?x, last_hash = hash ?x\<rparr>)"
    by (simp add: read_checkpoint_def transpose_def row_to_checkpoint_def row_height_def ok_or_def)
  have "unat (height ?x) \<le> i64_max" by (rule row_height_fits [OF wf r(1) u [symmetric]])
  then have "canonical_header_at w (height ?x) db = Inr (Some ?x)"
    using find_canonical_hit [OF wf r(1,2)] header_of_row_wf [OF wf r(1)] r(3)
    by (simp add: canonical_header_at_def pg_height_def u transpose_def)
  with 1 False show ?thesis by (simp add: checkpoint_header_def tip_of_def ok_or_def)
qed

section \<open>Commits\<close>

lemma list_all2_carries_reorg:
  "list_all2 (carries blks) (map Rollback rbs @ map Apply aps) ds \<Longrightarrow>
   \<exists>bs. ds = map DRollback rbs @ map DApply bs \<and>
     list_all2 (\<lambda>x b. b \<in> set blks \<and> hash (ib_header b) = hash x) aps bs"
proof (induction rbs arbitrary: ds)
  case Nil
  then show ?case
  proof (induction aps arbitrary: ds)
    case (Cons x aps)
    from Cons.prems obtain d ds' where ds: "ds = d # ds'" and d: "carries blks (Apply x) d"
      and rest: "list_all2 (carries blks) (map Apply aps) ds'" by (auto simp: list_all2_Cons1)
    from d obtain b where "d = DApply b" "b \<in> set blks" "hash (ib_header b) = hash x" by (cases d) auto
    moreover from Cons.IH [of ds'] rest obtain bs where "ds' = map DApply bs"
      "list_all2 (\<lambda>x b. b \<in> set blks \<and> hash (ib_header b) = hash x) aps bs" by auto
    ultimately show ?case using ds by (intro exI [of _ "b # bs"]) simp
  qed simp
next
  case (Cons r rbs)
  from Cons.prems obtain d ds' where ds: "ds = d # ds'" and d: "carries blks (Rollback r) d"
    and rest: "list_all2 (carries blks) (map Rollback rbs @ map Apply aps) ds'" by (auto simp: list_all2_Cons1)
  from d have "d = DRollback r" by (cases d) auto
  with Cons.IH [OF rest] ds show ?case by auto
qed

lemma durable_reorg:
  assumes "from_chain_batch b blks = Inr d" and "events b = map Rollback rbs @ map Apply aps"
    and names: "names_blocks genuine" and "\<forall>x \<in> set aps. genuine x" and "\<forall>x \<in> set blks. genuine (ib_header x)"
  shows "\<exists>bs. db_events d = map DRollback rbs @ map DApply bs \<and> map ib_header bs = aps \<and>
    db_common_ancestor d = common_ancestor b"
proof -
  from from_chain_batch_sound [OF assms(1)] assms(2)
  have "list_all2 (carries blks) (map Rollback rbs @ map Apply aps) (db_events d)"
    and ca: "db_common_ancestor d = common_ancestor b" by simp_all
  from list_all2_carries_reorg [OF this(1)] obtain bs where bs: "db_events d = map DRollback rbs @ map DApply bs"
    and l: "list_all2 (\<lambda>x b. b \<in> set blks \<and> hash (ib_header b) = hash x) aps bs" by blast
  have "map ib_header bs = aps"
    using l assms(4,5) names
    by (induction rule: list_all2_induct) (auto simp: names_blocks_def)
  with bs ca show ?thesis by blast
qed

section \<open>A database that holds one chain\<close>

definition db_ok :: "(block_header \<Rightarrow> bool) \<Rightarrow> u64 \<Rightarrow> database \<Rightarrow> bool" where
  "db_ok genuine c db \<longleftrightarrow> db_inv db \<and> rows_genuine genuine c db \<and> ascends (canon_headers c db) \<and>
     checkpoint_at c (tip_of (canon_headers c db)) db"

lemma db_okD:
  assumes "db_ok genuine c db"
  shows "db_inv db" "rows_wf db" "rows_genuine genuine c db" "ascends (canon_headers c db)"
    "checkpoint_at c (tip_of (canon_headers c db)) db"
  using assms by (simp_all add: db_ok_def db_inv_def)

lemma batch_keeps_ok:
  assumes ok: "db_ok genuine (chain_id w) db" and names: "names_blocks genuine"
    and run: "apply_batch flt w b db = (res, db')"
    and chain: "canon_headers (chain_id w) db = base @ ups"
    and events: "db_events b = map DRollback (rev ups) @ map DApply bs" "db_common_ancestor b = tip_of base"
    and asc: "ascends (base @ map ib_header bs)" and ne: "base @ map ib_header bs \<noteq> []" "db_events b \<noteq> []"
    and gen: "\<forall>x \<in> set bs. genuine (ib_header x)"
  shows "db_ok genuine (chain_id w) db' \<and>
    (canon_headers (chain_id w) db' = canon_headers (chain_id w) db \<or>
     canon_headers (chain_id w) db' = base @ map ib_header bs) \<and>
    (\<forall>rep. res = Inr rep \<longrightarrow> canon_headers (chain_id w) db' = base @ map ib_header bs)"
proof -
  let ?c = "chain_id w"
  obtain wr where inner: "apply_batch_inner flt None w b db = (wr, db')" and res: "\<forall>rep. res = Inr rep \<longrightarrow> wr = Returned (Inr rep)"
    using run by (auto simp: apply_batch_def split: prod.splits write_result.splits)
  note inv' = batch_keeps_inv [OF db_okD(1) [OF ok] inner]
  have heights: "sorted_wrt (\<lambda>x y. height x < height y) (base @ map ib_header bs)"
    using ascending_heights asc by (simp add: ascends_def)
  from batch_outcome [OF db_okD(1) [OF ok] inner chain events heights ne db_okD(3) [OF ok] names gen]
  show ?thesis
  proof (elim disjE conjE)
    assume a: "canon_headers ?c db' = base @ ups" "\<forall>rep. wr \<noteq> Returned (Inr rep)"
      "checkpoint_table db' = checkpoint_table db" "blocks_table db' = blocks_table db"
    then have "rows_genuine genuine ?c db'" "checkpoint_at ?c z db' = checkpoint_at ?c z db" for z
      using db_okD(3) [OF ok] by (simp_all add: rows_genuine_def get_block_def checkpoint_at_def)
    with a inv' db_okD(4,5) [OF ok] res show ?thesis by (auto simp: db_ok_def chain)
  next
    assume "canon_headers ?c db' = base @ map ib_header bs" "checkpoint_at ?c (tip_of (base @ map ib_header bs)) db'"
      "rows_genuine genuine ?c db'"
    with inv' asc show ?thesis by (simp add: db_ok_def)
  qed
qed

lemma committer_keeps_ok:
  assumes ok: "db_ok genuine (chain_id w) db" and names: "names_blocks genuine"
    and f: "fr_headers f = [ib_header b]" "fr_logs f = [b]" and g: "genuine (ib_header b)"
    and asc: "ascends (canon_headers (chain_id w) db @ [ib_header b])"
    and anchor: "anchor = tip_of (canon_headers (chain_id w) db)"
    and run: "committer_commit sh flt f (committer_new w anchor, db) = (r, c', db')"
  shows "db_ok genuine (chain_id w) db' \<and>
    (canon_headers (chain_id w) db' = canon_headers (chain_id w) db \<or>
     canon_headers (chain_id w) db' = canon_headers (chain_id w) db @ [ib_header b]) \<and>
    (\<forall>u. r = Inr u \<longrightarrow> canon_headers (chain_id w) db' = canon_headers (chain_id w) db @ [ib_header b])"
proof -
  let ?batch = "\<lparr>transition = (if anchor \<noteq> None then Gap else Bootstrap), common_ancestor = anchor,
    events = map Apply (fr_headers f)\<rparr>"
  show ?thesis
  proof (cases "from_chain_batch ?batch [b]")
    case (Inl e)
    with run f ok show ?thesis by (auto simp: committer_commit_def committer_new_def Let_def)
  next
    case (Inr d)
    have ev: "events ?batch = map Rollback [] @ map Apply [ib_header b]" using f(1) by simp
    have gs: "\<forall>x \<in> set [ib_header b]. genuine x" "\<forall>x \<in> set [b]. genuine (ib_header x)" using g by simp_all
    from durable_reorg [OF Inr ev names gs] obtain bs where
      D: "db_events d = map DRollback [] @ map DApply bs \<and> map ib_header bs = [ib_header b] \<and>
       db_common_ancestor d = common_ancestor ?batch" ..
    note d = conjunct1 [OF D] conjunct1 [OF conjunct2 [OF D]]
    have ca: "db_common_ancestor d = tip_of (canon_headers (chain_id w) db)" using D by (simp add: anchor)
    obtain ar where ab: "apply_batch flt w d db = (ar, db')" and r: "\<forall>u. r = Inr u \<longrightarrow> (\<exists>rep. ar = Inr rep)"
      using run f Inr by (auto simp: committer_commit_def committer_new_def Let_def split: prod.splits sum.splits)
    have gb: "\<forall>x \<in> set bs. genuine (ib_header x)" "bs \<noteq> []" using d(2) g by auto
    have chain: "canon_headers (chain_id w) db = canon_headers (chain_id w) db @ []"
      "db_events d = map DRollback (rev []) @ map DApply bs" using d(1) by simp_all
    from batch_keeps_ok [OF ok names ab chain ca] asc d gb r show ?thesis by auto
  qed
qed

section \<open>The sink keeps one chain\<close>

definition sink_view :: "pg_sink \<Rightarrow> block_header list" where
  "sink_view k = canon_headers (chain_id (ps_writer k)) (ps_db k)"

definition sink_ok :: "(block_header \<Rightarrow> bool) \<Rightarrow> pg_sink \<Rightarrow> bool" where
  "sink_ok genuine k \<longleftrightarrow> names_blocks genuine \<and> db_ok genuine (chain_id (ps_writer k)) (ps_db k) \<and>
     (\<forall>a. ps_parent_anchor k = Some a \<longrightarrow> genuine a) \<and> (sink_view k = [] \<longrightarrow> ps_parent_anchor k = None)"

text \<open>The sink of a chain that is not empty has a parent anchor.\<close>

definition sink_anchored :: "pg_sink \<Rightarrow> bool" where
  "sink_anchored k \<longleftrightarrow> (sink_view k \<noteq> [] \<longrightarrow> ps_parent_anchor k \<noteq> None)"

lemma anchor_is_tip:
  assumes ok: "sink_ok genuine k" and c: "coordinator_new (height x) (height x) (ps_parent_anchor k) = Inr c"
    and x: "genuine x" "ascends (sink_view k @ [x])" and fol: "follows (ps_parent_anchor k) [x]"
  shows "ps_parent_anchor k = tip_of (sink_view k)"
proof (cases "ps_parent_anchor k")
  case None
  with c have "height x = 0" by (auto simp: coordinator_new_def try_simps word_gt_0 split: if_splits)
  then have "\<not> links x (last (sink_view k))" by (simp add: links_def)
  with x(2) None show ?thesis by (auto simp: ascends_append tip_of_def)
next
  case (Some a)
  with ok have v: "sink_view k \<noteq> []" and a: "genuine a" by (auto simp: sink_ok_def)
  have "links x a" "links x (last (sink_view k))"
    using fol x(2) Some v by (auto simp: follows_def ascends_Cons ascends_append)
  then have "hash a = hash (last (sink_view k))" by (simp add: links_def)
  moreover have "genuine (last (sink_view k))"
  proof -
    have wf: "rows_wf (ps_db k)" "rows_genuine genuine (chain_id (ps_writer k)) (ps_db k)"
      using ok db_okD by (auto simp: sink_ok_def)
    have "last (sink_view k) \<in> canon_set (chain_id (ps_writer k)) (ps_db k)"
      using v set_canon_headers [OF wf(1)] last_in_set unfolding sink_view_def by blast
    with wf(2) show ?thesis by (auto simp: canon_set_def rows_genuine_def)
  qed
  ultimately have "a = last (sink_view k)"
    using ok a by (auto simp: sink_ok_def names_blocks_def)
  with v Some show ?thesis by (simp add: tip_of_def)
qed

lemma commit_one_block_outcome:
  assumes ok: "sink_ok genuine k" and g: "genuine (ib_header b)" and asc: "ascends (sink_view k @ [ib_header b])"
    and run: "commit_one_block sh flt (ps_writer k) (ps_parent_anchor k) b (ps_db k) = (r, db')"
  shows "db_ok genuine (chain_id (ps_writer k)) db' \<and>
    (canon_headers (chain_id (ps_writer k)) db' = sink_view k \<or>
     canon_headers (chain_id (ps_writer k)) db' = sink_view k @ [ib_header b]) \<and>
    (\<forall>u. r = Inr u \<longrightarrow> canon_headers (chain_id (ps_writer k)) db' = sink_view k @ [ib_header b])"
proof -
  let ?x = "ib_header b" and ?w = "ps_writer k" and ?a = "ps_parent_anchor k"
  have db: "db_ok genuine (chain_id ?w) (ps_db k)" and names: "names_blocks genuine"
    using ok by (auto simp: sink_ok_def)
  have stay: ?thesis if "db' = ps_db k" "\<forall>u. r \<noteq> Inr u" using that db by (auto simp: sink_view_def)
  show ?thesis
  proof (cases "tryR (range_new (height ?x) (height ?x)) (\<lambda>r. fetched_new r [?x] [b])")
    case (Inl e)
    with run show ?thesis by (intro stay) (auto simp: commit_one_block_def Let_def)
  next
    case f: (Inr f)
    from fetched_single [OF f] have f': "fetched_ok f" "from_block (fr_range f) = height ?x"
      "fr_headers f = [?x]" "fr_logs f = [b]" by auto
    show ?thesis
    proof (cases "coordinator_new (height ?x) (height ?x) ?a :: backfill_error + indexed_block coordinator")
      case (Inl e)
      with run f show ?thesis by (intro stay) (auto simp: commit_one_block_def Let_def)
    next
      case c: (Inr c)
      let ?v = "case ?a of None \<Rightarrow> [] | Some a \<Rightarrow> [a]"
      have v: "?a = tip_of ?v" by (cases ?a) simp_all
      obtain res c' cm db1 where pu: "push (committer_commit sh flt) f c (committer_new ?w ?a, ps_db k) = (res, c', cm, db1)"
        by (metis prod_cases4)
      from run f c pu have db': "db' = db1" and r: "\<forall>u. r = Inr u \<longrightarrow> (\<exists>v. res = Inr v)"
        by (auto simp: commit_one_block_def Let_def split: sum.splits)
      from push_single [OF new_coordinator_ready [OF c v] f'(1,2) pu] show ?thesis
      proof (elim disjE exE conjE)
        fix e assume "(cm, db1) = (committer_new ?w ?a, ps_db k)" "res = Inl e"
        with db' r show ?thesis by (intro stay) auto
      next
        fix cr assume com: "committer_commit sh flt f (committer_new ?w ?a, ps_db k) = (cr, cm, db1)"
          and fol: "follows (tip_of ?v) (fr_headers f)" and err: "\<forall>e. cr = Inl e \<longrightarrow> res = Inl e"
        have "?a = tip_of (canon_headers (chain_id ?w) (ps_db k))"
          using anchor_is_tip [OF ok c g asc] fol v f'(3) by (simp add: sink_view_def)
        from committer_keeps_ok [OF db names f'(3,4) g asc [unfolded sink_view_def] this com]
        have "db_ok genuine (chain_id ?w) db1" "canon_headers (chain_id ?w) db1 = sink_view k \<or>
            canon_headers (chain_id ?w) db1 = sink_view k @ [?x]"
          "\<forall>u. cr = Inr u \<longrightarrow> canon_headers (chain_id ?w) db1 = sink_view k @ [?x]" by (simp_all add: sink_view_def)
        moreover have "\<exists>u. cr = Inr u" if "r = Inr u" for u using that r err by (cases cr) auto
        ultimately show ?thesis by (auto simp: db')
      qed
    qed
  qed
qed

lemma pg_commit_range_keeps:
  assumes ok: "sink_ok genuine k" and len: "length (fr_headers f) = 1"
    and asc: "ascends (sink_view k @ fr_headers f)" and logs: "map ib_header (fr_logs f) = fr_headers f"
    and g: "\<forall>x \<in> set (fr_headers f). genuine x" and run: "pg_commit_range D f k = (r, k')"
  shows "sink_ok genuine k' \<and> (sink_view k' = sink_view k \<or> sink_view k' = sink_view k @ fr_headers f) \<and>
    (\<forall>u. r = Inr u \<longrightarrow> sink_view k' = sink_view k @ fr_headers f)"
proof -
  obtain x where x: "fr_headers f = [x]" using len by (auto simp: length_Suc_conv)
  with logs obtain b where b: "fr_logs f = [b]" "ib_header b = x" by (auto simp: map_eq_Cons_conv)
  obtain cr db' where com: "commit_one_block (show_pg D) (ps_faults k (ps_transactions k)) (ps_writer k)
      (ps_parent_anchor k) b (ps_db k) = (cr, db')" by fastforce
  have gx: "genuine (ib_header b)" and ax: "ascends (sink_view k @ [ib_header b])" using g asc x b by simp_all
  note out = commit_one_block_outcome [OF ok gx ax com]
  have "ps_db k' = db' \<and> ps_writer k' = ps_writer k \<and>
      (ps_parent_anchor k' = ps_parent_anchor k \<or> ps_parent_anchor k' = Some x) \<and>
      (\<forall>u. r = Inr u \<longrightarrow> (\<exists>u. cr = Inr u))"
    using run x b com by (auto simp: pg_commit_range_def Let_def next_transaction_def split: if_splits sum.splits)
  moreover have "ps_parent_anchor k' = Some x \<Longrightarrow> ps_parent_anchor k \<noteq> Some x \<Longrightarrow> sink_view k' = sink_view k @ [x]"
    using run x b com out
    by (auto simp: pg_commit_range_def Let_def next_transaction_def sink_view_def split: if_splits sum.splits)
  ultimately show ?thesis
    using out ok gx b x by (auto simp: sink_ok_def sink_view_def)
qed

lemma pg_genesis_refused:
  assumes ok: "sink_ok genuine k" "sink_anchored k" "sink_view k \<noteq> []"
    and f: "fetched_ok f" "from_block (fr_range f) = 0" "length (fr_headers f) = 1" "map ib_header (fr_logs f) = fr_headers f"
    and run: "pg_commit_range D f k = (r, k')"
  shows "sink_ok genuine k' \<and> sink_view k' = sink_view k \<and> (\<exists>e. r = Inl e)"
proof -
  obtain x where x: "fr_headers f = [x]" using f(3) by (auto simp: length_Suc_conv)
  with f(4) obtain b where b: "fr_logs f = [b]" "ib_header b = x" by (auto simp: map_eq_Cons_conv)
  have "height x = 0" using fetched_okD(2) [OF f(1)] x f(2) by simp
  moreover obtain a where "ps_parent_anchor k = Some a" using ok by (auto simp: sink_anchored_def)
  ultimately have "\<exists>e. commit_one_block sh flt (ps_writer k) (ps_parent_anchor k) b (ps_db k) = (Inl e, ps_db k)" for sh flt
    using b(2) by (auto simp: commit_one_block_def Let_def coordinator_new_def split: sum.split)
  then obtain e where "commit_one_block (show_pg D) (ps_faults k (ps_transactions k)) (ps_writer k) (ps_parent_anchor k) b (ps_db k) =
      (Inl e, ps_db k)" by blast
  with run x b have "(\<exists>e. r = Inl e) \<and> k' = next_transaction (ps_db k) k"
    by (auto simp: pg_commit_range_def Let_def split: if_splits)
  with ok(1) show ?thesis by (auto simp: sink_ok_def sink_view_def next_transaction_def)
qed

lemma read_or_none_keeps:
  assumes "read_or_none q k = (x, k')"
  shows "sink_view k' = sink_view k" "sink_ok genuine k' = sink_ok genuine k" "sink_anchored k' = sink_anchored k"
    "x = None \<or> q (ps_db k) = Inr x"
  using assms by (auto simp: read_or_none_def sink_view_def sink_ok_def sink_anchored_def split: sum.splits)

lemma checkpoint_header_view:
  "db_ok genuine (chain_id (ps_writer k)) (ps_db k) \<Longrightarrow> checkpoint_header (ps_writer k) (ps_db k) = Inr (tip_of (sink_view k))"
  using checkpoint_header_tip [of "ps_db k" "ps_writer k"] db_okD [of genuine "chain_id (ps_writer k)" "ps_db k"]
  by (simp add: sink_view_def)

lemma pg_checkpoint_tip:
  assumes "sink_ok genuine k" and "pg_checkpoint_of k = (c, k')"
  shows "sink_ok genuine k' \<and> sink_view k' = sink_view k \<and> (sink_anchored k \<longrightarrow> sink_anchored k') \<and>
    (c = None \<or> c = tip_of (sink_view k))"
  using assms read_or_none_keeps [of "checkpoint_header (ps_writer k)" k c k'] checkpoint_header_view [of genuine k]
  by (auto simp: pg_checkpoint_of_def sink_ok_def)

text \<open>A new parent anchor: what was read of the checkpoint.\<close>

lemma sink_ok_anchor:
  assumes "sink_ok genuine k" and "c = None \<or> c = tip_of (sink_view k)" and "\<forall>x \<in> set (sink_view k). genuine x"
  shows "sink_ok genuine (k\<lparr>ps_parent_anchor := c\<rparr>)" "sink_view (k\<lparr>ps_parent_anchor := c\<rparr>) = sink_view k"
  using assms by (auto simp: sink_ok_def sink_view_def tip_of_def split: if_splits)

lemma sink_view_genuine:
  assumes "sink_ok genuine k" and "x \<in> set (sink_view k)"
  shows "genuine x \<and> height x \<noteq> - 1"
proof -
  have wf: "rows_wf (ps_db k)" and rg: "rows_genuine genuine (chain_id (ps_writer k)) (ps_db k)"
    using assms(1) db_okD by (auto simp: sink_ok_def)
  from assms(2) obtain r where r: "get_block (chain_id (ps_writer k)) (hash x) (ps_db k) = Some r"
    "x = row_header (hash x) r" unfolding sink_view_def set_canon_headers [OF wf] canon_set_iff by blast
  have u: "br_height r = uint (height x)"
    using row_height_word [OF wf r(1)] arg_cong [OF r(2), of height] by simp
  have "unat (height x) \<le> i64_max" by (rule row_height_fits [OF wf r(1) u])
  then have "height x \<noteq> - 1" by (auto simp: i64_max_def unat_max_word)
  moreover have "genuine x" using rg r by (metis rows_genuine_def)
  ultimately show ?thesis by simp
qed

lemma pg_commit_batch_keeps:
  assumes ok: "sink_ok genuine k" and v: "sink_view k = low @ a # ups"
    and ev: "events b = map Rollback (rev ups) @ map Apply aps" "events b \<noteq> []" "common_ancestor b = Some a"
    and asc: "ascends (a # aps)" and g: "\<forall>x \<in> set aps. genuine x" and bs: "map ib_header bs = aps"
    and run: "pg_commit_batch D b bs k = (r, k')"
  shows "sink_ok genuine k' \<and> (sink_view k' = sink_view k \<or> sink_view k' = low @ a # aps) \<and>
    (\<forall>u. r = Inr u \<longrightarrow> sink_view k' = low @ a # aps)"
proof (cases "from_chain_batch b bs")
  case (Inl e)
  with run ok show ?thesis by (auto simp: pg_commit_batch_def)
next
  case (Inr d)
  let ?c = "chain_id (ps_writer k)"
  have names: "names_blocks genuine" and db: "db_ok genuine ?c (ps_db k)" using ok by (auto simp: sink_ok_def)
  have gs: "\<forall>x \<in> set bs. genuine (ib_header x)" using g bs by auto
  from durable_reorg [OF Inr ev(1) names g gs] obtain ds where
    D: "db_events d = map DRollback (rev ups) @ map DApply ds \<and> map ib_header ds = aps \<and>
      db_common_ancestor d = common_ancestor b" ..
  note d = conjunct1 [OF D] conjunct1 [OF conjunct2 [OF D]]
  have ca: "db_common_ancestor d = tip_of (low @ [a])" using D ev(3) by simp
  obtain ar db' where ab: "apply_batch (ps_faults k (ps_transactions k)) (ps_writer k) d (ps_db k) = (ar, db')" by fastforce
  have chain: "canon_headers ?c (ps_db k) = (low @ [a]) @ ups" using v by (simp add: sink_view_def)
  have "ascends (low @ a # ups)" using db_okD(4) [OF db] chain by simp
  then have asc2: "ascends ((low @ [a]) @ map ib_header ds)" using ascends_replace asc d(2) by simp
  have ne: "db_events d \<noteq> []" using d ev(1,2) by auto
  have gd: "\<forall>x \<in> set ds. genuine (ib_header x)" using d(2) g by auto
  from batch_keeps_ok [OF db names ab chain d(1) ca asc2 _ ne gd] d(2)
  have out: "db_ok genuine ?c db'" "canon_headers ?c db' = sink_view k \<or> canon_headers ?c db' = low @ a # aps"
    "\<forall>rep. ar = Inr rep \<longrightarrow> canon_headers ?c db' = low @ a # aps" by (simp_all add: sink_view_def)
  let ?n = "next_transaction db' k"
  have view: "sink_view ?n = canon_headers ?c db'" by (simp add: sink_view_def next_transaction_def)
  have "sink_view ?n \<noteq> []" using out(2) v view by auto
  then have n: "sink_ok genuine ?n" using ok out(1) by (auto simp: sink_ok_def next_transaction_def)
  obtain c k1 where c: "pg_checkpoint_of ?n = (c, k1)" by (rule prod.exhaust)
  note t = pg_checkpoint_tip [OF n c]
  have "\<forall>x \<in> set (sink_view k1). genuine x" using sink_view_genuine t by blast
  with sink_ok_anchor [of genuine k1 c] t have
    "sink_ok genuine (k1\<lparr>ps_parent_anchor := c\<rparr>)" "sink_view (k1\<lparr>ps_parent_anchor := c\<rparr>) = sink_view ?n" by auto
  with run Inr ab c n view out show ?thesis
    by (cases ar) (auto simp: pg_commit_batch_def)
qed

lemma pg_commit_nothing:
  assumes ok: "sink_ok genuine k" and none: "events b = []" and run: "pg_commit_batch D b bs k = (r, k')"
  shows "sink_ok genuine k' \<and> sink_view k' = sink_view k"
proof (cases "from_chain_batch b bs")
  case (Inl e)
  with run ok show ?thesis by (auto simp: pg_commit_batch_def)
next
  case (Inr d)
  let ?n = "next_transaction (ps_db k) k"
  from from_chain_batch_sound [OF Inr] none have "db_events d = []" by simp
  then have "apply_batch flt w d db = (Inr apply_report_default, db)" for flt w db
    by (simp add: apply_batch_def apply_batch_inner_def durable_is_empty_def)
  moreover obtain c k1 where c: "pg_checkpoint_of ?n = (c, k1)" by (rule prod.exhaust)
  ultimately have k': "k' = k1\<lparr>ps_parent_anchor := c\<rparr>"
    using run Inr by (simp add: pg_commit_batch_def)
  have "sink_ok genuine ?n" and view: "sink_view ?n = sink_view k"
    using ok by (simp_all add: sink_ok_def sink_view_def next_transaction_def)
  note t = pg_checkpoint_tip [OF this(1) c]
  have "\<forall>x \<in> set (sink_view k1). genuine x" using sink_view_genuine t by blast
  with sink_ok_anchor [of genuine k1 c] t view show ?thesis by (simp add: k')
qed

text \<open>A read that finds a header finds a canonical one.\<close>

lemma pg_reads_canonical:
  assumes "sink_ok genuine k"
  shows "read_or_none (store_header_at_height (ps_writer k) n) k = (x, k') \<Longrightarrow>
      sink_ok genuine k' \<and> sink_view k' = sink_view k \<and> (\<forall>y. x = Some y \<longrightarrow> y \<in> set (sink_view k))"
    and "read_or_none (store_header_by_hash (ps_writer k) h) k = (x, k') \<Longrightarrow>
      sink_ok genuine k' \<and> sink_view k' = sink_view k \<and> (\<forall>y. x = Some y \<longrightarrow> y \<in> set (sink_view k))"
proof -
  have wf: "rows_wf (ps_db k)" using assms db_okD by (auto simp: sink_ok_def)
  show "read_or_none (store_header_at_height (ps_writer k) n) k = (x, k') \<Longrightarrow>
      sink_ok genuine k' \<and> sink_view k' = sink_view k \<and> (\<forall>y. x = Some y \<longrightarrow> y \<in> set (sink_view k))"
    using read_or_none_keeps [of _ k x k'] assms canonical_header_at_wf [OF wf, of "ps_writer k" n]
    by (fastforce simp: store_header_at_height_def sink_view_def map_err_Inr)
  show "read_or_none (store_header_by_hash (ps_writer k) h) k = (x, k') \<Longrightarrow>
      sink_ok genuine k' \<and> sink_view k' = sink_view k \<and> (\<forall>y. x = Some y \<longrightarrow> y \<in> set (sink_view k))"
    using read_or_none_keeps [of _ k x k'] assms canonical_header_of_wf [OF wf, of "ps_writer k" h]
    by (fastforce simp: store_header_by_hash_def sink_view_def map_err_Inr)
qed

interpretation pg_store: chain_store "pg_live_sink D" ib_header genuine "sink_ok genuine" sink_anchored sink_view
  for D genuine
proof
  fix k
  assume ok: "sink_ok genuine k"
  show "names_blocks genuine" using ok by (simp add: sink_ok_def)
  show "ascends (sink_view k) \<and> (\<forall>x \<in> set (sink_view k). genuine x \<and> height x \<noteq> - 1)"
    using sink_view_genuine [OF ok] ok db_okD(4) by (auto simp: sink_ok_def sink_view_def)
  show "checkpoint (pg_live_sink D) k = (c, k') \<Longrightarrow> sink_ok genuine k' \<and> sink_view k' = sink_view k \<and>
      (sink_anchored k \<longrightarrow> sink_anchored k') \<and> (c = None \<or> c = tip_of (sink_view k))" for c k'
    using pg_checkpoint_tip [OF ok] by (simp add: pg_live_sink_def)
  show "sink_header_at_height (pg_live_sink D) n k = (x, k') \<Longrightarrow>
      sink_ok genuine k' \<and> sink_view k' = sink_view k \<and> (\<forall>y. x = Some y \<longrightarrow> y \<in> set (sink_view k))" for n x k'
    using pg_reads_canonical(1) [OF ok] by (simp add: pg_live_sink_def)
  show "sink_header_by_hash (pg_live_sink D) h k = (x, k') \<Longrightarrow>
      sink_ok genuine k' \<and> sink_view k' = sink_view k \<and> (\<forall>y. x = Some y \<longrightarrow> y \<in> set (sink_view k))" for h x k'
    using pg_reads_canonical(2) [OF ok] by (simp add: pg_live_sink_def)
  show "sink_anchored k \<Longrightarrow> sink_view k \<noteq> [] \<Longrightarrow> fetched_ok f \<Longrightarrow> from_block (fr_range f) = 0 \<Longrightarrow> length (fr_headers f) = 1 \<Longrightarrow>
      map ib_header (fr_logs f) = fr_headers f \<Longrightarrow> sink_commit_range (pg_live_sink D) f k = (r, k') \<Longrightarrow>
      sink_ok genuine k' \<and> sink_view k' = sink_view k \<and> (\<exists>e. r = Inl e)" for f r k'
    using pg_genesis_refused [OF ok] by (simp add: pg_live_sink_def)
qed (auto simp: pg_live_sink_def dest: pg_commit_range_keeps pg_commit_batch_keeps pg_commit_nothing)

section \<open>The live tracker on the sink\<close>

text \<open>
  C16: A pass of the live tracker over PostgreSQL never damages the persisted chain.  Let the sink start
  as the command makes it, with the checkpoint as its parent anchor.  Whatever the source answers (its
  headers only have to be named by their hashes), whichever reads of the database fail, whatever
  connection, commit answer or shutdown interrupts a transaction, and wherever the pass stops: the database
  stays consistent, its canonical headers stay one linked chain with the checkpoint at its tip, and they
  got there only by appending linked blocks and by replacing at most \<open>max_reorg_depth\<close> blocks above the
  finalized height.  In particular a pass that takes a failed read of the checkpoint for an empty
  database, and starts again from block 0, writes nothing.
\<close>
theorem live_pass_keeps_one_chain:
  assumes "sink_ok genuine k" and "ps_parent_anchor k = tip_of (sink_view k)"
    and "source_genuine genuine S" and "block_header_of S = ib_header"
    and "run_with_cancellation cfg S (pg_live_sink D) evs cancelled s k = (r, s', k')"
  shows "sink_ok genuine k' \<and> evolves cfg (sink_view k) (sink_view k')"
proof -
  have "sink_anchored k" using assms(2) by (simp add: sink_anchored_def tip_of_def)
  from pg_store.pass_evolves [OF assms(1) this assms(3-5)] show ?thesis .
qed

definition sample_source :: "(indexed_block, unit, nat) live_source" where
  "sample_source =
     \<lparr>current_head = (\<lambda>s. (Inr pg_c, s + 1)), block_by_number = (\<lambda>_ s. (Inr sample_block, s + 1)),
      block_by_hash = (\<lambda>_ s. (Inr sample_block, s + 1)), header_by_number = (\<lambda>_ s. (Inr None, s)),
      source_header_by_hash = (\<lambda>h s. (Inr (if h = hash pg_a then Some pg_a else None), s)),
      block_header_of = ib_header, block_logs_match_header = (\<lambda>_. True),
      source_error_kind = (\<lambda>_. TransientError), source_error_string = (\<lambda>_. ''''),
      verify_recent = (\<lambda>_ _ s. (Inr VerifierUnavailable, s))\<rparr>"

definition sample_sink :: pg_sink where
  "sample_sink = \<lparr>ps_writer = sample_writer, ps_db = sample_db, ps_parent_anchor = Some pg_b,
     ps_faults = (\<lambda>_. clean), ps_shutdown = (\<lambda>_. False), ps_transactions = 0, ps_read_lost = (\<lambda>_. False),
     ps_reads = 0\<rparr>"

definition sample_display :: display where
  "sample_display = \<lparr>show_pg = (\<lambda>_. ''database''), show_store = (\<lambda>_. ''store'')\<rparr>"

definition sample_live_config :: live_config where
  "sample_live_config = \<lparr>lc_max_reorg_depth = 8, live_budget_cost_units_per_minute = 1200,
     poll_interval = 0, explicit_start = None, lc_finalized_height = Some 10, budget_window = 60,
     lc_retry_policy = \<lparr>max_attempts = 1, base_delay = 1, max_delay = 1, jitter = 0\<rparr>\<rparr>"

lemma sample_sink_ok: "sink_ok (\<lambda>x. x \<in> {pg_a, pg_b, pg_c}) sample_sink"
proof -
  have "checkpoint_at 1 (Some pg_b) sample_db"
    by (simp add: checkpoint_at_def sample_db_def hm_get_def sample_headers)
  moreover have "ascends [pg_a, pg_b]" by (simp add: ascends_def links_def sample_headers)
  ultimately have "db_ok (\<lambda>x. x \<in> {pg_a, pg_b, pg_c}) 1 sample_db"
    using sample_db_inv sample_genuine by (simp add: db_ok_def sample_canon)
  then show ?thesis
    using sample_genuine(1) by (simp add: sink_ok_def sample_sink_def sample_events sink_view_def sample_canon)
qed

lemma sample_source_genuine: "source_genuine (\<lambda>x. x \<in> {pg_a, pg_b, pg_c}) sample_source"
  by (auto simp: source_genuine_def sample_source_def sample_events split: if_splits)

text \<open>The second read of the checkpoint fails, so the pass starts again from block 0.\<close>

theorem live_pass_keeps_one_chain_witness:
  "\<exists>r s' k'. run_with_cancellation (sample_live_config\<lparr>explicit_start := Some 0\<rparr>) sample_source (pg_live_sink sample_display) []
       (\<lambda>_. False) 0 (sample_sink\<lparr>ps_read_lost := (\<lambda>n. n = 1)\<rparr>) = (r, s', k') \<and>
     sink_ok (\<lambda>x. x \<in> {pg_a, pg_b, pg_c}) k' \<and> evolves (sample_live_config\<lparr>explicit_start := Some 0\<rparr>) [pg_a, pg_b] (sink_view k')"
proof -
  let ?k = "sample_sink\<lparr>ps_read_lost := (\<lambda>n. n = 1)\<rparr>" and ?cfg = "sample_live_config\<lparr>explicit_start := Some 0\<rparr>"
  have v: "sink_view ?k = [pg_a, pg_b]"
    by (simp add: sink_view_def sample_sink_def sample_events sample_canon)
  have ok: "sink_ok (\<lambda>x. x \<in> {pg_a, pg_b, pg_c}) ?k"
    using sample_sink_ok by (simp add: sink_ok_def sink_view_def)
  have h: "block_header_of sample_source = ib_header" by (simp add: sample_source_def)
  have a: "ps_parent_anchor ?k = tip_of (sink_view ?k)" unfolding v by (simp add: sample_sink_def tip_of_def)
  obtain r s' k' where run: "run_with_cancellation ?cfg sample_source (pg_live_sink sample_display) []
       (\<lambda>_. False) 0 ?k = (r, s', k')" by (metis prod_cases3)
  from live_pass_keeps_one_chain [OF ok a sample_source_genuine h run] run v show ?thesis by auto
qed

lemma coordinator_without_anchor: "coordinator_new n h None = Inr c \<Longrightarrow> n = 0"
  by (auto simp: coordinator_new_def word_gt_0 split: if_splits)

text \<open>
  A live start without a checkpoint succeeds only from block 0.  Whatever source and sink: if
  there is no checkpoint and the configuration names a start block, a pass that returns a report
  was given the start block 0, because the coordinator refuses any other start without an anchor.
\<close>
theorem explicit_start_needs_checkpoint:
  fixes K :: "('b, 'k) live_sink" and s :: 's
  assumes "run_with_cancellation cfg S K evs cancelled s k = (Inr rep, s', k')"
    and "\<And>k. fst (checkpoint K k) = None" and "explicit_start cfg = Some n"
  shows "n = 0"
proof -
  have none: "look (checkpoint K) p = (None, p\<lparr>snk := snd (checkpoint K (snk p))\<rparr>)" for p :: "('s, 'k) pass"
    using assms(2) by (simp add: look_def case_prod_beta)
  from assms(1,3) obtain head p p' where "finish K (catch_up_from_start cfg S K cancelled head p) = (Inr rep, p')"
    by (auto simp: run_with_cancellation_def Let_def try_simps none split: if_splits sum.splits prod.splits)
  then have "\<exists>p1. catch_up_from_start cfg S K cancelled head p = (Inr (), p1)"
    by (auto simp: finish_def try_simps)
  with assms(3) show ?thesis
    by (auto simp: catch_up_from_start_def Let_def dest: coordinator_without_anchor split: sum.splits)
qed

definition empty_live_sink :: "(unit, nat) live_sink" where
  "empty_live_sink = \<lparr>sink_commit_range = (\<lambda>_ k. (Inr (), k)), sink_commit_batch = (\<lambda>_ _ k. (Inr (), k)),
     checkpoint = (\<lambda>k. (None, k)), sink_header_at_height = (\<lambda>_ k. (None, k)), sink_header_by_hash = (\<lambda>_ k. (None, k))\<rparr>"

definition genesis_source :: "(unit, unit, nat) live_source" where
  "genesis_source =
     \<lparr>current_head = (\<lambda>s. (Inr (BlockHeader (fill 1) (fill 0) 0), s)), block_by_number = (\<lambda>_ s. (Inr (), s)),
      block_by_hash = (\<lambda>_ s. (Inr (), s)), header_by_number = (\<lambda>_ s. (Inr None, s)),
      source_header_by_hash = (\<lambda>_ s. (Inr None, s)),
      block_header_of = (\<lambda>_. BlockHeader (fill 1) (fill 0) 0), block_logs_match_header = (\<lambda>_. True),
      source_error_kind = (\<lambda>_. TransientError), source_error_string = (\<lambda>_. ''''),
      verify_recent = (\<lambda>_ _ s. (Inr VerifierUnavailable, s))\<rparr>"

lemma genesis_run:
  "\<exists>rep s' k'. run_with_cancellation (sample_live_config\<lparr>explicit_start := Some 0\<rparr>) genesis_source empty_live_sink []
     (\<lambda>_. False) 0 0 = (Inr rep, s', k')"
proof -
  let ?x = "BlockHeader (fill 1) (fill 0) 0"
  have f: "tryR (range_new 0 0) (\<lambda>r. fetched_new r [?x] [()]) =
      Inr \<lparr>fr_range = \<lparr>from_block = 0, to_block = 0\<rparr>, fr_headers = [?x], fr_logs = [()]\<rparr>"
    by (simp add: range_new_def fetched_new_def validate_headers_def range_len_def sat_sub_def sat_add_def Let_def)
  let ?f = "\<lparr>fr_range = \<lparr>from_block = 0, to_block = 0\<rparr>, fr_headers = [?x], fr_logs = [()]\<rparr>"
  let ?c = "\<lparr>next_height = 0, target_height = 0, parent_anchor = None, pending = bt_new\<rparr>"
  have "drain_loop (\<lambda>_ k. (Inr (), k)) (note_commit ?f ?x p) (advance ?x ?c) k =
      (Inr (note_commit ?f ?x p), advance ?x ?c, k)" for p and k :: nat
    by (rule drain_none) (simp add: advance_def)
  then have "drain_loop (\<lambda>_ k. (Inr (), k)) p (?c\<lparr>pending := bt_insert 0 ?f bt_new\<rparr>) k =
      (Inr (note_commit ?f ?x p), advance ?x ?c, k)" for p and k :: nat
    by (subst drain_loop.simps) (simp add: validate_ready_range_def ok_or_def)
  then have pu: "push (\<lambda>_ k. (Inr (), k)) ?f ?c k = (Inr (note_commit ?f ?x progress_default), advance ?x ?c, k)" for k :: nat
    by (simp add: push_def insert_pending_def drain_ready_def Let_def)
  show ?thesis
    by (simp add: run_with_cancellation_def window_budget_new_def budget_new_def sample_live_config_def Let_def
        record_call_def window_record_def budget_record_def sat_add_def genesis_source_def ask_def note_verifier_def
        empty_live_sink_def look_def finish_def catch_up_from_start_def coordinator_new_def heights_def
        with_coord_def ensure_not_cancelled_def fetch_and_push_height_def validate_or_refetch_number_def
        push_block_def f pu)
qed

text \<open>The start block 0 does work: the pass commits the genesis block and reports.\<close>

theorem explicit_start_needs_checkpoint_witness:
  "\<exists>rep s' k'. run_with_cancellation (sample_live_config\<lparr>explicit_start := Some 0\<rparr>) genesis_source empty_live_sink []
     (\<lambda>_. False) 0 0 = (Inr rep, s', k') \<and> (0 :: u64) = 0"
proof -
  from genesis_run obtain rep s' k' where run: "run_with_cancellation (sample_live_config\<lparr>explicit_start := Some 0\<rparr>)
     genesis_source empty_live_sink [] (\<lambda>_. False) 0 0 = (Inr rep, s', k')" by blast
  from explicit_start_needs_checkpoint [OF this, of 0] have "(0 :: u64) = 0" by (simp add: empty_live_sink_def)
  with run show ?thesis by blast
qed

text \<open>
  The live budget of a pass never stops it.  Whatever calls are recorded, every one is let
  through, and at most one exhaustion is reported, after which calls are no longer counted.
\<close>
theorem window_budget_only_reports:
  "fst (window_record m wr) = Inr () \<and>
   length (manual_clock_advances (snd (fold (\<lambda>m wr. snd (window_record m wr)) ms wr))) \<le>
     length (manual_clock_advances (snd wr)) + (if exhausted_once (fst wr) then 0 else 1)"
proof -
  have "fst (window_record m wr) = Inr ()" for m wr
  proof (cases wr)
    case (Pair w rep)
    have "fst (budget_record m (default_cost m) \<lparr>max_requests = - 1, max_cost_units = - 1, requests = 0, cost_units = 0\<rparr>) = Inr ()"
      by (cases m) (simp_all add: budget_record_def sat_add_def Let_def)
    then show ?thesis using Pair
      by (auto simp: window_record_def Let_def budget_new_def split: prod.splits sum.splits)
  qed
  moreover have "length (manual_clock_advances (snd (fold (\<lambda>m wr. snd (window_record m wr)) ms wr))) \<le>
     length (manual_clock_advances (snd wr)) + (if exhausted_once (fst wr) then 0 else 1)"
  proof (induction ms arbitrary: wr)
    case (Cons m ms)
    obtain w rep where wr: "wr = (w, rep)" by (cases wr)
    have adv: "manual_clock_advances (report_transition r rep) = manual_clock_advances rep" for r rep
      by (simp add: report_transition_def)
    have "length (manual_clock_advances (snd (snd (window_record m wr)))) +
        (if exhausted_once (fst (snd (window_record m wr))) then 0 else 1) \<le>
      length (manual_clock_advances (snd wr)) + (if exhausted_once (fst wr) then 0 else 1)"
      unfolding wr
      by (auto simp: window_record_def Let_def adv split: prod.splits sum.splits)
    with Cons.IH [of "snd (window_record m wr)"] show ?case by simp
  qed simp
  ultimately show ?thesis by blast
qed

end
