(* ===== verification/Reconcile.thy ===== *)
theory Reconcile
  imports Live_Store
begin

text \<open>
  Startup reconciliation of \<open>chainweave-sink/src/postgres.rs\<close>: \<open>reconcile_to_head\<close> compares the
  persisted chain with a source from the checkpoint downwards, and commits one batch that replaces
  what differs by the blocks of the source.

  The source is a record of its two methods over a state of its own; the reads of the database may
  each lose the connection, as the function \<open>lost\<close> of the number of the read says.
\<close>

section \<open>The source\<close>

datatype reconciliation_error =
    MissingSourceHeight u64
  | MissingPersistedCheckpointBlock u64
  | MaxDepthExceeded u64
  | BrokenSourceLink u64
  | RState pg_error
  | RSource string

record 's reconciliation_source =
  rs_head :: "'s \<Rightarrow> (reconciliation_error + indexed_block) \<times> 's"
  rs_block_by_height :: "u64 \<Rightarrow> 's \<Rightarrow> (reconciliation_error + indexed_block option) \<times> 's"

record reconciliation_summary =
  rolled_back :: nat
  newly_applied :: nat
  rec_checkpoint :: "pg_checkpoint option"

definition summary_default :: reconciliation_summary where
  "summary_default = \<lparr>rolled_back = 0, newly_applied = 0, rec_checkpoint = None\<rparr>"

text \<open>What a run carries along: the state of the source and the number of reads of the database made.\<close>

type_synonym 's recon = "'s \<times> nat"

definition pg_read ::
    "(nat \<Rightarrow> bool) \<Rightarrow> (database \<Rightarrow> pg_error + 'a) \<Rightarrow> database \<Rightarrow> 's recon \<Rightarrow> (reconciliation_error + 'a) \<times> 's recon" where
  "pg_read lost q db sn =
     (if lost (snd sn) then (Inl (RState (Database ConnectionLost)), (fst sn, Suc (snd sn)))
      else (map_err RState (q db), (fst sn, Suc (snd sn))))"

definition ask_head :: "'s reconciliation_source \<Rightarrow> 's recon \<Rightarrow> (reconciliation_error + indexed_block) \<times> 's recon" where
  "ask_head S sn = (case rs_head S (fst sn) of (r, s) \<Rightarrow> (r, (s, snd sn)))"

text \<open>\<open>source.block_by_height(height).await?.ok_or(MissingSourceHeight(height))?\<close>.\<close>

definition ask_block ::
    "'s reconciliation_source \<Rightarrow> u64 \<Rightarrow> 's recon \<Rightarrow> (reconciliation_error + indexed_block) \<times> 's recon" where
  "ask_block S n sn =
     (case rs_block_by_height S n (fst sn) of
        (r, s) \<Rightarrow> (tryR r (\<lambda>m. ok_or m (MissingSourceHeight n)), (s, snd sn)))"

section \<open>The common ancestor\<close>

function walk_back ::
    "(nat \<Rightarrow> bool) \<Rightarrow> 's reconciliation_source \<Rightarrow> pg_writer \<Rightarrow> database \<Rightarrow> u64 \<Rightarrow> u64 \<Rightarrow> u64 \<Rightarrow> 's recon \<Rightarrow>
      (reconciliation_error + block_header option) \<times> 's recon" where
  "walk_back lost S w db depth n walked sn =
     tryS (pg_read lost (canonical_header_at w n) db sn) (\<lambda>m sn.
     tryS (ok_or m (MissingPersistedCheckpointBlock n), sn) (\<lambda>persisted sn.
     tryS (ask_block S n sn) (\<lambda>b sn.
       if persisted = ib_header b then (Inr (Some persisted), sn)
       else if depth < walked + 1 \<or> n = 0 then (Inl (MaxDepthExceeded depth), sn)
       else walk_back lost S w db depth (n - 1) (walked + 1) sn)))"
  by pat_completeness auto

termination
  by (relation "measure (\<lambda>(lost, S, w, db, depth, n, walked, sn). unat n)")
    (auto simp: unat_pred unat_pos)

declare walk_back.simps [simp del]

definition find_reconciliation_common_ancestor ::
    "(nat \<Rightarrow> bool) \<Rightarrow> 's reconciliation_source \<Rightarrow> pg_writer \<Rightarrow> database \<Rightarrow> pg_checkpoint option \<Rightarrow> u64 \<Rightarrow> u64 \<Rightarrow>
      's recon \<Rightarrow> (reconciliation_error + block_header option) \<times> 's recon" where
  "find_reconciliation_common_ancestor lost S w db cp head_height depth sn =
     (case cp of
        None \<Rightarrow> (Inr None, sn)
      | Some cp \<Rightarrow> walk_back lost S w db depth (min (last_height cp) head_height) 0 sn)"

section \<open>The batch\<close>

text \<open>The blocks of the given heights, each one linked to the one before it.\<close>

fun fetch_linked ::
    "'s reconciliation_source \<Rightarrow> u64 list \<Rightarrow> block_hash option \<Rightarrow> 's recon \<Rightarrow>
      (reconciliation_error + indexed_block list) \<times> 's recon" where
  "fetch_linked S [] previous sn = (Inr [], sn)"
| "fetch_linked S (n # ns) previous sn =
     tryS (ask_block S n sn) (\<lambda>b sn.
       if (\<exists>p. previous = Some p \<and> parent_hash (ib_header b) \<noteq> p) then (Inl (BrokenSourceLink n), sn)
       else tryS (fetch_linked S ns (Some (hash (ib_header b))) sn) (\<lambda>bs sn. (Inr (b # bs), sn)))"

definition checkpoint_rollbacks ::
    "(nat \<Rightarrow> bool) \<Rightarrow> pg_writer \<Rightarrow> database \<Rightarrow> pg_checkpoint option \<Rightarrow> block_header option \<Rightarrow> 's recon \<Rightarrow>
      (reconciliation_error + block_header list) \<times> 's recon" where
  "checkpoint_rollbacks lost w db cp common sn =
     (case cp of
        None \<Rightarrow> (Inr [], sn)
      | Some cp \<Rightarrow>
          pg_read lost (canonical_headers_descending w (last_height cp) (case common of None \<Rightarrow> 0 | Some a \<Rightarrow> height a)) db sn)"

definition reconciliation_transition :: "durable_event list \<Rightarrow> block_header option \<Rightarrow> chain_transition" where
  "reconciliation_transition evs common =
     (if \<exists>e \<in> set evs. (case e of DRollback _ \<Rightarrow> True | DApply _ \<Rightarrow> False) then Reorg
      else if common \<noteq> None then Gap else Bootstrap)"

text \<open>Everything before the batch is applied: the common ancestor and the events.\<close>

definition reconciliation_plan ::
    "(nat \<Rightarrow> bool) \<Rightarrow> 's reconciliation_source \<Rightarrow> pg_writer \<Rightarrow> u64 \<Rightarrow> database \<Rightarrow> 's recon \<Rightarrow>
      (reconciliation_error + block_header option \<times> durable_event list) \<times> 's recon" where
  "reconciliation_plan lost S w depth db sn =
     tryS (ask_head S sn) (\<lambda>head sn.
     tryS (pg_read lost (read_checkpoint w) db sn) (\<lambda>cp sn.
     tryS (find_reconciliation_common_ancestor lost S w db cp (height (ib_header head)) depth sn) (\<lambda>common sn.
     tryS (checkpoint_rollbacks lost w db cp common sn) (\<lambda>rbs sn.
     tryS (fetch_linked S
         (heights (case common of None \<Rightarrow> 0 | Some a \<Rightarrow> height a + 1) (height (ib_header head)))
         (map_option hash common) sn) (\<lambda>bs sn.
       (Inr (common, map DRollback rbs @ map DApply bs), sn))))))"

definition reconcile_to_head ::
    "faults \<Rightarrow> (nat \<Rightarrow> bool) \<Rightarrow> 's reconciliation_source \<Rightarrow> pg_writer \<Rightarrow> u64 \<Rightarrow> database \<Rightarrow> 's recon \<Rightarrow>
      (reconciliation_error + reconciliation_summary) \<times> database \<times> 's recon" where
  "reconcile_to_head flt lost S w depth db sn =
     (case reconciliation_plan lost S w depth db sn of
        (Inl e, sn) \<Rightarrow> (Inl e, db, sn)
      | (Inr (common, evs), sn) \<Rightarrow>
          if evs = [] then
            (case pg_read lost (read_checkpoint w) db sn of
               (r, sn) \<Rightarrow> (map_sum id (\<lambda>cp. summary_default\<lparr>rec_checkpoint := cp\<rparr>) r, db, sn))
          else
            (case apply_batch flt w
                \<lparr>db_transition = reconciliation_transition evs common, db_common_ancestor = common, db_events = evs\<rparr> db of
               (Inl e, db') \<Rightarrow> (Inl (RState e), db', sn)
             | (Inr rep, db') \<Rightarrow>
                 (case pg_read lost (read_checkpoint w) db' sn of
                    (r, sn) \<Rightarrow>
                      (map_sum id (\<lambda>cp. \<lparr>rolled_back = rolled_back_blocks rep, newly_applied = applied_blocks rep,
                         rec_checkpoint = cp\<rparr>) r, db', sn))))"


section \<open>Reads\<close>

lemma pg_read_Inr:
  "pg_read lost q db sn = (Inr x, sn') \<longleftrightarrow> \<not> lost (snd sn) \<and> q db = Inr x \<and> sn' = (fst sn, Suc (snd sn))"
  by (auto simp: pg_read_def try_simps)

lemma pg_read_count: "snd (snd (pg_read lost q db sn)) = Suc (snd sn)"
  by (simp add: pg_read_def)

lemma ask_block_Inr:
  "ask_block S n sn = (Inr b, sn') \<longleftrightarrow>
     rs_block_by_height S n (fst sn) = (Inr (Some b), fst sn') \<and> snd sn' = snd sn"
  by (auto simp: ask_block_def try_simps prod_eq_iff split: prod.splits)

lemma ask_block_count: "snd (snd (ask_block S n sn)) = snd sn"
  by (simp add: ask_block_def split: prod.splits)

text \<open>The checkpoint row of a database that holds one chain is its last block.\<close>

definition checkpoint_of :: "block_header \<Rightarrow> pg_checkpoint" where
  "checkpoint_of x = \<lparr>last_height = height x, last_hash = hash x\<rparr>"

lemma read_checkpoint_ok:
  "db_ok genuine (chain_id w) db \<Longrightarrow>
   read_checkpoint w db = Inr (map_option checkpoint_of (tip_of (canon_headers (chain_id w) db)))"
  by (auto dest!: db_okD(5) simp: read_checkpoint_def checkpoint_at_def transpose_def row_to_checkpoint_def
      row_height_def ok_or_def checkpoint_of_def tip_of_def)

lemma headers_descending_wf:
  assumes wf: "rows_wf db" and r: "canonical_headers_descending w hi lo db = Inr xs"
  shows "xs = rev (filter (\<lambda>x. lo < height x \<and> height x \<le> hi) (canon_headers (chain_id w) db))"
proof -
  let ?rows = "canonical_rows (chain_id w) db" and ?P = "\<lambda>(h, r). uint lo < br_height r \<and> br_height r \<le> uint hi"
  from r have "mapR header_of_row (rev (sort_key (\<lambda>(_, r). br_height r) (filter ?P ?rows))) = Inr xs"
    by (auto simp: canonical_headers_descending_def try_simps pg_height_Inr)
  moreover have row: "header_of_row x = Inr ((\<lambda>(h, r). row_header h r) x)"
    "(lo < height (row_header (fst x) (snd x)) \<and> height (row_header (fst x) (snd x)) \<le> hi) = ?P x"
    if "x \<in> set ?rows" for x
  proof -
    obtain h r where x: "x = (h, r)" by (cases x)
    with that have g: "get_block (chain_id w) h db = Some r" using canonical_rows_iff [OF wf] by simp
    show "header_of_row x = Inr ((\<lambda>(h, r). row_header h r) x)" using header_of_row_wf [OF wf g] x by simp
    show "(lo < height (row_header (fst x) (snd x)) \<and> height (row_header (fst x) (snd x)) \<le> hi) = ?P x"
      using row_height_word [OF wf g] x by (simp add: word_less_def word_le_def)
  qed
  then have "mapR header_of_row (rev (sort_key (\<lambda>(_, r). br_height r) (filter ?P ?rows))) =
      Inr (map (\<lambda>(h, r). row_header h r) (rev (sort_key (\<lambda>(_, r). br_height r) (filter ?P ?rows))))"
    by (intro mapR_all_ok) auto
  ultimately have xs: "xs = rev (map (\<lambda>(h, r). row_header h r) (filter ?P (sort_key (\<lambda>(_, r). br_height r) ?rows)))"
    by (simp add: filter_sort rev_map)
  have "filter ?P (sort_key (\<lambda>(_, r). br_height r) ?rows) =
      filter (\<lambda>x. lo < height (row_header (fst x) (snd x)) \<and> height (row_header (fst x) (snd x)) \<le> hi)
        (sort_key (\<lambda>(_, r). br_height r) ?rows)"
    using row(2) by (intro filter_cong) auto
  then show ?thesis by (simp add: xs canon_headers_def filter_map comp_def split_def)
qed

lemma headers_descending_reads:
  "rows_wf db \<Longrightarrow> unat hi \<le> i64_max \<Longrightarrow> unat lo \<le> i64_max \<Longrightarrow>
   \<exists>xs. canonical_headers_descending w hi lo db = Inr xs"
  using header_of_row_wf [of db "chain_id w"] canonical_rows_iff [of db _ _ "chain_id w"]
  by (auto simp: canonical_headers_descending_def pg_height_def intro!: exI mapR_all_ok
      [where g = "\<lambda>(h, r). row_header h r"])

lemma canonical_header_at_hit:
  assumes wf: "rows_wf db" and x: "x \<in> set (canon_headers (chain_id w) db)"
  shows "canonical_header_at w (height x) db = Inr (Some x)"
proof -
  from x obtain r where r: "get_block (chain_id w) (hash x) db = Some r" "is_canonical r" "x = row_header (hash x) r"
    unfolding set_canon_headers [OF wf] canon_set_iff by blast
  have u: "uint (height x) = br_height r"
    using row_height_word [OF wf r(1)] arg_cong [OF r(3), of height] by simp
  have "unat (height x) \<le> i64_max" by (rule row_height_fits [OF wf r(1) u [symmetric]])
  then show ?thesis
    using find_canonical_hit [OF wf r(1,2)] header_of_row_wf [OF wf r(1)] r(3)
    by (simp add: canonical_header_at_def pg_height_def u transpose_def)
qed

section \<open>What the walk finds\<close>

lemma walk_back_finds:
  "walk_back lost S w db depth n walked sn = (Inr m, sn') \<Longrightarrow> rows_wf db \<Longrightarrow> unat n + unat walked < 2 ^ 64 \<Longrightarrow>
   \<exists>a. m = Some a \<and> a \<in> set (canon_headers (chain_id w) db) \<and> height a \<le> n \<and>
     (height a = n \<or> unat n - unat (height a) + unat walked \<le> unat depth)"
proof (induction lost S w db depth n walked sn rule: walk_back.induct)
  case (1 lost S w db depth n walked sn)
  from "1.prems"(1) obtain x sn1 b sn2 where
    r: "pg_read lost (canonical_header_at w n) db sn = (Inr (Some x), sn1)" and
    b: "ask_block S n sn1 = (Inr b, sn2)" and
    rest: "(if x = ib_header b then (Inr (Some x), sn2)
      else if depth < walked + 1 \<or> n = 0 then (Inl (MaxDepthExceeded depth), sn2)
      else walk_back lost S w db depth (n - 1) (walked + 1) sn2) = (Inr m, sn')"
    by (subst (asm) walk_back.simps) (auto simp: try_simps)
  have x: "x \<in> set (canon_headers (chain_id w) db)" "height x = n"
    using canonical_header_at_wf [OF "1.prems"(2), of w n x] r by (simp_all add: pg_read_Inr)
  show ?case
  proof (cases "x = ib_header b")
    case True
    with rest x show ?thesis by auto
  next
    case False
    with rest have go: "\<not> (depth < walked + 1 \<or> n = 0)"
      "walk_back lost S w db depth (n - 1) (walked + 1) sn2 = (Inr m, sn')" by (auto split: if_splits)
    then have n: "unat (n - 1) = unat n - 1" "0 < unat n" by (simp_all add: unat_pred unat_pos [symmetric])
    then have w: "unat (walked + 1) = Suc (unat walked)"
      using "1.prems"(3) by (intro unat_succ) (auto simp: unat_max_word)
    have "unat (n - 1) + unat (walked + 1) < 2 ^ 64" using "1.prems"(3) n w by simp
    from "1.IH" [OF r _ b False go(1) go(2) "1.prems"(2) this] obtain a where
      "m = Some a" "a \<in> set (canon_headers (chain_id w) db)" "height a \<le> n - 1"
      "height a = n - 1 \<or> unat (n - 1) - unat (height a) + unat (walked + 1) \<le> unat depth" by auto
    moreover have "unat (walked + 1) \<le> unat depth" using go(1) by (simp add: word_le_nat_alt not_less)
    ultimately show ?thesis using n w by (auto simp: word_le_nat_alt)
  qed
qed





section \<open>What the source serves\<close>

definition source_serves :: "(block_header \<Rightarrow> bool) \<Rightarrow> 's reconciliation_source \<Rightarrow> bool" where
  "source_serves genuine S \<longleftrightarrow> (\<forall>n s b s'. rs_block_by_height S n s = (Inr (Some b), s') \<longrightarrow>
     genuine (ib_header b) \<and> height (ib_header b) = n)"

lemma fetch_linked_serves:
  "fetch_linked S ns prev sn = (Inr bs, sn') \<Longrightarrow> source_serves genuine S \<Longrightarrow>
   map (\<lambda>b. height (ib_header b)) bs = ns \<and> (\<forall>b \<in> set bs. genuine (ib_header b)) \<and>
   successively (\<lambda>p c. parent_hash c = hash p) (map ib_header bs) \<and>
   (\<forall>h. prev = Some h \<longrightarrow> bs \<noteq> [] \<longrightarrow> parent_hash (ib_header (hd bs)) = h)"
proof (induction ns arbitrary: prev sn bs)
  case (Cons n ns)
  from Cons.prems(1) obtain b sn1 bs' where b: "ask_block S n sn = (Inr b, sn1)" and
    link: "\<forall>p. prev = Some p \<longrightarrow> parent_hash (ib_header b) = p" and
    rest: "fetch_linked S ns (Some (hash (ib_header b))) sn1 = (Inr bs', sn')" and bs: "bs = b # bs'"
    by (auto simp: try_simps split: if_splits)
  have "genuine (ib_header b) \<and> height (ib_header b) = n"
    using b Cons.prems(2) by (auto simp: ask_block_Inr source_serves_def)
  with Cons.IH [OF rest Cons.prems(2)] link show ?case by (cases bs') (auto simp: bs)
qed simp

lemma heights_ascend:
  assumes "map height xs = heights f t" and "successively (\<lambda>p c. parent_hash c = hash p) xs"
  shows "ascends xs"
proof -
  have len: "length xs = Suc (unat t) - unat f" using arg_cong [OF assms(1), of length] by (simp add: heights_def del: upt_Suc)
  have h: "unat (height (xs ! i)) = unat f + i" if "i < length xs" for i
  proof -
    have "height (xs ! i) = heights f t ! i" using assms(1) that by (metis nth_map)
    also have "\<dots> = of_nat (unat f + i)" using that len by (simp add: heights_def del: upt_Suc)
    finally show ?thesis using that len u64_le_max [of t] by (simp add: unsigned_of_nat take_bit_nat_eq_self del: of_nat_add)
  qed
  show ?thesis
    using assms(2) unfolding ascends_def successively_conv_nth by (auto simp: links_def h)
qed

text \<open>The blocks above \<open>a\<close> up to the head extend a chain that ends in \<open>a\<close>.\<close>

lemma fetched_extends:
  assumes asc: "ascends base" and tip: "base \<noteq> []" "height (last base) \<noteq> - 1"
    and hs: "map height xs = heights (height (last base) + 1) t"
    and links: "successively (\<lambda>p c. parent_hash c = hash p) xs" "xs \<noteq> [] \<Longrightarrow> parent_hash (hd xs) = hash (last base)"
  shows "ascends (base @ xs)"
proof (cases "xs = []")
  case True
  with asc show ?thesis by simp
next
  case False
  then have "hd (map height xs) = height (hd xs)" by (simp add: list.map_sel)
  moreover have "heights (height (last base) + 1) t \<noteq> []" using False hs by (metis map_is_Nil_conv)
  then have "hd (heights (height (last base) + 1) t) = height (last base) + 1"
    by (simp add: heights_def upt_rec [of "unat (height (last base) + 1)"] split: if_splits del: upt_Suc)
  ultimately have "links (hd xs) (last base)"
    using hs links(2) [OF False] unat_succ [OF tip(2)] by (simp add: links_def)
  with asc heights_ascend [OF hs links(1)] False tip(1) show ?thesis by (simp add: ascends_append)
qed

section \<open>The plan\<close>

lemma canon_height_fits:
  assumes wf: "rows_wf db" and x: "x \<in> set (canon_headers c db)"
  shows "unat (height x) \<le> i64_max"
proof -
  from x obtain r where r: "get_block c (hash x) db = Some r" "x = row_header (hash x) r"
    unfolding set_canon_headers [OF wf] canon_set_iff by blast
  have "uint (height x) = br_height r"
    using row_height_word [OF wf r(1)] arg_cong [OF r(2), of height] by simp
  from row_height_fits [OF wf r(1) this [symmetric]] show ?thesis .
qed

lemma split_at_header:
  assumes "a \<in> set xs"
  obtains low ups where "xs = low @ a # ups"
  using split_list [OF assms] by blast

lemma above_in_chain:
  assumes "ascends (low @ a # ups)" and "unat (height a) \<le> unat hi" and "\<forall>x \<in> set ups. height x \<le> hi"
  shows "filter (\<lambda>x. height a < height x \<and> height x \<le> hi) (low @ a # ups) = ups"
proof -
  have "sorted_wrt (\<lambda>x y. height x < height y) (low @ a # ups)"
    using assms(1) ascending_heights by (simp add: ascends_def)
  then have "\<forall>x \<in> set low. height x < height a" "\<forall>x \<in> set ups. height a < height x"
    by (auto simp: sorted_wrt_append)
  with assms(3) show ?thesis
    by (simp add: filter_id_conv) (auto simp: filter_empty_conv not_less)
qed

lemma ascends_length:
  "ascends (a # ups) \<Longrightarrow> unat (height (last (a # ups))) = unat (height a) + length ups"
proof (induction ups rule: rev_induct)
  case (snoc x xs)
  then show ?case using ascends_last [of a xs x] by (auto simp: links_def)
qed simp

lemma plan_outcome:
  assumes ok: "db_ok genuine (chain_id w) db" and serves: "source_serves genuine S"
    and plan: "reconciliation_plan lost S w depth db sn = (Inr (common, evs), sn')"
    and head: "rs_head S (fst sn) = (Inr head, s1)"
  shows "\<exists>base ups bs. canon_headers (chain_id w) db = base @ ups \<and>
    evs = map DRollback (rev ups) @ map DApply bs \<and> common = tip_of base \<and>
    ascends (base @ map ib_header bs) \<and> (\<forall>b \<in> set bs. genuine (ib_header b)) \<and>
    base @ map ib_header bs \<noteq> [] \<and>
    height (last (base @ map ib_header bs)) = height (ib_header head) \<and>
    (ups \<noteq> [] \<longrightarrow> base \<noteq> [] \<and>
      length ups \<le> unat depth + (unat (height (last ups)) - unat (height (ib_header head))))"
proof -
  let ?C = "canon_headers (chain_id w) db" and ?h = "height (ib_header head)"
  note wf = db_okD(2) [OF ok] and asc = db_okD(4) [OF ok]
  from plan head obtain cp sn2 sn3 rbs sn4 bs where
    cp: "read_checkpoint w db = Inr cp" and
    anc: "find_reconciliation_common_ancestor lost S w db cp ?h depth sn2 = (Inr common, sn3)" and
    rbs: "checkpoint_rollbacks lost w db cp common sn3 = (Inr rbs, sn4)" and
    bs: "fetch_linked S (heights (case common of None \<Rightarrow> 0 | Some a \<Rightarrow> height a + 1) ?h)
        (map_option hash common) sn4 = (Inr bs, sn')" and
    evs: "evs = map DRollback rbs @ map DApply bs"
    by (auto simp: reconciliation_plan_def ask_head_def try_simps pg_read_Inr)
  from fetch_linked_serves [OF bs serves] have
    hs: "map height (map ib_header bs) = heights (case common of None \<Rightarrow> 0 | Some a \<Rightarrow> height a + 1) ?h" and
    gen: "\<forall>b \<in> set bs. genuine (ib_header b)" and
    par: "successively (\<lambda>p c. parent_hash c = hash p) (map ib_header bs)" and
    hd: "\<And>a. common = Some a \<Longrightarrow> bs \<noteq> [] \<Longrightarrow> parent_hash (ib_header (hd bs)) = hash a"
    by (auto simp: comp_def)
  have last_h: "height (last (map ib_header bs)) = ?h" if "bs \<noteq> []"
  proof -
    have "height (last (map ib_header bs)) = last (heights (case common of None \<Rightarrow> 0 | Some a \<Rightarrow> height a + 1) ?h)"
      using that by (simp only: last_map [symmetric] hs [symmetric]) (simp add: last_map)
    moreover have "heights (case common of None \<Rightarrow> 0 | Some a \<Rightarrow> height a + 1) ?h \<noteq> []"
      using that hs by (metis map_is_Nil_conv)
    ultimately show ?thesis by (simp add: heights_def split: if_splits)
  qed
  have cp': "cp = map_option checkpoint_of (tip_of ?C)" using cp read_checkpoint_ok [OF ok] by simp
  show ?thesis
  proof (cases "?C = []")
    case True
    with cp' have "cp = None" by simp
    with anc rbs have "common = None" "rbs = []"
      by (simp_all add: find_reconciliation_common_ancestor_def checkpoint_rollbacks_def)
    moreover have "bs \<noteq> []" using hs \<open>common = None\<close> by (auto simp: heights_def)
    ultimately show ?thesis
      using True evs gen last_h heights_ascend [OF hs par]
      by (intro exI [of _ "[]"] exI [of _ bs]) (simp add: tip_of_def)
  next
    case False
    let ?x = "last ?C"
    have cpx: "cp = Some (checkpoint_of ?x)" using cp' False by (simp add: tip_of_def)
    with anc have walk: "walk_back lost S w db depth (min (height ?x) ?h) 0 sn2 = (Inr common, sn3)"
      by (simp add: find_reconciliation_common_ancestor_def checkpoint_of_def)
    have small: "unat (min (height ?x) ?h) + unat (0 :: u64) < 2 ^ 64"
      using u64_le_max [of "min (height ?x) ?h"] by simp
    from walk_back_finds [OF walk wf small] obtain a where a: "common = Some a" "a \<in> set ?C"
      "height a \<le> min (height ?x) ?h"
      "height a = min (height ?x) ?h \<or> unat (min (height ?x) ?h) - unat (height a) \<le> unat depth" by auto
    from split_at_header [OF a(2)] obtain low ups where C: "?C = low @ a # ups" by blast
    from rbs cpx a(1) have "canonical_headers_descending w (height ?x) (height a) db = Inr rbs"
      by (simp add: checkpoint_rollbacks_def pg_read_Inr checkpoint_of_def)
    from headers_descending_wf [OF wf this]
    have "rbs = rev (filter (\<lambda>x. height a < height x \<and> height x \<le> height ?x) ?C)" .
    moreover have "sorted_wrt (\<lambda>x y. height x < height y) ?C" using asc ascending_heights by (simp add: ascends_def)
    then have "\<forall>x \<in> set ?C. height x \<le> height ?x"
      by (cases ?C rule: rev_cases) (auto simp: sorted_wrt_append intro: less_imp_le)
    with above_in_chain [of low a ups "height ?x"] asc a(2)
    have "filter (\<lambda>x. height a < height x \<and> height x \<le> height ?x) ?C = ups"
      unfolding C by (simp add: word_le_nat_alt)
    ultimately have rbs': "rbs = rev ups" by simp
    have "ascends [a]" by (simp add: ascends_def)
    then have asc1: "ascends (low @ [a])"
      using asc C ascends_append [of low "a # ups"] ascends_append [of low "[a]"] by simp
    have top: "height a \<noteq> - 1" using canon_height_fits [OF wf a(2)] by (auto simp: unat_max_word i64_max_def)
    have ext: "ascends ((low @ [a]) @ map ib_header bs)"
    proof (rule fetched_extends [OF asc1, where t = ?h])
      show "map height (map ib_header bs) = heights (height (last (low @ [a])) + 1) ?h" using hs a(1) by simp
      show "parent_hash (hd (map ib_header bs)) = hash (last (low @ [a]))" if "map ib_header bs \<noteq> []"
        using hd [OF a(1)] that by (simp add: list.map_sel)
    qed (use top par in simp_all)
    have bound: "length ups \<le> unat depth + (unat (height (last ups)) - unat ?h)" if "ups \<noteq> []"
    proof -
      have "ascends (a # ups)" using asc C by (simp add: ascends_append)
      from ascends_length [OF this] that have "unat (height (last ups)) = unat (height a) + length ups" by simp
      moreover have "last ups = ?x" using that C by simp
      ultimately show ?thesis using a(3,4) by (auto simp: word_nat_simps unat_min)
    qed
    have lasth: "height (last ((low @ [a]) @ map ib_header bs)) = ?h"
    proof (cases "bs = []")
      case True
      with hs a(1) have "heights (height a + 1) ?h = []" by simp
      then have "unat ?h < unat (height a + 1)" by (simp add: heights_def split: if_splits)
      then have "unat ?h \<le> unat (height a)" using unat_succ [OF top] by simp
      with a(3) True show ?thesis by (simp add: word_nat_simps unat_min)
    next
      case False
      with last_h show ?thesis by simp
    qed
    show ?thesis
      using C rbs' evs a(1) ext gen lasth bound
      by (intro exI [of _ "low @ [a]"] exI [of _ ups] exI [of _ bs]) (simp add: tip_of_def)
  qed
qed


section \<open>What reconciliation leaves\<close>

lemma reconcile_outcome:
  assumes ok: "db_ok genuine (chain_id w) db" and names: "names_blocks genuine" and serves: "source_serves genuine S"
    and run: "reconcile_to_head flt lost S w depth db sn = (r, db', sn')"
  defines "C \<equiv> canon_headers (chain_id w) db" and "C' \<equiv> canon_headers (chain_id w) db'"
  shows "db_ok genuine (chain_id w) db'" (is ?ok)
    and "C' = C \<or> (\<exists>head s1 base ups. \<exists>bs :: indexed_block list. rs_head S (fst sn) = (Inr head, s1) \<and> C = base @ ups \<and>
      C' = base @ map ib_header bs \<and>
      length ups \<le> unat depth + (unat (height (last C)) - unat (height (ib_header head))))" (is ?moved)
    and "r = Inr sm \<Longrightarrow> \<exists>head s1. rs_head S (fst sn) = (Inr head, s1) \<and> C' \<noteq> [] \<and>
      height (last C') = height (ib_header head) \<and> rec_checkpoint sm = Some (checkpoint_of (last C'))"
proof -
  have all: "?ok \<and> ?moved \<and> (\<forall>sm. r = Inr sm \<longrightarrow> (\<exists>head s1. rs_head S (fst sn) = (Inr head, s1) \<and> C' \<noteq> [] \<and>
      height (last C') = height (ib_header head) \<and> rec_checkpoint sm = Some (checkpoint_of (last C'))))"
  proof (cases "reconciliation_plan lost S w depth db sn" rule: prod.exhaust [case_names Pair])
    case (Pair pr sn1)
    show ?thesis
    proof (cases pr)
      case (Inl e)
      with Pair run ok show ?thesis by (auto simp: reconcile_to_head_def C_def C'_def)
    next
      case (Inr ce)
      obtain common evs where ce: "ce = (common, evs)" by (cases ce)
      with Pair Inr have plan: "reconciliation_plan lost S w depth db sn = (Inr (common, evs), sn1)" by simp
      from plan obtain head s1 where head: "rs_head S (fst sn) = (Inr head, s1)"
        by (auto simp: reconciliation_plan_def ask_head_def try_simps split: prod.splits)
      from plan_outcome [OF ok serves plan head] obtain base ups bs where
        P: "C = base @ ups" "evs = map DRollback (rev ups) @ map DApply bs" "common = tip_of base"
          "ascends (base @ map ib_header bs)" "\<forall>b \<in> set bs. genuine (ib_header b)"
          "base @ map ib_header bs \<noteq> []" "height (last (base @ map ib_header bs)) = height (ib_header head)"
          "ups \<noteq> [] \<longrightarrow> length ups \<le> unat depth + (unat (height (last ups)) - unat (height (ib_header head)))"
        unfolding C_def by blast
      show ?thesis
      proof (cases "evs = []")
        case True
        with P have C: "C = base" "bs = []" by simp_all
        from run plan True have r: "db' = db" "\<And>sm. r = Inr sm \<Longrightarrow> \<exists>cp. read_checkpoint w db = Inr cp \<and> rec_checkpoint sm = cp"
          by (auto simp: reconcile_to_head_def pg_read_def map_err_def split: prod.splits sum.splits if_splits)
        with ok P(6,7) C read_checkpoint_ok [OF ok] head show ?thesis
          by (auto simp: C'_def C_def [symmetric] tip_of_def)
      next
        case False
        let ?b = "\<lparr>db_transition = reconciliation_transition evs common, db_common_ancestor = common, db_events = evs\<rparr>"
        obtain ar db1 where ab: "apply_batch flt w ?b db = (ar, db1)" by fastforce
        have ev: "db_events ?b = map DRollback (rev ups) @ map DApply bs" "db_common_ancestor ?b = tip_of base"
          "db_events ?b \<noteq> []" using P False by simp_all
        from batch_keeps_ok [OF ok names ab P(1) [unfolded C_def] ev(1,2) P(4) P(6) ev(3) P(5)]
        have out: "db_ok genuine (chain_id w) db1"
          "canon_headers (chain_id w) db1 = C \<or> canon_headers (chain_id w) db1 = base @ map ib_header bs"
          "\<forall>rep. ar = Inr rep \<longrightarrow> canon_headers (chain_id w) db1 = base @ map ib_header bs"
          by (simp_all add: C_def)
        have r: "db' = db1" "\<And>sm. r = Inr sm \<Longrightarrow>
            (\<exists>rep. ar = Inr rep) \<and> (\<exists>cp. read_checkpoint w db1 = Inr cp \<and> rec_checkpoint sm = cp)"
          using run plan False ab
          by (auto simp: reconcile_to_head_def pg_read_def map_err_def split: prod.splits sum.splits if_splits)
        have bound: "length ups \<le> unat depth + (unat (height (last C)) - unat (height (ib_header head)))"
          using P(1,8) by (cases "ups = []") auto
        have fin: "\<forall>sm. r = Inr sm \<longrightarrow> (\<exists>head s1. rs_head S (fst sn) = (Inr head, s1) \<and> C' \<noteq> [] \<and>
            height (last C') = height (ib_header head) \<and> rec_checkpoint sm = Some (checkpoint_of (last C')))"
        proof (intro allI impI)
          fix sm assume "r = Inr sm"
          with r(2) out(3) have C': "C' = base @ map ib_header bs" and "\<exists>cp. read_checkpoint w db1 = Inr cp \<and> rec_checkpoint sm = cp"
            by (auto simp: C'_def r(1))
          with read_checkpoint_ok [OF out(1)] have "rec_checkpoint sm = map_option checkpoint_of (tip_of C')"
            by (simp add: C'_def r(1))
          with C' P(6,7) head show "\<exists>head s1. rs_head S (fst sn) = (Inr head, s1) \<and> C' \<noteq> [] \<and>
            height (last C') = height (ib_header head) \<and> rec_checkpoint sm = Some (checkpoint_of (last C'))"
            by (simp add: tip_of_def)
        qed
        have ok': ?ok using out(1) by (simp add: r(1))
        from out(2) have "C' = C \<or> C' = base @ map ib_header bs" by (simp add: C'_def r(1))
        then have moved: ?moved using P(1) head bound by blast
        from ok' moved fin show ?thesis by (intro conjI)
      qed
    qed
  qed
  from all show ?ok by blast
  from all show ?moved by blast
  show "\<exists>head s1. rs_head S (fst sn) = (Inr head, s1) \<and> C' \<noteq> [] \<and>
      height (last C') = height (ib_header head) \<and> rec_checkpoint sm = Some (checkpoint_of (last C'))" if "r = Inr sm"
    using all that by blast
qed


text \<open>
  C17: Startup reconciliation keeps one chain.  Whatever the source answers (its blocks only have to
  be named by their hashes and to be at the height that was asked for), whatever reads, statements or
  commits lose the connection: afterwards the database holds one linked canonical chain with the
  checkpoint at its tip.  It is the chain from before, or that chain with at most
  \<open>max_walk_back_depth\<close> blocks replaced, not counting the blocks above the head of the source; and
  a reported success means that the tip is at the height of the source's head and is the reported
  checkpoint.
\<close>
theorem reconcile_keeps_one_chain:
  assumes "db_ok genuine (chain_id w) db" and "names_blocks genuine" and "source_serves genuine S"
    and "reconcile_to_head flt lost S w depth db sn = (r, db', sn')"
  shows "db_ok genuine (chain_id w) db' \<and>
    (canon_headers (chain_id w) db' = canon_headers (chain_id w) db \<or>
      (\<exists>head s1 base ups. \<exists>bs :: indexed_block list. rs_head S (fst sn) = (Inr head, s1) \<and>
        canon_headers (chain_id w) db = base @ ups \<and> canon_headers (chain_id w) db' = base @ map ib_header bs \<and>
        length ups \<le> unat depth +
          (unat (height (last (canon_headers (chain_id w) db))) - unat (height (ib_header head))))) \<and>
    (\<forall>sm. r = Inr sm \<longrightarrow> (\<exists>head s1. rs_head S (fst sn) = (Inr head, s1) \<and> canon_headers (chain_id w) db' \<noteq> [] \<and>
      height (last (canon_headers (chain_id w) db')) = height (ib_header head) \<and>
      rec_checkpoint sm = Some (checkpoint_of (last (canon_headers (chain_id w) db')))))"
  using reconcile_outcome [OF assms] by blast

section \<open>Reconciliation with a well-behaved source succeeds\<close>

text \<open>A source that serves one chain from block 0 on, whatever its own state.\<close>

definition serves_chain :: "indexed_block list \<Rightarrow> 's reconciliation_source \<Rightarrow> bool" where
  "serves_chain blks S \<longleftrightarrow> blks \<noteq> [] \<and> length blks < 2 ^ 63 \<and> ascends (map ib_header blks) \<and>
     height (ib_header (hd blks)) = 0 \<and> (\<forall>s. fst (rs_head S s) = Inr (last blks)) \<and>
     (\<forall>n s. fst (rs_block_by_height S n s) = Inr (if unat n < length blks then Some (blks ! unat n) else None))"

lemma ascends_nth_height:
  "ascends xs \<Longrightarrow> xs \<noteq> [] \<Longrightarrow> i < length xs \<Longrightarrow> unat (height (xs ! i)) = unat (height (hd xs)) + i"
proof (induction i)
  case (Suc i)
  then have "links (xs ! Suc i) (xs ! i)" by (simp add: ascends_def successively_conv_nth)
  with Suc show ?case by (simp add: links_def)
qed (simp add: hd_conv_nth)

lemma serves_chainD:
  assumes "serves_chain blks S"
  shows "\<And>i. i < length blks \<Longrightarrow> unat (height (ib_header (blks ! i))) = i"
    and "unat (height (ib_header (last blks))) = length blks - 1"
    and "\<And>n sn. unat n < length blks \<Longrightarrow> fst (ask_block S n sn) = Inr (blks ! unat n)"
    and "\<And>sn. fst (ask_head S sn) = Inr (last blks)"
proof -
  have ne: "map ib_header blks \<noteq> []" "ascends (map ib_header blks)" "blks \<noteq> []"
    using assms by (simp_all add: serves_chain_def)
  show h: "unat (height (ib_header (blks ! i))) = i" if "i < length blks" for i
    using ascends_nth_height [OF ne(2,1), of i] that assms by (simp add: serves_chain_def list.map_sel)
  show "unat (height (ib_header (last blks))) = length blks - 1"
    using h [of "length blks - 1"] ne(3) by (simp add: last_conv_nth)
  show "fst (ask_head S sn) = Inr (last blks)" for sn
    using assms by (auto simp: serves_chain_def ask_head_def split: prod.splits dest: spec [of _ "fst sn"])
  show "fst (ask_block S n sn) = Inr (blks ! unat n)" if "unat n < length blks" for n sn
  proof -
    have "fst (rs_block_by_height S n (fst sn)) = Inr (Some (blks ! unat n))"
      using assms that by (simp add: serves_chain_def)
    then show ?thesis by (auto simp: ask_block_def split: prod.splits)
  qed
qed

lemma serves_chain_serves:
  assumes "serves_chain blks S" and "\<forall>b \<in> set blks. genuine (ib_header b)"
  shows "source_serves genuine S"
  unfolding source_serves_def
proof (intro allI impI)
  fix n s b s' assume r: "rs_block_by_height S n s = (Inr (Some b), s')"
  have "fst (rs_block_by_height S n s) = Inr (if unat n < length blks then Some (blks ! unat n) else None)"
    using assms(1) by (simp add: serves_chain_def)
  then have "unat n < length blks" "b = blks ! unat n" by (auto simp: r split: if_splits)
  with assms(2) serves_chainD(1) [OF assms(1), of "unat n"]
  show "genuine (ib_header b) \<and> height (ib_header b) = n" by (simp add: word_eq_unat)
qed

lemma height_between:
  assumes "ascends (low @ a # ups)" and "height a \<le> n" and "n \<le> height (last (a # ups))"
  shows "\<exists>x \<in> set (a # ups). height x = n"
proof -
  have asc: "ascends (a # ups)" using assms(1) by (simp add: ascends_append)
  let ?i = "unat n - unat (height a)"
  have i: "?i < length (a # ups)"
    using assms(2,3) ascends_length [OF asc] by (auto simp: word_nat_simps)
  with ascends_nth_height [OF asc, of ?i] assms(2) have "height ((a # ups) ! ?i) = n"
    by (simp add: word_nat_simps)
  with i nth_mem show ?thesis by blast
qed

lemma walk_back_succeeds:
  assumes S: "serves_chain blks S" and wf: "rows_wf db" and C: "canon_headers (chain_id w) db = low @ a # ups"
    and asc: "ascends (low @ a # ups)" and a: "a \<in> ib_header ` set blks"
  shows "unat n < length blks \<Longrightarrow> n \<le> height (last (a # ups)) \<Longrightarrow> height a \<le> n \<Longrightarrow>
    unat n - unat (height a) + unat walked \<le> unat depth \<Longrightarrow> unat n + unat walked < 2 ^ 64 \<Longrightarrow>
    \<exists>x sn'. walk_back (\<lambda>_. False) S w db depth n walked sn = (Inr (Some x), sn') \<and> x \<in> ib_header ` set blks"
proof (induction "unat n" arbitrary: n walked sn rule: less_induct)
  case less
  from height_between [OF asc less.prems(3,2)] obtain x where x: "x \<in> set (a # ups)" "height x = n" by blast
  then have "x \<in> set (canon_headers (chain_id w) db)" by (auto simp: C)
  from canonical_header_at_hit [OF wf this] x(2) have at: "canonical_header_at w n db = Inr (Some x)" by simp
  let ?sn = "(fst sn, Suc (snd sn))" and ?b = "blks ! unat n"
  obtain sn2 where b: "ask_block S n ?sn = (Inr ?b, sn2)"
    using serves_chainD(3) [OF S less.prems(1), of ?sn] by (metis prod.collapse)
  have mem: "?b \<in> set blks" using less.prems(1) by simp
  show ?case
  proof (cases "x = ib_header ?b")
    case True
    with at b mem show ?thesis by (subst walk_back.simps) (simp add: pg_read_def)
  next
    case False
    have "height a \<noteq> n"
    proof
      assume "height a = n"
      moreover obtain j where j: "j < length blks" "a = ib_header (blks ! j)" using a by (auto simp: in_set_conv_nth)
      ultimately have "a = ib_header ?b" using serves_chainD(1) [OF S j(1)] by simp
      moreover have "x = a"
      proof (rule ccontr)
        assume "x \<noteq> a"
        with x have "x \<in> set ups" by simp
        moreover have "sorted_wrt (\<lambda>x y. height x < height y) (low @ a # ups)"
          using asc ascending_heights by (simp add: ascends_def)
        ultimately have "height a < height x" by (simp add: sorted_wrt_append)
        with x(2) \<open>height a = n\<close> show False by simp
      qed
      ultimately show False using False by simp
    qed
    with less.prems(3) have lt: "unat (height a) < unat n" by (simp add: word_less_nat_alt [symmetric])
    then have n: "n \<noteq> 0" by auto
    note n = n unat_pred [OF n]
    have wd: "unat (walked + 1) = Suc (unat walked)"
      using less.prems(5) lt by (intro unat_succ) (auto simp: unat_max_word)
    with lt less.prems(4) have go: "\<not> (depth < walked + 1 \<or> n = 0)" using n(1) by (simp add: word_less_nat_alt)
    have "\<exists>x sn'. walk_back (\<lambda>_. False) S w db depth (n - 1) (walked + 1) sn2 = (Inr (Some x), sn') \<and> x \<in> ib_header ` set blks"
      using less.prems lt n wd by (intro less.hyps) (auto simp: word_le_nat_alt)
    with at b False go show ?thesis by (subst walk_back.simps) (simp add: pg_read_def)
  qed
qed


lemma fetch_linked_succeeds:
  assumes S: "serves_chain blks S"
  shows "f + length ns \<le> length blks \<Longrightarrow> ns = map of_nat [f ..< f + length ns] \<Longrightarrow>
    (\<And>h. prev = Some h \<Longrightarrow> 0 < f \<and> h = hash (ib_header (blks ! (f - 1)))) \<Longrightarrow>
    \<exists>sn'. fetch_linked S ns prev sn = (Inr (take (length ns) (drop f blks)), sn')"
proof (induction ns arbitrary: f prev sn)
  case (Cons n ns)
  have len: "length blks < 2 ^ 64" "ascends (map ib_header blks)" using S by (simp_all add: serves_chain_def)
  have f: "f < length blks" using Cons.prems(1) by simp
  have up: "[f ..< f + length (n # ns)] = f # [Suc f ..< Suc f + length ns]"
    using upt_conv_Cons [of f "f + length (n # ns)"] by simp
  then have n: "n = of_nat f" and ns: "ns = map of_nat [Suc f ..< Suc f + length ns]" using Cons.prems(2) by simp_all
  have un: "unat n = f" using f len(1) by (simp add: n unsigned_of_nat take_bit_nat_eq_self)
  obtain sn1 where b: "ask_block S n sn = (Inr (blks ! f), sn1)"
    using serves_chainD(3) [OF S, of n sn] f un by (metis prod.collapse)
  have link: "parent_hash (ib_header (blks ! f)) = h" if h: "prev = Some h" for h
  proof -
    from Cons.prems(3) [OF h] have f0: "0 < f" "h = hash (ib_header (blks ! (f - 1)))" by simp_all
    from f0(1) obtain g where g: "f = Suc g" by (cases f) auto
    have "links (map ib_header blks ! Suc g) (map ib_header blks ! g)"
      using len(2) f g unfolding ascends_def successively_conv_nth by (metis length_map)
    with f f0 g show ?thesis by (simp add: links_def)
  qed
  have "\<exists>sn'. fetch_linked S ns (Some (hash (ib_header (blks ! f)))) sn1 = (Inr (take (length ns) (drop (Suc f) blks)), sn')"
    using Cons.prems(1) ns by (intro Cons.IH) auto
  with b link f show ?case by (auto simp: Cons_nth_drop_Suc [symmetric])
qed simp

lemma same_chain:
  assumes names: "names_blocks genuine"
  shows "ascends xs \<Longrightarrow> ascends ys \<Longrightarrow> \<forall>x \<in> set xs \<union> set ys. genuine x \<Longrightarrow> xs \<noteq> [] \<Longrightarrow>
    length xs = length ys \<Longrightarrow> last xs = last ys \<Longrightarrow> xs = ys"
proof (induction xs arbitrary: ys rule: rev_induct)
  case (snoc x xs)
  then obtain y ys' where ys: "ys = ys' @ [y]" by (cases ys rule: rev_cases) auto
  with snoc.prems have y: "y = x" "length xs = length ys'" by simp_all
  show ?case
  proof (cases "xs = []")
    case True
    with ys y show ?thesis by simp
  next
    case False
    with y have ne: "ys' \<noteq> []" by auto
    have "hash (last xs) = hash (last ys')"
      using snoc.prems(1,2) False ne by (simp add: ys y ascends_append links_def)
    moreover have "genuine (last xs)" "genuine (last ys')" using snoc.prems(3) False ne by (simp_all add: ys)
    ultimately have "last xs = last ys'" using names by (simp add: names_blocks_def)
    with snoc.IH [of ys'] snoc.prems False y(2) have "xs = ys'" by (simp add: ys ascends_append)
    with ys y show ?thesis by simp
  qed
qed simp

text \<open>A batch that goes through leaves what it says.\<close>

lemma clean_batch_commits:
  assumes ok: "db_ok genuine (chain_id w) db" and names: "names_blocks genuine"
    and ident: "hm_get (chain_identity db) (chain_id w) \<noteq> None"
    and chain: "canon_headers (chain_id w) db = low @ a # ups"
    and events: "db_events b = map DRollback (rev ups) @ map DApply bs" "db_common_ancestor b = Some a"
    and linked: "ascends (a # map ib_header bs)" and nonempty: "db_events b \<noteq> []"
    and gen: "\<forall>x \<in> set bs. genuine (ib_header x) \<and> block_fits x"
  shows "\<exists>rep db'. apply_batch clean w b db = (Inr rep, db') \<and> db_ok genuine (chain_id w) db' \<and>
    canon_headers (chain_id w) db' = low @ a # map ib_header bs \<and>
    rolled_back_blocks rep = length ups \<and> applied_blocks rep = length bs"
proof -
  have "\<not> durable_is_empty b" using nonempty by (simp add: durable_is_empty_def)
  with reorg_body_commits [OF db_okD(1) [OF ok] ident chain events linked nonempty db_okD(3) [OF ok] names gen]
  obtain rep db' where run: "apply_batch_inner clean None w b db = (Returned (Inr rep), db')"
    and rep: "rolled_back_blocks rep = length ups" "applied_blocks rep = length bs"
    by (auto simp: apply_batch_inner_def clean_def)
  then have ab: "apply_batch clean w b db = (Inr rep, db')" by (simp add: apply_batch_def)
  have c: "canon_headers (chain_id w) db = (low @ [a]) @ ups" "db_common_ancestor b = tip_of (low @ [a])"
    using chain events(2) by simp_all
  have "ascends (low @ a # map ib_header bs)"
    using db_okD(4) [OF ok] linked ascends_replace unfolding chain by blast
  then have a: "ascends ((low @ [a]) @ map ib_header bs)" "(low @ [a]) @ map ib_header bs \<noteq> []" by simp_all
  have g: "\<forall>x \<in> set bs. genuine (ib_header x)" using gen by blast
  from batch_keeps_ok [OF ok names ab c(1) events(1) c(2) a nonempty g] rep ab show ?thesis by auto
qed


text \<open>
  The plan made from such a source: the persisted chain is kept up to a block of the source, and the
  rest of the source is applied.
\<close>

lemma plan_succeeds:
  assumes ok: "db_ok genuine (chain_id w) db" and S: "serves_chain blks S"
    and C: "canon_headers (chain_id w) db = low @ a # ups" and a: "a \<in> ib_header ` set blks"
    and depth: "min (unat (height (last (a # ups)))) (length blks - 1) - unat (height a) \<le> unat depth"
  shows "\<exists>common evs sn'. reconciliation_plan (\<lambda>_. False) S w depth db sn = (Inr (common, evs), sn') \<and>
    (\<exists>x \<in> ib_header ` set blks. common = Some x \<and> x \<in> set (canon_headers (chain_id w) db) \<and>
      (\<exists>rbs. evs = map DRollback rbs @ map DApply (drop (Suc (unat (height x))) blks)))"
proof -
  let ?C = "canon_headers (chain_id w) db" and ?x = "last (a # ups)" and ?h = "height (ib_header (last blks))"
  note wf = db_okD(2) [OF ok] and asc = db_okD(4) [OF ok, unfolded C]
  have len: "blks \<noteq> []" "length blks < 2 ^ 63" using S by (simp_all add: serves_chain_def)
  note h = serves_chainD(2) [OF S]
  obtain sn1 where 1: "ask_head S sn = (Inr (last blks), sn1)" using serves_chainD(4) [OF S, of sn] by (metis prod.collapse)
  have last: "last ?C = ?x" using C by simp
  have "read_checkpoint w db = Inr (Some (checkpoint_of ?x))"
    using read_checkpoint_ok [OF ok] C by (simp add: tip_of_def)
  then obtain sn2 where 2: "pg_read (\<lambda>_. False) (read_checkpoint w) db sn1 = (Inr (Some (checkpoint_of ?x)), sn2)"
    by (simp add: pg_read_def)
  let ?n = "min (height ?x) ?h"
  have "height a \<le> height ?x"
    using ascends_length [of a ups] asc by (simp add: ascends_append word_nat_simps)
  moreover obtain j where j: "j < length blks" "a = ib_header (blks ! j)" using a by (auto simp: in_set_conv_nth)
  then have "unat (height a) \<le> length blks - 1" using serves_chainD(1) [OF S j(1)] by simp
  ultimately have an: "height a \<le> ?n" using h by (simp add: word_nat_simps unat_min)
  have "unat ?n \<le> length blks - 1" using h by (simp add: unat_min)
  moreover have "0 < length blks" using len(1) by simp
  ultimately have n1: "unat ?n < length blks" by linarith
  have n2: "?n \<le> height ?x" by (rule min.cobounded1)
  have d: "unat ?n - unat (height a) + unat (0 :: u64) \<le> unat depth" using depth h by (simp add: unat_min)
  have "unat ?n + unat (0 :: u64) < 2 ^ 64" using u64_le_max [of ?n] by simp
  from walk_back_succeeds [OF S wf C asc a n1 n2 an d this, of sn2] obtain x sn3 where
    3: "walk_back (\<lambda>_. False) S w db depth ?n 0 sn2 = (Inr (Some x), sn3)" and x: "x \<in> ib_header ` set blks" by blast
  have "unat ?n + unat (0 :: u64) < 2 ^ 64" using u64_le_max [of ?n] by simp
  from walk_back_finds [OF 3 wf this] have xC: "x \<in> set ?C" "height x \<le> ?n" by auto
  have fits: "unat (height x) \<le> i64_max" "unat (height ?x) \<le> i64_max"
    using canon_height_fits [OF wf xC(1)] canon_height_fits [OF wf, of ?x "chain_id w"] last_in_set [of ?C] C
    by (simp_all only: last) simp
  obtain rbs where "canonical_headers_descending w (height ?x) (height x) db = Inr rbs"
    using headers_descending_reads [OF wf fits(2,1)] by blast
  then obtain sn4 where 4: "checkpoint_rollbacks (\<lambda>_. False) w db (Some (checkpoint_of ?x)) (Some x) sn3 = (Inr rbs, sn4)"
    by (simp add: checkpoint_rollbacks_def pg_read_def checkpoint_of_def)
  obtain i where i: "i < length blks" "x = ib_header (blks ! i)" using x by (auto simp: in_set_conv_nth)
  then have hi: "unat (height x) = i" using serves_chainD(1) [OF S] by simp
  have "height x \<noteq> - 1" using fits(1) by (auto simp: unat_max_word i64_max_def)
  moreover have "Suc (length blks - 1) = length blks" using i(1) by simp
  ultimately have hs: "heights (height x + 1) ?h = map of_nat [Suc i ..< length blks]"
    unfolding heights_def h using unat_succ [of "height x"] hi by (simp del: upt_Suc)
  have "Suc i + length (heights (height x + 1) ?h) = length blks" using i(1) by (simp add: hs)
  then obtain sn5 where "fetch_linked S (heights (height x + 1) ?h) (Some (hash x)) sn4 =
      (Inr (take (length (heights (height x + 1) ?h)) (drop (Suc i) blks)), sn5)"
    using fetch_linked_succeeds [OF S, of "Suc i" "heights (height x + 1) ?h" "Some (hash x)" sn4] i(2) hs by auto
  then have 5: "fetch_linked S (heights (height x + 1) ?h) (Some (hash x)) sn4 = (Inr (drop (Suc i) blks), sn5)"
    by (simp add: hs)
  have f: "find_reconciliation_common_ancestor (\<lambda>_. False) S w db (Some (checkpoint_of ?x)) ?h depth sn2 = (Inr (Some x), sn3)"
    using 3 by (simp del: last.simps add: find_reconciliation_common_ancestor_def checkpoint_of_def)
  have "reconciliation_plan (\<lambda>_. False) S w depth db sn = (Inr (Some x, map DRollback rbs @ map DApply (drop (Suc i) blks)), sn5)"
    by (simp del: last.simps add: reconciliation_plan_def 1 2 f 4 5)
  with x xC(1) hi show ?thesis by blast
qed

lemma durable_split:
  "map DRollback xs @ map DApply ys = map DRollback xs' @ map DApply ys' \<Longrightarrow> xs = xs' \<and> ys = ys'"
proof (induction xs arbitrary: xs')
  case Nil
  then show ?case by (cases xs'; cases ys) (auto simp: inj_map_eq_map inj_def)
next
  case (Cons x xs)
  then show ?case by (cases xs'; cases ys') auto
qed

text \<open>
  C8: Startup reconciliation converges.  If the source serves one linked chain of blocks from block
  0 on that fit the schema, the persisted chain also starts at block 0, and they share a block that
  is at most \<open>max_walk_back_depth\<close> below the lower of the two tips, then with a connection that
  holds the reconciliation succeeds, and the canonical chain of the database is the chain of the
  source, however the two had diverged.
\<close>
theorem reconcile_converges:
  assumes ok: "db_ok genuine (chain_id w) db" and names: "names_blocks genuine"
    and ident: "hm_get (chain_identity db) (chain_id w) \<noteq> None"
    and S: "serves_chain blks S" and gen: "\<forall>b \<in> set blks. genuine (ib_header b) \<and> block_fits b"
    and C: "canon_headers (chain_id w) db = low @ a # ups" and start: "height (hd (low @ [a])) = 0"
    and a: "a \<in> ib_header ` set blks"
    and depth: "min (unat (height (last (a # ups)))) (length blks - 1) - unat (height a) \<le> unat depth"
  shows "\<exists>sm db' sn'. reconcile_to_head clean (\<lambda>_. False) S w depth db sn = (Inr sm, db', sn') \<and>
    canon_headers (chain_id w) db' = map ib_header blks \<and>
    rec_checkpoint sm = Some (checkpoint_of (ib_header (last blks)))"
proof -
  let ?c = "chain_id w" let ?C = "canon_headers ?c db"
  have ne: "blks \<noteq> []" "ascends (map ib_header blks)" using S by (simp_all add: serves_chain_def)
  have serves: "source_serves genuine S" using serves_chain_serves [OF S] gen by blast
  note asc = db_okD(4) [OF ok]
  from plan_succeeds [OF ok S C a depth, of sn] obtain x rbs sn1 where
    plan: "reconciliation_plan (\<lambda>_. False) S w depth db sn =
      (Inr (Some x, map DRollback rbs @ map DApply (drop (Suc (unat (height x))) blks)), sn1)" and
    x: "x \<in> ib_header ` set blks" "x \<in> set ?C" by blast
  let ?bs = "drop (Suc (unat (height x))) blks"
  obtain hd0 s1 where head: "rs_head S (fst sn) = (Inr hd0, s1)"
    using plan by (auto simp: reconciliation_plan_def ask_head_def try_simps split: prod.splits)
  from plan_outcome [OF ok serves plan head] obtain base ups' bs' where
    P: "?C = base @ ups'" "map DRollback rbs @ map DApply ?bs = map DRollback (rev ups') @ map DApply bs'"
      "Some x = tip_of base" "ascends (base @ map ib_header bs')" by blast
  from durable_split [OF P(2)] have bs': "bs' = ?bs" and rbs: "map DRollback rbs = map DRollback (rev ups')" by simp_all
  from P(3) obtain low' where base: "base = low' @ [x]"
    by (cases base rule: rev_cases) auto
  obtain i where i: "i < length blks" "x = ib_header (blks ! i)" using x(1) by (auto simp: in_set_conv_nth)
  then have hi: "unat (height x) = i" using serves_chainD(1) [OF S] by simp
  have below: "base = map ib_header (take (Suc i) blks)"
  proof (rule same_chain [OF names])
    have "hd base = hd (low @ [a])" using arg_cong [OF P(1), of hd] C base by (cases low; cases low') auto
    moreover have "ascends base" using P(4) by (simp add: ascends_append)
    ultimately have "length base = Suc i"
      using ascends_nth_height [of base "length base - 1"] start hi base by (simp add: nth_append)
    then show "length base = length (map ib_header (take (Suc i) blks))" using i(1) by simp
    show "ascends base" by fact
    show "ascends (map ib_header (take (Suc i) blks))"
      using ne(2) append_take_drop_id [of "Suc i" "map ib_header blks"] ascends_append
      by (metis take_map)
    show "last base = last (map ib_header (take (Suc i) blks))"
      using i base by (simp add: take_Suc_conv_app_nth)
    have "\<forall>y \<in> set ?C. genuine y"
      using db_okD(3) [OF ok] unfolding set_canon_headers [OF db_okD(2) [OF ok]]
      by (auto simp: canon_set_def rows_genuine_def)
    moreover have "set base \<subseteq> set ?C" using P(1) by simp
    moreover have "set (take (Suc i) blks) \<subseteq> set blks" by (rule set_take_subset)
    ultimately show "\<forall>y \<in> set base \<union> set (map ib_header (take (Suc i) blks)). genuine y"
      using gen by auto
    show "base \<noteq> []" using base by simp
  qed
  have whole: "base @ map ib_header ?bs = map ib_header blks"
    unfolding below hi by (simp only: map_append [symmetric] append_take_drop_id)
  show ?thesis
  proof (cases "ups' = [] \<and> ?bs = []")
    case True
    with rbs plan bs' have none: "reconciliation_plan (\<lambda>_. False) S w depth db sn = (Inr (Some x, []), sn1)" by simp
    from whole True have "base = map ib_header blks" by simp
    moreover from P(1) True have C': "?C = base" by simp
    ultimately have "read_checkpoint w db = Inr (Some (checkpoint_of (ib_header (last blks))))"
      using read_checkpoint_ok [OF ok] ne(1) by (simp add: tip_of_def last_map)
    with none C' \<open>base = map ib_header blks\<close> show ?thesis
      by (simp add: reconcile_to_head_def pg_read_def summary_default_def)
  next
    case False
    let ?evs = "map DRollback rbs @ map DApply ?bs"
    let ?b = "\<lparr>db_transition = reconciliation_transition ?evs (Some x), db_common_ancestor = Some x, db_events = ?evs\<rparr>"
    have C': "?C = low' @ x # ups'" using P(1) base by simp
    have ev: "db_events ?b = map DRollback (rev ups') @ map DApply ?bs" "db_common_ancestor ?b = Some x" "db_events ?b \<noteq> []"
      using rbs False by simp_all
    have linked: "ascends (x # map ib_header ?bs)"
      using P(4) unfolding bs' base by (simp add: ascends_append)
    have g: "\<forall>b \<in> set ?bs. genuine (ib_header b) \<and> block_fits b" using gen by (meson in_set_dropD)
    from clean_batch_commits [OF ok names ident C' ev(1,2) linked ev(3) g] obtain rep db' where
      ab: "apply_batch clean w ?b db = (Inr rep, db')" "db_ok genuine ?c db'"
      "canon_headers ?c db' = low' @ x # map ib_header ?bs" by blast
    with whole base have all: "canon_headers ?c db' = map ib_header blks" by simp
    have "read_checkpoint w db' = Inr (Some (checkpoint_of (ib_header (last blks))))"
      using read_checkpoint_ok [OF ab(2)] ne(1) by (simp add: all tip_of_def last_map)
    then show ?thesis using plan ab(1) all ev(3)
      by (simp only: reconcile_to_head_def) (simp add: pg_read_def del: append_is_Nil_conv)
  qed
qed





section \<open>A sample source\<close>

text \<open>The fork of the sample database: a source whose head is \<open>pg_c\<close> instead of \<open>pg_b\<close>.\<close>

definition sample_rec_source :: "unit reconciliation_source" where
  "sample_rec_source = \<lparr>rs_head = (\<lambda>s. (Inr sample_block, s)),
     rs_block_by_height = (\<lambda>n s. (Inr (if n = 10 then Some (sample_block\<lparr>ib_header := pg_a\<rparr>)
       else if n = 11 then Some sample_block else None), s))\<rparr>"

lemma sample_db_ok: "db_ok (\<lambda>x. x \<in> {pg_a, pg_b, pg_c}) 1 sample_db"
  using sample_sink_ok by (simp add: sink_ok_def sample_sink_def sample_events)

theorem reconcile_keeps_one_chain_witness:
  "db_ok (\<lambda>x. x \<in> {pg_a, pg_b, pg_c}) 1
     (fst (snd (reconcile_to_head sample_faults (\<lambda>n. n = 5) sample_rec_source sample_writer 3 sample_db ((), 0))))"
proof -
  have "source_serves (\<lambda>x. x \<in> {pg_a, pg_b, pg_c}) sample_rec_source"
    by (auto simp: source_serves_def sample_rec_source_def sample_events sample_headers split: if_splits)
  moreover have "db_ok (\<lambda>x. x \<in> {pg_a, pg_b, pg_c}) (chain_id sample_writer) sample_db"
    using sample_db_ok by (simp add: sample_events)
  ultimately show ?thesis
    using reconcile_keeps_one_chain [OF _ sample_genuine(1) _ prod.collapse [symmetric, THEN trans, OF
      arg_cong2 [where f = Pair, OF refl prod.collapse [symmetric]]], of sample_writer sample_db sample_rec_source]
    by (simp add: sample_events)
qed


text \<open>A database with the chain \<open>fk_g\<close>, \<open>fk_o\<close> and a source that forked after \<open>fk_g\<close>.\<close>

definition fk_g :: block_header where "fk_g = BlockHeader (fill 1) (fill 0) 0"
definition fk_o :: block_header where "fk_o = BlockHeader (fill 2) (fill 1) 1"
definition fk_n :: block_header where "fk_n = BlockHeader (fill 3) (fill 1) 1"
definition fk_m :: block_header where "fk_m = BlockHeader (fill 4) (fill 3) 2"

definition fork_db :: database where
  "fork_db = empty_db\<lparr>chain_identity := [(1, fill 1)],
     blocks_table := [((1, fill 1), sample_row 0 0), ((1, fill 2), sample_row 1 1)],
     checkpoint_table := [(1, (1, fill 2))],
     outbox_table := [sample_entry 1 1 0, sample_entry 2 2 1], outbox_seq := 3\<rparr>"

definition fork_blocks :: "indexed_block list" where
  "fork_blocks = map (\<lambda>x. sample_block\<lparr>ib_header := x\<rparr>) [fk_g, fk_n, fk_m]"

definition fork_source :: "unit reconciliation_source" where
  "fork_source = \<lparr>rs_head = (\<lambda>s. (Inr (last fork_blocks), s)),
     rs_block_by_height = (\<lambda>n s. (Inr (if unat n < length fork_blocks then Some (fork_blocks ! unat n) else None), s))\<rparr>"

definition fork_genuine :: "block_header \<Rightarrow> bool" where
  "fork_genuine x \<longleftrightarrow> x \<in> {fk_g, fk_o, fk_n, fk_m}"

lemmas fork_headers = fk_g_def fk_o_def fk_n_def fk_m_def

lemma get_block_fork [simp]:
  "get_block c h fork_db =
     (if c = 1 \<and> h = fill 1 then Some (sample_row 0 0)
      else if c = 1 \<and> h = fill 2 then Some (sample_row 1 1) else None)"
  by (auto simp: get_block_def fork_db_def hm_get_def)

lemma fork_canon: "canon_headers 1 fork_db = [fk_g, fk_o]"
proof -
  have "canonical_rows 1 fork_db = [(fill 1, sample_row 0 0), (fill 2, sample_row 1 1)]"
    by (simp add: canonical_rows_def fork_db_def sample_row_def)
  then show ?thesis
    by (simp add: canon_headers_def sample_row_def row_header_def fork_headers)
qed

lemma fork_db_ok: "db_ok fork_genuine 1 fork_db"
proof -
  have "rows_wf fork_db"
    unfolding rows_wf_def
    by (auto simp: fork_db_def empty_db_def hm_inv_def hm_get_def block_at_def sample_row_def get_block_def
        split: if_splits)
  moreover have "replay c (outbox_table fork_db) = {h. canonical c h fork_db}" for c
    by (auto simp: replay_def replay_event_def fork_db_def sample_entry_def canonical_def sample_row_def
        get_block_def hm_get_def split: if_splits)
  then have "journal_wf fork_db"
    by (simp add: journal_wf_def) (simp add: fork_db_def sample_entry_def block_at_def sample_row_def
        get_block_def hm_get_def)
  ultimately have "db_inv fork_db" by (simp add: db_inv_def)
  moreover have "rows_genuine fork_genuine 1 fork_db"
    by (auto simp: fork_genuine_def rows_genuine_def fork_headers row_header_def sample_row_def split: if_splits)
  moreover have "checkpoint_at 1 (Some fk_o) fork_db"
    by (simp add: checkpoint_at_def fork_db_def hm_get_def fork_headers)
  moreover have "ascends [fk_g, fk_o]" by (simp add: ascends_def links_def fork_headers)
  ultimately show ?thesis by (simp add: db_ok_def fork_canon)
qed

lemma fork_serves: "serves_chain fork_blocks fork_source"
  by (simp add: serves_chain_def fork_source_def) (simp add: fork_blocks_def ascends_def links_def fork_headers)

text \<open>
  The database ends with the source's chain: \<open>fk_o\<close> was rolled back, \<open>fk_n\<close> and \<open>fk_m\<close> applied.
\<close>

theorem reconcile_converges_witness:
  "\<exists>sm db' sn'. reconcile_to_head clean (\<lambda>_. False) fork_source sample_writer 5 fork_db ((), 0) = (Inr sm, db', sn') \<and>
     canon_headers 1 db' = [fk_g, fk_n, fk_m] \<and> rec_checkpoint sm = Some (checkpoint_of fk_m)"
proof -
  have w: "chain_id sample_writer = 1" by (simp add: sample_events)
  have names: "names_blocks fork_genuine"
    by (auto simp: names_blocks_def fork_genuine_def fork_headers)
  have gen: "\<forall>b \<in> set fork_blocks. fork_genuine (ib_header b) \<and> block_fits b"
    by (simp add: fork_blocks_def fork_genuine_def block_fits_def fork_headers i64_max_def sample_block_def
        log_fits_def i32_max_def)
  have ok: "db_ok fork_genuine (chain_id sample_writer) fork_db" using fork_db_ok w by simp
  have ident: "hm_get (chain_identity fork_db) (chain_id sample_writer) \<noteq> None" by (simp add: w fork_db_def hm_get_def)
  have C: "canon_headers (chain_id sample_writer) fork_db = [] @ fk_g # [fk_o]" by (simp add: w fork_canon)
  have start: "height (hd ([] @ [fk_g])) = 0" by (simp add: fork_headers)
  have mem: "fk_g \<in> ib_header ` set fork_blocks" by (simp add: fork_blocks_def)
  have depth: "min (unat (height (last [fk_g, fk_o]))) (length fork_blocks - 1) - unat (height fk_g) \<le> unat (5 :: u64)"
    by (simp add: fork_blocks_def fork_headers)
  have "map ib_header fork_blocks = [fk_g, fk_n, fk_m]" "ib_header (last fork_blocks) = fk_m"
    by (simp_all add: fork_blocks_def)
  with reconcile_converges [OF ok names ident fork_serves gen C start mem depth, of "((), 0)"] w show ?thesis by simp
qed



end
