(* ===== verification/Writer_Queue.thy ===== *)
theory Writer_Queue
  imports Live_Store
begin

text \<open>
  \<open>SerializedWriter\<close> of \<open>chainweave-sink/src/postgres.rs\<close>: one worker task that applies the durable
  batches of a bounded channel in the order in which they were submitted, and its shutdown.

  The submitters, the shutdown and the worker run concurrently, so their steps are the transitions
  of a relation, labelled with what happened.  The channel is the library's: it hands over messages
  in order, \<open>send\<close> waits while it is full and fails once the receiver is closed or gone, and a closed
  receiver still hands over what was accepted before.
\<close>

section \<open>The task and its handle\<close>

datatype writer_queue_error = ShuttingDown | Closed

datatype worker = Running | Draining | Stopped

record writer_queue =
  wq_writer :: pg_writer
  wq_capacity :: nat
  wq_sender :: bool
  wq_cancelled :: bool
  wq_channel :: "durable_batch list"
  wq_worker :: worker
  wq_db :: database

definition writer_spawn :: "pg_writer \<Rightarrow> nat \<Rightarrow> database \<Rightarrow> writer_queue" where
  "writer_spawn w capacity db =
     \<lparr>wq_writer = w, wq_capacity = capacity, wq_sender = True, wq_cancelled = False, wq_channel = [],
      wq_worker = Running, wq_db = db\<rparr>"

text \<open>What \<open>submit\<close> does: an error at once, an accepted batch, or (\<open>None\<close>) waiting for room.\<close>

definition submit :: "durable_batch \<Rightarrow> writer_queue \<Rightarrow> ((writer_queue_error + unit) \<times> writer_queue) option" where
  "submit b q =
     (if wq_cancelled q then Some (Inl ShuttingDown, q)
      else if \<not> wq_sender q then Some (Inl ShuttingDown, q)
      else if wq_worker q \<noteq> Running then Some (Inl Closed, q)
      else if length (wq_channel q) < wq_capacity q then Some (Inr (), q\<lparr>wq_channel := wq_channel q @ [b]\<rparr>)
      else None)"

text \<open>The worker takes the next batch; a failed batch ends it, and what is still queued is dropped.\<close>

definition work_on :: "faults \<Rightarrow> durable_batch \<Rightarrow> durable_batch list \<Rightarrow> writer_queue \<Rightarrow> (pg_error + apply_report) \<times> writer_queue" where
  "work_on flt b bs q =
     (case apply_batch flt (wq_writer q) b (wq_db q) of
        (Inl e, db) \<Rightarrow> (Inl e, q\<lparr>wq_channel := [], wq_worker := Stopped, wq_db := db\<rparr>)
      | (Inr rep, db) \<Rightarrow> (Inr rep, q\<lparr>wq_channel := bs, wq_db := db\<rparr>))"

datatype queue_event =
    Submitted durable_batch "writer_queue_error + unit"
  | CancelRequested
  | SenderTaken
  | Worked faults durable_batch "pg_error + apply_report"
  | DrainStarted
  | WorkerEnded

inductive queue_step :: "writer_queue \<Rightarrow> queue_event \<Rightarrow> writer_queue \<Rightarrow> bool" where
  submitted: "submit b q = Some (r, q') \<Longrightarrow> queue_step q (Submitted b r) q'"
| cancel: "queue_step q CancelRequested (q\<lparr>wq_cancelled := True\<rparr>)"
| take_sender: "wq_cancelled q \<Longrightarrow> queue_step q SenderTaken (q\<lparr>wq_sender := False\<rparr>)"
| select_cancelled: "wq_worker q = Running \<Longrightarrow> wq_cancelled q \<Longrightarrow> queue_step q DrainStarted (q\<lparr>wq_worker := Draining\<rparr>)"
| received: "wq_worker q \<noteq> Stopped \<Longrightarrow> wq_channel q = b # bs \<Longrightarrow> work_on flt b bs q = (r, q') \<Longrightarrow>
    queue_step q (Worked flt b r) q'"
| drained: "wq_channel q = [] \<Longrightarrow> wq_worker q = Draining \<or> wq_worker q = Running \<and> \<not> wq_sender q \<Longrightarrow>
    queue_step q WorkerEnded (q\<lparr>wq_worker := Stopped\<rparr>)"

inductive queue_run :: "writer_queue \<Rightarrow> queue_event list \<Rightarrow> writer_queue \<Rightarrow> bool" where
  queue_start: "queue_run q [] q"
| queue_more: "queue_run q es q' \<Longrightarrow> queue_step q' e q'' \<Longrightarrow> queue_run q (es @ [e]) q''"

inductive_cases queue_stepE: "queue_step q e q'"

section \<open>What a run does\<close>

fun accepted :: "queue_event \<Rightarrow> durable_batch list" where
  "accepted (Submitted b (Inr u)) = [b]"
| "accepted e = []"

fun worked :: "queue_event \<Rightarrow> (faults \<times> durable_batch \<times> (pg_error + apply_report)) list" where
  "worked (Worked flt b r) = [(flt, b, r)]"
| "worked e = []"

definition all_accepted :: "queue_event list \<Rightarrow> durable_batch list" where
  "all_accepted es = concat (map accepted es)"

definition all_worked :: "queue_event list \<Rightarrow> (faults \<times> durable_batch \<times> (pg_error + apply_report)) list" where
  "all_worked es = concat (map worked es)"

text \<open>The reference: one batch after the other, stopping after the first that fails.\<close>

fun in_sequence :: "pg_writer \<Rightarrow> (faults \<times> durable_batch \<times> (pg_error + apply_report)) list \<Rightarrow> database \<Rightarrow> database \<Rightarrow> bool" where
  "in_sequence w [] db db' \<longleftrightarrow> db' = db"
| "in_sequence w ((flt, b, r) # rest) db db' \<longleftrightarrow>
     (\<exists>db1. apply_batch flt w b db = (r, db1) \<and> (is_ok r \<or> rest = []) \<and> in_sequence w rest db1 db')"

lemma in_sequence_snoc:
  "in_sequence w xs db db1 \<Longrightarrow> \<forall>x \<in> set xs. is_ok (snd (snd x)) \<Longrightarrow> apply_batch flt w b db1 = (r, db2) \<Longrightarrow>
   in_sequence w (xs @ [(flt, b, r)]) db db2"
  by (induction xs arbitrary: db) auto

definition ended_badly :: "queue_event list \<Rightarrow> bool" where
  "ended_badly es \<longleftrightarrow> (\<exists>x \<in> set (all_worked es). \<not> is_ok (snd (snd x)))"

definition worked_batches :: "queue_event list \<Rightarrow> durable_batch list" where
  "worked_batches es = map (\<lambda>x. fst (snd x)) (all_worked es)"

definition queue_inv :: "pg_writer \<Rightarrow> database \<Rightarrow> queue_event list \<Rightarrow> writer_queue \<Rightarrow> bool" where
  "queue_inv w db es q \<longleftrightarrow> wq_writer q = w \<and> in_sequence w (all_worked es) db (wq_db q) \<and>
     (\<exists>rest. all_accepted es = worked_batches es @ rest \<and>
        (if ended_badly es then wq_worker q = Stopped else rest = wq_channel q)) \<and>
     (wq_worker q = Stopped \<longrightarrow> wq_channel q = [])"

lemma events_snoc [simp]:
  "all_accepted (es @ [e]) = all_accepted es @ accepted e"
  "all_worked (es @ [e]) = all_worked es @ worked e"
  "worked_batches (es @ [e]) = worked_batches es @ map (\<lambda>x. fst (snd x)) (worked e)"
  "ended_badly (es @ [e]) \<longleftrightarrow> ended_badly es \<or> (\<exists>x \<in> set (worked e). \<not> is_ok (snd (snd x)))"
  by (auto simp: all_accepted_def all_worked_def worked_batches_def ended_badly_def)

lemma submit_Some:
  assumes "submit b q = Some (r, q')"
  obtains e where "r = Inl e" "q' = q"
    | "r = Inr ()" "wq_worker q = Running" "q' = q\<lparr>wq_channel := wq_channel q @ [b]\<rparr>"
proof -
  from assms have "(\<exists>e. r = Inl e \<and> q' = q) \<or>
      (r = Inr () \<and> wq_worker q = Running \<and> q' = q\<lparr>wq_channel := wq_channel q @ [b]\<rparr>)"
    by (auto simp: submit_def split: if_splits)
  then show thesis using that by blast
qed

lemma queue_inv_step:
  assumes inv: "queue_inv w db es q" and step: "queue_step q e q'"
  shows "queue_inv w db (es @ [e]) q'"
proof -
  from inv obtain rest where q: "wq_writer q = w" "in_sequence w (all_worked es) db (wq_db q)"
    "all_accepted es = worked_batches es @ rest" "if ended_badly es then wq_worker q = Stopped else rest = wq_channel q"
    "wq_worker q = Stopped \<longrightarrow> wq_channel q = []" by (auto simp: queue_inv_def)
  from step show ?thesis
  proof cases
    case (submitted b r)
    from submitted(2) show ?thesis
    proof (cases rule: submit_Some)
      case (1 x)
      with submitted(1) q show ?thesis by (simp add: queue_inv_def)
    next
      case 2
      then have "\<not> ended_badly es" using q(4) by (auto split: if_splits)
      with 2 submitted(1) q show ?thesis by (simp add: queue_inv_def)
    qed
  next
    case (received b bs flt r)
    from q(4) received(2) have ok: "\<not> ended_badly es" "rest = b # bs" using received(3) by (auto split: if_splits)
    obtain db1 where ab: "apply_batch flt w b (wq_db q) = (r, db1)"
      using received(4) q(1) by (auto simp: work_on_def split: prod.splits sum.splits)
    have "\<forall>x \<in> set (all_worked es). is_ok (snd (snd x))" using ok(1) by (simp add: ended_badly_def)
    from in_sequence_snoc [OF q(2) this ab] have seq: "in_sequence w (all_worked es @ [(flt, b, r)]) db db1" .
    show ?thesis
    proof (cases r)
      case (Inl x)
      with ab received(4) q(1) have "q' = q\<lparr>wq_channel := [], wq_worker := Stopped, wq_db := db1\<rparr>"
        by (simp add: work_on_def)
      with seq q ok received(1,3) Inl show ?thesis by (auto simp: queue_inv_def)
    next
      case (Inr rep)
      with ab received(4) q(1) have "q' = q\<lparr>wq_channel := bs, wq_db := db1\<rparr>"
        by (simp add: work_on_def)
      with seq q ok received(1,2,3) Inr show ?thesis by (auto simp: queue_inv_def)
    qed
  qed (use q in \<open>auto simp: queue_inv_def split: if_splits\<close>)
qed

lemma queue_inv_run: "queue_run q es q' \<Longrightarrow> queue_inv w db [] q \<Longrightarrow> queue_inv w db es q'"
  by (induction rule: queue_run.induct) (auto intro: queue_inv_step)




lemma in_sequence_inv: "in_sequence w xs db db' \<Longrightarrow> db_inv db \<Longrightarrow> db_inv db'"
proof (induction w xs db db' rule: in_sequence.induct)
  case (2 w flt b r rest db db')
  then obtain db1 where ab: "apply_batch flt w b db = (r, db1)" and rest: "in_sequence w rest db1 db'" by auto
  from ab obtain wr where "apply_batch_inner flt None w b db = (wr, db1)"
    by (auto simp: apply_batch_def split: prod.splits write_result.splits)
  from batch_keeps_inv [OF "2.prems"(2) this] "2.IH" rest show ?case by blast
qed simp

text \<open>
  C25: The serialized writer is the sequential writer.  Whatever the interleaving of submissions,
  shutdown and the worker, and whatever fails: the batches that were worked on are the accepted ones
  in the order of their submission, each once; the database is the result of applying them one after
  the other; at most the last of them failed, and then the worker stops.  Unless one failed, every
  accepted batch is either worked on or still in the channel.
\<close>
theorem serialized_writer_is_sequential:
  assumes "queue_run (writer_spawn w capacity db) es q"
  shows "in_sequence w (all_worked es) db (wq_db q) \<and>
    (\<exists>rest. all_accepted es = worked_batches es @ rest \<and> (ended_badly es \<or> rest = wq_channel q)) \<and>
    (ended_badly es \<longrightarrow> wq_worker q = Stopped) \<and> (db_inv db \<longrightarrow> db_inv (wq_db q))"
proof -
  have "queue_inv w db [] (writer_spawn w capacity db)"
    by (simp add: queue_inv_def writer_spawn_def all_worked_def all_accepted_def worked_batches_def ended_badly_def)
  from queue_inv_run [OF assms this] in_sequence_inv show ?thesis
    by (fastforce simp: queue_inv_def split: if_splits)
qed

section \<open>Shutdown\<close>

definition worker_event :: "queue_event \<Rightarrow> bool" where
  "worker_event e \<longleftrightarrow> (case e of Worked _ _ _ \<Rightarrow> True | DrainStarted \<Rightarrow> True | WorkerEnded \<Rightarrow> True | _ \<Rightarrow> False)"

lemma worker_event_simps [simp]:
  "worker_event (Worked flt b r)" "worker_event DrainStarted" "worker_event WorkerEnded"
  "\<not> worker_event (Submitted b s)" "\<not> worker_event CancelRequested" "\<not> worker_event SenderTaken"
  by (simp_all add: worker_event_def)

text \<open>What the worker still has to do.\<close>

definition work_left :: "writer_queue \<Rightarrow> nat" where
  "work_left q = (case wq_worker q of Stopped \<Rightarrow> 0 | Draining \<Rightarrow> length (wq_channel q) + 1 | Running \<Rightarrow> length (wq_channel q) + 2)"

lemma cancelled_step:
  assumes "queue_step q e q'" and "wq_cancelled q"
  shows "wq_cancelled q' \<and> work_left q' + (if worker_event e then 1 else 0) \<le> work_left q"
  using assms(1)
proof cases
  case (submitted b r)
  with assms(2) show ?thesis by (auto simp: submit_def worker_event_def)
next
  case (received b bs flt r)
  then show ?thesis using assms(2)
    by (auto simp: work_on_def worker_event_def work_left_def split: prod.splits sum.splits worker.splits)
qed (use assms(2) in \<open>auto simp: worker_event_def work_left_def split: worker.splits\<close>)

text \<open>
  C32: A shutdown drains and ends.  Once cancelled, the worker makes at most two steps more than there
  are batches in the channel, however its environment behaves; as long as it has not stopped it can
  make a step; and once it has stopped without a failed batch, every batch that was ever accepted has
  been applied.
\<close>
theorem shutdown_drains:
  assumes "queue_run (writer_spawn w capacity db) es q" and "wq_cancelled q"
  shows "(\<forall>es' q'. queue_run q es' q' \<longrightarrow> length (filter worker_event es') + work_left q' \<le> length (wq_channel q) + 2) \<and>
    (wq_worker q \<noteq> Stopped \<longrightarrow> (\<exists>e q'. worker_event e \<and> queue_step q e q')) \<and>
    (wq_worker q = Stopped \<and> \<not> ended_badly es \<longrightarrow> all_accepted es = worked_batches es)"
proof (intro conjI allI impI)
  fix es' q' assume "queue_run q es' q'"
  then have "wq_cancelled q' \<and> length (filter worker_event es') + work_left q' \<le> work_left q"
    using assms(2)
  proof (induction rule: queue_run.induct)
    case (queue_more q es q' e q'')
    then have q': "wq_cancelled q'" "length (filter worker_event es) + work_left q' \<le> work_left q" by simp_all
    from cancelled_step [OF queue_more.hyps(2) q'(1)] q'(2) show ?case by (auto split: if_splits)
  qed simp
  moreover have "work_left q \<le> length (wq_channel q) + 2" by (simp add: work_left_def split: worker.split)
  ultimately show "length (filter worker_event es') + work_left q' \<le> length (wq_channel q) + 2" by linarith
next
  assume "wq_worker q \<noteq> Stopped"
  show "\<exists>e q'. worker_event e \<and> queue_step q e q'"
  proof (cases "wq_worker q = Running")
    case True
    from select_cancelled [OF this assms(2)] show ?thesis using worker_event_simps(2) by blast
  next
    case False
    with \<open>wq_worker q \<noteq> Stopped\<close> have d: "wq_worker q = Draining" by (cases "wq_worker q") auto
    show ?thesis
    proof (cases "wq_channel q")
      case Nil
      from drained [OF this disjI1 [OF d]] show ?thesis using worker_event_simps(3) by blast
    next
      case (Cons b bs)
      obtain r q' where "work_on clean b bs q = (r, q')" by (rule prod.exhaust)
      from received [OF \<open>wq_worker q \<noteq> Stopped\<close> Cons this] show ?thesis
        using worker_event_simps(1) by blast
    qed
  qed
next
  assume "wq_worker q = Stopped \<and> \<not> ended_badly es"
  moreover have "queue_inv w db [] (writer_spawn w capacity db)"
    by (simp add: queue_inv_def writer_spawn_def all_worked_def all_accepted_def worked_batches_def ended_badly_def)
  from queue_inv_run [OF assms(1) this] have "queue_inv w db es q" .
  ultimately show "all_accepted es = worked_batches es" by (auto simp: queue_inv_def)
qed


text \<open>A batch is submitted, the shutdown begins, and the worker applies the batch and ends.\<close>

lemma sample_queue_run:
  obtains r q where
    "queue_run (writer_spawn sample_writer 4 sample_db)
       [Submitted sample_durable (Inr ()), CancelRequested, DrainStarted, Worked clean sample_durable (Inr r)] q"
    "wq_worker q = Draining" "wq_channel q = []" "wq_cancelled q"
proof -
  have i: "hm_get (chain_identity sample_db) (chain_id sample_writer) \<noteq> None"
    by (simp add: sample_db_def hm_get_def sample_events)
  have c: "canon_headers (chain_id sample_writer) sample_db = [] @ pg_a # [pg_b]"
    by (simp add: sample_canon sample_events)
  have ne: "db_events sample_durable \<noteq> []" by (simp add: sample_events)
  have g: "rows_genuine (\<lambda>x. x \<in> {pg_a, pg_b, pg_c}) (chain_id sample_writer) sample_db"
    "\<forall>x \<in> set [sample_block]. ib_header x \<in> {pg_a, pg_b, pg_c} \<and> block_fits x"
    using sample_genuine(2) sample_fits by (simp_all add: sample_events)
  from reorg_body_commits [OF sample_db_inv i c sample_events(1,2) sample_linked ne g(1) sample_genuine(1) g(2)]
  obtain rep db' where ab: "apply_batch clean sample_writer sample_durable sample_db = (Inr rep, db')"
    using ne by (auto simp: apply_batch_def apply_batch_inner_def clean_def durable_is_empty_def)
  let ?q = "writer_spawn sample_writer 4 sample_db"
  let ?q1 = "?q\<lparr>wq_channel := [sample_durable]\<rparr>"
  let ?q2 = "?q1\<lparr>wq_cancelled := True\<rparr>"
  let ?q3 = "?q2\<lparr>wq_worker := Draining\<rparr>"
  let ?q4 = "?q3\<lparr>wq_channel := [], wq_db := db'\<rparr>"
  have "submit sample_durable ?q = Some (Inr (), ?q1)" by (simp add: submit_def writer_spawn_def)
  from queue_more [OF queue_start submitted [OF this]]
  have "queue_run ?q [Submitted sample_durable (Inr ())] ?q1" by simp
  from queue_more [OF this cancel] have "queue_run ?q [Submitted sample_durable (Inr ()), CancelRequested] ?q2" by simp
  moreover have "wq_worker ?q2 = Running" "wq_cancelled ?q2" by (simp_all add: writer_spawn_def)
  ultimately have run3: "queue_run ?q [Submitted sample_durable (Inr ()), CancelRequested, DrainStarted] ?q3"
    using queue_more [OF _ select_cancelled, of ?q "[Submitted sample_durable (Inr ()), CancelRequested]" ?q2] by simp
  have w: "work_on clean sample_durable [] ?q3 = (Inr rep, ?q4)" by (simp add: work_on_def writer_spawn_def ab)
  have "queue_step ?q3 (Worked clean sample_durable (Inr rep)) ?q4" by (rule received [OF _ _ w]) simp_all
  from queue_more [OF run3 this] that [of rep ?q4] show ?thesis by simp
qed


theorem serialized_writer_is_sequential_witness:
  "\<exists>r q. queue_run (writer_spawn sample_writer 4 sample_db)
       [Submitted sample_durable (Inr ()), CancelRequested, DrainStarted, Worked clean sample_durable (Inr r)] q \<and>
     in_sequence sample_writer [(clean, sample_durable, Inr r)] sample_db (wq_db q) \<and> db_inv (wq_db q)"
proof -
  obtain r q where run: "queue_run (writer_spawn sample_writer 4 sample_db)
      [Submitted sample_durable (Inr ()), CancelRequested, DrainStarted, Worked clean sample_durable (Inr r)] q"
    by (rule sample_queue_run)
  from serialized_writer_is_sequential [OF run] sample_db_inv
  have "in_sequence sample_writer [(clean, sample_durable, Inr r)] sample_db (wq_db q)" "db_inv (wq_db q)"
    by (simp_all add: all_worked_def)
  with run show ?thesis by blast
qed

theorem shutdown_drains_witness:
  "\<exists>es q. queue_run (writer_spawn sample_writer 4 sample_db) es q \<and> all_accepted es = [sample_durable] \<and>
     worked_batches es = [sample_durable] \<and> (\<exists>e q'. worker_event e \<and> queue_step q e q')"
proof -
  obtain r q where run: "queue_run (writer_spawn sample_writer 4 sample_db)
      [Submitted sample_durable (Inr ()), CancelRequested, DrainStarted, Worked clean sample_durable (Inr r)] q"
    and q: "wq_worker q = Draining" "wq_cancelled q"
    by (rule sample_queue_run)
  let ?es = "[Submitted sample_durable (Inr ()), CancelRequested, DrainStarted, Worked clean sample_durable (Inr r)]"
  have "all_accepted ?es = [sample_durable]" "worked_batches ?es = [sample_durable]"
    by (simp_all add: all_accepted_def worked_batches_def all_worked_def)
  moreover from shutdown_drains [OF run q(2)] q(1) have "\<exists>e q'. worker_event e \<and> queue_step q e q'" by simp
  ultimately show ?thesis using run by blast
qed

end
