(* ===== verification/Config.thy ===== *)
theory Config
  imports Chain Rust_Strings
begin

text \<open>
  The configuration of \<open>chainweave-core/src/config.rs\<close>: its defaults, its validation for the three
  process profiles, and the redaction of URLs.

  URLs are values of the \<open>url\<close> crate, and the sources of configuration are read by \<open>figment\<close>; both
  are parameters: a record of the functions that the code calls.  The documented behaviour that
  proofs use is the predicate \<open>url_laws\<close>.
\<close>

section \<open>The URL library\<close>

record 'u url_lib =
  url_parse :: "string \<Rightarrow> 'u option"
  url_scheme :: "'u \<Rightarrow> string"
  url_host_str :: "'u \<Rightarrow> string option"
  url_password :: "'u \<Rightarrow> string option"
  set_password :: "string \<Rightarrow> 'u \<Rightarrow> 'u"
  path_segments :: "'u \<Rightarrow> string list option"
  set_path_segments :: "string list \<Rightarrow> 'u \<Rightarrow> 'u"
  url_query :: "'u \<Rightarrow> string option"
  query_pairs :: "'u \<Rightarrow> (string \<times> string) list"
  set_query_pairs :: "(string \<times> string) list \<Rightarrow> 'u \<Rightarrow> 'u"
  url_to_string :: "'u \<Rightarrow> string"




section \<open>The configuration\<close>

datatype config_error = ConfigLoad string | ConfigInvalid string

record 'u rpc_config =
  primary_url :: 'u
  verifier_url :: "'u option"

record indexer_config =
  ic_header_cache_size :: nat
  ic_max_reorg_depth :: u64
  safe_depth :: "u64 option"
  finalized_depth :: "u64 option"

record abi_contract_config =
  ac_address :: string
  ac_standard :: string
  ac_decoder_version :: "string option"

record abi_config =
  abi_enabled :: bool
  abi_contracts :: "abi_contract_config list"

record kafka_config =
  kc_brokers :: "string list"
  outbox_topic :: string
  consumer_group :: string
  queue_buffering_max_messages :: nat
  delivery_timeout_ms :: u64
  dispatcher_poll_ms :: u64

record expected_identity =
  ei_chain_id :: u64
  ei_genesis_hash :: string

text \<open>\<open>'a\<close> is the type \<open>SocketAddr\<close> of the listen address.\<close>

record ('u, 'a) app_config =
  rpc :: "'u rpc_config"
  indexer :: indexer_config
  abi :: abi_config
  kafka :: kafka_config
  listen_addr :: 'a
  database_url :: "string option"
  top_kafka_brokers :: "string list option"
  expected_chain :: "expected_identity option"

datatype validation_profile = ProfileHead | ProfileKafka | ProfileWorkers

datatype live_start_point = Explicit u64 | DurableCheckpoint

text \<open>The defaults, given the parsed URL \<open>http://127.0.0.1:8545\<close> and address \<open>127.0.0.1:9100\<close>.\<close>

definition config_default :: "'u \<Rightarrow> 'a \<Rightarrow> ('u, 'a) app_config" where
  "config_default u a =
     \<lparr>rpc = \<lparr>primary_url = u, verifier_url = None\<rparr>,
      indexer = \<lparr>ic_header_cache_size = 256, ic_max_reorg_depth = 2048, safe_depth = None, finalized_depth = None\<rparr>,
      abi = \<lparr>abi_enabled = False, abi_contracts = []\<rparr>,
      kafka = \<lparr>kc_brokers = [], outbox_topic = ''chainweave.outbox'', consumer_group = ''chainweave-demo-consumer'',
        queue_buffering_max_messages = 10000, delivery_timeout_ms = 30000, dispatcher_poll_ms = 1000\<rparr>,
      listen_addr = a, database_url = None, top_kafka_brokers = None, expected_chain = None\<rparr>"

text \<open>The layers of \<open>figment\<close>: \<open>'f\<close> is a \<open>Figment\<close>.\<close>

record ('f, 'c) figment =
  serialized_defaults :: "'c \<Rightarrow> 'f"
  merge_toml :: "string \<Rightarrow> 'f \<Rightarrow> 'f"
  merge_env :: "string \<Rightarrow> string \<Rightarrow> 'f \<Rightarrow> 'f"
  fig_extract :: "'f \<Rightarrow> string + 'c"

definition config_load ::
    "('f, ('u, 'a) app_config) figment \<Rightarrow> 'u \<Rightarrow> 'a \<Rightarrow> string option \<Rightarrow> config_error + ('u, 'a) app_config" where
  "config_load F u a path =
     (let f = serialized_defaults F (config_default u a);
          f = (case path of None \<Rightarrow> f | Some p \<Rightarrow> merge_toml F p f)
      in map_err ConfigLoad (fig_extract F (merge_env F ''CHAINWEAVE_'' ''__'' f)))"

section \<open>Validation\<close>

text \<open>\<open>if \<not> b { return Err(invalid(msg)) }\<close>.\<close>

definition require :: "bool \<Rightarrow> string \<Rightarrow> config_error + unit" where
  "require b msg = (if b then Inr () else Inl (ConfigInvalid msg))"

definition validate_rpc_url :: "'u url_lib \<Rightarrow> string \<Rightarrow> 'u \<Rightarrow> config_error + unit" where
  "validate_rpc_url L name u =
     tryR (require (url_scheme L u \<in> {''http'', ''https'', ''ws'', ''wss''})
       (name @ '' must use http, https, ws, or wss'')) (\<lambda>_.
     require (url_host_str L u \<noteq> None) (name @ '' must include a host''))"

definition uses_local_socket :: "'u url_lib \<Rightarrow> 'u \<Rightarrow> bool" where
  "uses_local_socket L u = list_ex (\<lambda>(k, v). k = ''host'' \<and> starts_with v ''/'') (query_pairs L u)"

definition validate_database_url :: "'u url_lib \<Rightarrow> string \<Rightarrow> config_error + unit" where
  "validate_database_url L v =
     tryR (ok_or (url_parse L v) (ConfigInvalid ''database_url must be a valid URL'')) (\<lambda>u.
     tryR (require (url_scheme L u \<in> {''postgres'', ''postgresql''})
       ''database_url must use postgres or postgresql'') (\<lambda>_.
     require (\<not> ((case url_password L u of None \<Rightarrow> True | Some p \<Rightarrow> p = []) \<and> \<not> uses_local_socket L u))
       ''database_url must include a password''))"

definition validate_hash :: "string \<Rightarrow> config_error + unit" where
  "validate_hash s = require (hex_of_length 64 s) ''expected_chain.genesis_hash must be a 32-byte hex value''"

definition validate_address :: "string \<Rightarrow> config_error + unit" where
  "validate_address s = require (hex_of_length 40 s) ''abi.contracts.address must be a 20-byte hex value''"

definition normalized_standard :: "string \<Rightarrow> string" where
  "normalized_standard s = replace_chars '' -'' (CHR ''_'') (to_ascii_lowercase (str_trim s))"

definition validate_abi_standard :: "string \<Rightarrow> config_error + unit" where
  "validate_abi_standard s =
     require (normalized_standard s \<in> {''erc20'', ''erc_20'', ''erc721'', ''erc_721'', ''uniswap_v3'',
         ''uniswap_v3_pool'', ''uniswapv3pool''})
       ''abi.contracts.standard must be erc20, erc721, or uniswap_v3_pool''"

definition blank :: "string \<Rightarrow> bool" where
  "blank s \<longleftrightarrow> str_trim s = []"

fun validate_contracts :: "abi_contract_config list \<Rightarrow> config_error + unit" where
  "validate_contracts [] = Inr ()"
| "validate_contracts (c # cs) =
     tryR (validate_address (ac_address c)) (\<lambda>_.
     tryR (validate_abi_standard (ac_standard c)) (\<lambda>_.
     tryR (require (\<not> (\<exists>v. ac_decoder_version c = Some v \<and> blank v)) ''abi.contracts.decoder_version must not be empty'') (\<lambda>_.
       validate_contracts cs)))"

definition validate_abi_config :: "abi_config \<Rightarrow> config_error + unit" where
  "validate_abi_config c = validate_contracts (abi_contracts c)"

definition kafka_brokers :: "('u, 'a) app_config \<Rightarrow> string list" where
  "kafka_brokers c = (case top_kafka_brokers c of
     Some bs \<Rightarrow> if bs \<noteq> [] then bs else kc_brokers (kafka c)
   | None \<Rightarrow> kc_brokers (kafka c))"

definition validate_kafka_config :: "('u, 'a) app_config \<Rightarrow> config_error + unit" where
  "validate_kafka_config c =
     tryR (require (\<not> list_ex blank (kafka_brokers c)) ''kafka brokers must not contain empty entries'') (\<lambda>_.
     tryR (require (\<not> blank (outbox_topic (kafka c))) ''kafka.outbox_topic must not be empty'') (\<lambda>_.
     tryR (require (\<not> blank (consumer_group (kafka c))) ''kafka.consumer_group must not be empty'') (\<lambda>_.
     tryR (require (queue_buffering_max_messages (kafka c) \<noteq> 0) ''kafka.queue_buffering_max_messages must be nonzero'') (\<lambda>_.
     tryR (require (delivery_timeout_ms (kafka c) \<noteq> 0) ''kafka.delivery_timeout_ms must be nonzero'') (\<lambda>_.
       require (dispatcher_poll_ms (kafka c) \<noteq> 0) ''kafka.dispatcher_poll_ms must be nonzero'')))))"

definition validate_indexer :: "indexer_config \<Rightarrow> config_error + unit" where
  "validate_indexer i =
     tryR (require (ic_header_cache_size i \<noteq> 0) ''indexer.header_cache_size must be nonzero'') (\<lambda>_.
     tryR (require (ic_max_reorg_depth i \<noteq> 0) ''indexer.max_reorg_depth must be nonzero'') (\<lambda>_.
     tryR (require (\<not> ic_max_reorg_depth i < of_nat (ic_header_cache_size i))
       ''indexer.max_reorg_depth must be at least indexer.header_cache_size'') (\<lambda>_.
       require (\<not> (\<exists>s f. safe_depth i = Some s \<and> finalized_depth i = Some f \<and> f < s))
         ''indexer.safe_depth must not exceed indexer.finalized_depth'')))"

definition validate_identity :: "expected_identity \<Rightarrow> config_error + unit" where
  "validate_identity e =
     tryR (require (ei_chain_id e \<noteq> 0) ''expected_chain.chain_id must be nonzero'') (\<lambda>_.
       validate_hash (ei_genesis_hash e))"

definition validate_workers :: "'u url_lib \<Rightarrow> string option \<Rightarrow> config_error + unit" where
  "validate_workers L url =
     (case url of
        None \<Rightarrow> Inl (ConfigInvalid ''database_url is required before starting workers'')
      | Some v \<Rightarrow>
          if blank v then Inl (ConfigInvalid ''database_url is required before starting workers'')
          else validate_database_url L v)"

definition validate :: "'u url_lib \<Rightarrow> ('u, 'a) app_config \<Rightarrow> validation_profile \<Rightarrow> config_error + unit" where
  "validate L c profile =
     tryR (validate_rpc_url L ''rpc.primary_url'' (primary_url (rpc c))) (\<lambda>_.
     tryR (case verifier_url (rpc c) of None \<Rightarrow> Inr () | Some u \<Rightarrow> validate_rpc_url L ''rpc.verifier_url'' u) (\<lambda>_.
     tryR (validate_indexer (indexer c)) (\<lambda>_.
     tryR (case expected_chain c of None \<Rightarrow> Inr () | Some e \<Rightarrow> validate_identity e) (\<lambda>_.
     tryR (validate_abi_config (abi c)) (\<lambda>_.
     tryR (if profile = ProfileWorkers then validate_workers L (database_url c) else Inr ()) (\<lambda>_.
       if profile \<in> {ProfileKafka, ProfileWorkers} then validate_kafka_config c else Inr ()))))))"

definition validate_live_start :: "live_start_point option \<Rightarrow> config_error + unit" where
  "validate_live_start p =
     require (p \<noteq> None) ''live mode requires a durable checkpoint or an explicit --start-block''"

section \<open>Redaction\<close>

definition is_secret_query_key :: "string \<Rightarrow> bool" where
  "is_secret_query_key k \<longleftrightarrow>
     k \<in> {''key'', ''api_key'', ''apikey'', ''api-key''} \<or> ends_with k ''_key'' \<or>
     str_contains k ''token'' \<or> str_contains k ''secret'' \<or> str_contains k ''password''"

definition path_marker :: "string \<Rightarrow> bool" where
  "path_marker s \<longleftrightarrow> to_ascii_lowercase s \<in> {''v2'', ''v3'', ''key'', ''keys''}"

definition names_key :: "string \<Rightarrow> bool" where
  "names_key s \<longleftrightarrow> str_contains (to_ascii_lowercase s) ''apikey'' \<or> str_contains (to_ascii_lowercase s) ''api-key''"

text \<open>The loop over the segments: the segment before the current one is read as redacted so far.\<close>

fun redact_segments :: "string \<Rightarrow> string list \<Rightarrow> string list" where
  "redact_segments previous [] = []"
| "redact_segments previous (s # ss) =
     (let s' = (if path_marker previous \<or> names_key s then ''redacted'' else s)
      in s' # redact_segments s' ss)"

definition redact_pairs :: "(string \<times> string) list \<Rightarrow> (string \<times> string) list" where
  "redact_pairs qs = map (\<lambda>(k, v). (k, if is_secret_query_key (to_ascii_lowercase k) then ''redacted'' else v)) qs"

definition redacted_url :: "'u url_lib \<Rightarrow> 'u \<Rightarrow> 'u" where
  "redacted_url L u =
     (let u1 = (if url_password L u \<noteq> None then set_password L ''redacted'' u else u);
          ss = redact_segments [] (case path_segments L u1 of None \<Rightarrow> [] | Some ss \<Rightarrow> ss);
          u2 = (if ss \<noteq> [] \<and> path_segments L u1 \<noteq> None then set_path_segments L ss u1 else u1);
          qs = redact_pairs (query_pairs L u2)
      in if url_query L u2 \<noteq> None then set_query_pairs L qs u2 else u2)"

definition redact_url :: "'u url_lib \<Rightarrow> 'u \<Rightarrow> string" where
  "redact_url L u = url_to_string L (redacted_url L u)"

section \<open>What validation accepts\<close>

lemma require_Inr [simp]: "require b msg = Inr u \<longleftrightarrow> b"
  by (simp add: require_def)

text \<open>A hash of the configuration is the text of 32 bytes, with either case and an optional \<open>0x\<close>.\<close>

definition denotes_hash :: "string \<Rightarrow> block_hash \<Rightarrow> bool" where
  "denotes_hash s h \<longleftrightarrow> hex_bytes (bytes_of h) = ''0x'' @ to_ascii_lowercase (without_0x s)"

definition denotes_address :: "string \<Rightarrow> address \<Rightarrow> bool" where
  "denotes_address s a \<longleftrightarrow> hex_bytes (bytes_of a) = ''0x'' @ to_ascii_lowercase (without_0x s)"

lemma denotes_array:
  "(\<exists>bs. length bs = LENGTH('n) \<and> to_ascii_lowercase (without_0x s) = concat (map hex_byte bs)) \<longleftrightarrow>
   (\<exists>!a :: 'n::len byte_array. hex_bytes (bytes_of a) = ''0x'' @ to_ascii_lowercase (without_0x s))"
  (is "?l \<longleftrightarrow> ?r")
proof
  assume ?l
  then obtain bs where bs: "length bs = LENGTH('n)" "to_ascii_lowercase (without_0x s) = concat (map hex_byte bs)" by blast
  then have "bytes_of (Byte_Array bs :: 'n byte_array) = bs" by (simp add: Byte_Array_inverse)
  then show ?r using bs by (intro ex1I [of _ "Byte_Array bs"])
      (auto simp: hex_bytes_def bytes_of_inject [symmetric] dest: hex_text_inj)
next
  assume ?r
  then obtain a :: "'n byte_array" where "hex_bytes (bytes_of a) = ''0x'' @ to_ascii_lowercase (without_0x s)" by blast
  then show ?l by (intro exI [of _ "bytes_of a"]) (simp add: hex_bytes_def)
qed

lemma validate_hash_Inr: "validate_hash s = Inr () \<longleftrightarrow> (\<exists>!h. denotes_hash s h)"
  using hex_of_length_iff [of 32 s] denotes_array [where 'n = 32, of s]
  by (simp add: validate_hash_def denotes_hash_def)

lemma validate_address_Inr: "validate_address s = Inr () \<longleftrightarrow> (\<exists>!a. denotes_address s a)"
  using hex_of_length_iff [of 20 s] denotes_array [where 'n = 20, of s]
  by (simp add: validate_address_def denotes_address_def)

definition rpc_url_ok :: "'u url_lib \<Rightarrow> 'u \<Rightarrow> bool" where
  "rpc_url_ok L u \<longleftrightarrow> url_scheme L u \<in> {''http'', ''https'', ''ws'', ''wss''} \<and> url_host_str L u \<noteq> None"

definition contract_ok :: "abi_contract_config \<Rightarrow> bool" where
  "contract_ok c \<longleftrightarrow> (\<exists>!a. denotes_address (ac_address c) a) \<and>
     validate_abi_standard (ac_standard c) = Inr () \<and> (\<forall>v. ac_decoder_version c = Some v \<longrightarrow> \<not> blank v)"

lemma validate_contracts_Inr: "validate_contracts cs = Inr () \<longleftrightarrow> (\<forall>c \<in> set cs. contract_ok c)"
  by (induction cs) (auto simp: try_simps contract_ok_def validate_address_Inr)

definition depths_ok :: "indexer_config \<Rightarrow> bool" where
  "depths_ok i \<longleftrightarrow> 0 < ic_header_cache_size i \<and> ic_header_cache_size i \<le> unat (ic_max_reorg_depth i) \<and>
     (\<forall>s f. safe_depth i = Some s \<longrightarrow> finalized_depth i = Some f \<longrightarrow> s \<le> f)"

lemma validate_indexer_Inr:
  assumes "ic_header_cache_size i < 2 ^ 64"
  shows "validate_indexer i = Inr () \<longleftrightarrow> depths_ok i"
proof -
  have "unat (of_nat (ic_header_cache_size i) :: u64) = ic_header_cache_size i"
    using assms by (simp add: unsigned_of_nat take_bit_nat_eq_self)
  then show ?thesis
    by (auto simp: validate_indexer_def try_simps depths_ok_def word_less_nat_alt word_le_nat_alt not_less unat_gt_0)
qed

definition kafka_ok :: "('u, 'a) app_config \<Rightarrow> bool" where
  "kafka_ok c \<longleftrightarrow> (\<forall>b \<in> set (kafka_brokers c). \<not> blank b) \<and> \<not> blank (outbox_topic (kafka c)) \<and>
     \<not> blank (consumer_group (kafka c)) \<and> 0 < queue_buffering_max_messages (kafka c) \<and>
     0 < delivery_timeout_ms (kafka c) \<and> 0 < dispatcher_poll_ms (kafka c)"

lemma validate_kafka_Inr: "validate_kafka_config c = Inr () \<longleftrightarrow> kafka_ok c"
  by (auto simp: validate_kafka_config_def try_simps kafka_ok_def list_ex_iff word_gt_0)

definition database_ok :: "'u url_lib \<Rightarrow> ('u, 'a) app_config \<Rightarrow> bool" where
  "database_ok L c \<longleftrightarrow> (\<exists>v u. database_url c = Some v \<and> \<not> blank v \<and> url_parse L v = Some u \<and>
     url_scheme L u \<in> {''postgres'', ''postgresql''} \<and>
     ((\<exists>p. url_password L u = Some p \<and> p \<noteq> []) \<or> (\<exists>v. (''host'', v) \<in> set (query_pairs L u) \<and> starts_with v ''/'')))"

lemma validate_workers_Inr: "validate_workers L (database_url c) = Inr () \<longleftrightarrow> database_ok L c"
proof -
  have "uses_local_socket L u \<longleftrightarrow> (\<exists>v. (''host'', v) \<in> set (query_pairs L u) \<and> starts_with v ''/'')" for u
    by (auto simp: uses_local_socket_def list_ex_iff)
  then show ?thesis
    by (auto simp: validate_workers_def database_ok_def validate_database_url_def try_simps split: option.splits)
qed

text \<open>
  C29: What the validation of the configuration accepts.  For a cache size that fits \<open>usize\<close>: both
  RPC URLs have a usable scheme and a host; the header cache is not empty and not larger than the
  reorganisation depth, and the safe depth is not above the finalized depth; an expected chain has a
  nonzero ID and a genesis text that names exactly one 32-byte hash; every contract names exactly one
  20-byte address, a known standard and no blank version; workers have a database URL with a
  password or a local socket; and Kafka settings are not blank or zero where Kafka is used.
\<close>
theorem validate_accepts:
  assumes "ic_header_cache_size (indexer c) < 2 ^ 64"
  shows "validate L c profile = Inr () \<longleftrightarrow>
    rpc_url_ok L (primary_url (rpc c)) \<and> (\<forall>u. verifier_url (rpc c) = Some u \<longrightarrow> rpc_url_ok L u) \<and>
    depths_ok (indexer c) \<and>
    (\<forall>e. expected_chain c = Some e \<longrightarrow> ei_chain_id e \<noteq> 0 \<and> (\<exists>!h. denotes_hash (ei_genesis_hash e) h)) \<and>
    (\<forall>a \<in> set (abi_contracts (abi c)). contract_ok a) \<and>
    (profile = ProfileWorkers \<longrightarrow> database_ok L c) \<and>
    (profile \<noteq> ProfileHead \<longrightarrow> kafka_ok c)"
proof -
  have url: "validate_rpc_url L n u = Inr () \<longleftrightarrow> rpc_url_ok L u" for n u
    by (auto simp: validate_rpc_url_def rpc_url_ok_def try_simps)
  show ?thesis
    unfolding validate_def
    by (cases profile; cases "verifier_url (rpc c)"; cases "expected_chain c")
      (simp_all add: try_simps url validate_indexer_Inr [OF assms] validate_abi_config_def validate_contracts_Inr
        validate_kafka_Inr validate_workers_Inr validate_identity_def validate_hash_Inr, blast?)
qed


section \<open>What redaction removes\<close>



lemma redact_pairs_secret:
  "(k, v) \<in> set (redact_pairs qs) \<Longrightarrow> is_secret_query_key (to_ascii_lowercase k) \<Longrightarrow> v = ''redacted''"
  by (auto simp: redact_pairs_def)



text \<open>
  A marker that is itself redacted does not protect the segment after it: the loop reads the
  segment before the current one in its redacted form.
\<close>
lemma redacted_marker_exposes: "redact_segments [] [''v2'', ''key'', ''0a1b2c''] = [''v2'', ''redacted'', ''0a1b2c'']"
  by (simp add: path_marker_def names_key_def to_ascii_lowercase_def ascii_lower_def char_nat_def)

section \<open>A sample URL library\<close>

record sample_url =
  su_scheme :: string
  su_password :: "string option"
  su_segments :: "string list"
  su_query :: "(string \<times> string) list"

definition sample_encode :: "string \<Rightarrow> string" where
  "sample_encode s = concat (map (\<lambda>c. if c = CHR ''%'' then ''%25'' else if c = CHR ''/'' then ''%2F'' else [c]) s)"

definition sample_urls :: "sample_url url_lib" where
  "sample_urls = \<lparr>url_parse = (\<lambda>_. None), url_scheme = su_scheme, url_host_str = (\<lambda>_. Some ''localhost''),
     url_password = su_password, set_password = (\<lambda>p u. u\<lparr>su_password := Some p\<rparr>),
     path_segments = (\<lambda>u. Some (if su_segments u = [] then [[]] else su_segments u)),
     set_path_segments = (\<lambda>ss u. u\<lparr>su_segments :=
       map sample_encode (dropWhile (\<lambda>s. s = []) (filter (\<lambda>s. s \<notin> {''.'', ''..''}) ss))\<rparr>),
     url_query = (\<lambda>u. if su_query u = [] then None else Some []), query_pairs = su_query,
     set_query_pairs = (\<lambda>qs u. u\<lparr>su_query := qs\<rparr>), url_to_string = su_scheme\<rparr>"

definition sample_url :: sample_url where
  "sample_url = \<lparr>su_scheme = ''https'', su_password = Some ''hunter2'', su_segments = [''a%20b'', ''v2'', ''0a1b2c''],
     su_query = [(''api_key'', ''xyz''), (''id'', ''1'')]\<rparr>"




theorem validate_accepts_witness:
  "validate sample_urls (config_default sample_url ()) ProfileHead = Inr () \<and>
   validate sample_urls ((config_default sample_url ())\<lparr>indexer := \<lparr>ic_header_cache_size = 256,
     ic_max_reorg_depth = 100, safe_depth = None, finalized_depth = None\<rparr>\<rparr>) ProfileHead \<noteq> Inr ()"
proof -
  let ?c = "config_default sample_url ()"
  let ?d = "?c\<lparr>indexer := \<lparr>ic_header_cache_size = 256, ic_max_reorg_depth = 100, safe_depth = None, finalized_depth = None\<rparr>\<rparr>"
  have "ic_header_cache_size (indexer ?c) < 2 ^ 64" "ic_header_cache_size (indexer ?d) < 2 ^ 64"
    by (simp_all add: config_default_def)
  from validate_accepts [OF this(1), of sample_urls ProfileHead] validate_accepts [OF this(2), of sample_urls ProfileHead]
  show ?thesis
    by (simp add: config_default_def rpc_url_ok_def depths_ok_def sample_urls_def sample_url_def)
qed

end
