(* ===== verification/Observability.thy ===== *)
theory Observability
  imports Rust_Strings
begin

text \<open>
  The health state of \<open>chainweave-sink/src/observability.rs\<close> and what its two endpoints answer.  The
  state is shared behind a lock, so each operation is one update.  The gauges that every operation
  publishes are a copy of the snapshot and the HTTP server around the endpoints is I/O; both are
  left out.
\<close>

record status_snapshot =
  healthy :: bool
  ready :: bool
  readiness :: string
  health_state :: string
  degraded_components :: "string list"
  correctness_stop_reason :: "string option"
  primary_rpc_url :: "string option"
  verifier_rpc_url :: "string option"
  current_lag_blocks :: u64
  reconnect_count :: u64
  wakeup_depth :: nat
  unreconciled_gap_count :: u64
  verifier_disagreement_count :: u64

record live_status =
  ls_healthy :: bool
  ls_ready :: bool
  ls_readiness :: string
  ls_primary_rpc_url :: "string option"
  ls_verifier_rpc_url :: "string option"
  ls_current_lag_blocks :: u64
  ls_reconnect_count :: u64
  ls_wakeup_depth :: nat
  ls_unreconciled_gap_count :: u64
  ls_verifier_disagreement_count :: u64

record status_body =
  sb_status :: string
  sb_snapshot :: status_snapshot

definition status_default :: status_snapshot where
  "status_default =
     \<lparr>healthy = False, ready = False, readiness = ''unavailable'', health_state = ''unavailable'',
      degraded_components = [], correctness_stop_reason = None, primary_rpc_url = None, verifier_rpc_url = None,
      current_lag_blocks = 0, reconnect_count = 0, wakeup_depth = 0, unreconciled_gap_count = 0,
      verifier_disagreement_count = 0\<rparr>"

definition live_health_state :: "bool \<Rightarrow> bool \<Rightarrow> string \<Rightarrow> string" where
  "live_health_state h r s =
     (if \<not> h then ''unavailable'' else if r then ''ready'' else if s = ''degraded'' then ''degraded'' else ''unavailable'')"

definition snapshot_of_live :: "live_status \<Rightarrow> status_snapshot" where
  "snapshot_of_live l =
     \<lparr>healthy = ls_healthy l, ready = ls_ready l, readiness = ls_readiness l,
      health_state = live_health_state (ls_healthy l) (ls_ready l) (ls_readiness l),
      degraded_components = [], correctness_stop_reason = None,
      primary_rpc_url = ls_primary_rpc_url l, verifier_rpc_url = ls_verifier_rpc_url l,
      current_lag_blocks = ls_current_lag_blocks l, reconnect_count = ls_reconnect_count l,
      wakeup_depth = ls_wakeup_depth l, unreconciled_gap_count = ls_unreconciled_gap_count l,
      verifier_disagreement_count = ls_verifier_disagreement_count l\<rparr>"

text \<open>The body is the snapshot with one more field.\<close>

definition status_body_of :: "status_snapshot \<Rightarrow> status_body" where
  "status_body_of s = \<lparr>sb_status = (if healthy s then ''ok'' else ''unavailable''), sb_snapshot = s\<rparr>"

definition mark_healthy :: "bool \<Rightarrow> status_snapshot \<Rightarrow> status_snapshot" where
  "mark_healthy h s =
     (let s = s\<lparr>healthy := h\<rparr> in
      if h then s\<lparr>health_state := (if ready s then ''ready'' else ''unavailable''), correctness_stop_reason := None\<rparr>
      else s\<lparr>health_state := ''unavailable''\<rparr>)"

definition mark_ready :: "bool \<Rightarrow> status_snapshot \<Rightarrow> status_snapshot" where
  "mark_ready r s =
     (let t = (if r then ''ready'' else ''unavailable'');
          s = s\<lparr>ready := r, readiness := t, health_state := t\<rparr> in
      if r then s\<lparr>healthy := True, degraded_components := [], correctness_stop_reason := None\<rparr> else s)"

definition mark_degraded :: "string \<Rightarrow> status_snapshot \<Rightarrow> status_snapshot" where
  "mark_degraded c s =
     s\<lparr>healthy := True, ready := False, readiness := ''degraded'', health_state := ''degraded'',
       correctness_stop_reason := None,
       degraded_components := (if list_ex (\<lambda>k. k = c) (degraded_components s) then degraded_components s
         else degraded_components s @ [c])\<rparr>"

definition mark_correctness_stop :: "string \<Rightarrow> status_snapshot \<Rightarrow> status_snapshot" where
  "mark_correctness_stop r s =
     s\<lparr>healthy := False, ready := False, readiness := ''correctness-stop'', health_state := ''correctness-stop'',
       degraded_components := [], correctness_stop_reason := Some r\<rparr>"

definition update_live_status :: "live_status \<Rightarrow> status_snapshot \<Rightarrow> status_snapshot" where
  "update_live_status l s = snapshot_of_live l"

text \<open>The endpoints: the HTTP status code and the body.\<close>

definition status_response :: "bool \<Rightarrow> status_snapshot \<Rightarrow> nat \<times> status_body" where
  "status_response ok s = (if ok then 200 else 503, status_body_of s)"

definition health_endpoint :: "status_snapshot \<Rightarrow> nat \<times> status_body" where
  "health_endpoint s = status_response (healthy s) s"

definition readiness_endpoint :: "status_snapshot \<Rightarrow> nat \<times> status_body" where
  "readiness_endpoint s = status_response (ready s) s"

section \<open>What the endpoints say\<close>

inductive health_step :: "status_snapshot \<Rightarrow> status_snapshot \<Rightarrow> bool" where
  readied: "health_step s (mark_ready r s)"
| degraded: "health_step s (mark_degraded c s)"
| stopped: "health_step s (mark_correctness_stop r s)"
| updated: "ls_ready l \<Longrightarrow> ls_healthy l \<Longrightarrow> health_step s (update_live_status l s)"
| updated_unready: "\<not> ls_ready l \<Longrightarrow> health_step s (update_live_status l s)"
| healthy_again: "health_step s (mark_healthy True s)"

text \<open>
  Ready means healthy, with nothing degraded and no reason to stop, and a reason to stop means not
  healthy.
\<close>

definition health_inv :: "status_snapshot \<Rightarrow> bool" where
  "health_inv s \<longleftrightarrow>
     (ready s \<longrightarrow> healthy s \<and> health_state s = ''ready'' \<and> degraded_components s = []) \<and>
     (correctness_stop_reason s \<noteq> None \<longrightarrow> \<not> healthy s \<and> \<not> ready s) \<and> distinct (degraded_components s)"

lemma health_inv_step: "health_step s s' \<Longrightarrow> health_inv s \<Longrightarrow> health_inv s'"
proof (induction rule: health_step.induct)
  case (readied s r)
  then show ?case by (cases r) (simp_all add: health_inv_def mark_ready_def Let_def)
next
  case (degraded s c)
  then show ?case by (simp add: health_inv_def mark_degraded_def list_ex_iff)
next
  case (healthy_again s)
  then show ?case by (simp add: health_inv_def mark_healthy_def Let_def)
qed (simp_all add: health_inv_def mark_correctness_stop_def update_live_status_def snapshot_of_live_def live_health_state_def)

text \<open>
  The readiness endpoint never contradicts the health endpoint.  From the initial state on,
  after any sequence of updates, as long as nobody publishes a live status that is ready but not
  healthy or marks the process unhealthy by hand: \<open>/ready\<close> answers 200 only if \<open>/health\<close> does, no
  component is degraded and there is no reason to stop; and a reason to stop makes both answer 503.
\<close>
theorem ready_implies_healthy:
  assumes "health_step\<^sup>*\<^sup>* status_default s"
  shows "(fst (readiness_endpoint s) = 200 \<longrightarrow>
      fst (health_endpoint s) = 200 \<and> degraded_components s = [] \<and> correctness_stop_reason s = None) \<and>
    (correctness_stop_reason s \<noteq> None \<longrightarrow> fst (health_endpoint s) = 503 \<and> fst (readiness_endpoint s) = 503)"
proof -
  from assms have "health_inv s"
  proof (induction rule: rtranclp_induct)
    case base
    show ?case by (simp add: health_inv_def status_default_def)
  next
    case (step s s')
    then show ?case using health_inv_step by blast
  qed
  then show ?thesis
    by (auto simp: health_inv_def health_endpoint_def readiness_endpoint_def status_response_def)
qed

theorem ready_implies_healthy_witness:
  "fst (readiness_endpoint (mark_ready True (mark_correctness_stop ''r'' status_default))) = 200 \<and>
   fst (health_endpoint (mark_ready True (mark_correctness_stop ''r'' status_default))) = 200"
proof -
  let ?s = "mark_ready True (mark_correctness_stop ''r'' status_default)"
  have "health_step\<^sup>*\<^sup>* status_default ?s"
    by (meson health_step.readied health_step.stopped r_into_rtranclp rtranclp.rtrancl_into_rtrancl)
  moreover have "fst (readiness_endpoint ?s) = 200"
    by (simp add: readiness_endpoint_def status_response_def mark_ready_def Let_def)
  ultimately show ?thesis using ready_implies_healthy by blast
qed

text \<open>\<open>mark_healthy(false)\<close> leaves \<open>ready\<close> as it was, and a degraded component hides a reason to stop.\<close>

lemma unhealthy_but_ready:
  "fst (readiness_endpoint (mark_healthy False (mark_ready True s))) = 200 \<and>
   fst (health_endpoint (mark_healthy False (mark_ready True s))) = 503"
  by (simp add: readiness_endpoint_def health_endpoint_def status_response_def mark_ready_def mark_healthy_def Let_def)

lemma degraded_hides_stop:
  "fst (health_endpoint (mark_degraded c (mark_correctness_stop r s))) = 200 \<and>
   correctness_stop_reason (mark_degraded c (mark_correctness_stop r s)) = None"
  by (simp add: health_endpoint_def status_response_def mark_degraded_def)

end
