(* ===== verification/Kafka.thy ===== *)
theory Kafka
  imports Postgres_Correct Observability
begin

text \<open>
  The Kafka dispatcher of \<open>chainweave-sink/src/kafka.rs\<close>: it takes the unpublished rows of the
  outbox one at a time, publishes each and marks it, all in one transaction per row.

  The producer is a parameter with a state of its own (the topic and everything else outside the
  process); for the one of the code, the call \<open>send\<close> of \<open>rdkafka\<close> and the JSON encoder are
  parameters.  A transaction meets the same faults as those of Postgres.  Logging and the metrics
  counters are left out.
\<close>

section \<open>Data\<close>

record kafka_dispatcher_config =
  dc_brokers :: "string list"
  dc_topic :: string
  dc_queue_buffering_max_messages :: nat
  delivery_timeout :: duration
  dc_poll_interval :: duration

record kafka_ordering =
  ko_event_id :: int
  ko_block_height :: u64

record kafka_message =
  km_schema_version :: u32
  km_event_id :: int
  km_chain_id :: string
  transition_kind :: string
  km_block_hash :: string
  km_block_height :: u64
  km_ordering :: kafka_ordering
  km_payload :: json

datatype dispatch_outcome = Delivered kafka_message | Idle

datatype dispatch_failure_point = BeforePublish | AfterBrokerAckBeforeMark

datatype kafka_error =
    MissingBrokers
  | MissingTopic
  | ProducerConfig string
  | KafkaDatabase db_error
  | InvalidBlockHash int nat
  | InvalidBlockHeight int int
  | Publish int string
  | InjectedBeforePublish int
  | InjectedAfterAck int

text \<open>\<open>publish\<close> of a producer whose state is of type \<open>'k\<close>.\<close>

type_synonym 'k producer = "string \<Rightarrow> kafka_message \<Rightarrow> 'k \<Rightarrow> (string + unit) \<times> 'k"

record 'k kafka_dispatcher =
  kd_topic :: string
  kd_publish :: "'k producer"
  kd_poll_interval :: duration
  kd_health :: bool

text \<open>What a dispatcher acts on: the database, the broker, and the health state.\<close>

record 'k kafka_world =
  kw_db :: database
  kw_broker :: 'k
  kw_status :: status_snapshot

definition dispatcher_new :: "string \<Rightarrow> 'k producer \<Rightarrow> duration \<Rightarrow> 'k kafka_dispatcher" where
  "dispatcher_new t p d = \<lparr>kd_topic = t, kd_publish = p, kd_poll_interval = d, kd_health = False\<rparr>"

definition dispatcher_with_health :: "'k kafka_dispatcher \<Rightarrow> 'k kafka_dispatcher" where
  "dispatcher_with_health d = d\<lparr>kd_health := True\<rparr>"

section \<open>The producer of the code\<close>

definition producer_settings :: "kafka_dispatcher_config \<Rightarrow> (string \<times> string) list" where
  "producer_settings c =
     [(''bootstrap.servers'', join '','' (dc_brokers c)), (''acks'', ''all''), (''enable.idempotence'', ''true''),
      (''queue.buffering.max.messages'', show_nat (dc_queue_buffering_max_messages c)),
      (''delivery.timeout.ms'', show_nat (as_millis (delivery_timeout c))),
      (''message.timeout.ms'', show_nat (as_millis (delivery_timeout c))),
      (''max.in.flight.requests.per.connection'', ''1'')]"

text \<open>
  \<open>KafkaOutboxDispatcher::connect\<close>; \<open>create\<close> is the constructor of \<open>rdkafka\<close>, which also gives the
  \<open>publish\<close> of the producer it makes.
\<close>

definition dispatcher_connect ::
    "((string \<times> string) list \<Rightarrow> string + 'k producer) \<Rightarrow> kafka_dispatcher_config \<Rightarrow> kafka_error + 'k kafka_dispatcher" where
  "dispatcher_connect create c =
     (if dc_brokers c = [] \<or> list_ex (\<lambda>b. str_trim b = []) (dc_brokers c) then Inl MissingBrokers
      else if str_trim (dc_topic c) = [] then Inl MissingTopic
      else tryR (map_err ProducerConfig (create (producer_settings c))) (\<lambda>p.
        Inr (dispatcher_new (dc_topic c) p (dc_poll_interval c))))"

text \<open>The derived \<open>Serialize\<close> and \<open>Deserialize\<close> of a message.\<close>

definition message_json :: "kafka_message \<Rightarrow> json" where
  "message_json m = JObj
     [(''schema_version'', JNum (uint (km_schema_version m))), (''event_id'', JNum (km_event_id m)),
      (''chain_id'', JStr (km_chain_id m)), (''transition_kind'', JStr (transition_kind m)),
      (''block_hash'', JStr (km_block_hash m)), (''block_height'', JNum (uint (km_block_height m))),
      (''ordering'', JObj [(''event_id'', JNum (ko_event_id (km_ordering m))),
        (''block_height'', JNum (uint (ko_block_height (km_ordering m))))]),
      (''payload'', km_payload m)]"

definition ordering_of_json :: "json \<Rightarrow> kafka_ordering option" where
  "ordering_of_json v =
     Option.bind (j_field ''event_id'' j_i64 v) (\<lambda>i.
     map_option (\<lambda>h. \<lparr>ko_event_id = i, ko_block_height = h\<rparr>) (j_field ''block_height'' j_u64 v))"

definition message_of_json :: "json \<Rightarrow> kafka_message option" where
  "message_of_json v =
     Option.bind (j_field ''schema_version'' j_u32 v) (\<lambda>sv.
     Option.bind (j_field ''event_id'' j_i64 v) (\<lambda>i.
     Option.bind (j_field ''chain_id'' j_str v) (\<lambda>c.
     Option.bind (j_field ''transition_kind'' j_str v) (\<lambda>t.
     Option.bind (j_field ''block_hash'' j_str v) (\<lambda>h.
     Option.bind (j_field ''block_height'' j_u64 v) (\<lambda>n.
     Option.bind (j_field ''ordering'' ordering_of_json v) (\<lambda>ord.
     map_option (\<lambda>p. \<lparr>km_schema_version = sv, km_event_id = i, km_chain_id = c, transition_kind = t,
        km_block_hash = h, km_block_height = n, km_ordering = ord, km_payload = p\<rparr>) (j_get ''payload'' v))))))))"

record kafka_record =
  kr_topic :: string
  kr_key :: string
  kr_payload :: "u8 list"
  kr_headers :: "(string \<times> string) list"

definition record_of :: "string \<Rightarrow> kafka_message \<Rightarrow> u8 list \<Rightarrow> kafka_record" where
  "record_of t m p =
     \<lparr>kr_topic = t, kr_key = ''chain:'' @ km_chain_id m, kr_payload = p,
      kr_headers = [(''event_id'', show_int (km_event_id m)), (''schema_version'', show_nat (unat (km_schema_version m)))]\<rparr>"

text \<open>\<open>RdkafkaOutboxProducer::publish\<close>, over \<open>serde_json::to_vec\<close> and \<open>FutureProducer::send\<close>.\<close>

definition rdkafka_publish ::
    "(json \<Rightarrow> string + u8 list) \<Rightarrow> (kafka_record \<Rightarrow> 'k \<Rightarrow> (string + unit) \<times> 'k) \<Rightarrow> 'k producer" where
  "rdkafka_publish to_vec send t m k =
     (case to_vec (message_json m) of
        Inl e \<Rightarrow> (Inl e, k)
      | Inr payload \<Rightarrow> send (record_of t m payload) k)"

section \<open>Dispatching\<close>

text \<open>\<open>SELECT \<dots> WHERE published_at IS NULL ORDER BY event_id LIMIT 1 FOR UPDATE\<close>.\<close>

definition next_unpublished_row :: "database \<Rightarrow> outbox_row option" where
  "next_unpublished_row db =
     (case sort_key event_id (filter (\<lambda>r. published_at r = None) (outbox_table db)) of
        [] \<Rightarrow> None
      | r # _ \<Rightarrow> Some r)"

definition row_to_message :: "outbox_row \<Rightarrow> kafka_error + kafka_message" where
  "row_to_message r =
     tryR (ok_or (u64_of_int (ev_block_height r)) (InvalidBlockHeight (event_id r) (ev_block_height r))) (\<lambda>n.
       if length (bytes_of (ev_block_hash r)) \<noteq> 32
       then Inl (InvalidBlockHash (event_id r) (length (bytes_of (ev_block_hash r))))
       else Inr \<lparr>km_schema_version = 1, km_event_id = event_id r, km_chain_id = show_u64 (ev_chain r),
              transition_kind = ev_kind r, km_block_hash = hex_hash (ev_block_hash r), km_block_height = n,
              km_ordering = \<lparr>ko_event_id = event_id r, ko_block_height = n\<rparr>, km_payload = ev_payload r\<rparr>)"

text \<open>\<open>UPDATE outbox_events SET published_at = now() WHERE event_id = $1 AND published_at IS NULL\<close>.\<close>

definition mark_published :: "int \<Rightarrow> database \<Rightarrow> (db_error + nat) \<times> database" where
  "mark_published i db =
     (Inr (length (filter (\<lambda>r. event_id r = i \<and> published_at r = None) (outbox_table db))),
      db\<lparr>outbox_table := map (\<lambda>r. if event_id r = i \<and> published_at r = None
          then r\<lparr>published_at := Some (db_now db)\<rparr> else r) (outbox_table db)\<rparr>)"

text \<open>The two gauges of \<open>refresh_outbox_metrics\<close>: how many rows are unpublished, and the age of the oldest.\<close>

definition outbox_metrics :: "database \<Rightarrow> nat \<times> int" where
  "outbox_metrics db =
     (let rows = filter (\<lambda>r. published_at r = None) (outbox_table db) in
      (length rows, if rows = [] then 0 else db_now db - Min (ev_created ` set rows)))"

text \<open>
  One transaction: \<open>BEGIN\<close> is statement 0, the \<open>SELECT\<close> 1, the \<open>UPDATE\<close> 2, and the \<open>COMMIT\<close> is the
  statement after the last.  An early return drops the transaction, which rolls it back.
\<close>

definition dispatch_once_inner ::
    "faults \<Rightarrow> 'k kafka_dispatcher \<Rightarrow> dispatch_failure_point option \<Rightarrow> 'k kafka_world \<Rightarrow>
      (kafka_error + dispatch_outcome) \<times> 'k kafka_world" where
  "dispatch_once_inner flt d failure w =
     (if lost_at flt 0 \<or> lost_at flt 1 then (Inl (KafkaDatabase ConnectionLost), w)
      else case next_unpublished_row (kw_db w) of
        None \<Rightarrow> if lost_at flt 2 then (Inl (KafkaDatabase ConnectionLost), w) else (Inr Idle, w)
      | Some row \<Rightarrow>
          (case row_to_message row of
             Inl e \<Rightarrow> (Inl e, w)
           | Inr m \<Rightarrow>
               if failure = Some BeforePublish then (Inl (InjectedBeforePublish (km_event_id m)), w)
               else case kd_publish d (kd_topic d) m (kw_broker w) of
                 (Inl e, k) \<Rightarrow>
                   (Inl (Publish (km_event_id m) e),
                    w\<lparr>kw_broker := k,
                      kw_status := (if kd_health d then mark_degraded ''kafka'' (kw_status w) else kw_status w)\<rparr>)
               | (Inr _, k) \<Rightarrow>
                   let w = w\<lparr>kw_broker := k\<rparr> in
                   if failure = Some AfterBrokerAckBeforeMark then (Inl (InjectedAfterAck (km_event_id m)), w)
                   else if lost_at flt 2 then (Inl (KafkaDatabase ConnectionLost), w)
                   else case mark_published (km_event_id m) (kw_db w) of
                     (Inl e, _) \<Rightarrow> (Inl (KafkaDatabase e), w)
                   | (Inr _, db) \<Rightarrow>
                       if lost_at flt 3
                       then (Inl (KafkaDatabase ConnectionLost), if commit_kept flt then w\<lparr>kw_db := db\<rparr> else w)
                       else (Inr (Delivered m), w\<lparr>kw_db := db\<rparr>)))"

definition dispatch_once ::
    "faults \<Rightarrow> 'k kafka_dispatcher \<Rightarrow> 'k kafka_world \<Rightarrow> (kafka_error + dispatch_outcome) \<times> 'k kafka_world" where
  "dispatch_once flt d w = dispatch_once_inner flt d None w"

definition dispatch_once_with_failure ::
    "faults \<Rightarrow> 'k kafka_dispatcher \<Rightarrow> dispatch_failure_point \<Rightarrow> 'k kafka_world \<Rightarrow>
      (kafka_error + dispatch_outcome) \<times> 'k kafka_world" where
  "dispatch_once_with_failure flt d failure w = dispatch_once_inner flt d (Some failure) w"

text \<open>
  The loop.  What happens around it is a list: for each turn, whether the token was cancelled before
  it, what others did to the database before it, and the faults of its transaction.  \<open>None\<close>: the
  loop is still running when the list ends.
\<close>

fun run_until_cancelled ::
    "(bool \<times> (database \<Rightarrow> database) \<times> faults) list \<Rightarrow> 'k kafka_dispatcher \<Rightarrow> 'k kafka_world \<Rightarrow>
      (kafka_error + unit) option \<times> 'k kafka_world" where
  "run_until_cancelled [] d w = (None, w)"
| "run_until_cancelled ((cancelled, others, flt) # turns) d w =
     (let w = w\<lparr>kw_db := others (kw_db w)\<rparr> in
      if cancelled then (Some (Inr ()), w)
      else case dispatch_once flt d w of
        (Inl e, w) \<Rightarrow> (Some (Inl e), w)
      | (Inr _, w) \<Rightarrow> run_until_cancelled turns d w)"

section \<open>The demonstration consumer\<close>

definition render_demo_consumer_event :: "json \<Rightarrow> string" where
  "render_demo_consumer_event v =
     (let i = (case j_field ''event_id'' j_i64 v of None \<Rightarrow> ''unknown'' | Some i \<Rightarrow> show_int i);
          t = (case j_field ''transition_kind'' j_str v of None \<Rightarrow> ''unknown'' | Some t \<Rightarrow> t);
          n = (case j_field ''block_height'' j_u64 v of None \<Rightarrow> ''unknown'' | Some n \<Rightarrow> show_u64 n);
          h = (case j_field ''block_hash'' j_str v of None \<Rightarrow> ''unknown'' | Some h \<Rightarrow> h) in
      if t = ''rollback''
      then ''rollback event_id='' @ i @ '' block_height='' @ n @ '' block_hash='' @ h
      else
        let decoded = (case j_field ''payload'' (j_get ''logs'') v of
              Some (JArr ls) \<Rightarrow> length (filter (\<lambda>d. d \<noteq> JNull) (List.map_filter (j_get ''decoded_event'') ls))
            | _ \<Rightarrow> 0)
        in t @ '' event_id='' @ i @ '' block_height='' @ n @ '' block_hash='' @ h @ '' decoded_events='' @ show_nat decoded)"


section \<open>A message survives its JSON\<close>

text \<open>
  A message read back from its JSON is the same message: whatever its payload, strings, height
  and event ID (an \<open>i64\<close>), deserializing what was serialized gives the message.
\<close>
theorem message_json_roundtrip:
  assumes "- (2 ^ 63) \<le> km_event_id m" and "km_event_id m < 2 ^ 63"
    and "- (2 ^ 63) \<le> ko_event_id (km_ordering m)" and "ko_event_id (km_ordering m) < 2 ^ 63"
  shows "message_of_json (message_json m) = Some m"
  using assms
  by (simp add: message_of_json_def message_json_def j_field_def j_u32_def j_u64_def j_i64_def j_str_def ordering_of_json_def)

theorem message_json_roundtrip_witness:
  "message_of_json (message_json \<lparr>km_schema_version = 1, km_event_id = 7, km_chain_id = ''1'', transition_kind = ''apply'',
     km_block_hash = ''0x01'', km_block_height = 5, km_ordering = \<lparr>ko_event_id = 7, ko_block_height = 5\<rparr>, km_payload = JNull\<rparr>) \<noteq> None"
  using message_json_roundtrip [of "\<lparr>km_schema_version = 1, km_event_id = 7, km_chain_id = ''1'', transition_kind = ''apply'',
     km_block_hash = ''0x01'', km_block_height = 5, km_ordering = \<lparr>ko_event_id = 7, ko_block_height = 5\<rparr>, km_payload = JNull\<rparr>"]
  by simp

section \<open>Lists with repetitions\<close>

text \<open>\<open>ys\<close> is \<open>xs\<close> with each element given once or several times in a row.\<close>

definition stutters :: "'a list \<Rightarrow> 'a list \<Rightarrow> bool" where
  "stutters xs ys \<longleftrightarrow> (\<exists>ns. length ns = length xs \<and> (\<forall>n \<in> set ns. 0 < n) \<and> ys = concat (map2 replicate ns xs))"

lemma stutters_nil [simp]: "stutters [] ys \<longleftrightarrow> ys = []"
  by (auto simp: stutters_def)

lemma stutters_next: "stutters xs ys \<Longrightarrow> stutters (xs @ [x]) (ys @ [x])"
  unfolding stutters_def
proof (elim exE conjE)
  fix ns assume "length ns = length xs" "\<forall>n \<in> set ns. 0 < n" "ys = concat (map2 replicate ns xs)"
  then show "\<exists>ns'. length ns' = length (xs @ [x]) \<and> (\<forall>n \<in> set ns'. 0 < n) \<and> ys @ [x] = concat (map2 replicate ns' (xs @ [x]))"
    by (intro exI [of _ "ns @ [1]"]) auto
qed

lemma stutters_again: "stutters (xs @ [x]) ys \<Longrightarrow> stutters (xs @ [x]) (ys @ [x])"
  unfolding stutters_def
proof (elim exE conjE)
  fix ns assume ns: "length ns = length (xs @ [x])" "\<forall>n \<in> set ns. 0 < n" "ys = concat (map2 replicate ns (xs @ [x]))"
  then obtain ms m where m: "ns = ms @ [m]" "length ms = length xs" by (cases ns rule: rev_cases) auto
  with ns show "\<exists>ns'. length ns' = length (xs @ [x]) \<and> (\<forall>n \<in> set ns'. 0 < n) \<and> ys @ [x] = concat (map2 replicate ns' (xs @ [x]))"
    by (intro exI [of _ "ms @ [Suc m]"]) (auto simp: replicate_append_same)
qed

lemma fold_stutters:
  assumes "\<And>x s. f x (f x s) = f x s" and "stutters xs ys"
  shows "fold f ys s = fold f xs s"
proof -
  have rep: "(f x ^^ n) s = f x s" if "0 < n" for n x s
    using that
  proof (induction n)
    case (Suc n)
    then show ?case by (cases n) (simp_all add: assms(1))
  qed simp
  from assms(2) obtain ns where ns: "length ns = length xs" "\<forall>n \<in> set ns. 0 < n" "ys = concat (map2 replicate ns xs)"
    by (auto simp: stutters_def)
  have "fold f (concat (map2 replicate ns xs)) s = fold f xs s" for s
    using ns(1,2) by (induction ns xs arbitrary: s rule: list_induct2) (auto simp: rep)
  with ns(3) show ?thesis by simp
qed

section \<open>The journal and its published part\<close>

definition message_of_row :: "outbox_row \<Rightarrow> kafka_message" where
  "message_of_row r =
     \<lparr>km_schema_version = 1, km_event_id = event_id r, km_chain_id = show_u64 (ev_chain r), transition_kind = ev_kind r,
      km_block_hash = hex_hash (ev_block_hash r), km_block_height = word_of_int (ev_block_height r),
      km_ordering = \<lparr>ko_event_id = event_id r, ko_block_height = word_of_int (ev_block_height r)\<rparr>,
      km_payload = ev_payload r\<rparr>"

lemma message_of_row_marked [simp]: "message_of_row (r\<lparr>published_at := p\<rparr>) = message_of_row r"
  by (simp add: message_of_row_def)

lemma row_to_message_wf:
  assumes "db_inv db" and "r \<in> set (outbox_table db)"
  shows "row_to_message r = Inr (message_of_row r)"
proof -
  from assms obtain b where "get_block (ev_chain r) (ev_block_hash r) db = Some b" "br_height b = ev_block_height r"
    by (auto simp: db_inv_def journal_wf_def block_at_def split: option.splits)
  moreover have "0 \<le> br_height b \<and> br_height b < 2 ^ 63"
    using assms(1) calculation(1) unfolding db_inv_def rows_wf_def by blast
  ultimately have "0 \<le> ev_block_height r" "ev_block_height r < 2 ^ 63" by simp_all
  then show ?thesis by (simp add: row_to_message_def u64_of_int_def message_of_row_def)
qed

definition split_at_published :: "outbox_row list \<Rightarrow> outbox_row list \<Rightarrow> database \<Rightarrow> bool" where
  "split_at_published pub rest db \<longleftrightarrow> outbox_table db = pub @ rest \<and>
     (\<forall>r \<in> set pub. published_at r \<noteq> None) \<and> (\<forall>r \<in> set rest. published_at r = None)"

lemma next_unpublished_hd:
  assumes inv: "db_inv db" and s: "split_at_published pub rest db"
  shows "next_unpublished_row db = (case rest of [] \<Rightarrow> None | r # _ \<Rightarrow> Some r)"
proof -
  have f: "filter (\<lambda>r. published_at r = None) (outbox_table db) = rest"
    using s by (auto simp: split_at_published_def filter_empty_conv filter_id_conv)
  have "sorted_wrt (<) (map event_id (pub @ rest))"
    using inv s by (simp add: db_inv_def journal_wf_def split_at_published_def)
  then have "sorted (map event_id rest)" by (auto simp: sorted_wrt_append strict_sorted_iff)
  then have "sort_key event_id rest = rest" by (rule sort_key_id_if_sorted)
  with f show ?thesis by (simp add: next_unpublished_row_def split: list.split)
qed

lemma mark_published_hd:
  assumes inv: "db_inv db" and s: "split_at_published pub (r # rest) db"
  shows "snd (mark_published (event_id r) db) = db\<lparr>outbox_table := pub @ [r\<lparr>published_at := Some (db_now db)\<rparr>] @ rest\<rparr>"
proof -
  have "sorted_wrt (<) (map event_id (pub @ r # rest))"
    using inv s by (simp add: db_inv_def journal_wf_def split_at_published_def)
  then have "\<forall>x \<in> set rest. event_id x \<noteq> event_id r" by (auto simp: sorted_wrt_append)
  then have rest: "map (\<lambda>x. if event_id x = event_id r \<and> published_at x = None then x\<lparr>published_at := Some (db_now db)\<rparr> else x) rest = rest"
    by (auto simp: map_idI)
  have pub: "map (\<lambda>x. if event_id x = event_id r \<and> published_at x = None then x\<lparr>published_at := Some (db_now db)\<rparr> else x) pub = pub"
    using s by (intro map_idI) (auto simp: split_at_published_def)
  show ?thesis using s rest pub by (simp add: mark_published_def split_at_published_def)
qed

lemma get_block_table [simp]:
  "get_block c h (db\<lparr>outbox_table := t\<rparr>) = get_block c h db"
  "block_at c h n (db\<lparr>outbox_table := t\<rparr>) = block_at c h n db"
  by (simp_all add: get_block_def block_at_def)

lemma db_inv_outbox_map:
  assumes inv: "db_inv db"
    and f: "\<And>r. event_id (f r) = event_id r" "\<And>r. ev_chain (f r) = ev_chain r" "\<And>r. ev_kind (f r) = ev_kind r"
      "\<And>r. ev_block_hash (f r) = ev_block_hash r" "\<And>r. ev_block_height (f r) = ev_block_height r"
  shows "db_inv (db\<lparr>outbox_table := map f (outbox_table db)\<rparr>)"
proof -
  have "replay_event c (f r) = replay_event c r" for c r by (rule ext) (simp add: replay_event_def f)
  then have "fold (replay_event c) (map f rs) s = fold (replay_event c) rs s" for c rs s
    by (induction rs arbitrary: s) simp_all
  then have "replay c (map f rs) = replay c rs" for c rs by (simp add: replay_def)
  moreover have "map event_id (map f rs) = map event_id rs" for rs by (simp add: f)
  moreover have "rows_wf (db\<lparr>outbox_table := t\<rparr>) = rows_wf db" "canonical c h (db\<lparr>outbox_table := t\<rparr>) = canonical c h db" for t c h
    by (simp_all add: rows_wf_def canonical_def)
  ultimately show ?thesis
    using inv by (simp add: db_inv_def journal_wf_def f comp_def)
qed

lemma mark_published_inv: "db_inv db \<Longrightarrow> db_inv (snd (mark_published i db))"
  unfolding mark_published_def snd_conv by (rule db_inv_outbox_map) simp_all

section \<open>What a batch adds to the journal\<close>

definition journal_extends :: "database \<Rightarrow> database \<Rightarrow> bool" where
  "journal_extends db db' \<longleftrightarrow> (\<exists>new. outbox_table db' = outbox_table db @ new \<and> (\<forall>r \<in> set new. published_at r = None))"

lemma journal_extends_refl [intro]: "outbox_table db' = outbox_table db \<Longrightarrow> journal_extends db db'"
  by (auto simp: journal_extends_def)

lemma journal_extends_trans: "journal_extends a b \<Longrightarrow> journal_extends b c \<Longrightarrow> journal_extends a c"
  by (auto simp: journal_extends_def)

lemma apply_event_extends:
  assumes "apply_event flt w anc e rt t = (Inr rt', t')"
  shows "journal_extends (tx_db t) (tx_db t')"
proof -
  obtain a b c d where rt: "rt = (a, b)" "rt' = (c, d)" by (cases rt; cases rt')
  show ?thesis using assms [unfolded rt]
    by (cases rule: apply_event_cases)
      (auto simp: journal_extends_def journaled_def set_row_def outbox_entry_def)
qed

lemma apply_events_extends:
  "apply_events flt cp w anc es rt t = (Inr rt', t') \<Longrightarrow> journal_extends (tx_db t) (tx_db t')"
proof (induction es arbitrary: rt t)
  case (Cons e es)
  from Cons.prems obtain u1 t1 rt1 t2 u3 t3 where
    1: "crash_gate_hit cp t = (Inr u1, t1)" and 2: "apply_event flt w anc e rt t1 = (Inr rt1, t2)" and
    3: "crash_gate_hit cp t2 = (Inr u3, t3)" and 4: "apply_events flt cp w anc es rt1 t3 = (Inr rt', t')"
    by (auto simp: try_simps)
  from apply_event_extends [OF 2] Cons.IH [OF 4] journal_extends_trans show ?case
    by (simp add: crash_gate_db [OF 1] crash_gate_db [OF 3])
qed auto

lemma move_target_outbox:
  "move_target flt cp w target t = (Inr u, t') \<Longrightarrow> outbox_table (tx_db t') = outbox_table (tx_db t)"
  by (auto simp: move_target_def move_checkpoint_def try_simps run_stmt_Inr upsert_checkpoint_def
      split: option.splits if_splits dest!: crash_gate_db)

lemma batch_extends:
  assumes "apply_batch_inner flt cp w b db = (r, db')"
  shows "journal_extends db db'"
proof (cases "durable_is_empty b")
  case True
  with assms show ?thesis by (auto simp: apply_batch_inner_def)
next
  case False
  let ?t = "\<lparr>tx_db = db, tx_statements = 0, gate_step = 0\<rparr>"
  have gone: "journal_extends db (abandon db t)" for t by (auto simp: abandon_def)
  have body: "journal_extends db (tx_db t)" if "batch_body flt cp w b ?t = (Inr rep, t)" for rep t
    using that
  proof (cases rule: batch_body_parts)
    case (1 u t2 tgt t3 v)
    from apply_events_extends [OF 1(3)] move_target_outbox [OF 1(4)] show ?thesis
      by (simp add: crash_gate_db [OF 1(2)] journal_extends_def)
  qed
  from assms False gone body show ?thesis
    by (auto simp: apply_batch_inner_def split: prod.splits sum.splits tx_stop.splits if_splits)
qed

section \<open>Steps of the dispatcher and of the writers\<close>

inductive outbox_step :: "'k kafka_dispatcher \<Rightarrow> 'k kafka_world \<Rightarrow> 'k kafka_world \<Rightarrow> bool" for d where
  dispatched: "dispatch_once_inner flt d failure w = (r, w') \<Longrightarrow> outbox_step d w w'"
| written: "apply_batch_inner flt cp wr b (kw_db w) = (r, db') \<Longrightarrow> outbox_step d w (w\<lparr>kw_db := db'\<rparr>)"

text \<open>What is documented of a producer: an acknowledged message is in the topic once, a failed one at most once.\<close>

definition producer_laws :: "'k producer \<Rightarrow> (string \<Rightarrow> kafka_message \<Rightarrow> 'r) \<Rightarrow> ('k \<Rightarrow> 'r list) \<Rightarrow> bool" where
  "producer_laws P rec view \<longleftrightarrow> (\<forall>t m k r k'. P t m k = (r, k') \<longrightarrow>
     (case r of Inr _ \<Rightarrow> view k' = view k @ [rec t m] | Inl _ \<Rightarrow> view k' \<in> {view k, view k @ [rec t m]}))"

lemma producer_acked: "producer_laws P rec view \<Longrightarrow> P t m k = (Inr u, k') \<Longrightarrow> view k' = view k @ [rec t m]"
  unfolding producer_laws_def by fastforce

lemma producer_failed:
  "producer_laws P rec view \<Longrightarrow> P t m k = (Inl e, k') \<Longrightarrow> view k' = view k \<or> view k' = view k @ [rec t m]"
  unfolding producer_laws_def by fastforce

text \<open>The producer of the code has these laws when \<open>send\<close> has them.\<close>

lemma rdkafka_laws:
  assumes "\<And>r k res k'. send r k = (res, k') \<Longrightarrow>
      (case res of Inr _ \<Rightarrow> view k' = view k @ [r] | Inl _ \<Rightarrow> view k' \<in> {view k, view k @ [r]})"
    and "\<And>m. to_vec (message_json m) = Inr (enc m)"
  shows "producer_laws (rdkafka_publish to_vec send) (\<lambda>t m. record_of t m (enc m)) view"
  using assms by (simp add: producer_laws_def rdkafka_publish_def)

definition delivery_inv :: "(kafka_message \<Rightarrow> 'r) \<Rightarrow> ('k \<Rightarrow> 'r list) \<Rightarrow> 'k kafka_world \<Rightarrow> bool" where
  "delivery_inv rec view w \<longleftrightarrow> db_inv (kw_db w) \<and>
     (\<exists>pub rest extra. split_at_published pub rest (kw_db w) \<and> extra \<in> {[], take 1 rest} \<and>
        stutters (map (\<lambda>r. rec (message_of_row r)) (pub @ extra)) (view (kw_broker w)))"

lemma stutters_send:
  assumes "stutters (map f (pub @ extra)) ys" and "extra \<in> {[], [r]}"
  shows "stutters (map f (pub @ [r])) (ys @ [f r])"
  using assms stutters_next [of "map f pub" ys "f r"] stutters_again [of "map f pub" "f r" ys] by auto

lemma dispatch_keeps_delivery:
  assumes laws: "producer_laws (kd_publish d) rec view" and inv: "delivery_inv (rec (kd_topic d)) view w"
    and run: "dispatch_once_inner flt d failure w = (res, w')"
  shows "delivery_inv (rec (kd_topic d)) view w'"
proof -
  let ?f = "\<lambda>r. rec (kd_topic d) (message_of_row r)"
  from inv obtain pub rest extra where db: "db_inv (kw_db w)" and s: "split_at_published pub rest (kw_db w)"
    and ex: "extra \<in> {[], take 1 rest}" and st: "stutters (map ?f (pub @ extra)) (view (kw_broker w))"
    by (auto simp: delivery_inv_def)
  have keep: ?thesis if "kw_db w' = kw_db w" "view (kw_broker w') = view (kw_broker w)"
    using inv that by (simp add: delivery_inv_def)
  show ?thesis
  proof (cases rest)
    case Nil
    with run next_unpublished_hd [OF db s] show ?thesis
      by (intro keep) (auto simp: dispatch_once_inner_def split: if_splits)
  next
    case (Cons r rs)
    have nxt: "next_unpublished_row (kw_db w) = Some r" using next_unpublished_hd [OF db s] Cons by simp
    have msg: "row_to_message r = Inr (message_of_row r)"
      using s Cons by (intro row_to_message_wf [OF db]) (simp add: split_at_published_def)
    have ex': "extra \<in> {[], [r]}" using ex Cons by simp
    from stutters_send [OF st ex'] have sent: "stutters (map ?f (pub @ [r])) (view (kw_broker w) @ [?f r])" .
    have again: ?thesis if "kw_db w' = kw_db w" "view (kw_broker w') = view (kw_broker w) @ [?f r]"
      unfolding delivery_inv_def that using db s Cons sent by (intro conjI exI [of _ pub] exI [of _ rest] exI [of _ "[r]"]) auto
    have marked: ?thesis if "kw_db w' = snd (mark_published (event_id r) (kw_db w))" "view (kw_broker w') = view (kw_broker w) @ [?f r]"
    proof -
      let ?r = "r\<lparr>published_at := Some (db_now (kw_db w))\<rparr>"
      have "split_at_published (pub @ [?r]) rs (kw_db w')"
        using s Cons mark_published_hd [OF db s [unfolded Cons]] that(1) by (simp add: split_at_published_def)
      moreover have "db_inv (kw_db w')" using mark_published_inv [OF db] that(1) by simp
      moreover have "stutters (map ?f ((pub @ [?r]) @ [])) (view (kw_broker w'))" using sent that(2) by simp
      ultimately show ?thesis unfolding delivery_inv_def by blast
    qed
    obtain pr k where pub': "kd_publish d (kd_topic d) (message_of_row r) (kw_broker w) = (pr, k)" by (rule prod.exhaust)
    have id: "km_event_id (message_of_row r) = event_id r" by (simp add: message_of_row_def)
    show ?thesis
    proof (cases "(lost_at flt 0 \<or> lost_at flt 1) \<or> failure = Some BeforePublish")
      case True
      with run nxt msg show ?thesis by (intro keep) (auto simp: dispatch_once_inner_def split: if_splits)
    next
      case go: False
      show ?thesis
      proof (cases pr)
        case (Inl e)
        from producer_failed [OF laws pub' [unfolded Inl]]
        have "view k = view (kw_broker w) \<or> view k = view (kw_broker w) @ [?f r]" .
        moreover have "kw_db w' = kw_db w" "kw_broker w' = k"
          using run nxt msg go pub' Inl by (auto simp: dispatch_once_inner_def)
        ultimately show ?thesis using keep again by auto
      next
        case (Inr u)
        from producer_acked [OF laws pub' [unfolded Inr]] have v: "view k = view (kw_broker w) @ [?f r]" .
        obtain n db' where mk: "mark_published (event_id r) (kw_db w) = (Inr n, db')" by (simp add: mark_published_def)
        have go': "\<not> lost_at flt 0" "\<not> lost_at flt 1" "failure \<noteq> Some BeforePublish" using go by simp_all
        let ?w = "w\<lparr>kw_broker := k\<rparr>"
        have run': "dispatch_once_inner flt d failure w =
            (if failure = Some AfterBrokerAckBeforeMark then (Inl (InjectedAfterAck (event_id r)), ?w)
             else if lost_at flt 2 then (Inl (KafkaDatabase ConnectionLost), ?w)
             else if lost_at flt 3
             then (Inl (KafkaDatabase ConnectionLost), if commit_kept flt then ?w\<lparr>kw_db := db'\<rparr> else ?w)
             else (Inr (Delivered (message_of_row r)), ?w\<lparr>kw_db := db'\<rparr>))"
          using nxt msg go' pub' Inr mk by (simp add: dispatch_once_inner_def Let_def id)
        from run run' have "w' = ?w \<or> w' = ?w\<lparr>kw_db := db'\<rparr>"
          by (simp split: if_splits)
        then show ?thesis
        proof
          assume "w' = ?w" with v show ?thesis by (intro again) simp_all
        next
          assume "w' = ?w\<lparr>kw_db := db'\<rparr>" with v mk show ?thesis by (intro marked) simp_all
        qed
      qed
    qed
  qed
qed

lemma write_keeps_delivery:
  assumes inv: "delivery_inv rec view w" and run: "apply_batch_inner flt cp wr b (kw_db w) = (r, db')"
  shows "delivery_inv rec view (w\<lparr>kw_db := db'\<rparr>)"
proof -
  from inv obtain pub rest extra where db: "db_inv (kw_db w)" and s: "split_at_published pub rest (kw_db w)"
    and ex: "extra \<in> {[], take 1 rest}" and st: "stutters (map (\<lambda>r. rec (message_of_row r)) (pub @ extra)) (view (kw_broker w))"
    by (auto simp: delivery_inv_def)
  from batch_extends [OF run] obtain new where new: "outbox_table db' = outbox_table (kw_db w) @ new"
    "\<forall>r \<in> set new. published_at r = None" by (auto simp: journal_extends_def)
  have s': "split_at_published pub (rest @ new) db'" using s new by (auto simp: split_at_published_def)
  have "extra \<in> {[], take 1 (rest @ new)}" using ex by (cases rest) auto
  moreover have "db_inv db'" using batch_keeps_inv [OF db run] .
  ultimately show ?thesis
    unfolding delivery_inv_def using s' st
    by (intro conjI exI [where x = pub] exI [where x = "rest @ new"] exI [where x = extra]) simp_all
qed

lemma steps_keep_delivery:
  assumes "(outbox_step d)\<^sup>*\<^sup>* w0 w" and "producer_laws (kd_publish d) rec view" and "delivery_inv (rec (kd_topic d)) view w0"
  shows "delivery_inv (rec (kd_topic d)) view w"
  using assms(1,3)
proof (induction rule: rtranclp_induct)
  case (step w w')
  from step(2) step.IH [OF step.prems] show ?case
    by (cases rule: outbox_step.cases) (auto intro: dispatch_keeps_delivery [OF assms(2)] write_keeps_delivery)
qed

section \<open>A run of the loop\<close>

lemma dispatch_once_calm:
  assumes laws: "producer_laws (kd_publish d) rec view"
    and up: "\<And>t m k. up k \<Longrightarrow> \<exists>k'. kd_publish d t m k = (Inr (), k') \<and> up k'"
    and db: "db_inv (kw_db w)" and s: "split_at_published pub rest (kw_db w)" and k: "up (kw_broker w)"
    and calm: "\<And>i. \<not> lost_at flt i"
  shows "(case rest of
      [] \<Rightarrow> dispatch_once flt d w = (Inr Idle, w)
    | r # rs \<Rightarrow> \<exists>k' db'. dispatch_once flt d w = (Inr (Delivered (message_of_row r)), w\<lparr>kw_broker := k', kw_db := db'\<rparr>) \<and> up k' \<and>
        split_at_published (pub @ [r\<lparr>published_at := Some (db_now (kw_db w))\<rparr>]) rs db' \<and> db_inv db' \<and>
        blocks_table db' = blocks_table (kw_db w))"
proof (cases rest)
  case Nil
  with next_unpublished_hd [OF db s] calm show ?thesis by (simp add: dispatch_once_def dispatch_once_inner_def)
next
  case (Cons r rs)
  have nxt: "next_unpublished_row (kw_db w) = Some r" using next_unpublished_hd [OF db s] Cons by simp
  have msg: "row_to_message r = Inr (message_of_row r)"
    using s Cons by (intro row_to_message_wf [OF db]) (simp add: split_at_published_def)
  have id: "km_event_id (message_of_row r) = event_id r" by (simp add: message_of_row_def)
  from up [OF k] obtain k' where k': "kd_publish d (kd_topic d) (message_of_row r) (kw_broker w) = (Inr (), k')" "up k'"
    by blast
  obtain n db' where mk: "mark_published (event_id r) (kw_db w) = (Inr n, db')" by (simp add: mark_published_def)
  have "dispatch_once flt d w = (Inr (Delivered (message_of_row r)), w\<lparr>kw_broker := k', kw_db := db'\<rparr>)"
    using nxt msg k' mk calm by (simp add: dispatch_once_def dispatch_once_inner_def id)
  moreover have "split_at_published (pub @ [r\<lparr>published_at := Some (db_now (kw_db w))\<rparr>]) rs db'"
    using s Cons mark_published_hd [OF db s [unfolded Cons]] mk by (simp add: split_at_published_def)
  moreover have "db_inv db'" using mark_published_inv [OF db, of "event_id r"] mk by simp
  moreover have "blocks_table db' = blocks_table (kw_db w)" using mk by (auto simp: mark_published_def)
  ultimately show ?thesis using Cons k'(2) by auto
qed

definition calm_turns :: "nat \<Rightarrow> (bool \<times> (database \<Rightarrow> database) \<times> faults) list" where
  "calm_turns n = replicate n (False, \<lambda>db. db, \<lparr>lost_at = \<lambda>_. False, commit_kept = True\<rparr>)
     @ [(True, \<lambda>db. db, \<lparr>lost_at = \<lambda>_. False, commit_kept = True\<rparr>)]"

lemma calm_turns_simps:
  "calm_turns 0 = [(True, \<lambda>db. db, \<lparr>lost_at = \<lambda>_. False, commit_kept = True\<rparr>)]"
  "calm_turns (Suc n) = (False, \<lambda>db. db, \<lparr>lost_at = \<lambda>_. False, commit_kept = True\<rparr>) # calm_turns n"
  by (simp_all add: calm_turns_def)

lemma calm_run_drains:
  assumes laws: "producer_laws (kd_publish d) rec view"
    and up: "\<And>t m k. up k \<Longrightarrow> \<exists>k'. kd_publish d t m k = (Inr (), k') \<and> up k'"
  shows "db_inv (kw_db w) \<Longrightarrow> split_at_published pub rest (kw_db w) \<Longrightarrow> up (kw_broker w) \<Longrightarrow> length rest \<le> n \<Longrightarrow>
    \<exists>w'. run_until_cancelled (calm_turns n) d w = (Some (Inr ()), w') \<and> (outbox_step d)\<^sup>*\<^sup>* w w' \<and>
      (\<forall>r \<in> set (outbox_table (kw_db w')). published_at r \<noteq> None) \<and> blocks_table (kw_db w') = blocks_table (kw_db w)"
proof (induction n arbitrary: w pub rest)
  case 0
  then show ?case by (auto simp: calm_turns_simps split_at_published_def)
next
  case (Suc n)
  let ?flt = "\<lparr>lost_at = \<lambda>_. False, commit_kept = True\<rparr>"
  have calm: "\<not> lost_at ?flt i" for i by simp
  show ?case
  proof (cases rest)
    case Nil
    have "dispatch_once ?flt d w = (Inr Idle, w)"
      using dispatch_once_calm [OF laws up Suc.prems(1-3) calm] Nil by simp
    moreover from Suc.IH [OF Suc.prems(1-3)] Nil obtain w' where
      "run_until_cancelled (calm_turns n) d w = (Some (Inr ()), w')" "(outbox_step d)\<^sup>*\<^sup>* w w'"
      "\<forall>r \<in> set (outbox_table (kw_db w')). published_at r \<noteq> None" "blocks_table (kw_db w') = blocks_table (kw_db w)"
      by auto
    ultimately show ?thesis by (intro exI [of _ w']) (simp add: calm_turns_simps)
  next
    case (Cons r rs)
    from dispatch_once_calm [OF laws up Suc.prems(1-3) calm] Cons obtain k' db' where
      d: "dispatch_once ?flt d w = (Inr (Delivered (message_of_row r)), w\<lparr>kw_broker := k', kw_db := db'\<rparr>)" and
      n: "up k'" "split_at_published (pub @ [r\<lparr>published_at := Some (db_now (kw_db w))\<rparr>]) rs db'" "db_inv db'"
        "blocks_table db' = blocks_table (kw_db w)"
      by auto
    let ?w = "w\<lparr>kw_broker := k', kw_db := db'\<rparr>"
    from n Suc.prems(4) Cons Suc.IH [of ?w "pub @ [r\<lparr>published_at := Some (db_now (kw_db w))\<rparr>]" rs] obtain w' where w':
      "run_until_cancelled (calm_turns n) d ?w = (Some (Inr ()), w')" "(outbox_step d)\<^sup>*\<^sup>* ?w w'"
      "\<forall>r \<in> set (outbox_table (kw_db w')). published_at r \<noteq> None" "blocks_table (kw_db w') = blocks_table (kw_db w)"
      by auto
    from d have "outbox_step d w ?w" unfolding dispatch_once_def by (rule outbox_step.dispatched)
    with w'(2) have "(outbox_step d)\<^sup>*\<^sup>* w w'" by (rule converse_rtranclp_into_rtranclp [rotated])
    with w' d show ?thesis by (intro exI [of _ w']) (simp add: calm_turns_simps)
  qed
qed

section \<open>What a consumer knows\<close>

text \<open>A consumer of the topic that keeps the canonical block hashes of a chain.\<close>

definition consumer_event :: "u64 \<Rightarrow> kafka_message \<Rightarrow> string set \<Rightarrow> string set" where
  "consumer_event c m s =
     (if km_chain_id m \<noteq> show_u64 c then s
      else if transition_kind m = ''apply'' then insert (km_block_hash m) s
      else if transition_kind m = ''rollback'' then s - {km_block_hash m}
      else s)"

definition consumer_view :: "u64 \<Rightarrow> kafka_message list \<Rightarrow> string set" where
  "consumer_view c ms = fold (consumer_event c) ms {}"

lemma consumer_event_again: "consumer_event c m (consumer_event c m s) = consumer_event c m s"
  by (auto simp: consumer_event_def)

lemma consumer_event_row:
  "consumer_event c (message_of_row r) (hex_hash ` s) = hex_hash ` replay_event c r s"
  by (auto simp: consumer_event_def message_of_row_def replay_event_def)

lemma consumer_view_rows: "consumer_view c (map message_of_row rs) = hex_hash ` replay c rs"
proof -
  have "fold (consumer_event c) (map message_of_row rs) (hex_hash ` s) = hex_hash ` fold (replay_event c) rs s" for s
    by (induction rs arbitrary: s) (simp_all add: consumer_event_row)
  from this [of "{}"] show ?thesis by (simp add: consumer_view_def replay_def)
qed

section \<open>The properties of the dispatcher\<close>

text \<open>An empty topic, and a journal of which nothing is published.\<close>

definition unpublished_start :: "('k \<Rightarrow> 'r list) \<Rightarrow> 'k kafka_world \<Rightarrow> bool" where
  "unpublished_start view w \<longleftrightarrow> db_inv (kw_db w) \<and> view (kw_broker w) = [] \<and>
     (\<forall>r \<in> set (outbox_table (kw_db w)). published_at r = None)"

lemma start_delivery: "unpublished_start view w \<Longrightarrow> delivery_inv rec view w"
  unfolding unpublished_start_def delivery_inv_def
  by (intro conjI exI [where x = "[]"] exI [where x = "outbox_table (kw_db w)"]) (auto simp: split_at_published_def)

definition topic_producer :: "kafka_message list producer" where
  "topic_producer t m ms = (Inr (), ms @ [m])"

lemma topic_producer_laws: "producer_laws topic_producer (\<lambda>t m. m) (\<lambda>ms. ms)"
  by (simp add: producer_laws_def topic_producer_def)

definition sample_world :: "kafka_message list kafka_world" where
  "sample_world = \<lparr>kw_db = sample_db, kw_broker = [], kw_status = status_default\<rparr>"

lemma sample_world_start: "unpublished_start (\<lambda>ms. ms) sample_world"
  using sample_db_inv by (simp add: unpublished_start_def sample_world_def sample_db_def sample_entry_def)

text \<open>
  C9: Start from an empty topic and a journal of which nothing is published, and let batches be written
  and rows be dispatched in any order, with any connection lost, any crash of a writer, any failed
  publish, and any lost acknowledgement or commit.  Then the published rows are always a prefix of
  the journal, and the topic holds the messages of these rows in the order of their event IDs, each
  once or several times in a row, followed at most by copies of the next row's message: nothing is
  skipped, reordered or marked before the broker has it.  The law on the producer is that an
  acknowledged message is appended once and a failed one at most once.
\<close>
theorem kafka_delivers_in_order:
  assumes "producer_laws (kd_publish d) rec view" and "unpublished_start view w0" and "(outbox_step d)\<^sup>*\<^sup>* w0 w"
  shows "\<exists>published rest extra.
    outbox_table (kw_db w) = published @ rest \<and>
    (\<forall>r \<in> set published. published_at r \<noteq> None) \<and> (\<forall>r \<in> set rest. published_at r = None) \<and>
    sorted_wrt (<) (map event_id (published @ rest)) \<and>
    extra \<in> {[], take 1 rest} \<and>
    stutters (map (\<lambda>r. rec (kd_topic d) (message_of_row r)) (published @ extra)) (view (kw_broker w))"
proof -
  have "delivery_inv (rec (kd_topic d)) view w"
    using steps_keep_delivery [OF assms(3,1) start_delivery [OF assms(2)]] .
  then show ?thesis
    unfolding delivery_inv_def split_at_published_def db_inv_def journal_wf_def by metis
qed

theorem kafka_delivers_in_order_witness:
  "\<exists>w. outbox_step (dispatcher_new ''t'' topic_producer 1000000000) sample_world w \<and> kw_broker w \<noteq> [] \<and>
     (\<exists>published rest extra. outbox_table (kw_db w) = published @ rest \<and>
        stutters (map message_of_row (published @ extra)) (kw_broker w))"
proof -
  let ?d = "dispatcher_new ''t'' topic_producer 1000000000"
  let ?f = "\<lparr>lost_at = \<lambda>i. i = 3, commit_kept = False\<rparr>"
  obtain r w where w: "dispatch_once_inner ?f ?d None sample_world = (r, w)" by (rule prod.exhaust)
  then have step: "outbox_step ?d sample_world w" by (rule outbox_step.dispatched)
  have "kw_broker w \<noteq> []"
    using w by (auto simp: dispatch_once_inner_def next_unpublished_row_def sample_world_def sample_db_def sample_entry_def
        row_to_message_def u64_of_int_def dispatcher_new_def topic_producer_def mark_published_def Let_def sort_key_def)
  moreover have "producer_laws (kd_publish ?d) (\<lambda>t m. m) (\<lambda>ms. ms)"
    using topic_producer_laws by (simp add: dispatcher_new_def)
  from kafka_delivers_in_order [OF this sample_world_start, of w] step
  have "\<exists>published rest extra. outbox_table (kw_db w) = published @ rest \<and>
        stutters (map message_of_row (published @ extra)) (kw_broker w)" by blast
  ultimately show ?thesis using step by blast
qed

text \<open>
  C18: The whole path from the database to a consumer: after any such history, let the broker take
  messages again and the loop run undisturbed for at least as many turns as there are unpublished
  rows.  The loop ends when it is cancelled, every row is published, and a consumer that reads the
  topic from its start, adding the hash of each \<open>apply\<close> and removing that of each \<open>rollback\<close>, knows
  exactly the canonical blocks of the database, in spite of the repeated deliveries.
\<close>
theorem drained_topic_is_canonical:
  assumes laws: "producer_laws (kd_publish d) (\<lambda>t m. m) view" and start: "unpublished_start view w0"
    and steps: "(outbox_step d)\<^sup>*\<^sup>* w0 w"
    and up: "\<And>t m k. up k \<Longrightarrow> \<exists>k'. kd_publish d t m k = (Inr (), k') \<and> up k'" "up (kw_broker w)"
    and n: "length (filter (\<lambda>r. published_at r = None) (outbox_table (kw_db w))) \<le> n"
    and run: "run_until_cancelled (calm_turns n) d w = (r, w')"
  shows "r = Some (Inr ()) \<and> (\<forall>e \<in> set (outbox_table (kw_db w')). published_at e \<noteq> None) \<and>
    consumer_view c (view (kw_broker w')) = hex_hash ` {h. canonical c h (kw_db w)}"
proof -
  have inv: "delivery_inv (\<lambda>m. m) view w"
    using steps_keep_delivery [OF steps laws start_delivery [OF start]] .
  then obtain pub rest where db: "db_inv (kw_db w)" and s: "split_at_published pub rest (kw_db w)"
    by (auto simp: delivery_inv_def)
  have "filter (\<lambda>r. published_at r = None) (outbox_table (kw_db w)) = rest"
    using s by (auto simp: split_at_published_def filter_empty_conv filter_id_conv)
  with n have "length rest \<le> n" by simp
  from calm_run_drains [OF laws up(1) db s up(2) this] run have
    r: "r = Some (Inr ())" and steps': "(outbox_step d)\<^sup>*\<^sup>* w w'" and
    all: "\<forall>e \<in> set (outbox_table (kw_db w')). published_at e \<noteq> None" and
    same: "blocks_table (kw_db w') = blocks_table (kw_db w)" by auto
  have inv': "delivery_inv (\<lambda>m. m) view w'" using steps_keep_delivery [OF steps' laws inv] .
  then obtain pub' rest' extra where s': "split_at_published pub' rest' (kw_db w')" "extra \<in> {[], take 1 rest'}"
    and st: "stutters (map message_of_row (pub' @ extra)) (view (kw_broker w'))" and db': "db_inv (kw_db w')"
    by (auto simp: delivery_inv_def)
  from s' all have "rest' = []" "extra = []" "pub' = outbox_table (kw_db w')"
    by (cases rest'; auto simp: split_at_published_def)+
  with st have "consumer_view c (view (kw_broker w')) = consumer_view c (map message_of_row (outbox_table (kw_db w')))"
    unfolding consumer_view_def by (intro fold_stutters consumer_event_again) simp
  also have "\<dots> = hex_hash ` {h. canonical c h (kw_db w')}"
    using db' by (simp add: consumer_view_rows db_inv_def journal_wf_def)
  also have "{h. canonical c h (kw_db w')} = {h. canonical c h (kw_db w)}"
    using same by (simp add: canonical_def get_block_def)
  finally show ?thesis using r all by simp
qed

theorem drained_topic_is_canonical_witness:
  "\<exists>w'. run_until_cancelled (calm_turns 2) (dispatcher_new ''t'' topic_producer 1000000000) sample_world = (Some (Inr ()), w') \<and>
     consumer_view 1 (kw_broker w') = {hex_hash (fill 1), hex_hash (fill 2)}"
proof -
  let ?d = "dispatcher_new ''t'' topic_producer 1000000000"
  obtain r w' where run: "run_until_cancelled (calm_turns 2) ?d sample_world = (r, w')" by (rule prod.exhaust)
  have laws: "producer_laws (kd_publish ?d) (\<lambda>t m. m) (\<lambda>ms. ms)"
    using topic_producer_laws by (simp add: dispatcher_new_def)
  have up: "\<exists>k'. kd_publish ?d t m k = (Inr (), k') \<and> True" for t m k
    by (simp add: dispatcher_new_def topic_producer_def)
  have n: "length (filter (\<lambda>r. published_at r = None) (outbox_table (kw_db sample_world))) \<le> 2"
    by (simp add: sample_world_def sample_db_def sample_entry_def)
  have can: "{h. canonical 1 h (kw_db sample_world)} = {fill 1, fill 2}"
    by (auto simp: sample_world_def canonical_def sample_row_def)
  from drained_topic_is_canonical [OF laws sample_world_start rtranclp.rtrancl_refl, of "\<lambda>_. True", OF up _ n run, of 1]
  have "r = Some (Inr ())" "consumer_view 1 (kw_broker w') = hex_hash ` {fill 1, fill 2}"
    using can by simp_all
  with run show ?thesis by auto
qed

end
