(* ===== verification/Abi.thy ===== *)
theory Abi
  imports Config Postgres_Correct "HOL-Library.List_Lexorder"
begin

text \<open>
  The event decoder of \<open>chainweave-sink/src/abi.rs\<close>, the registry that main builds from the
  configuration, and \<open>redecode_retained_logs\<close> of \<open>postgres.rs\<close>, which decodes stored logs again.

  The functions of the \<open>alloy\<close> library that the code calls (parsing an event or an address, the
  selector, the decoding of a log) are a record \<open>alloy\<close>.  The counters are left out.
\<close>

section \<open>The ABI library\<close>

text \<open>\<open>DynSolValue\<close>; the sizes of integers are not read.\<close>

datatype sol_value =
    SBool bool
  | SInt int
  | SUint nat
  | SFixedBytes block_hash nat
  | SAddress address
  | SFunction "u8 list"
  | SBytes "u8 list"
  | SString string
  | SArray "sol_value list"
  | SFixedArray "sol_value list"
  | STuple "sol_value list"

record event_param =
  param_name :: string
  param_ty :: string
  param_indexed :: bool

record sol_decoded =
  sd_indexed :: "sol_value list"
  sd_body :: "sol_value list"

record 'ev alloy =
  parse_ev :: "string \<Rightarrow> string + 'ev"
  ev_name :: "'ev \<Rightarrow> string"
  ev_signature :: "'ev \<Rightarrow> string"
  ev_selector :: "'ev \<Rightarrow> block_hash"
  ev_inputs :: "'ev \<Rightarrow> event_param list"
  decode_parts :: "'ev \<Rightarrow> block_hash list \<Rightarrow> u8 list \<Rightarrow> string + sol_decoded"
  parse_addr :: "string \<Rightarrow> string + address"
  show_addr :: "address \<Rightarrow> string"

section \<open>Data\<close>

datatype abi_standard = Erc20 | Erc721 | UniswapV3Pool

record 'ev contract_decoder =
  cd_standard :: abi_standard
  cd_version :: string
  cd_events :: "'ev list"

text \<open>The order of \<open>[u8; 20]\<close> and \<open>[u8; 32]\<close>.\<close>

instantiation byte_array :: (len) linorder
begin

definition less_eq_byte_array :: "'a byte_array \<Rightarrow> 'a byte_array \<Rightarrow> bool" where
  "less_eq_byte_array a b \<longleftrightarrow> bytes_of a \<le> bytes_of b"

definition less_byte_array :: "'a byte_array \<Rightarrow> 'a byte_array \<Rightarrow> bool" where
  "less_byte_array a b \<longleftrightarrow> bytes_of a < bytes_of b"

instance
  by standard (auto simp: less_eq_byte_array_def less_byte_array_def less_le_not_le simp flip: bytes_of_inject)

end

type_synonym 'ev abi_registry = "(address, 'ev contract_decoder) btree_map"

record registry_entry =
  re_address :: address
  re_standard :: abi_standard
  re_version :: string

datatype decode_status = StDecoded | StUnknownAbi | StUnknownSignature | StDecodeFailure

record decode_report =
  decoded_count :: nat
  unknown_abi :: nat
  unknown_signature :: nat
  decode_failures :: nat

datatype decode_result = RDecoded json string | RUnknownAbi | RUnknownSignature | RDecodeFailure

datatype registry_error =
    InvalidStandard string
  | InvalidAddress string string
  | InvalidBundledEvent string string
  | DuplicateAddress string

section \<open>Standards and the registry\<close>

fun standard_str :: "abi_standard \<Rightarrow> string" where
  "standard_str Erc20 = ''erc20''"
| "standard_str Erc721 = ''erc721''"
| "standard_str UniswapV3Pool = ''uniswap_v3_pool''"

fun event_signatures :: "abi_standard \<Rightarrow> string list" where
  "event_signatures Erc20 =
     [''event Transfer(address indexed from,address indexed to,uint256 value)'',
      ''event Approval(address indexed owner,address indexed spender,uint256 value)'']"
| "event_signatures Erc721 =
     [''event Transfer(address indexed from,address indexed to,uint256 indexed tokenId)'',
      ''event Approval(address indexed owner,address indexed approved,uint256 indexed tokenId)'']"
| "event_signatures UniswapV3Pool =
     [''event Swap(address indexed sender,address indexed recipient,int256 amount0,int256 amount1,uint160 sqrtPriceX96,uint128 liquidity,int24 tick)'',
      ''event Mint(address sender,address indexed owner,int24 indexed tickLower,int24 indexed tickUpper,uint128 amount,uint256 amount0,uint256 amount1)'',
      ''event Burn(address indexed owner,int24 indexed tickLower,int24 indexed tickUpper,uint128 amount,uint256 amount0,uint256 amount1)'']"

definition standard_of_str :: "string \<Rightarrow> registry_error + abi_standard" where
  "standard_of_str s =
     (let n = normalized_standard s in
      if n \<in> {''erc20'', ''erc_20'', ''erc-20''} then Inr Erc20
      else if n \<in> {''erc721'', ''erc_721'', ''erc-721''} then Inr Erc721
      else if n \<in> {''uniswapv3pool'', ''uniswap_v3_pool'', ''uniswap-v3-pool'', ''uniswap_v3''} then Inr UniswapV3Pool
      else Inl (InvalidStandard s))"

definition default_decoder_version :: "abi_standard \<Rightarrow> string" where
  "default_decoder_version k = standard_str k @ '':v1''"

definition parse_event :: "'ev alloy \<Rightarrow> string \<Rightarrow> registry_error + 'ev" where
  "parse_event A d = map_err (InvalidBundledEvent d) (parse_ev A d)"

definition parse_address :: "'ev alloy \<Rightarrow> string \<Rightarrow> registry_error + address" where
  "parse_address A s = map_err (InvalidAddress s) (parse_addr A s)"

definition decoder_new :: "'ev alloy \<Rightarrow> abi_standard \<Rightarrow> string \<Rightarrow> registry_error + 'ev contract_decoder" where
  "decoder_new A k v =
     tryR (mapR (parse_event A) (event_signatures k)) (\<lambda>es.
       Inr \<lparr>cd_standard = k, cd_version = v, cd_events = es\<rparr>)"

fun add_entries ::
    "'ev alloy \<Rightarrow> registry_entry list \<Rightarrow> 'ev abi_registry \<Rightarrow> registry_error + 'ev abi_registry" where
  "add_entries A [] m = Inr m"
| "add_entries A (e # es) m =
     tryR (decoder_new A (re_standard e) (re_version e)) (\<lambda>d.
       if bt_get m (re_address e) \<noteq> None then Inl (DuplicateAddress (hex_bytes (bytes_of (re_address e))))
       else add_entries A es (bt_insert (re_address e) d m))"

definition registry_new :: "'ev alloy \<Rightarrow> registry_entry list \<Rightarrow> registry_error + 'ev abi_registry" where
  "registry_new A es = add_entries A es bt_new"

definition entry_of_config :: "'ev alloy \<Rightarrow> string \<times> string \<times> string option \<Rightarrow> registry_error + registry_entry" where
  "entry_of_config A = (\<lambda>(a, s, v).
     tryR (standard_of_str s) (\<lambda>k.
     tryR (parse_address A a) (\<lambda>a.
       Inr \<lparr>re_address = a, re_standard = k,
         re_version = (case v of Some v \<Rightarrow> v | None \<Rightarrow> default_decoder_version k)\<rparr>)))"

definition from_config_entries ::
    "'ev alloy \<Rightarrow> (string \<times> string \<times> string option) list \<Rightarrow> registry_error + 'ev abi_registry" where
  "from_config_entries A cs = tryR (mapR (entry_of_config A) cs) (registry_new A)"

definition registry_is_empty :: "'ev abi_registry \<Rightarrow> bool" where
  "registry_is_empty r \<longleftrightarrow> r = []"

section \<open>Decoding a log\<close>

definition hex_text :: "u8 list \<Rightarrow> json" where
  "hex_text bs = JStr (hex_bytes bs)"

fun sol_value_json :: "'ev alloy \<Rightarrow> sol_value \<Rightarrow> json" where
  "sol_value_json A (SBool b) = JBool b"
| "sol_value_json A (SInt i) = JStr (show_int i)"
| "sol_value_json A (SUint n) = JStr (show_nat n)"
| "sol_value_json A (SFixedBytes w n) = hex_text (take n (bytes_of w))"
| "sol_value_json A (SAddress a) = JStr (show_addr A a)"
| "sol_value_json A (SFunction f) = hex_text f"
| "sol_value_json A (SBytes bs) = hex_text bs"
| "sol_value_json A (SString s) = JStr s"
| "sol_value_json A (SArray vs) = JArr (map (sol_value_json A) vs)"
| "sol_value_json A (SFixedArray vs) = JArr (map (sol_value_json A) vs)"
| "sol_value_json A (STuple vs) = JArr (map (sol_value_json A) vs)"

definition parameter_name :: "event_param \<Rightarrow> nat \<Rightarrow> string" where
  "parameter_name p i = (if param_name p = [] then ''arg'' @ show_nat i else param_name p)"

text \<open>\<open>Iterator::next\<close> on what is left of a list.\<close>

definition next_value :: "'ev alloy \<Rightarrow> sol_value list \<Rightarrow> json \<times> sol_value list" where
  "next_value A vs = (case vs of [] \<Rightarrow> (JNull, []) | v # vs \<Rightarrow> (sol_value_json A v, vs))"

text \<open>The loop over the inputs: the members of \<open>args\<close> and the elements of \<open>ordered_args\<close>.\<close>

fun event_args ::
    "'ev alloy \<Rightarrow> nat \<Rightarrow> event_param list \<Rightarrow> sol_value list \<Rightarrow> sol_value list \<Rightarrow>
      (string \<times> json) list \<Rightarrow> json list \<Rightarrow> (string \<times> json) list \<times> json list" where
  "event_args A i [] ix bd args ord = (args, ord)"
| "event_args A i (p # ps) ix bd args ord =
     (let (v, ix, bd) = (if param_indexed p then (case next_value A ix of (v, ix) \<Rightarrow> (v, ix, bd))
                         else (case next_value A bd of (v, bd) \<Rightarrow> (v, ix, bd)));
          name = parameter_name p i in
      event_args A (i + 1) ps ix bd (AList.update name v args)
        (ord @ [JObj [(''name'', JStr name), (''type'', JStr (param_ty p)), (''indexed'', JBool (param_indexed p)), (''value'', v)]]))"

definition decoded_event_json :: "'ev alloy \<Rightarrow> 'ev contract_decoder \<Rightarrow> 'ev \<Rightarrow> sol_decoded \<Rightarrow> json" where
  "decoded_event_json A d e v =
     (case event_args A 0 (ev_inputs A e) (sd_indexed v) (sd_body v) [] [] of (args, ord) \<Rightarrow>
        JObj [(''schema_version'', JNum 1), (''standard'', JStr (standard_str (cd_standard d))),
          (''decoder_version'', JStr (cd_version d)), (''event'', JStr (ev_name A e)),
          (''signature'', JStr (ev_signature A e)), (''args'', JObj args), (''ordered_args'', JArr ord)])"

text \<open>The loop over the events of the decoder whose selector is the first topic.\<close>

fun try_events ::
    "'ev alloy \<Rightarrow> 'ev contract_decoder \<Rightarrow> block_hash list \<Rightarrow> u8 list \<Rightarrow> 'ev list \<Rightarrow> bool \<Rightarrow> bool \<Rightarrow> decode_result" where
  "try_events A d ts bs [] saw_selector saw_failure =
     (if saw_failure then RDecodeFailure else if saw_selector then RDecodeFailure else RUnknownSignature)"
| "try_events A d ts bs (e # es) saw_selector saw_failure =
     (case decode_parts A e ts bs of
        Inr v \<Rightarrow> RDecoded (decoded_event_json A d e v) (cd_version d)
      | Inl _ \<Rightarrow> try_events A d ts bs es True True)"

definition decode_log :: "'ev alloy \<Rightarrow> 'ev abi_registry \<Rightarrow> raw_log \<Rightarrow> decode_result" where
  "decode_log A reg l =
     (case bt_get reg (log_address l) of
        None \<Rightarrow> RUnknownAbi
      | Some d \<Rightarrow>
          (case topics l of
             [] \<Rightarrow> RUnknownSignature
           | t # _ \<Rightarrow>
               try_events A d (topics l) (log_data l) (filter (\<lambda>e. ev_selector A e = t) (cd_events d)) False False))"

definition decode_log_in_place :: "'ev alloy \<Rightarrow> 'ev abi_registry \<Rightarrow> raw_log \<Rightarrow> decode_status \<times> raw_log" where
  "decode_log_in_place A reg l =
     (let cleared = l\<lparr>decoded_event := None, decoder_version := None\<rparr> in
      case decode_log A reg l of
        RDecoded e v \<Rightarrow> (StDecoded, l\<lparr>decoded_event := Some e, decoder_version := Some v\<rparr>)
      | RUnknownAbi \<Rightarrow> (StUnknownAbi, cleared)
      | RUnknownSignature \<Rightarrow> (StUnknownSignature, cleared)
      | RDecodeFailure \<Rightarrow> (StDecodeFailure, cleared))"

definition decode_report_default :: decode_report where
  "decode_report_default = \<lparr>decoded_count = 0, unknown_abi = 0, unknown_signature = 0, decode_failures = 0\<rparr>"

fun record_status :: "decode_status \<Rightarrow> decode_report \<Rightarrow> decode_report" where
  "record_status StDecoded r = r\<lparr>decoded_count := decoded_count r + 1\<rparr>"
| "record_status StUnknownAbi r = r\<lparr>unknown_abi := unknown_abi r + 1\<rparr>"
| "record_status StUnknownSignature r = r\<lparr>unknown_signature := unknown_signature r + 1\<rparr>"
| "record_status StDecodeFailure r = r\<lparr>decode_failures := decode_failures r + 1\<rparr>"

fun decode_all :: "'ev alloy \<Rightarrow> 'ev abi_registry \<Rightarrow> raw_log list \<Rightarrow> decode_report \<Rightarrow> decode_report \<times> raw_log list" where
  "decode_all A reg [] r = (r, [])"
| "decode_all A reg (l # ls) r =
     (case decode_log_in_place A reg l of (st, l) \<Rightarrow>
      case decode_all A reg ls (record_status st r) of (r, ls) \<Rightarrow> (r, l # ls))"

definition decode_logs_in_place :: "'ev alloy \<Rightarrow> 'ev abi_registry \<Rightarrow> raw_log list \<Rightarrow> decode_report \<times> raw_log list" where
  "decode_logs_in_place A reg ls = decode_all A reg ls decode_report_default"

section \<open>Decoding the stored logs again\<close>

record redecode_report =
  scanned_logs :: nat
  updated_logs :: nat
  rr_decode :: decode_report

text \<open>The \<open>SELECT\<close>, in its order.\<close>

definition retained_logs :: "u64 \<Rightarrow> database \<Rightarrow> ((block_hash \<times> int) \<times> log_row) list" where
  "retained_logs c db =
     sort_key (\<lambda>((_, i), r). (lr_block_number r, lr_transaction_index r, i))
       (map (\<lambda>((_, h, i), r). ((h, i), r)) (filter (\<lambda>((c', _, _), _). c' = c) (logs_table db)))"

text \<open>\<open>UPDATE logs SET \<dots> WHERE \<dots> IS DISTINCT FROM \<dots>\<close>, with the number of rows changed.\<close>

definition update_decoder_columns ::
    "u64 \<Rightarrow> block_hash \<Rightarrow> int \<Rightarrow> json option \<Rightarrow> string option \<Rightarrow> database \<Rightarrow> nat \<times> database" where
  "update_decoder_columns c h i e v db =
     (let hit = (\<lambda>(k, r). k = (c, h, i) \<and> (lr_decoded_event r \<noteq> e \<or> lr_decoder_version r \<noteq> v)) in
      (length (filter hit (logs_table db)),
       db\<lparr>logs_table := map (\<lambda>(k, r). if hit (k, r) then (k, r\<lparr>lr_decoded_event := e, lr_decoder_version := v\<rparr>) else (k, r))
          (logs_table db)\<rparr>))"

text \<open>The loop inside the transaction; the argument after the report counts the statements.\<close>

fun redecode_rows ::
    "faults \<Rightarrow> pg_writer \<Rightarrow> 'ev alloy \<Rightarrow> 'ev abi_registry \<Rightarrow> ((block_hash \<times> int) \<times> log_row) list \<Rightarrow>
      redecode_report \<Rightarrow> nat \<Rightarrow> database \<Rightarrow> pg_error + redecode_report \<times> nat \<times> database" where
  "redecode_rows flt w A reg [] rep n db = Inr (rep, n, db)"
| "redecode_rows flt w A reg (((h, i), r) # rows) rep n db =
     tryR (hash_from_vec (bytes_of h)) (\<lambda>h.
     tryR (row_to_raw_log i r) (\<lambda>l.
     case decode_log_in_place A reg l of (st, l) \<Rightarrow>
     tryR (pg_int (log_index l)) (\<lambda>li.
       if lost_at flt n then Inl (Database ConnectionLost)
       else case update_decoder_columns (chain_id w) h li (decoded_event l) (decoder_version l) db of (k, db) \<Rightarrow>
         redecode_rows flt w A reg rows
           (rep\<lparr>rr_decode := record_status st (rr_decode rep), updated_logs := updated_logs rep + k\<rparr>) (n + 1) db)))"

text \<open>
  The \<open>SELECT\<close> is statement 0 and is not part of the transaction: \<open>others\<close> is what happens to the
  database before \<open>BEGIN\<close>, statement 1.
\<close>

definition redecode_retained_logs ::
    "faults \<Rightarrow> pg_writer \<Rightarrow> 'ev alloy \<Rightarrow> 'ev abi_registry \<Rightarrow> (database \<Rightarrow> database) \<Rightarrow> database \<Rightarrow>
      (pg_error + redecode_report) \<times> database" where
  "redecode_retained_logs flt w A reg others db =
     (if lost_at flt 0 then (Inl (Database ConnectionLost), db)
      else
        let rows = retained_logs (chain_id w) db;
            rep = \<lparr>scanned_logs = length rows, updated_logs = 0, rr_decode = decode_report_default\<rparr>;
            db = others db in
        if lost_at flt 1 then (Inl (Database ConnectionLost), db)
        else case redecode_rows flt w A reg rows rep 2 db of
          Inl e \<Rightarrow> (Inl e, db)
        | Inr (rep, n, db') \<Rightarrow>
            if lost_at flt n then (Inl (Database ConnectionLost), if commit_kept flt then db' else db)
            else (Inr rep, db'))"

section \<open>Settings and registry agree\<close>

text \<open>What is documented of the library: which texts are addresses, and that the bundled events parse.\<close>

definition alloy_laws :: "'ev alloy \<Rightarrow> bool" where
  "alloy_laws A \<longleftrightarrow> (\<forall>s a. parse_addr A s = Inr a \<longleftrightarrow> denotes_address s a) \<and>
     (\<forall>k. \<forall>s \<in> set (event_signatures k). \<exists>e. parse_ev A s = Inr e)"

lemma normalized_no_dash: "CHR ''-'' \<notin> set (normalized_standard s)"
  by (auto simp: normalized_standard_def replace_chars_def)

lemma standards_agree: "validate_abi_standard s = Inr () \<longleftrightarrow> (\<exists>k. standard_of_str s = Inr k)"
proof -
  have "normalized_standard s \<notin> {''erc-20'', ''erc-721'', ''uniswap-v3-pool''}"
    using normalized_no_dash [of s] by auto
  then show ?thesis by (auto simp: validate_abi_standard_def require_def standard_of_str_def Let_def)
qed

lemma decoder_new_ok:
  assumes "alloy_laws A"
  shows "\<exists>d. decoder_new A k v = Inr d"
proof -
  have "\<forall>s \<in> set (event_signatures k). \<exists>e. parse_event A s = Inr e"
    using assms by (fastforce simp: alloy_laws_def parse_event_def)
  then obtain g where "\<And>s. s \<in> set (event_signatures k) \<Longrightarrow> parse_event A s = Inr (g s)" by metis
  then have "mapR (parse_event A) (event_signatures k) = Inr (map g (event_signatures k))" by (rule mapR_all_ok)
  then show ?thesis by (simp add: decoder_new_def)
qed

lemma decoder_new_fields: "decoder_new A k v = Inr d \<Longrightarrow> cd_standard d = k \<and> cd_version d = v"
  by (auto simp: decoder_new_def try_simps)

lemma add_entries_ok:
  assumes "alloy_laws A"
  shows "bt_inv m \<Longrightarrow> (\<exists>r. add_entries A es m = Inr r) \<longleftrightarrow>
    distinct (map re_address es) \<and> (\<forall>e \<in> set es. bt_get m (re_address e) = None)"
proof (induction es arbitrary: m)
  case (Cons e es)
  from decoder_new_ok [OF assms] obtain d where d: "decoder_new A (re_standard e) (re_version e) = Inr d" by blast
  show ?case
  proof (cases "bt_get m (re_address e) = None")
    case True
    then show ?thesis using d Cons by (auto 0 3 simp: if_split_eq1 image_iff)
  qed (use d in auto)
qed simp

lemma add_entries_get:
  "add_entries A es m = Inr r \<Longrightarrow> bt_inv m \<Longrightarrow>
    (\<forall>e \<in> set es. bt_get m (re_address e) = None \<and>
      (\<exists>d. bt_get r (re_address e) = Some d \<and> decoder_new A (re_standard e) (re_version e) = Inr d)) \<and>
    (\<forall>a. a \<notin> re_address ` set es \<longrightarrow> bt_get r a = bt_get m a)"
proof (induction es arbitrary: m)
  case (Cons e es)
  from Cons.prems(1) obtain d where d: "decoder_new A (re_standard e) (re_version e) = Inr d" "bt_get m (re_address e) = None"
    "add_entries A es (bt_insert (re_address e) d m) = Inr r"
    by (auto simp: try_simps split: if_splits)
  note IH = Cons.IH [OF d(3) bt_inv_insert [OF Cons.prems(2)]]
  then have "re_address e \<notin> re_address ` set es" using Cons.prems(2) by fastforce
  then have "bt_get r (re_address e) = Some d" using IH Cons.prems(2) by simp
  with IH d Cons.prems(2) show ?case by (auto split: if_splits)
qed simp

text \<open>How main gives a contract of the settings to the registry.\<close>

definition contract_entry :: "abi_contract_config \<Rightarrow> string \<times> string \<times> string option" where
  "contract_entry c = (ac_address c, ac_standard c, ac_decoder_version c)"

lemma denotes_one: "concat (map hex_byte (bytes_of a)) = s \<Longrightarrow> concat (map hex_byte (bytes_of b)) = s \<Longrightarrow> a = b"
  by (metis hex_text_inj bytes_of_inject)

lemma entry_of_contract:
  assumes "alloy_laws A"
  shows "entry_of_config A (contract_entry c) = Inr e \<longleftrightarrow>
    standard_of_str (ac_standard c) = Inr (re_standard e) \<and> denotes_address (ac_address c) (re_address e) \<and>
    re_version e = (case ac_decoder_version c of Some v \<Rightarrow> v | None \<Rightarrow> default_decoder_version (re_standard e))"
proof -
  have "parse_address A s = Inr a \<longleftrightarrow> denotes_address s a" for s a
    using assms by (simp add: parse_address_def try_simps alloy_laws_def)
  then show ?thesis
    by (cases e; cases "ac_decoder_version c") (auto simp: entry_of_config_def contract_entry_def try_simps)
qed

definition address_text :: "abi_contract_config \<Rightarrow> string" where
  "address_text c = to_ascii_lowercase (without_0x (ac_address c))"

text \<open>
  The registry that main builds from the contracts of the settings agrees with their validation:
  it is built exactly when every address and every standard passes validation and no two contracts
  have the same address, however it is written; and then every contract is found under its address
  with the standard and the version (or the default version) that the settings give.
\<close>
theorem registry_accepts_validated:
  assumes laws: "alloy_laws A"
  shows "((\<exists>r. from_config_entries A (map contract_entry cs) = Inr r) \<longleftrightarrow>
      (\<forall>c \<in> set cs. validate_address (ac_address c) = Inr () \<and> validate_abi_standard (ac_standard c) = Inr ()) \<and>
      distinct (map address_text cs)) \<and>
    (\<forall>r. from_config_entries A (map contract_entry cs) = Inr r \<longrightarrow> (\<forall>c \<in> set cs. \<exists>a d k.
      denotes_address (ac_address c) a \<and> standard_of_str (ac_standard c) = Inr k \<and> bt_get r a = Some d \<and>
      cd_standard d = k \<and>
      cd_version d = (case ac_decoder_version c of Some v \<Rightarrow> v | None \<Rightarrow> default_decoder_version k)))"
proof -
  let ?P = "\<lambda>c e. entry_of_config A (contract_entry c) = Inr e"
  have entries: "mapR (entry_of_config A) (map contract_entry cs) = Inr es \<longleftrightarrow> list_all2 ?P cs es" for es
    by (simp add: mapR_Inr_iff list_all2_map1)
  have one: "(\<exists>e. ?P c e) \<longleftrightarrow> validate_address (ac_address c) = Inr () \<and> validate_abi_standard (ac_standard c) = Inr ()" for c
  proof
    assume "\<exists>e. ?P c e"
    then obtain e where "?P c e" by blast
    then have "validate_abi_standard (ac_standard c) = Inr ()" "denotes_address (ac_address c) (re_address e)"
      by (auto simp: entry_of_contract [OF laws] standards_agree)
    moreover from this(2) have "\<exists>!a. denotes_address (ac_address c) a"
      by (intro ex1I [of _ "re_address e"]) (auto simp: denotes_address_def hex_bytes_def dest: denotes_one)
    ultimately show "validate_address (ac_address c) = Inr () \<and> validate_abi_standard (ac_standard c) = Inr ()"
      by (simp add: validate_address_Inr)
  next
    assume "validate_address (ac_address c) = Inr () \<and> validate_abi_standard (ac_standard c) = Inr ()"
    then obtain a k where "denotes_address (ac_address c) a" "standard_of_str (ac_standard c) = Inr k"
      by (auto simp: validate_address_Inr standards_agree)
    then show "\<exists>e. ?P c e"
      by (intro exI [of _ "\<lparr>re_address = a, re_standard = k,
            re_version = (case ac_decoder_version c of Some v \<Rightarrow> v | None \<Rightarrow> default_decoder_version k)\<rparr>"])
        (simp add: entry_of_contract [OF laws] split: option.split)
  qed
  have all: "(\<exists>es. list_all2 ?P cs es) \<longleftrightarrow> (\<forall>c \<in> set cs. \<exists>e. ?P c e)"
  proof
    assume "\<forall>c \<in> set cs. \<exists>e. ?P c e"
    then obtain f where "\<forall>c \<in> set cs. ?P c (f c)" by metis
    then have "list_all2 ?P cs (map f cs)" by (simp add: list_all2_map2 list_all2_same)
    then show "\<exists>es. list_all2 ?P cs es" by blast
  qed (auto simp: list_all2_conv_all_nth in_set_conv_nth)
  have texts: "map address_text cs = map (\<lambda>e. concat (map hex_byte (bytes_of (re_address e)))) es" if "list_all2 ?P cs es" for es
    using that by (induction rule: list_all2_induct)
      (auto simp: entry_of_contract [OF laws] denotes_address_def address_text_def hex_bytes_def)
  have dist: "distinct (map address_text cs) \<longleftrightarrow> distinct (map re_address es)" if "list_all2 ?P cs es" for es
    unfolding texts [OF that] by (auto simp: distinct_map inj_on_def bytes_of_inject dest: hex_text_inj)
  have reg: "(\<exists>r. registry_new A es = Inr r) \<longleftrightarrow> distinct (map re_address es)" for es
    unfolding registry_new_def using add_entries_ok [OF laws, of bt_new es] by simp
  have "(\<exists>r. from_config_entries A (map contract_entry cs) = Inr r) \<longleftrightarrow>
      (\<exists>es. list_all2 ?P cs es \<and> (\<exists>r. registry_new A es = Inr r))"
    by (auto simp: from_config_entries_def try_simps entries)
  also have "\<dots> \<longleftrightarrow> (\<exists>es. list_all2 ?P cs es) \<and> distinct (map address_text cs)"
    using dist reg by blast
  finally have 1: "(\<exists>r. from_config_entries A (map contract_entry cs) = Inr r) \<longleftrightarrow>
      (\<forall>c \<in> set cs. validate_address (ac_address c) = Inr () \<and> validate_abi_standard (ac_standard c) = Inr ()) \<and>
      distinct (map address_text cs)"
    by (simp add: all one)
  have 2: "\<exists>a d k. denotes_address (ac_address c) a \<and> standard_of_str (ac_standard c) = Inr k \<and> bt_get r a = Some d \<and>
      cd_standard d = k \<and>
      cd_version d = (case ac_decoder_version c of Some v \<Rightarrow> v | None \<Rightarrow> default_decoder_version k)"
    if r: "from_config_entries A (map contract_entry cs) = Inr r" and c: "c \<in> set cs" for r c
  proof -
    from r obtain es where es: "list_all2 ?P cs es" "registry_new A es = Inr r"
      by (auto simp: from_config_entries_def try_simps entries)
    obtain i where i: "i < length cs" "c = cs ! i" using c by (auto simp: in_set_conv_nth)
    obtain e where e: "e \<in> set es" "?P c e"
      using list_all2_nthD [OF es(1) i(1)] list_all2_lengthD [OF es(1)] i by (intro that [of "es ! i"]) auto
    from add_entries_get [OF es(2) [unfolded registry_new_def]] e(1) obtain d where
      "bt_get r (re_address e) = Some d" "decoder_new A (re_standard e) (re_version e) = Inr d" by auto
    with e(2) decoder_new_fields show ?thesis
      by (fastforce simp: entry_of_contract [OF laws])
  qed
  from 1 2 show ?thesis by blast
qed

section \<open>What redecoding does to the database\<close>

text \<open>The decoder columns that a registry gives to a stored log.\<close>

definition row_columns :: "'ev alloy \<Rightarrow> 'ev abi_registry \<Rightarrow> log_row \<Rightarrow> json option \<times> string option" where
  "row_columns A reg r =
     (case decode_log A reg \<lparr>transaction_index = 0, log_index = 0, tx_hash = lr_tx_hash r, log_address = lr_address r,
         topics = lr_topics r, log_data = lr_data r, decoded_event = None, decoder_version = None\<rparr> of
        RDecoded e v \<Rightarrow> (Some e, Some v)
      | _ \<Rightarrow> (None, None))"

definition set_columns :: "json option \<times> string option \<Rightarrow> log_row \<Rightarrow> log_row" where
  "set_columns ev r = r\<lparr>lr_decoded_event := fst ev, lr_decoder_version := snd ev\<rparr>"

definition redecoded_db :: "'ev alloy \<Rightarrow> 'ev abi_registry \<Rightarrow> u64 \<Rightarrow> database \<Rightarrow> database \<Rightarrow> database" where
  "redecoded_db A reg c old db = db\<lparr>logs_table := map (\<lambda>(k, r).
     (k, if fst k = c \<and> hm_get (logs_table old) k \<noteq> None then set_columns (row_columns A reg r) r else r)) (logs_table db)\<rparr>"

lemma row_columns_set [simp]: "row_columns A reg (set_columns ev r) = row_columns A reg r"
  by (simp add: row_columns_def set_columns_def)

lemma row_columns_same: "same_raw_log a b \<Longrightarrow> row_columns A reg a = row_columns A reg b"
  by (simp add: row_columns_def same_raw_log_def)

lemma decode_log_cong:
  "log_address l = log_address l' \<Longrightarrow> topics l = topics l' \<Longrightarrow> log_data l = log_data l' \<Longrightarrow> decode_log A reg l = decode_log A reg l'"
  by (simp add: decode_log_def cong: list.case_cong option.case_cong)

lemma row_to_raw_log_fields:
  assumes "row_to_raw_log i r = Inr l"
  shows "log_address l = lr_address r" "topics l = lr_topics r" "log_data l = lr_data r" "uint (log_index l) = i"
proof -
  have m: "mapR Inr hs = (Inr ts :: pg_error + block_hash list) \<Longrightarrow> ts = hs" for hs ts
    by (induction hs arbitrary: ts) (auto simp: try_simps)
  from assms show "log_address l = lr_address r" "topics l = lr_topics r" "log_data l = lr_data r" "uint (log_index l) = i"
    by (auto simp: row_to_raw_log_def try_simps ok_or_Inr hash_from_vec_def address_from_vec_def u32_of_int_def
        unsigned_of_int take_bit_int_eq_self split: if_splits dest!: m)
qed

lemma decoded_columns:
  assumes "row_to_raw_log i r = Inr l" and "decode_log_in_place A reg l = (st, l')"
  shows "(decoded_event l', decoder_version l') = row_columns A reg r" "log_index l' = log_index l"
proof -
  have "decode_log A reg l = decode_log A reg \<lparr>transaction_index = 0, log_index = 0, tx_hash = lr_tx_hash r,
      log_address = lr_address r, topics = lr_topics r, log_data = lr_data r, decoded_event = None, decoder_version = None\<rparr>"
    by (rule decode_log_cong) (simp_all add: row_to_raw_log_fields [OF assms(1)])
  with assms(2) show "(decoded_event l', decoder_version l') = row_columns A reg r" "log_index l' = log_index l"
    by (auto simp: row_columns_def decode_log_in_place_def Let_def split: decode_result.splits)
qed

lemma update_columns_table:
  "snd (update_decoder_columns c h i e v db) =
     db\<lparr>logs_table := map (\<lambda>(k, r). (k, if k = (c, h, i) then set_columns (e, v) r else r)) (logs_table db)\<rparr>"
proof -
  have "r\<lparr>lr_decoded_event := e, lr_decoder_version := v\<rparr> = r" if "lr_decoded_event r = e" "lr_decoder_version r = v" for r :: log_row
    using that by auto
  then have "(if k = (c, h, i) \<and> (lr_decoded_event r \<noteq> e \<or> lr_decoder_version r \<noteq> v)
      then (k, r\<lparr>lr_decoded_event := e, lr_decoder_version := v\<rparr>) else (k, r)) =
      (k, if k = (c, h, i) then set_columns (e, v) r else r)" for k r
    by (auto simp: set_columns_def)
  then show ?thesis by (simp add: update_decoder_columns_def)
qed

lemma update_columns_count:
  assumes "hm_inv (logs_table db)" and "hm_get (logs_table db) (c, h, i) = Some r" and "set_columns (e, v) r = r"
  shows "update_decoder_columns c h i e v db = (0, db)"
proof -
  have cur: "lr_decoded_event r = e \<and> lr_decoder_version r = v"
    using arg_cong [OF assms(3), of lr_decoded_event] arg_cong [OF assms(3), of lr_decoder_version]
    by (simp add: set_columns_def)
  have no: "\<not> (k = (c, h, i) \<and> (lr_decoded_event r' \<noteq> e \<or> lr_decoder_version r' \<noteq> v))" if "(k, r') \<in> set (logs_table db)" for k r'
    using that cur assms(1,2) by (metis hm_get_def hm_inv_def map_of_is_SomeI option.inject)
  have "fst (update_decoder_columns c h i e v db) = 0"
    using no by (auto simp: update_decoder_columns_def Let_def filter_empty_conv)
  moreover have "map (\<lambda>(k, r). (k, if k = (c, h, i) then set_columns (e, v) r else r)) (logs_table db) = logs_table db"
    using no by (intro map_idI) (auto simp: set_columns_def)
  then have "snd (update_decoder_columns c h i e v db) = db" by (simp add: update_columns_table)
  ultimately show ?thesis by (simp add: prod_eq_iff)
qed

definition keyed :: "u64 \<Rightarrow> ((block_hash \<times> int) \<times> log_row) list \<Rightarrow> (u64 \<times> block_hash \<times> int) \<Rightarrow> log_row option" where
  "keyed c rows k = (if fst k = c then map_of rows (snd k) else None)"

lemma redecode_rows_table:
  "redecode_rows flt w A reg rows rep n db = Inr (rep', n', db') \<Longrightarrow> distinct (map fst rows) \<Longrightarrow>
    db' = db\<lparr>logs_table := map (\<lambda>(k, r0). (k, case keyed (chain_id w) rows k of None \<Rightarrow> r0
      | Some r \<Rightarrow> set_columns (row_columns A reg r) r0)) (logs_table db)\<rparr> \<and>
    (\<forall>((h, i), r) \<in> set rows. \<exists>l. row_to_raw_log i r = Inr l \<and> pg_int (log_index l) = Inr i)"
proof (induction rows arbitrary: rep n db)
  case Nil
  then have "db' = db" by simp
  moreover have "keyed c [] = (\<lambda>_. None)" for c by (simp add: keyed_def fun_eq_iff)
  ultimately show ?case by simp
next
  case (Cons x rows)
  obtain h i r where x: "x = ((h, i), r)" by (metis prod.exhaust)
  from Cons.prems(1) obtain l where l: "row_to_raw_log i r = Inr l"
    by (auto simp: x hash_from_vec_def try_simps)
  obtain st l' where d: "decode_log_in_place A reg l = (st, l')" by (rule prod.exhaust)
  from Cons.prems(1) l d obtain li where li: "pg_int (log_index l') = Inr li"
    by (auto simp: x hash_from_vec_def try_simps)
  obtain k db1 where u: "update_decoder_columns (chain_id w) h li (decoded_event l') (decoder_version l') db = (k, db1)"
    by (rule prod.exhaust)
  from Cons.prems(1) l d li u have rest: "\<exists>rep1 n1. redecode_rows flt w A reg rows rep1 n1 db1 = Inr (rep', n', db')"
    by (auto simp: x hash_from_vec_def split: if_splits)
  note dc = decoded_columns [OF l d]
  have i: "li = i" using li dc(2) row_to_raw_log_fields(4) [OF l] by (auto simp: pg_int_def split: if_splits)
  have db1: "db1 = db\<lparr>logs_table := map (\<lambda>(k, r0). (k, if k = (chain_id w, h, i) then set_columns (row_columns A reg r) r0 else r0))
      (logs_table db)\<rparr>"
    unfolding dc(1) [symmetric]
    using update_columns_table [of "chain_id w" h li "decoded_event l'" "decoder_version l'" db] u i by simp
  from rest obtain rep1 n1 where r1: "redecode_rows flt w A reg rows rep1 n1 db1 = Inr (rep', n', db')" by blast
  have "distinct (map fst rows)" using Cons.prems(2) by simp
  note IH = Cons.IH [OF r1 this, THEN conjunct1] Cons.IH [OF r1 this, THEN conjunct2]
  have none: "keyed (chain_id w) rows (chain_id w, h, i) = None"
    using Cons.prems(2) by (auto simp: x keyed_def map_of_eq_None_iff)
  have step: "keyed (chain_id w) (x # rows) k = (if k = (chain_id w, h, i) then Some r else keyed (chain_id w) rows k)" for k
    by (cases k) (auto simp: x keyed_def)
  have fn: "(\<lambda>(k, r0). (k, case keyed (chain_id w) rows k of None \<Rightarrow> r0 | Some r \<Rightarrow> set_columns (row_columns A reg r) r0)) \<circ>
      (\<lambda>(k, r0). (k, if k = (chain_id w, h, i) then set_columns (row_columns A reg r) r0 else r0)) =
      (\<lambda>(k, r0). (k, case keyed (chain_id w) (x # rows) k of None \<Rightarrow> r0 | Some r \<Rightarrow> set_columns (row_columns A reg r) r0))"
    by (auto simp: fun_eq_iff step none)
  have "db' = db\<lparr>logs_table := map (\<lambda>(k, r0). (k, case keyed (chain_id w) (x # rows) k of None \<Rightarrow> r0
      | Some r \<Rightarrow> set_columns (row_columns A reg r) r0)) (logs_table db)\<rparr>"
    unfolding IH(1) db1 by (simp add: fn)
  moreover have "pg_int (log_index l) = Inr i" using li i dc(2) by simp
  ultimately show ?case using IH(2) l by (auto simp: x)
qed

lemma option_eq: "(\<And>x. m = Some x \<longleftrightarrow> n = Some x) \<Longrightarrow> m = n"
  by (cases m; cases n) auto

lemma retained_logs_keys:
  assumes "hm_inv (logs_table db)"
  shows "distinct (map fst (retained_logs c db))" "keyed c (retained_logs c db) k =
    (if fst k = c then hm_get (logs_table db) k else None)"
proof -
  let ?f = "map (\<lambda>((_, h, i), r). ((h, i), r)) (filter (\<lambda>((c', _, _), _). c' = c) (logs_table db))"
  have d: "distinct (map fst ?f)"
    using assms by (auto simp: hm_inv_def distinct_map inj_on_def split: prod.splits) (metis fst_conv prod.inject)
  have set: "set (retained_logs c db) = set ?f" by (simp add: retained_logs_def)
  have "distinct ?f" using iffD1 [OF distinct_map d] ..
  then have d': "distinct (retained_logs c db)" by (simp add: retained_logs_def)
  have inj: "inj_on fst (set ?f)" using iffD1 [OF distinct_map d] ..
  with d' set show 1: "distinct (map fst (retained_logs c db))" by (simp add: distinct_map)
  have "map_of (retained_logs c db) (h, i) = Some r \<longleftrightarrow> hm_get (logs_table db) (c, h, i) = Some r" for h i r
    using 1 set assms by (force simp: map_of_eq_Some_iff hm_get_def hm_inv_def)
  then have "map_of (retained_logs c db) (h, i) = hm_get (logs_table db) (c, h, i)" for h i
    by (rule option_eq)
  then show "keyed c (retained_logs c db) k = (if fst k = c then hm_get (logs_table db) k else None)"
    by (cases k) (auto simp: keyed_def)
qed

text \<open>Nothing of the raw part of a log row that is there is changed.\<close>

definition raw_logs_kept :: "database \<Rightarrow> database \<Rightarrow> bool" where
  "raw_logs_kept db db' \<longleftrightarrow> (\<forall>k r. hm_get (logs_table db) k = Some r \<longrightarrow>
     (\<exists>r'. hm_get (logs_table db') k = Some r' \<and> same_raw_log r r'))"

lemma redecode_rows_db:
  assumes "redecode_rows flt w A reg (retained_logs (chain_id w) db) rep n (others db) = Inr (rep', n', db')"
    and inv: "hm_inv (logs_table db)" "hm_inv (logs_table (others db))" and kept: "raw_logs_kept db (others db)"
  shows "db' = redecoded_db A reg (chain_id w) db (others db)"
proof -
  note k = retained_logs_keys [OF inv(1)]
  from redecode_rows_table [OF assms(1) k(1)]
  have db': "db' = (others db)\<lparr>logs_table := map (\<lambda>(k, r0). (k, case keyed (chain_id w) (retained_logs (chain_id w) db) k of
      None \<Rightarrow> r0 | Some r \<Rightarrow> set_columns (row_columns A reg r) r0)) (logs_table (others db))\<rparr>" ..
  have same: "row_columns A reg r = row_columns A reg r0"
    if "(k, r0) \<in> set (logs_table (others db))" "hm_get (logs_table db) k = Some r" for k r r0
  proof -
    have "hm_get (logs_table (others db)) k = Some r0"
      using that(1) inv(2) by (simp add: hm_get_def hm_inv_def)
    with that(2) kept have "same_raw_log r r0" unfolding raw_logs_kept_def by fastforce
    then show ?thesis by (rule row_columns_same)
  qed
  have "(\<lambda>(k, r0). (k, case keyed (chain_id w) (retained_logs (chain_id w) db) k of
      None \<Rightarrow> r0 | Some r \<Rightarrow> set_columns (row_columns A reg r) r0)) x =
      (\<lambda>(k, r). (k, if fst k = chain_id w \<and> hm_get (logs_table db) k \<noteq> None then set_columns (row_columns A reg r) r else r)) x"
    if "x \<in> set (logs_table (others db))" for x
  proof (cases x)
    case (Pair k r0)
    then show ?thesis
      using that same [of k r0]
      by (cases "hm_get (logs_table db) k") (auto simp: retained_logs_keys(2) [OF inv(1)])
  qed
  then have "map (\<lambda>(k, r0). (k, case keyed (chain_id w) (retained_logs (chain_id w) db) k of
      None \<Rightarrow> r0 | Some r \<Rightarrow> set_columns (row_columns A reg r) r0)) (logs_table (others db)) =
      map (\<lambda>(k, r). (k, if fst k = chain_id w \<and> hm_get (logs_table db) k \<noteq> None then set_columns (row_columns A reg r) r else r))
        (logs_table (others db))"
    by (rule map_cong [OF refl])
  then show ?thesis unfolding db' redecoded_db_def by simp
qed

lemma redecode_rows_again:
  "(\<forall>((h, i), r) \<in> set rows. (\<exists>l. row_to_raw_log i r = Inr l \<and> pg_int (log_index l) = Inr i) \<and>
      hm_get (logs_table db) (chain_id w, h, i) = Some r \<and> set_columns (row_columns A reg r) r = r) \<Longrightarrow>
    hm_inv (logs_table db) \<Longrightarrow>
    \<exists>rep' n'. redecode_rows clean w A reg rows rep n db = Inr (rep', n', db) \<and> updated_logs rep' = updated_logs rep"
proof (induction rows arbitrary: rep n)
  case (Cons x rows)
  obtain h i r where x: "x = ((h, i), r)" by (metis prod.exhaust)
  from Cons.prems(1) obtain l where l: "row_to_raw_log i r = Inr l" "pg_int (log_index l) = Inr i"
    and r: "hm_get (logs_table db) (chain_id w, h, i) = Some r" "set_columns (row_columns A reg r) r = r"
    by (auto simp: x)
  obtain st l' where d: "decode_log_in_place A reg l = (st, l')" by (rule prod.exhaust)
  note dc = decoded_columns [OF l(1) d]
  have u: "update_decoder_columns (chain_id w) h i (decoded_event l') (decoder_version l') db = (0, db)"
    using update_columns_count [OF Cons.prems(2) r(1), of "decoded_event l'" "decoder_version l'"] r(2)
    by (simp add: dc(1) [symmetric])
  let ?rep = "rep\<lparr>rr_decode := record_status st (rr_decode rep), updated_logs := updated_logs rep + 0\<rparr>"
  from Cons.IH [of ?rep "n + 1"] Cons.prems obtain rep' n' where
    "redecode_rows clean w A reg rows ?rep (n + 1) db = Inr (rep', n', db)" "updated_logs rep' = updated_logs ?rep" by auto
  then show ?case using l d dc(2) u
    by (auto simp: x hash_from_vec_def clean_def)
qed simp

text \<open>
  C33: Decoding the stored logs again is atomic and touches nothing but the decoder columns.  Whatever
  others do to the database between reading the rows and the transaction, as long as they keep the raw part of
  every log, the result is the database before, or the database in which exactly the rows that were
  read have the columns that the registry gives to their raw log, and every other column, row and
  table is as it was; success means the latter.  Running it again at once with the same registry
  succeeds, updates no row and leaves the database as it is.
\<close>
theorem redecode_only_decoder_columns:
  assumes inv: "hm_inv (logs_table db)" "hm_inv (logs_table (others db))" and kept: "raw_logs_kept db (others db)"
    and run: "redecode_retained_logs flt w A reg others db = (res, db')"
  shows "db' \<in> {db, others db, redecoded_db A reg (chain_id w) db (others db)} \<and>
    (\<forall>rep. res = Inr rep \<longrightarrow> db' = redecoded_db A reg (chain_id w) db (others db)) \<and>
    (\<forall>rep. res = Inr rep \<longrightarrow> others db = db \<longrightarrow>
      (\<exists>rep'. redecode_retained_logs clean w A reg (\<lambda>db. db) db' = (Inr rep', db') \<and> updated_logs rep' = 0))"
proof -
  let ?rep = "\<lparr>scanned_logs = length (retained_logs (chain_id w) db), updated_logs = 0, rr_decode = decode_report_default\<rparr>"
  let ?new = "redecoded_db A reg (chain_id w) db (others db)"
  have new: "d = ?new" if "redecode_rows flt w A reg (retained_logs (chain_id w) db) ?rep 2 (others db) = Inr (rp, n, d)" for rp n d
    using redecode_rows_db [where others = others, OF that inv kept] .
  have 1: "db' \<in> {db, others db, ?new}" "res = Inr rep \<Longrightarrow> db' = ?new" for rep
    using run new by (auto simp: redecode_retained_logs_def Let_def split: sum.splits prod.splits if_splits)
  have 2: "\<exists>rep'. redecode_retained_logs clean w A reg (\<lambda>db. db) db' = (Inr rep', db') \<and> updated_logs rep' = 0"
    if res: "res = Inr rep" and same: "others db = db" for rep
  proof -
    note k = retained_logs_keys [OF inv(1)]
    from run res obtain rp n d where r: "redecode_rows flt w A reg (retained_logs (chain_id w) db) ?rep 2 (others db) = Inr (rp, n, d)"
      by (auto simp: redecode_retained_logs_def Let_def split: sum.splits prod.splits if_splits)
    from redecode_rows_table [OF r k(1)] have good: "\<forall>((h, i), r) \<in> set (retained_logs (chain_id w) db).
        \<exists>l. row_to_raw_log i r = Inr l \<and> pg_int (log_index l) = Inr i" ..
    have db': "db' = redecoded_db A reg (chain_id w) db db" using 1(2) [OF res] same by simp
    have get: "hm_get (logs_table db') k = map_option (\<lambda>r. if fst k = chain_id w then set_columns (row_columns A reg r) r else r)
        (hm_get (logs_table db) k)" for k
    proof -
      have "map_of (map (\<lambda>(k, r). (k, f k r)) m) k = map_option (f k) (map_of m k)"
        for f :: "u64 \<times> block_hash \<times> int \<Rightarrow> log_row \<Rightarrow> log_row" and m
        by (induction m) auto
      then show ?thesis by (cases "map_of (logs_table db) k") (simp_all add: db' redecoded_db_def hm_get_def)
    qed
    have inv': "hm_inv (logs_table db')"
      using inv(1) by (simp add: db' redecoded_db_def hm_inv_def comp_def case_prod_beta)
    note k' = retained_logs_keys [OF inv']
    have "(\<exists>l. row_to_raw_log i r = Inr l \<and> pg_int (log_index l) = Inr i) \<and>
        hm_get (logs_table db') (chain_id w, h, i) = Some r \<and> set_columns (row_columns A reg r) r = r"
      if mem: "((h, i), r) \<in> set (retained_logs (chain_id w) db')" for h i r
    proof -
      from mem k'(1) have "map_of (retained_logs (chain_id w) db') (h, i) = Some r" by simp
      with k'(2) [of "chain_id w" "(chain_id w, h, i)"] have g: "hm_get (logs_table db') (chain_id w, h, i) = Some r"
        by (simp add: keyed_def)
      with get [of "(chain_id w, h, i)"] obtain r0 where r0: "hm_get (logs_table db) (chain_id w, h, i) = Some r0"
        "r = set_columns (row_columns A reg r0) r0"
        by (cases "hm_get (logs_table db) (chain_id w, h, i)") auto
      with k(2) [of "chain_id w" "(chain_id w, h, i)"] have "((h, i), r0) \<in> set (retained_logs (chain_id w) db)"
        by (auto simp: keyed_def dest: map_of_SomeD)
      with good obtain l0 where l0: "row_to_raw_log i r0 = Inr l0" "pg_int (log_index l0) = Inr i" by fastforce
      then have "row_to_raw_log i r = Inr (l0\<lparr>decoded_event := lr_decoded_event r, decoder_version := lr_decoder_version r\<rparr>)"
        by (auto simp: r0(2) set_columns_def row_to_raw_log_def try_simps)
      moreover have "set_columns (row_columns A reg r) r = r" by (simp add: r0(2)) (simp add: set_columns_def)
      ultimately show ?thesis using l0(2) g by simp
    qed
    then have "\<forall>((h, i), r) \<in> set (retained_logs (chain_id w) db'). (\<exists>l. row_to_raw_log i r = Inr l \<and> pg_int (log_index l) = Inr i) \<and>
        hm_get (logs_table db') (chain_id w, h, i) = Some r \<and> set_columns (row_columns A reg r) r = r" by blast
    from redecode_rows_again [OF this inv'] obtain rep' n' where
      "redecode_rows clean w A reg (retained_logs (chain_id w) db')
        \<lparr>scanned_logs = length (retained_logs (chain_id w) db'), updated_logs = 0, rr_decode = decode_report_default\<rparr> 2 db' = Inr (rep', n', db')"
      "updated_logs rep' = 0" by fastforce
    then show ?thesis by (simp add: redecode_retained_logs_def clean_def Let_def)
  qed
  from 1 2 show ?thesis by blast
qed

section \<open>A small library and registry\<close>

text \<open>An event is its own definition; its selector is constant and its body is the data.\<close>

definition sample_alloy :: "string alloy" where
  "sample_alloy =
     \<lparr>parse_ev = (\<lambda>d. Inr d), ev_name = (\<lambda>e. ''Transfer''), ev_signature = (\<lambda>e. e), ev_selector = (\<lambda>e. fill 7),
      ev_inputs = (\<lambda>e. [\<lparr>param_name = ''value'', param_ty = ''bytes'', param_indexed = False\<rparr>]),
      decode_parts = (\<lambda>e ts bs. Inr \<lparr>sd_indexed = [], sd_body = [SBytes bs]\<rparr>),
      parse_addr = (\<lambda>s. if hex_of_length 40 s then Inr (Byte_Array (unhex (to_ascii_lowercase (without_0x s)))) else Inl ''bad''),
      show_addr = (\<lambda>a. hex_bytes (bytes_of a))\<rparr>"

lemma unhex_lower: "list_all is_ascii_hexdigit s \<Longrightarrow> unhex (to_ascii_lowercase s) = unhex s"
proof (induction s rule: unhex.induct)
  case (1 c d s)
  have "hex_value (ascii_lower c) = hex_value c" if "is_ascii_hexdigit c" for c
    using that by (auto simp: is_ascii_hexdigit_def ascii_lower_def hex_value_def Let_def char_nat_def)
  with 1 show ?case by (simp add: to_ascii_lowercase_def)
qed (simp_all add: to_ascii_lowercase_def)

lemma sample_alloy_laws: "alloy_laws sample_alloy"
proof -
  have "parse_addr sample_alloy s = Inr a \<longleftrightarrow> denotes_address s a" for s a
  proof (cases "hex_of_length 40 s")
    case True
    let ?t = "without_0x s"
    from True have t: "list_all is_ascii_hexdigit ?t" "length ?t = 2 * 20" by (simp_all add: hex_of_length_def)
    from unhex_text [OF t] have u: "length (unhex ?t) = 20" "to_ascii_lowercase ?t = concat (map hex_byte (unhex ?t))" by simp_all
    have "bytes_of (Byte_Array (unhex ?t) :: address) = unhex ?t" using u(1) by (simp add: Byte_Array_inverse)
    with u(2) have "denotes_address s a \<longleftrightarrow> a = Byte_Array (unhex ?t)"
      by (auto simp: denotes_address_def hex_bytes_def bytes_of_inject [symmetric] dest: hex_text_inj)
    with True t(1) show ?thesis by (auto simp: sample_alloy_def unhex_lower)
  next
    case False
    with hex_of_length_iff [of 20 s] have "to_ascii_lowercase (without_0x s) \<noteq> concat (map hex_byte (bytes_of a))"
      by simp
    then have "\<not> denotes_address s a" by (auto simp: denotes_address_def hex_bytes_def)
    with False show ?thesis by (simp add: sample_alloy_def)
  qed
  then show ?thesis by (simp add: alloy_laws_def) (simp add: sample_alloy_def)
qed

definition sample_contract :: abi_contract_config where
  "sample_contract = \<lparr>ac_address = ''0x'' @ replicate 40 (CHR ''A''), ac_standard = ''ERC-20'', ac_decoder_version = None\<rparr>"

theorem registry_accepts_validated_witness:
  "\<exists>r a d. from_config_entries sample_alloy [contract_entry sample_contract] = Inr r \<and>
     denotes_address (ac_address sample_contract) a \<and> bt_get r a = Some d \<and> cd_version d = ''erc20:v1''"
proof -
  have "normalized_standard ''ERC-20'' = ''erc_20''"
    by (subst normalized_standard_def, subst trim_ascii) (simp add: char_nat_def, code_simp)
  then have n: "normalized_standard (ac_standard sample_contract) = ''erc_20''" by (simp add: sample_contract_def)
  then have k: "standard_of_str (ac_standard sample_contract) = Inr Erc20"
    and v: "validate_abi_standard (ac_standard sample_contract) = Inr ()"
    by (simp_all add: standard_of_str_def validate_abi_standard_def require_def)
  have a: "validate_address (ac_address sample_contract) = Inr ()"
    by (simp add: validate_address_def require_def hex_of_length_def without_0x_def strip_prefix_def starts_with_iff
        sample_contract_def is_ascii_hexdigit_def char_nat_def list_all_iff)
  note th = registry_accepts_validated [OF sample_alloy_laws, of "[sample_contract]"]
  have "(\<forall>c \<in> set [sample_contract]. validate_address (ac_address c) = Inr () \<and> validate_abi_standard (ac_standard c) = Inr ()) \<and>
      distinct (map address_text [sample_contract])" using a v by simp
  from th [THEN conjunct1, THEN iffD2, OF this] obtain r
    where r: "from_config_entries sample_alloy (map contract_entry [sample_contract]) = Inr r" ..
  have "sample_contract \<in> set [sample_contract]" by simp
  from th [THEN conjunct2, rule_format, OF r this] obtain a d where "denotes_address (ac_address sample_contract) a" "bt_get r a = Some d"
    "cd_version d = (case ac_decoder_version sample_contract of Some v \<Rightarrow> v | None \<Rightarrow> default_decoder_version Erc20)"
    unfolding k by blast
  with r show ?thesis by (auto simp: sample_contract_def default_decoder_version_def)
qed

definition logged_db :: database where
  "logged_db = sample_db\<lparr>logs_table := [((1, fill 2, 0), \<lparr>lr_block_number = 11, lr_transaction_index = 0,
     lr_tx_hash = fill 5, lr_address = fill 6, lr_topics = [fill 7], lr_data = [1, 2], lr_decoded_event = None,
     lr_decoder_version = None\<rparr>)]\<rparr>"

definition sample_registry :: "string abi_registry" where
  "sample_registry = [(fill 6, \<lparr>cd_standard = Erc20, cd_version = ''erc20:v2'', cd_events = [''e'']\<rparr>)]"

theorem redecode_only_decoder_columns_witness:
  "\<exists>rep db'. redecode_retained_logs clean sample_writer sample_alloy sample_registry (\<lambda>db. db) logged_db = (Inr rep, db') \<and>
     map (\<lambda>(_, r). lr_decoder_version r) (logs_table db') = [Some ''erc20:v2''] \<and>
     outbox_table db' = outbox_table logged_db"
proof -
  have inv: "hm_inv (logs_table logged_db)" by (simp add: logged_db_def hm_inv_def)
  have kept: "raw_logs_kept logged_db logged_db" by (simp add: raw_logs_kept_def same_raw_log_def)
  obtain res db' where run: "redecode_retained_logs clean sample_writer sample_alloy sample_registry (\<lambda>db. db) logged_db = (res, db')"
    by (rule prod.exhaust)
  have "\<exists>rep. res = Inr rep"
    using run by (auto simp: redecode_retained_logs_def clean_def logged_db_def sample_writer_def retained_logs_def sort_key_def
        row_to_raw_log_def u32_of_int_def hash_from_vec_def address_from_vec_def decode_log_in_place_def decode_log_def
        sample_registry_def bt_get_def sample_alloy_def pg_int_def update_decoder_columns_def Let_def
        split: decode_result.splits)
  then obtain rep where rep: "res = Inr rep" ..
  from redecode_only_decoder_columns [OF inv inv kept run] rep
  have "db' = redecoded_db sample_alloy sample_registry (chain_id sample_writer) logged_db logged_db" by blast
  then have cols: "map (\<lambda>(_, r). lr_decoder_version r) (logs_table db') = [Some ''erc20:v2'']" "outbox_table db' = outbox_table logged_db"
    by (simp_all add: redecoded_db_def logged_db_def sample_writer_def hm_get_def set_columns_def row_columns_def decode_log_def
        sample_registry_def bt_get_def sample_alloy_def)
  show ?thesis
    by (rule exI [where x = rep], rule exI [where x = db'], intro conjI) (fact run [unfolded rep], fact+)
qed

end
