(* ===== verification/Rpc.thy ===== *)
theory Rpc
  imports Config Postgres_Correct "HOL-Library.Multiset"
begin

text \<open>
  The Ethereum client of \<open>chainweave-rpc/src/\<close>: \<open>client.rs\<close>, which reads blocks and logs and turns them
  into headers and records; \<open>retry.rs\<close>, which repeats a request; \<open>subscription.rs\<close>, whose channel wakes
  the reconciliation.

  The provider of \<open>alloy\<close> is a record of the requests that the code makes, over a state of its own: a
  request answers with JSON or with the text of an error.  So are the readers of hashes, addresses
  and byte strings.  How a block or a log is read from JSON is the code's (\<open>serde\<close> attributes).
\<close>

section \<open>Data\<close>

datatype block_tag = Latest | Number u64

record 'p rpc_provider =
  rp_chain_id :: "'p \<Rightarrow> (string + u64) \<times> 'p"
  rp_block_number :: "'p \<Rightarrow> (string + u64) \<times> 'p"
  rp_block_by_number :: "block_tag \<Rightarrow> 'p \<Rightarrow> (string + json) \<times> 'p"
  rp_block_by_hash :: "block_hash \<Rightarrow> 'p \<Rightarrow> (string + json) \<times> 'p"
  rp_block_batch :: "u64 list \<Rightarrow> 'p \<Rightarrow> (string + (u64 \<Rightarrow> string + json)) \<times> 'p"
  rp_get_logs :: "json \<Rightarrow> 'p \<Rightarrow> (string + json) \<times> 'p"
  de_b256 :: "json \<Rightarrow> block_hash option"
  de_address :: "json \<Rightarrow> address option"
  de_bytes :: "json \<Rightarrow> u8 list option"
  bad_json :: "json \<Rightarrow> string"
  b256_of_str :: "string \<Rightarrow> string + block_hash"
  addr_of_str :: "string \<Rightarrow> string + address"
  addr_to_str :: "address \<Rightarrow> string"

record chain_head =
  ch_chain_id :: u64
  ch_number :: u64
  ch_hash :: block_hash
  ch_genesis_hash :: block_hash

record rpc_block =
  rb_hash :: block_hash
  rb_parent_hash :: block_hash
  rb_number :: u64
  rb_timestamp :: u64

record rpc_log =
  rl_block_hash :: "block_hash option"
  rl_block_number :: "u64 option"
  rl_transaction_hash :: "block_hash option"
  rl_transaction_index :: "u64 option"
  rl_log_index :: "u64 option"
  rl_address :: address
  rl_topics :: "block_hash list"
  rl_data :: "u8 list"
  rl_removed :: bool

record contract_log_filter =
  lf_address :: address

record anchored_log =
  al_block_number :: u64
  al_block_hash :: block_hash
  al_raw :: raw_log

datatype rpc_error =
    Connect string
  | Request string
  | MissingBlock string
  | MissingBlockNumber u64
  | MissingBlockField u64 string
  | MissingLogField string
  | LogOutsideRange u64 u64 u64
  | LogBlockHashMismatch u64
  | LogIntegerOverflow string u64
  | InvalidTimestamp u64
  | ChainIdMismatch u64 u64
  | GenesisMismatch block_hash block_hash
  | InvalidGenesis string
  | RpcInvalidAddress string

section \<open>Quantities\<close>

text \<open>\<open>{value:x}\<close> and \<open>u64::from_str_radix(\<dots>, 16)\<close>.\<close>

fun show_hex :: "nat \<Rightarrow> string" where
  "show_hex n = (if n < 16 then [hex_digit n] else show_hex (n div 16) @ [hex_digit (n mod 16)])"

declare show_hex.simps [simp del]

fun read_hex :: "string \<Rightarrow> nat \<Rightarrow> string + nat" where
  "read_hex [] n = Inr n"
| "read_hex (c # cs) n =
     (if \<not> is_ascii_hexdigit c then Inl ''invalid digit found in string''
      else let m = 16 * n + hex_value c in
        if 2 ^ 64 \<le> m then Inl ''number too large to fit in target type'' else read_hex cs m)"

definition u64_from_hex :: "string \<Rightarrow> string + u64" where
  "u64_from_hex s =
     (case s of
        [] \<Rightarrow> Inl ''cannot parse integer from empty string''
      | [c] \<Rightarrow> if c = CHR ''+'' \<or> c = CHR ''-'' then Inl ''invalid digit found in string''
               else tryR (read_hex s 0) (\<lambda>n. Inr (of_nat n))
      | c # cs \<Rightarrow> tryR (read_hex (if c = CHR ''+'' then cs else s) 0) (\<lambda>n. Inr (of_nat n)))"

definition parse_quantity :: "json \<Rightarrow> string + u64" where
  "parse_quantity v =
     (case j_u64 v of
        Some n \<Rightarrow> Inr n
      | None \<Rightarrow>
          (case j_str v of
             None \<Rightarrow> Inl ''quantity must be a hex string or unsigned integer''
           | Some s \<Rightarrow> u64_from_hex (without_0x s)))"

definition format_quantity :: "u64 \<Rightarrow> string" where
  "format_quantity v = ''0x'' @ show_hex (unat v)"

section \<open>Reading blocks and logs from JSON\<close>

definition quantity :: "json \<Rightarrow> u64 option" where
  "quantity v = (case parse_quantity v of Inr n \<Rightarrow> Some n | Inl _ \<Rightarrow> None)"

text \<open>An \<open>Option\<close> member, a member with \<open>#[serde(default)]\<close>, a list.\<close>

definition opt_field :: "string \<Rightarrow> (json \<Rightarrow> 'a option) \<Rightarrow> json \<Rightarrow> 'a option option" where
  "opt_field k f v =
     (case j_get k v of
        None \<Rightarrow> Some None
      | Some x \<Rightarrow> if x = JNull then Some None else map_option Some (f x))"

definition default_field :: "string \<Rightarrow> 'a \<Rightarrow> (json \<Rightarrow> 'a option) \<Rightarrow> json \<Rightarrow> 'a option" where
  "default_field k d f v = (case j_get k v of None \<Rightarrow> Some d | Some x \<Rightarrow> f x)"

definition j_bool :: "json \<Rightarrow> bool option" where
  "j_bool v = (case v of JBool b \<Rightarrow> Some b | _ \<Rightarrow> None)"

definition j_list :: "(json \<Rightarrow> 'a option) \<Rightarrow> json \<Rightarrow> 'a list option" where
  "j_list f v = (case v of JArr vs \<Rightarrow> those (map f vs) | _ \<Rightarrow> None)"

definition block_identity_of_json :: "'p rpc_provider \<Rightarrow> json \<Rightarrow> block_hash option" where
  "block_identity_of_json P v = j_field ''hash'' (de_b256 P) v"

definition rpc_block_of_json :: "'p rpc_provider \<Rightarrow> json \<Rightarrow> rpc_block option" where
  "rpc_block_of_json P v =
     Option.bind (j_field ''hash'' (de_b256 P) v) (\<lambda>h.
     Option.bind (j_field ''parentHash'' (de_b256 P) v) (\<lambda>p.
     Option.bind (j_field ''number'' quantity v) (\<lambda>n.
     map_option (\<lambda>t. \<lparr>rb_hash = h, rb_parent_hash = p, rb_number = n, rb_timestamp = t\<rparr>)
       (j_field ''timestamp'' quantity v))))"

definition rpc_log_of_json :: "'p rpc_provider \<Rightarrow> json \<Rightarrow> rpc_log option" where
  "rpc_log_of_json P v =
     Option.bind (opt_field ''blockHash'' (de_b256 P) v) (\<lambda>bh.
     Option.bind (opt_field ''blockNumber'' quantity v) (\<lambda>bn.
     Option.bind (opt_field ''transactionHash'' (de_b256 P) v) (\<lambda>th.
     Option.bind (opt_field ''transactionIndex'' quantity v) (\<lambda>ti.
     Option.bind (opt_field ''logIndex'' quantity v) (\<lambda>li.
     Option.bind (j_field ''address'' (de_address P) v) (\<lambda>a.
     Option.bind (default_field ''topics'' [] (j_list (de_b256 P)) v) (\<lambda>ts.
     Option.bind (j_field ''data'' (de_bytes P) v) (\<lambda>d.
     map_option (\<lambda>r. \<lparr>rl_block_hash = bh, rl_block_number = bn, rl_transaction_hash = th, rl_transaction_index = ti,
         rl_log_index = li, rl_address = a, rl_topics = ts, rl_data = d, rl_removed = r\<rparr>)
       (default_field ''removed'' False j_bool v)))))))))"

text \<open>A whole response, and one that may be \<open>null\<close>.\<close>

definition response :: "'p rpc_provider \<Rightarrow> (json \<Rightarrow> 'a option) \<Rightarrow> string + json \<Rightarrow> rpc_error + 'a" where
  "response P f r =
     tryR (map_err Request r) (\<lambda>v. case f v of Some x \<Rightarrow> Inr x | None \<Rightarrow> Inl (Request (bad_json P v)))"

definition nullable :: "(json \<Rightarrow> 'a option) \<Rightarrow> json \<Rightarrow> 'a option option" where
  "nullable f v = (if v = JNull then Some None else map_option Some (f v))"

section \<open>Conversions\<close>

definition filter_address :: "'p rpc_provider \<Rightarrow> string \<Rightarrow> rpc_error + contract_log_filter" where
  "filter_address P s = tryR (map_err RpcInvalidAddress (addr_of_str P s)) (\<lambda>a. Inr \<lparr>lf_address = a\<rparr>)"

definition rpc_block_header :: "rpc_block \<Rightarrow> rpc_error + block_header" where
  "rpc_block_header b = Inr (BlockHeader (rb_hash b) (rb_parent_hash b) (rb_number b))"

text \<open>\<open>OffsetDateTime::from_unix_timestamp\<close>: the years from -9999 to 9999.\<close>

definition valid_unix_timestamp :: "int \<Rightarrow> bool" where
  "valid_unix_timestamp t \<longleftrightarrow> - 377705116800 \<le> t \<and> t \<le> 253402300799"

definition indexed_block_from_rpc :: "rpc_block \<Rightarrow> raw_log list \<Rightarrow> rpc_error + indexed_block" where
  "indexed_block_from_rpc b ls =
     tryR (rpc_block_header b) (\<lambda>blk.
       if i64_max < unat (rb_timestamp b) \<or> \<not> valid_unix_timestamp (uint (rb_timestamp b))
       then Inl (InvalidTimestamp (rb_timestamp b))
       else Inr \<lparr>ib_header = blk, timestamp = uint (rb_timestamp b), ib_status = Unsafe, ib_status_source = Observed,
              block_logs = ls\<rparr>)"

definition required_u32 :: "u64 option \<Rightarrow> string \<Rightarrow> rpc_error + u32" where
  "required_u32 v f =
     tryR (ok_or v (MissingLogField f)) (\<lambda>n.
       if unat n < 2 ^ 32 then Inr (ucast n) else Inl (LogIntegerOverflow f n))"

definition raw_log_from_rpc_block_hash :: "rpc_log \<Rightarrow> block_hash \<Rightarrow> rpc_error + raw_log" where
  "raw_log_from_rpc_block_hash l h =
     (if rl_removed l then Inl (Request ''eth_getLogs returned a removed log for a hash-anchored block'')
      else
        tryR (ok_or (rl_block_hash l) (MissingLogField ''block_hash'')) (\<lambda>bh.
        if bh \<noteq> h then Inl (LogBlockHashMismatch (case rl_block_number l of Some n \<Rightarrow> n | None \<Rightarrow> 0))
        else
          tryR (required_u32 (rl_transaction_index l) ''transaction_index'') (\<lambda>ti.
          tryR (required_u32 (rl_log_index l) ''log_index'') (\<lambda>li.
          tryR (ok_or (rl_transaction_hash l) (MissingLogField ''transaction_hash'')) (\<lambda>tx.
            Inr \<lparr>transaction_index = ti, log_index = li, tx_hash = tx, log_address = rl_address l,
               topics = rl_topics l, log_data = rl_data l, decoded_event = None, decoder_version = None\<rparr>)))))"

definition anchored_raw_log_from_rpc :: "rpc_log \<Rightarrow> backfill_range \<Rightarrow> rpc_error + anchored_log" where
  "anchored_raw_log_from_rpc l r =
     (if rl_removed l then Inl (Request ''eth_getLogs returned a removed log for a historical range'')
      else
        tryR (ok_or (rl_block_number l) (MissingLogField ''block_number'')) (\<lambda>n.
        if \<not> range_contains r n then Inl (LogOutsideRange n (from_block r) (to_block r))
        else
          tryR (required_u32 (rl_transaction_index l) ''transaction_index'') (\<lambda>ti.
          tryR (required_u32 (rl_log_index l) ''log_index'') (\<lambda>li.
          tryR (ok_or (rl_block_hash l) (MissingLogField ''block_hash'')) (\<lambda>bh.
          tryR (ok_or (rl_transaction_hash l) (MissingLogField ''transaction_hash'')) (\<lambda>tx.
            Inr \<lparr>al_block_number = n, al_block_hash = bh, al_raw =
              \<lparr>transaction_index = ti, log_index = li, tx_hash = tx, log_address = rl_address l,
               topics = rl_topics l, log_data = rl_data l, decoded_event = None, decoder_version = None\<rparr>\<rparr>))))))"

definition raw_log_from_rpc :: "rpc_log \<Rightarrow> backfill_range \<Rightarrow> rpc_error + raw_log" where
  "raw_log_from_rpc l r = tryR (anchored_raw_log_from_rpc l r) (\<lambda>a. Inr (al_raw a))"

definition normalized_from_anchored :: "anchored_log \<Rightarrow> normalized_log_record" where
  "normalized_from_anchored a =
     \<lparr>nl_block_hash = al_block_hash a, nl_tx_hash = tx_hash (al_raw a), nl_log_index = log_index (al_raw a),
      nl_address = log_address (al_raw a), nl_topics = topics (al_raw a), nl_data = log_data (al_raw a)\<rparr>"

fun group_logs ::
    "backfill_range \<Rightarrow> anchored_log list \<Rightarrow> (u64, anchored_log list) btree_map \<Rightarrow>
      rpc_error + (u64, anchored_log list) btree_map" where
  "group_logs r [] m = Inr m"
| "group_logs r (l # ls) m =
     (if \<not> range_contains r (al_block_number l)
      then Inl (LogOutsideRange (al_block_number l) (from_block r) (to_block r))
      else group_logs r ls (bt_insert (al_block_number l)
        ((case bt_get m (al_block_number l) of Some xs \<Rightarrow> xs | None \<Rightarrow> []) @ [l]) m))"

definition logs_by_height ::
    "anchored_log list \<Rightarrow> backfill_range \<Rightarrow> rpc_error + (u64, anchored_log list) btree_map" where
  "logs_by_height ls r =
     tryR (group_logs r ls bt_new) (\<lambda>m.
       Inr (map (\<lambda>(n, ls). (n, sort_key (\<lambda>l. (transaction_index (al_raw l), log_index (al_raw l))) ls)) m))"

section \<open>Requests\<close>

definition fetch_rpc_block_by_number :: "'p rpc_provider \<Rightarrow> u64 \<Rightarrow> 'p \<Rightarrow> (rpc_error + rpc_block) \<times> 'p" where
  "fetch_rpc_block_by_number P n p =
     (case rp_block_by_number P (Number n) p of (r, p) \<Rightarrow>
        (tryR (response P (nullable (rpc_block_of_json P)) r) (\<lambda>b. ok_or b (MissingBlockNumber n)), p))"

definition fetch_rpc_block_by_hash :: "'p rpc_provider \<Rightarrow> block_hash \<Rightarrow> 'p \<Rightarrow> (rpc_error + rpc_block option) \<times> 'p" where
  "fetch_rpc_block_by_hash P h p =
     (case rp_block_by_hash P h p of (r, p) \<Rightarrow> (response P (nullable (rpc_block_of_json P)) r, p))"

definition range_heights :: "backfill_range \<Rightarrow> u64 list" where
  "range_heights r = map of_nat (blocks r)"

definition fetch_rpc_blocks_by_number :: "'p rpc_provider \<Rightarrow> backfill_range \<Rightarrow> 'p \<Rightarrow> (rpc_error + rpc_block list) \<times> 'p" where
  "fetch_rpc_blocks_by_number P r p =
     (case rp_block_batch P (range_heights r) p of (res, p) \<Rightarrow>
        (tryR (map_err Request res) (\<lambda>answer.
           mapR (\<lambda>n. tryR (response P (nullable (rpc_block_of_json P)) (answer n)) (\<lambda>b. ok_or b (MissingBlockNumber n)))
             (range_heights r)), p))"

definition with_address :: "'p rpc_provider \<Rightarrow> contract_log_filter option \<Rightarrow> (string \<times> json) list \<Rightarrow> json" where
  "with_address P flt ms =
     JObj (case flt of None \<Rightarrow> ms | Some f \<Rightarrow> AList.update ''address'' (JStr (addr_to_str P (lf_address f))) ms)"

definition fetch_rpc_logs ::
    "'p rpc_provider \<Rightarrow> backfill_range \<Rightarrow> contract_log_filter option \<Rightarrow> 'p \<Rightarrow> (rpc_error + rpc_log list) \<times> 'p" where
  "fetch_rpc_logs P r flt p =
     (case rp_get_logs P (with_address P flt [(''fromBlock'', JStr (format_quantity (from_block r))),
          (''toBlock'', JStr (format_quantity (to_block r)))]) p of
        (res, p) \<Rightarrow> (response P (j_list (rpc_log_of_json P)) res, p))"

definition fetch_rpc_logs_by_block_hash ::
    "'p rpc_provider \<Rightarrow> block_hash \<Rightarrow> contract_log_filter option \<Rightarrow> 'p \<Rightarrow> (rpc_error + rpc_log list) \<times> 'p" where
  "fetch_rpc_logs_by_block_hash P h flt p =
     (case rp_get_logs P (with_address P flt [(''blockHash'', JStr (hex_hash h))]) p of
        (res, p) \<Rightarrow> (response P (j_list (rpc_log_of_json P)) res, p))"

fun block_hash_log_error :: "block_hash \<Rightarrow> rpc_error \<Rightarrow> rpc_error" where
  "block_hash_log_error h (Request m) = Request (''eth_getLogs blockHash '' @ hex_hash h @ '' failed: '' @ m)"
| "block_hash_log_error h e = e"

definition fetch_head :: "'p rpc_provider \<Rightarrow> 'p \<Rightarrow> (rpc_error + chain_head) \<times> 'p" where
  "fetch_head P p =
     tryS (apfst (map_err Request) (rp_chain_id P p)) (\<lambda>c p.
     tryS (apfst (map_err Request) (rp_block_number P p)) (\<lambda>n p.
     tryS (apfst (\<lambda>r. tryR (response P (nullable (block_identity_of_json P)) r) (\<lambda>h. ok_or h (MissingBlock ''latest'')))
       (rp_block_by_number P Latest p)) (\<lambda>h p.
     tryS (apfst (\<lambda>r. tryR (response P (nullable (block_identity_of_json P)) r) (\<lambda>h. ok_or h (MissingBlock ''genesis'')))
       (rp_block_by_number P (Number 0) p)) (\<lambda>g p.
       (Inr \<lparr>ch_chain_id = c, ch_number = n, ch_hash = h, ch_genesis_hash = g\<rparr>, p)))))"

definition capture_target_head :: "'p rpc_provider \<Rightarrow> 'p \<Rightarrow> (rpc_error + chain_head) \<times> 'p" where
  "capture_target_head P p = fetch_head P p"

definition fetch_header_by_number :: "'p rpc_provider \<Rightarrow> u64 \<Rightarrow> 'p \<Rightarrow> (rpc_error + block_header) \<times> 'p" where
  "fetch_header_by_number P n p =
     tryS (fetch_rpc_block_by_number P n p) (\<lambda>b p. (rpc_block_header b, p))"

definition fetch_header_by_hash :: "'p rpc_provider \<Rightarrow> block_hash \<Rightarrow> 'p \<Rightarrow> (rpc_error + block_header option) \<times> 'p" where
  "fetch_header_by_hash P h p =
     tryS (fetch_rpc_block_by_hash P h p) (\<lambda>b p. (transpose (map_option rpc_block_header b), p))"

definition fetch_block_by_number :: "'p rpc_provider \<Rightarrow> u64 \<Rightarrow> 'p \<Rightarrow> (rpc_error + indexed_block) \<times> 'p" where
  "fetch_block_by_number P n p =
     tryS (fetch_rpc_block_by_number P n p) (\<lambda>b p. (indexed_block_from_rpc b [], p))"

definition fetch_logs_by_block_hash ::
    "'p rpc_provider \<Rightarrow> block_hash \<Rightarrow> contract_log_filter option \<Rightarrow> 'p \<Rightarrow> (rpc_error + raw_log list) \<times> 'p" where
  "fetch_logs_by_block_hash P h flt p =
     tryS (apfst (map_err (block_hash_log_error h)) (fetch_rpc_logs_by_block_hash P h flt p)) (\<lambda>ls p.
       (mapR (\<lambda>l. raw_log_from_rpc_block_hash l h) ls, p))"

definition fetch_block_by_hash :: "'p rpc_provider \<Rightarrow> block_hash \<Rightarrow> 'p \<Rightarrow> (rpc_error + indexed_block) \<times> 'p" where
  "fetch_block_by_hash P h p =
     tryS (fetch_rpc_block_by_hash P h p) (\<lambda>b p.
     tryS (ok_or b (MissingBlock ''hash''), p) (\<lambda>b p.
     tryS (rpc_block_header b, p) (\<lambda>blk p.
     tryS (fetch_logs_by_block_hash P h None p) (\<lambda>ls p.
       if hash blk \<noteq> h then (Inl (LogBlockHashMismatch (height blk)), p)
       else (indexed_block_from_rpc b ls, p)))))"

definition fetch_blocks_by_number :: "'p rpc_provider \<Rightarrow> backfill_range \<Rightarrow> 'p \<Rightarrow> (rpc_error + indexed_block list) \<times> 'p" where
  "fetch_blocks_by_number P r p =
     tryS (fetch_rpc_blocks_by_number P r p) (\<lambda>bs p. (mapR (\<lambda>b. indexed_block_from_rpc b []) bs, p))"

definition fetch_logs :: "'p rpc_provider \<Rightarrow> backfill_range \<Rightarrow> 'p \<Rightarrow> (rpc_error + raw_log list) \<times> 'p" where
  "fetch_logs P r p =
     tryS (fetch_rpc_logs P r None p) (\<lambda>ls p. (mapR (\<lambda>l. raw_log_from_rpc l r) ls, p))"

definition fetch_anchored_logs ::
    "'p rpc_provider \<Rightarrow> backfill_range \<Rightarrow> contract_log_filter option \<Rightarrow> 'p \<Rightarrow> (rpc_error + anchored_log list) \<times> 'p" where
  "fetch_anchored_logs P r flt p =
     tryS (fetch_rpc_logs P r flt p) (\<lambda>ls p. (mapR (\<lambda>l. anchored_raw_log_from_rpc l r) ls, p))"

definition fetch_normalized_logs ::
    "'p rpc_provider \<Rightarrow> backfill_range \<Rightarrow> contract_log_filter option \<Rightarrow> 'p \<Rightarrow> (rpc_error + normalized_log_record list) \<times> 'p" where
  "fetch_normalized_logs P r flt p =
     tryS (fetch_anchored_logs P r flt p) (\<lambda>ls p. (Inr (map normalized_from_anchored ls), p))"

text \<open>The texts of the errors that \<open>FetchedRange::new\<close> can give; the others never come from it.\<close>

fun fetched_error_text :: "backfill_error \<Rightarrow> string" where
  "fetched_error_text (HeaderCountMismatch f t e n) =
     ''fetched range '' @ show_u64 f @ ''-'' @ show_u64 t @ '' returned '' @ show_nat n @ '' headers, expected '' @ show_u64 e"
| "fetched_error_text (HeaderHeightMismatch i e a) =
     ''fetched header at offset '' @ show_nat i @ '' has height '' @ show_u64 a @ '', expected '' @ show_u64 e"
| "fetched_error_text (BrokenParentLink n) = ''fetched range has a broken parent link at height '' @ show_u64 n"
| "fetched_error_text _ = []"

fun fetch_heights ::
    "'p rpc_provider \<Rightarrow> u64 list \<Rightarrow> (u64, anchored_log list) btree_map \<Rightarrow> block_header list \<Rightarrow> indexed_block list \<Rightarrow> 'p \<Rightarrow>
      (rpc_error + block_header list \<times> indexed_block list) \<times> 'p" where
  "fetch_heights P [] m hs bs p = (Inr (hs, bs), p)"
| "fetch_heights P (n # ns) m hs bs p =
     tryS (fetch_rpc_block_by_number P n p) (\<lambda>b p.
     tryS (rpc_block_header b, p) (\<lambda>blk p.
     tryS (mapR (\<lambda>l. if al_block_hash l \<noteq> hash blk then Inl (LogBlockHashMismatch n) else Inr (al_raw l))
         (case bt_get m n of Some ls \<Rightarrow> ls | None \<Rightarrow> []), p) (\<lambda>ls p.
     tryS (indexed_block_from_rpc b ls, p) (\<lambda>ib p.
       fetch_heights P ns (bt_remove n m) (hs @ [blk]) (bs @ [ib]) p))))"

definition fetch_backfill_range_from_logs ::
    "'p rpc_provider \<Rightarrow> backfill_range \<Rightarrow> anchored_log list \<Rightarrow> 'p \<Rightarrow> (rpc_error + indexed_block fetched_range) \<times> 'p" where
  "fetch_backfill_range_from_logs P r ls p =
     tryS (logs_by_height ls r, p) (\<lambda>m p.
     tryS (fetch_heights P (range_heights r) m [] [] p) (\<lambda>(hs, bs) p.
       (map_err (\<lambda>e. Request (fetched_error_text e)) (fetched_new r hs bs), p)))"

definition fetch_backfill_range_filtered ::
    "'p rpc_provider \<Rightarrow> backfill_range \<Rightarrow> contract_log_filter option \<Rightarrow> 'p \<Rightarrow> (rpc_error + indexed_block fetched_range) \<times> 'p" where
  "fetch_backfill_range_filtered P r flt p =
     tryS (fetch_anchored_logs P r flt p) (\<lambda>ls p. fetch_backfill_range_from_logs P r ls p)"

definition fetch_backfill_range :: "'p rpc_provider \<Rightarrow> backfill_range \<Rightarrow> 'p \<Rightarrow> (rpc_error + indexed_block fetched_range) \<times> 'p" where
  "fetch_backfill_range P r p = fetch_backfill_range_filtered P r None p"

definition verify_identity :: "'p rpc_provider \<Rightarrow> chain_head \<Rightarrow> expected_identity \<Rightarrow> rpc_error + unit" where
  "verify_identity P h e =
     (if ch_chain_id h \<noteq> ei_chain_id e then Inl (ChainIdMismatch (ei_chain_id e) (ch_chain_id h))
      else tryR (map_err InvalidGenesis (b256_of_str P (ei_genesis_hash e))) (\<lambda>g.
        if ch_genesis_hash h \<noteq> g then Inl (GenesisMismatch g (ch_genesis_hash h)) else Inr ()))"

section \<open>Retrying\<close>

definition is_hash_anchored_log_block_not_found :: "string \<Rightarrow> bool" where
  "is_hash_anchored_log_block_not_found m =
     (let lower = to_ascii_lowercase m in
      str_contains lower ''eth_getlogs'' \<and>
      (str_contains lower ''blockhash'' \<or> str_contains lower ''block hash'') \<and>
      str_contains lower ''block not found'')"

fun classify_rpc_error :: "rpc_error \<Rightarrow> rpc_failure" where
  "classify_rpc_error (Request m) =
     (if is_hash_anchored_log_block_not_found m then Permanent
      else let c = from_rpc_message m in if c = Permanent then Transient else c)"
| "classify_rpc_error _ = Permanent"

text \<open>
  \<open>once\<close> is one call of the operation under the timeout: \<open>None\<close> when the time ran out.  The result is
  \<open>None\<close> when the policy panics.
\<close>

lemma decision_retries: "decision pol f a = Some (RetryAfter d) \<Longrightarrow> unat a < unat (max_attempts pol)"
  by (auto simp: decision_def word_less_nat_alt not_le split: if_splits)

lemma attempt_decreases:
  "decision pol f a = Some (RetryAfter d) \<Longrightarrow> unat (max_attempts pol) - unat (a + 1) < unat (max_attempts pol) - unat a"
proof -
  assume "decision pol f a = Some (RetryAfter d)"
  then have l: "unat a < unat (max_attempts pol)" by (rule decision_retries)
  then have "a \<noteq> - 1"
    using unsigned_less [of "max_attempts pol", where ?'a = nat] by (auto simp: unat_max_word)
  with l show ?thesis by (simp add: unat_succ)
qed

function retry_from ::
    "retry_policy \<Rightarrow> rpc_error \<Rightarrow> (duration \<Rightarrow> 'p \<Rightarrow> 'p) \<Rightarrow> ('p \<Rightarrow> (rpc_error + 'a) option \<times> 'p) \<Rightarrow> u32 \<Rightarrow> 'p \<Rightarrow>
      (rpc_error + 'a) option \<times> 'p" where
  "retry_from pol timeout_error sleep once attempt p =
     (case once p of
        (Some (Inr v), p) \<Rightarrow> (Some (Inr v), p)
      | (Some (Inl e), p) \<Rightarrow>
          (case decision pol (classify_rpc_error e) attempt of
             None \<Rightarrow> (None, p)
           | Some GiveUp \<Rightarrow> (Some (Inl e), p)
           | Some (RetryAfter d) \<Rightarrow> retry_from pol timeout_error sleep once (attempt + 1) (sleep d p))
      | (None, p) \<Rightarrow>
          (case decision pol Timeout attempt of
             None \<Rightarrow> (None, p)
           | Some GiveUp \<Rightarrow> (Some (Inl timeout_error), p)
           | Some (RetryAfter d) \<Rightarrow> retry_from pol timeout_error sleep once (attempt + 1) (sleep d p)))"
  by pat_completeness auto

termination
  by (relation "measure (\<lambda>(pol, _, _, _, a, _). unat (max_attempts pol) - unat a)")
    (simp_all add: attempt_decreases)

declare retry_from.simps [simp del]

definition retry_rpc_request ::
    "retry_policy \<Rightarrow> rpc_error \<Rightarrow> (duration \<Rightarrow> 'p \<Rightarrow> 'p) \<Rightarrow> ('p \<Rightarrow> (rpc_error + 'a) option \<times> 'p) \<Rightarrow> 'p \<Rightarrow>
      (rpc_error + 'a) option \<times> 'p" where
  "retry_rpc_request pol timeout_error sleep once p = retry_from pol timeout_error sleep once 1 p"

text \<open>\<open>Debug\<close> of a byte array.\<close>

definition debug_bytes :: "u8 list \<Rightarrow> string" where
  "debug_bytes bs = ''['' @ join '', '' (map (\<lambda>b. show_nat (unat b)) bs) @ '']''"

text \<open>\<open>timed\<close> is \<open>tokio::time::timeout\<close> with the timeout of the configuration.\<close>

definition capture_target_head_with_retry ::
    "'p rpc_provider \<Rightarrow> retry_policy \<Rightarrow> (duration \<Rightarrow> 'p \<Rightarrow> 'p) \<Rightarrow>
      (('p \<Rightarrow> (rpc_error + chain_head) \<times> 'p) \<Rightarrow> 'p \<Rightarrow> (rpc_error + chain_head) option \<times> 'p) \<Rightarrow> 'p \<Rightarrow>
      (rpc_error + chain_head) option \<times> 'p" where
  "capture_target_head_with_retry P pol sleep timed p =
     retry_rpc_request pol (Request ''timed out while capturing target head'') sleep (timed (capture_target_head P)) p"

definition fetch_header_by_number_with_retry ::
    "'p rpc_provider \<Rightarrow> u64 \<Rightarrow> retry_policy \<Rightarrow> (duration \<Rightarrow> 'p \<Rightarrow> 'p) \<Rightarrow>
      (('p \<Rightarrow> (rpc_error + block_header) \<times> 'p) \<Rightarrow> 'p \<Rightarrow> (rpc_error + block_header) option \<times> 'p) \<Rightarrow> 'p \<Rightarrow>
      (rpc_error + block_header) option \<times> 'p" where
  "fetch_header_by_number_with_retry P n pol sleep timed p =
     retry_rpc_request pol (Request (''timed out fetching header at height '' @ show_u64 n)) sleep
       (timed (fetch_header_by_number P n)) p"

definition fetch_header_by_hash_with_retry ::
    "'p rpc_provider \<Rightarrow> block_hash \<Rightarrow> retry_policy \<Rightarrow> (duration \<Rightarrow> 'p \<Rightarrow> 'p) \<Rightarrow>
      (('p \<Rightarrow> (rpc_error + block_header option) \<times> 'p) \<Rightarrow> 'p \<Rightarrow> (rpc_error + block_header option) option \<times> 'p) \<Rightarrow> 'p \<Rightarrow>
      (rpc_error + block_header option) option \<times> 'p" where
  "fetch_header_by_hash_with_retry P h pol sleep timed p =
     retry_rpc_request pol (Request (''timed out fetching header by hash '' @ debug_bytes (bytes_of h))) sleep
       (timed (fetch_header_by_hash P h)) p"

section \<open>Waking the reconciliation\<close>

text \<open>A channel of capacity 1: how many wakeups it holds, and whether the receiver is there.\<close>

record wakeup_channel =
  wc_pending :: nat
  wc_open :: bool

definition new_head_wakeup_channel :: wakeup_channel where
  "new_head_wakeup_channel = \<lparr>wc_pending = 0, wc_open = True\<rparr>"

definition try_wake :: "wakeup_channel \<Rightarrow> bool \<times> wakeup_channel" where
  "try_wake c = (if \<not> wc_open c \<or> 1 \<le> wc_pending c then (False, c) else (True, c\<lparr>wc_pending := wc_pending c + 1\<rparr>))"

text \<open>The task: \<open>heads\<close> notifications arrive, then the stream ends.\<close>

fun spawn_new_heads_wakeup ::
    "string + unit \<Rightarrow> string + nat \<Rightarrow> wakeup_channel \<Rightarrow> (rpc_error + unit) \<times> wakeup_channel" where
  "spawn_new_heads_wakeup (Inl e) _ c = (Inl (Connect e), c)"
| "spawn_new_heads_wakeup (Inr _) (Inl e) c = (Inl (Request e), c)"
| "spawn_new_heads_wakeup (Inr _) (Inr heads) c =
     (Inl (Request ''newHeads subscription ended before shutdown''), ((\<lambda>c. snd (try_wake c)) ^^ heads) c)"

section \<open>Quantities read back\<close>

lemma hex_value_digit: "n < 16 \<Longrightarrow> hex_value (hex_digit n) = n"
  by (simp add: hex_value_def hex_digit_code Let_def)

lemma read_show_hex: "k < 2 ^ 64 \<Longrightarrow> read_hex (show_hex k @ cs) 0 = read_hex cs k"
proof (induction k arbitrary: cs rule: show_hex.induct)
  case (1 k)
  show ?case
  proof (cases "k < 16")
    case True
    then show ?thesis by (subst show_hex.simps) (simp add: hex_digit_is_hex hex_value_digit)
  next
    case False
    have "16 * (k div 16) + k mod 16 = k" by simp
    with False 1 show ?thesis
      by (subst show_hex.simps) (simp add: hex_digit_is_hex hex_value_digit Let_def)
  qed
qed

lemma show_hex_hd:
  "show_hex k \<noteq> []" "hd (show_hex k) = hex_digit j \<Longrightarrow> j < 16 \<Longrightarrow> k \<noteq> 0 \<Longrightarrow> j \<noteq> 0"
  "is_ascii_hexdigit (hd (show_hex k))"
proof -
  have inj: "hex_digit a = hex_digit b \<Longrightarrow> a = b" if "a < 16" "b < 16" for a b
    using that hex_value_digit by metis
  have "show_hex k \<noteq> [] \<and> (\<exists>d < 16. hd (show_hex k) = hex_digit d \<and> (k \<noteq> 0 \<longrightarrow> d \<noteq> 0))"
  proof (induction k rule: show_hex.induct)
    case (1 k)
    have k: "show_hex k = (if k < 16 then [hex_digit k] else show_hex (k div 16) @ [hex_digit (k mod 16)])"
      by (subst show_hex.simps) simp
    show ?case
    proof (cases "k < 16")
      case False
      then have "k div 16 \<noteq> 0" by simp
      with False 1 show ?thesis by (auto simp: k)
    qed (auto simp: k)
  qed
  then obtain d where d: "show_hex k \<noteq> []" "d < 16" "hd (show_hex k) = hex_digit d" "k \<noteq> 0 \<longrightarrow> d \<noteq> 0" by blast
  show "show_hex k \<noteq> []" by (rule d(1))
  show "is_ascii_hexdigit (hd (show_hex k))" using hex_digit_is_hex [OF d(2)] d(3) by simp
  show "j \<noteq> 0" if "hd (show_hex k) = hex_digit j" "j < 16" "k \<noteq> 0"
    using inj [of d j] d that by simp
qed

text \<open>
  C34: A quantity survives being written and read: the text of any \<open>u64\<close>, and the number itself, are
  read back as that number, so the range that a log filter asks for is the range that was meant; and
  the text is the shortest one: it starts with a zero exactly for the number zero, as the protocol
  demands.
\<close>
theorem quantity_roundtrip:
  "parse_quantity (JStr (format_quantity v)) = Inr v \<and> parse_quantity (JNum (uint v)) = Inr v \<and>
   (\<exists>c cs. format_quantity v = ''0x'' @ c # cs \<and> (c = CHR ''0'') = (v = 0))"
proof -
  obtain c cs where s: "show_hex (unat v) = c # cs" using show_hex_hd(1) by (meson list.exhaust)
  have c: "is_ascii_hexdigit c" using show_hex_hd(3) [of "unat v"] s by simp
  then have sign: "c \<noteq> CHR ''+''" "c \<noteq> CHR ''-''" by (auto simp: is_ascii_hexdigit_def char_nat_def)
  have "read_hex (c # cs) 0 = Inr (unat v)"
    using read_show_hex [of "unat v" "[]"] unsigned_less [of v, where ?'a = nat] s by simp
  then have "u64_from_hex (show_hex (unat v)) = Inr v"
    using sign s by (cases cs) (simp_all add: u64_from_hex_def del: read_hex.simps)
  then have 1: "parse_quantity (JStr (format_quantity v)) = Inr v"
    by (simp add: parse_quantity_def j_u64_def j_str_def format_quantity_def without_0x_def strip_prefix_def starts_with_iff)
  have zero: "hex_digit 0 = CHR ''0''" by code_simp
  have "v \<noteq> 0 \<longrightarrow> c \<noteq> hex_digit 0"
    using show_hex_hd(2) [of "unat v" 0] s by (auto simp: unat_eq_0)
  then have 2: "v \<noteq> 0 \<longrightarrow> c \<noteq> CHR ''0''" by (simp add: zero)
  have 3: "parse_quantity (JNum (uint v)) = Inr v"
    by (simp add: parse_quantity_def j_u64_def)
  have "c = CHR ''0''" if "v = 0"
    using s that by (simp add: show_hex.simps [of 0] zero)
  with 2 have "(c = CHR ''0'') = (v = 0)" by blast
  with 1 3 s show ?thesis by (auto simp: format_quantity_def)
qed

section \<open>Calls of a retried request\<close>

text \<open>The same operation with a counter of its calls.\<close>

definition counting :: "('p \<Rightarrow> 'o \<times> 'p) \<Rightarrow> 'p \<times> nat \<Rightarrow> 'o \<times> 'p \<times> nat" where
  "counting once = (\<lambda>(p, n). case once p of (res, p) \<Rightarrow> (res, p, n + 1))"

lemma retry_from_counts:
  "retry_from pol terr (\<lambda>d (p, n). (sleep d p, n)) (counting once) a (p, k) = (res, p', k') \<Longrightarrow>
    k < k' \<and> k' \<le> k + max 1 (unat (max_attempts pol) + 1 - unat a) \<and>
    (\<forall>e. res = Some (Inl e) \<longrightarrow> (e = terr \<or> (\<exists>q. fst (once q) = Some (Inl e))) \<and>
      (k' = k + (unat (max_attempts pol) + 1 - unat a) \<or> unat (max_attempts pol) < unat a \<or>
       classify_rpc_error e = Permanent)) \<and>
    (\<forall>v. res = Some (Inr v) \<longrightarrow> (\<exists>q. fst (once q) = Some (Inr v)))"
proof (induction "unat (max_attempts pol) - unat a" arbitrary: a p k rule: less_induct)
  case less
  let ?sl = "\<lambda>d (p, n). (sleep d p, n)"
  obtain o1 p1 where o: "once p = (o1, p1)" by (rule prod.exhaust)
  then have c: "counting once (p, k) = (o1, p1, k + 1)" by (simp add: counting_def)
  define f where "f = (case o1 of Some (Inl e) \<Rightarrow> classify_rpc_error e | _ \<Rightarrow> Timeout)"
  define e1 where "e1 = (case o1 of Some (Inl e) \<Rightarrow> e | _ \<Rightarrow> terr)"
  have src: "e1 = terr \<or> (\<exists>q. fst (once q) = Some (Inl e1))"
    using o by (auto simp: e1_def split: option.splits sum.splits intro: exI [of _ p])
  show ?case
  proof (cases "\<exists>v. o1 = Some (Inr v)")
    case True
    with less.prems o c show ?thesis by (subst (asm) retry_from.simps) (auto intro: exI [of _ p])
  next
    case False
    then have step: "retry_from pol terr ?sl (counting once) a (p, k) =
        (case decision pol f a of None \<Rightarrow> (None, p1, k + 1) | Some GiveUp \<Rightarrow> (Some (Inl e1), p1, k + 1)
         | Some (RetryAfter d) \<Rightarrow> retry_from pol terr ?sl (counting once) (a + 1) (sleep d p1, k + 1))"
      by (subst retry_from.simps) (auto simp: c f_def e1_def split: option.splits sum.splits retry_decision.splits)
    show ?thesis
    proof (cases "decision pol f a")
      case None
      with less.prems step show ?thesis by auto
    next
      case (Some d)
      show ?thesis
      proof (cases d)
        case GiveUp
        with Some have "f = Permanent \<or> unat (max_attempts pol) \<le> unat a"
          by (auto simp: decision_def word_le_nat_alt split: if_splits rpc_failure.splits option.splits)
        moreover have "f = Permanent \<Longrightarrow> classify_rpc_error e1 = Permanent"
          by (auto simp: f_def e1_def split: option.splits sum.splits)
        ultimately show ?thesis using less.prems step Some GiveUp src by auto
      next
        case (RetryAfter t)
        with Some have lt: "unat a < unat (max_attempts pol)" by (auto dest: decision_retries)
        then have "a \<noteq> - 1"
          using unsigned_less [of "max_attempts pol", where ?'a = nat] by (auto simp: unat_max_word)
        then have a1: "unat (a + 1) = Suc (unat a)" by (rule unat_succ)
        have "retry_from pol terr ?sl (counting once) (a + 1) (sleep t p1, k + 1) = (res, p', k')"
          using less.prems step Some RetryAfter by simp
        moreover have "unat (max_attempts pol) - unat (a + 1) < unat (max_attempts pol) - unat a"
          using lt a1 by simp
        ultimately have IH: "k + 1 < k' \<and> k' \<le> k + 1 + max 1 (unat (max_attempts pol) + 1 - unat (a + 1)) \<and>
            (\<forall>e. res = Some (Inl e) \<longrightarrow> (e = terr \<or> (\<exists>q. fst (once q) = Some (Inl e))) \<and>
              (k' = k + 1 + (unat (max_attempts pol) + 1 - unat (a + 1)) \<or> unat (max_attempts pol) < unat (a + 1) \<or>
               classify_rpc_error e = Permanent)) \<and>
            (\<forall>v. res = Some (Inr v) \<longrightarrow> (\<exists>q. fst (once q) = Some (Inr v)))"
          by (intro less.hyps)
        have "k + 1 + (unat (max_attempts pol) + 1 - unat (a + 1)) = k + (unat (max_attempts pol) + 1 - unat a)"
          "max 1 (unat (max_attempts pol) + 1 - unat (a + 1)) + 1 = max 1 (unat (max_attempts pol) + 1 - unat a)"
          "\<not> unat (max_attempts pol) < unat (a + 1)"
          using lt a1 by simp_all
        with IH show ?thesis by (metis (no_types, lifting) add.assoc add.commute add_lessD1)
      qed
    qed
  qed
qed

text \<open>
  A retried request ends: it makes at least one call and at most as many as the policy allows,
  whatever the node and the clock do.  What it returns is the value of a call, or the error of a call
  or the error for a timeout; and it returns an error only after the last allowed call or for a
  failure that is classified as permanent.
\<close>
theorem retry_makes_bounded_calls:
  assumes "retry_rpc_request pol terr (\<lambda>d (p, n). (sleep d p, n)) (counting once) (p, 0) = (res, p', calls)"
    and "max_attempts pol \<noteq> 0"
  shows "1 \<le> calls \<and> calls \<le> unat (max_attempts pol) \<and>
    (\<forall>v. res = Some (Inr v) \<longrightarrow> (\<exists>q. fst (once q) = Some (Inr v))) \<and>
    (\<forall>e. res = Some (Inl e) \<longrightarrow> (e = terr \<or> (\<exists>q. fst (once q) = Some (Inl e))) \<and>
       (calls = unat (max_attempts pol) \<or> classify_rpc_error e = Permanent))"
proof -
  have "0 < unat (max_attempts pol)" using assms(2) by (simp add: unat_pos)
  then show ?thesis
    using retry_from_counts [OF assms(1) [unfolded retry_rpc_request_def]] by auto
qed

section \<open>A fetched range has all its logs\<close>

definition logs_of :: "u64 \<Rightarrow> anchored_log list \<Rightarrow> anchored_log list" where
  "logs_of n ls = sort_key (\<lambda>l. (transaction_index (al_raw l), log_index (al_raw l))) (filter (\<lambda>l. al_block_number l = n) ls)"

definition entry :: "(u64, 'a list) btree_map \<Rightarrow> u64 \<Rightarrow> 'a list" where
  "entry m n = (case bt_get m n of Some ls \<Rightarrow> ls | None \<Rightarrow> [])"

lemma group_logs_entry:
  "group_logs r ls m = Inr m' \<Longrightarrow> bt_inv m \<Longrightarrow>
    bt_inv m' \<and> entry m' n = entry m n @ filter (\<lambda>l. al_block_number l = n) ls \<and>
    (\<forall>l \<in> set ls. range_contains r (al_block_number l))"
proof (induction ls arbitrary: m)
  case (Cons l ls)
  let ?m = "bt_insert (al_block_number l) (entry m (al_block_number l) @ [l]) m"
  from Cons.prems have r: "range_contains r (al_block_number l)" "group_logs r ls ?m = Inr m'"
    by (auto simp: entry_def split: if_splits)
  have "entry ?m n = entry m n @ (if al_block_number l = n then [l] else [])"
    using Cons.prems(2) by (simp add: entry_def)
  with Cons.IH [OF r(2)] r(1) Cons.prems(2) show ?case by auto
qed simp

lemma logs_by_height_entry:
  assumes "logs_by_height ls r = Inr m"
  shows "entry m n = logs_of n ls" "\<forall>l \<in> set ls. range_contains r (al_block_number l)"
proof -
  let ?s = "sort_key (\<lambda>l. (transaction_index (al_raw l), log_index (al_raw l)))"
  from assms obtain m0 where m0: "group_logs r ls bt_new = Inr m0" and m: "m = map (\<lambda>(n, ls). (n, ?s ls)) m0"
    by (auto simp: logs_by_height_def try_simps)
  note g = group_logs_entry [OF m0 bt_inv_new(1)]
  have "bt_get m n = map_option ?s (bt_get m0 n)" unfolding m bt_get_def by (induction m0) auto
  moreover have "entry bt_new n = []" by (simp add: entry_def)
  ultimately show "entry m n = logs_of n ls" using g [of n]
    by (cases "bt_get m0 n") (auto simp: entry_def logs_of_def)
  show "\<forall>l \<in> set ls. range_contains r (al_block_number l)" using g by blast
qed

lemma fetch_heights_blocks:
  "fetch_heights P ns m hs bs p = (Inr (hs', bs'), p') \<Longrightarrow> distinct ns \<Longrightarrow>
    \<exists>hs1 bs1. hs' = hs @ hs1 \<and> bs' = bs @ bs1 \<and> map ib_header bs1 = hs1 \<and>
      list_all2 (\<lambda>n b. block_logs b = map al_raw (entry m n) \<and> (\<forall>l \<in> set (entry m n). al_block_hash l = hash (ib_header b))) ns bs1"
proof (induction ns arbitrary: m hs bs p)
  case (Cons n ns)
  from Cons.prems(1) obtain b p1 blk ls ib where
    blk: "rpc_block_header b = Inr blk" and
    ls: "mapR (\<lambda>l. if al_block_hash l \<noteq> hash blk then Inl (LogBlockHashMismatch n) else Inr (al_raw l)) (entry m n) = Inr ls" and
    ib: "indexed_block_from_rpc b ls = Inr ib" and
    rest: "fetch_heights P ns (bt_remove n m) (hs @ [blk]) (bs @ [ib]) p1 = (Inr (hs', bs'), p')"
    by (auto simp: try_simps entry_def)
  from Cons.IH [OF rest] Cons.prems(2) obtain hs1 bs1 where IH: "hs' = (hs @ [blk]) @ hs1" "bs' = (bs @ [ib]) @ bs1"
    "map ib_header bs1 = hs1"
    "list_all2 (\<lambda>k b. block_logs b = map al_raw (entry (bt_remove n m) k) \<and>
      (\<forall>l \<in> set (entry (bt_remove n m) k). al_block_hash l = hash (ib_header b))) ns bs1" by auto
  have "mapR (\<lambda>l. if al_block_hash l \<noteq> h then Inl e else Inr (al_raw l)) xs = Inr ys \<Longrightarrow>
      ys = map al_raw xs \<and> (\<forall>l \<in> set xs. al_block_hash l = h)" for h e xs ys
    by (induction xs arbitrary: ys) (auto simp: try_simps split: if_splits)
  from this [OF ls] have l: "ls = map al_raw (entry m n)" "\<forall>l \<in> set (entry m n). al_block_hash l = hash blk" by simp_all
  have h: "ib_header ib = blk" "block_logs ib = ls"
    using ib blk by (auto simp: indexed_block_from_rpc_def try_simps split: if_splits)
  have "entry (bt_remove n m) k = entry m k" if "k \<in> set ns" for k
    using that Cons.prems(2) by (auto simp: entry_def)
  with IH(4) have "list_all2 (\<lambda>k b. block_logs b = map al_raw (entry m k) \<and>
      (\<forall>l \<in> set (entry m k). al_block_hash l = hash (ib_header b))) ns bs1"
    by (auto simp: list_all2_conv_all_nth)
  with IH l h show ?case by (intro exI [of _ "blk # hs1"] exI [of _ "ib # bs1"]) simp
qed simp

lemma mset_logs_of:
  "distinct ns \<Longrightarrow> mset (concat (map (\<lambda>n. logs_of n ls) ns)) = mset (filter (\<lambda>l. al_block_number l \<in> set ns) ls)"
proof (induction ns)
  case (Cons n ns)
  have "filter_mset (\<lambda>l. al_block_number l = n) (mset ls) + filter_mset (\<lambda>l. al_block_number l \<in> set ns) (mset ls) =
      filter_mset (\<lambda>l. al_block_number l = n \<or> al_block_number l \<in> set ns) (mset ls)"
    using Cons.prems by (induction ls) auto
  with Cons show ?case by (simp add: logs_of_def)
qed simp

lemma range_heights_facts:
  "map unat (range_heights r) = blocks r" "distinct (range_heights r)" "n \<in> set (range_heights r) \<longleftrightarrow> range_contains r n"
proof -
  have "unat (of_nat k :: u64) = k" if "k \<in> set (blocks r)" for k
    using that unsigned_less [of "to_block r", where ?'a = nat]
    by (auto simp: blocks_def unsigned_of_nat take_bit_nat_eq_self)
  then show 1: "map unat (range_heights r) = blocks r"
    by (simp add: range_heights_def comp_def map_idI)
  have "distinct (map unat (range_heights r))" unfolding 1 by (simp add: blocks_def)
  then show "distinct (range_heights r)" by (simp add: distinct_map)
  have "n \<in> set (range_heights r) \<longleftrightarrow> unat n \<in> set (map unat (range_heights r))"
    by (auto simp: image_iff word_eq_unat [symmetric])
  also have "\<dots> \<longleftrightarrow> range_contains r n"
    unfolding 1 by (auto simp: blocks_def range_contains_def word_le_nat_alt)
  finally show "n \<in> set (range_heights r) \<longleftrightarrow> range_contains r n" .
qed

text \<open>
  A fetched range carries exactly the logs that the node gave for it.  When fetching succeeds, the
  headers are the linked blocks of the range; every block has the logs with its number, in the
  order of transaction and log index, and each of them names the hash of that very block; and all
  blocks together have every log of the answer exactly as often as the answer has it.  So a log of
  another fork, of another block or out of the range makes the fetch fail instead of being stored.
\<close>
theorem fetched_range_keeps_every_log:
  assumes "from_block r \<le> to_block r" and "unat (to_block r) < 2 ^ 64 - 2"
    and run: "fetch_backfill_range_filtered P r flt p = (Inr f, p')"
  shows "fetched_ok f \<and> fr_range f = r \<and> map ib_header (fr_logs f) = fr_headers f \<and>
    (\<exists>ls p1. fetch_anchored_logs P r flt p = (Inr ls, p1) \<and>
      (\<forall>b \<in> set (fr_logs f). block_logs b = map al_raw (logs_of (height (ib_header b)) ls) \<and>
        (\<forall>l \<in> set ls. al_block_number l = height (ib_header b) \<longrightarrow> al_block_hash l = hash (ib_header b))) \<and>
      mset (concat (map block_logs (fr_logs f))) = mset (map al_raw ls))"
proof -
  from run obtain ls p1 m p2 hs bs where ls: "fetch_anchored_logs P r flt p = (Inr ls, p1)"
    and m: "logs_by_height ls r = Inr m" and h: "fetch_heights P (range_heights r) m [] [] p2 = (Inr (hs, bs), p')"
    and f: "fetched_new r hs bs = Inr f"
    by (auto simp: fetch_backfill_range_filtered_def fetch_backfill_range_from_logs_def try_simps)
  note r = range_heights_facts
  from fetch_heights_blocks [OF h r(2)] have hb: "map ib_header bs = hs" and
    all: "list_all2 (\<lambda>n b. block_logs b = map al_raw (entry m n) \<and>
      (\<forall>l \<in> set (entry m n). al_block_hash l = hash (ib_header b))) (range_heights r) bs" by auto
  note e = logs_by_height_entry [OF m]
  have len: "length hs = length (range_heights r)" using all hb by (auto simp: list_all2_lengthD)
  have "length (range_heights r) < 2 ^ 64 - 1" using assms(2) by (simp add: range_heights_def blocks_def) linarith
  then have ok: "fetched_ok f" using fetched_new_ok [OF f assms(1)] len by simp
  have ff: "fr_range f = r" "fr_headers f = hs" "fr_logs f = bs" using f by (auto simp: fetched_new_def try_simps)
  have "map unat (map height hs) = map unat (range_heights r)"
    using ok ff r(1) by (simp add: fetched_ok_def comp_def)
  then have "map height hs = range_heights r"
    by (subst (asm) inj_map_eq_map) (auto intro: injI simp: word_eq_unat)
  then have heights: "range_heights r = map (\<lambda>b. height (ib_header b)) bs" by (simp add: hb [symmetric] comp_def)
  have each: "block_logs b = map al_raw (logs_of (height (ib_header b)) ls) \<and>
      (\<forall>l \<in> set ls. al_block_number l = height (ib_header b) \<longrightarrow> al_block_hash l = hash (ib_header b))" if "b \<in> set bs" for b
    using all that unfolding heights e(1) by (auto simp: list_all2_map1 list_all2_same logs_of_def)
  then have "map block_logs bs = map (\<lambda>n. map al_raw (logs_of n ls)) (range_heights r)"
    unfolding heights by (simp add: comp_def)
  moreover have "concat (map (\<lambda>n. map al_raw (logs_of n ls)) ns) = map al_raw (concat (map (\<lambda>n. logs_of n ls) ns))" for ns
    by (simp add: map_concat comp_def)
  ultimately have "mset (concat (map block_logs bs)) =
      image_mset al_raw (mset (concat (map (\<lambda>n. logs_of n ls) (range_heights r))))"
    by (simp only: mset_map)
  also have "\<dots> = mset (map al_raw ls)"
    unfolding mset_logs_of [OF r(2)] using e(2) by (simp add: r(3) filter_True)
  finally show ?thesis using ok ff hb ls each by auto
qed

section \<open>A small node\<close>

definition toy_log :: json where
  "toy_log = JObj [(''blockHash'', JNum 5), (''blockNumber'', JNum 5), (''transactionHash'', JNum 1), (''transactionIndex'', JNum 0),
     (''logIndex'', JNum 0), (''address'', JNum 6), (''data'', JStr [])]"

definition toy_provider :: "nat rpc_provider" where
  "toy_provider =
     \<lparr>rp_chain_id = (\<lambda>p. (Inr 1, p)), rp_block_number = (\<lambda>p. (Inr 5, p)),
      rp_block_by_number = (\<lambda>t p. (Inr (JObj [(''hash'', JNum 5), (''parentHash'', JNum 4), (''number'', JNum 5), (''timestamp'', JNum 7)]), p + 1)),
      rp_block_by_hash = (\<lambda>h p. (Inr JNull, p + 1)), rp_block_batch = (\<lambda>ns p. (Inl ''no batches'', p + 1)),
      rp_get_logs = (\<lambda>f p. (Inr (JArr [toy_log]), p + 1)),
      de_b256 = (\<lambda>v. case v of JNum n \<Rightarrow> Some (fill (word_of_int n)) | _ \<Rightarrow> None),
      de_address = (\<lambda>v. case v of JNum n \<Rightarrow> Some (fill (word_of_int n)) | _ \<Rightarrow> None),
      de_bytes = (\<lambda>v. Some []), bad_json = (\<lambda>v. ''bad''), b256_of_str = (\<lambda>s. Inl ''bad''), addr_of_str = (\<lambda>s. Inl ''bad''),
      addr_to_str = (\<lambda>a. hex_bytes (bytes_of a))\<rparr>"

theorem fetched_range_keeps_every_log_witness:
  "\<exists>f. fetch_backfill_range_filtered toy_provider \<lparr>from_block = 5, to_block = 5\<rparr> None 0 = (Inr f, 2) \<and>
     fetched_ok f \<and> length (concat (map block_logs (fr_logs f))) = 1"
proof -
  let ?r = "\<lparr>from_block = 5, to_block = 5\<rparr>"
  have h: "range_heights ?r = [5]" by (simp add: range_heights_def blocks_def)
  obtain l where logs: "fetch_anchored_logs toy_provider ?r None 0 = (Inr [l], 1)" and
    l: "al_block_number l = 5" "al_block_hash l = fill 5"
    by (simp add: fetch_anchored_logs_def fetch_rpc_logs_def toy_provider_def response_def j_list_def toy_log_def
        rpc_log_of_json_def opt_field_def default_field_def quantity_def parse_quantity_def j_u64_def u64_of_int_def
        j_field_def anchored_raw_log_from_rpc_def range_contains_def required_u32_def with_address_def ok_or_def)
  have by_height: "logs_by_height [l] ?r = Inr [(5, [l])]"
    by (simp add: logs_by_height_def l range_contains_def bt_get_def bt_new_def sort_key_def)
  have hs: "\<exists>hs bs. fetch_heights toy_provider [5] [(5, [l])] [] [] 1 = (Inr (hs, bs), 2) \<and> fetched_new ?r hs bs =
      Inr \<lparr>fr_range = ?r, fr_headers = hs, fr_logs = bs\<rparr>"
    by (simp add: fetch_rpc_block_by_number_def toy_provider_def response_def nullable_def rpc_block_of_json_def j_field_def
        quantity_def parse_quantity_def j_u64_def u64_of_int_def ok_or_def rpc_block_header_def bt_get_def l
        indexed_block_from_rpc_def valid_unix_timestamp_def i64_max_def fetched_new_def validate_headers_def range_len_def
        sat_add_def sat_sub_def)
  then obtain f where run: "fetch_backfill_range_filtered toy_provider ?r None 0 = (Inr f, 2)"
    by (auto simp: fetch_backfill_range_filtered_def fetch_backfill_range_from_logs_def logs by_height h)
  have b: "from_block ?r \<le> to_block ?r" "unat (to_block ?r) < 2 ^ 64 - 2" by simp_all
  from fetched_range_keeps_every_log [OF b run] logs have "fetched_ok f" "mset (concat (map block_logs (fr_logs f))) = mset (map al_raw [l])"
    by auto
  from this(2) have "length (concat (map block_logs (fr_logs f))) = 1"
    using mset_eq_length by fastforce
  with run \<open>fetched_ok f\<close> show ?thesis by blast
qed

theorem retry_makes_bounded_calls_witness:
  "\<exists>calls res p. retry_rpc_request \<lparr>max_attempts = 3, base_delay = 1, max_delay = 8, jitter = 0\<rparr> (Request ''t'')
      (\<lambda>d (p, n). (p + d, n)) (counting (\<lambda>p. (if p = 0 then None else Some (Inr True), p))) (0, 0) = (res, p, calls) \<and>
     1 \<le> calls \<and> calls \<le> 3"
proof -
  let ?pol = "\<lparr>max_attempts = 3, base_delay = 1, max_delay = 8, jitter = 0\<rparr>"
  let ?once = "\<lambda>p :: nat. (if p = 0 then None else Some (Inr True :: rpc_error + bool), p)"
  obtain res p calls where run: "retry_rpc_request ?pol (Request ''t'') (\<lambda>d (p, n). (p + d, n)) (counting ?once) (0, 0) = (res, p, calls)"
    by (rule prod_cases3)
  have "max_attempts ?pol \<noteq> 0" by simp
  from retry_makes_bounded_calls [OF _ this, where sleep = "\<lambda>d p. p + d", OF run]
  have "1 \<le> calls \<and> calls \<le> 3" by simp
  with run show ?thesis by blast
qed

end
