(* ===== verification/Reconnect.thy ===== *)
theory Reconnect
  imports Rpc Live_Store Observability
begin

text \<open>
  The supervision of the live runtime (\<open>chainweave-cli/src/live_runtime.rs\<close>): its errors, the budget
  that makes a request wait for the next window (\<open>WindowedLiveBudget\<close>), the reconnect policy and the
  readiness state machine (\<open>ReconnectLoop\<close>), and the supervisor of the tasks.

  An \<open>Instant\<close> is a number of nanoseconds; \<open>duration_since\<close> saturates, as the subtraction of \<open>nat\<close>
  does.
\<close>

section \<open>Errors\<close>

datatype live_task = HealthServer | Wakeups | Poll | Tracker

datatype task_error =
    TaskChain chain_error
  | RpcTransient string
  | WebSocketTransient string
  | DatabaseTransient string
  | TaskPanicked live_task
  | LiveTaskCancelled live_task
  | TaskExitedEarly live_task
  | TaskFailed live_task string
  | SupervisorCancelled

datatype task_error_class = TransientClass | CorrectnessClass

fun classify :: "task_error \<Rightarrow> task_error_class" where
  "classify (RpcTransient _) = TransientClass"
| "classify (WebSocketTransient _) = TransientClass"
| "classify (DatabaseTransient _) = TransientClass"
| "classify (TaskChain _) = CorrectnessClass"
| "classify (TaskPanicked _) = CorrectnessClass"
| "classify (LiveTaskCancelled _) = CorrectnessClass"
| "classify (TaskExitedEarly _) = CorrectnessClass"
| "classify (TaskFailed _ _) = CorrectnessClass"
| "classify SupervisorCancelled = CorrectnessClass"

datatype observability_error = ObsMetrics string | ObsBind string string | ObsServe string

datatype runtime_error =
    RtConfig config_error
  | RtRpcEndpoint string rpc_error
  | RtRpc rpc_error
  | RtSink pg_error
  | RtMigration string
  | RtObservability observability_error
  | RtBackfill backfill_error
  | RtMissingCheckpointHeader u64
  | RtBudget string
  | RtReconnectPolicy string
  | RtReconnectOrder string
  | RtTask task_error

text \<open>The errors of the live store are among them.\<close>

fun runtime_of_store :: "store_error \<Rightarrow> runtime_error" where
  "runtime_of_store (StoreSink e) = RtSink e"
| "runtime_of_store (StoreBackfill e) = RtBackfill e"
| "runtime_of_store (MissingCheckpointHeader n) = RtMissingCheckpointHeader n"
| "runtime_of_store TaskCancelled = RtTask (LiveTaskCancelled Tracker)"

section \<open>The budget of a window\<close>

record live_budget =
  lb_max_cost_units :: u64
  lb_window :: duration
  lb_started_at :: nat
  lb_budget :: rpc_budget

definition live_budget_new :: "u64 \<Rightarrow> duration \<Rightarrow> nat \<Rightarrow> runtime_error + live_budget" where
  "live_budget_new mx w now =
     (if w = 0 then Inl (RtBudget ''live budget window must be nonzero'')
      else tryR (map_err RtBackfill (budget_new (- 1) mx)) (\<lambda>b.
        Inr \<lparr>lb_max_cost_units = mx, lb_window = w, lb_started_at = now, lb_budget = b\<rparr>))"

definition live_budget_reset :: "nat \<Rightarrow> live_budget \<Rightarrow> (runtime_error + unit) \<times> live_budget" where
  "live_budget_reset now b =
     (let b = b\<lparr>lb_started_at := now\<rparr> in
      case budget_new (- 1) (lb_max_cost_units b) of
        Inl e \<Rightarrow> (Inl (RtBackfill e), b)
      | Inr x \<Rightarrow> (Inr (), b\<lparr>lb_budget := x\<rparr>))"

definition record_at :: "rpc_method \<Rightarrow> nat \<Rightarrow> live_budget \<Rightarrow> (runtime_error + duration option) \<times> live_budget" where
  "record_at m now b =
     tryS (if lb_window b \<le> now - lb_started_at b then live_budget_reset now b else (Inr (), b)) (\<lambda>_ b.
       case budget_record m (default_cost m) (lb_budget b) of
         (r, x) \<Rightarrow>
           (let b = b\<lparr>lb_budget := x\<rparr> in
            if is_ok r then (Inr None, b)
            else (Inr (Some (lb_window b - (now - lb_started_at b))), b)))"

text \<open>The loop reads the clock, and sleeps when it is refused; \<open>None\<close> when it goes on for ever.\<close>

partial_function (option) record_or_backoff ::
    "('p \<Rightarrow> nat \<times> 'p) \<Rightarrow> (duration \<Rightarrow> 'p \<Rightarrow> 'p) \<Rightarrow> rpc_method \<Rightarrow> live_budget \<Rightarrow> 'p \<Rightarrow>
      ((runtime_error + unit) \<times> live_budget \<times> 'p) option" where
  "record_or_backoff clock sleep m b p =
     (case clock p of
        (now, p) \<Rightarrow>
          (case record_at m now b of
             (Inl e, b) \<Rightarrow> Some (Inl e, b, p)
           | (Inr None, b) \<Rightarrow> Some (Inr (), b, p)
           | (Inr (Some delay), b) \<Rightarrow> record_or_backoff clock sleep m b (sleep delay p)))"

section \<open>The reconnect policy\<close>

record reconnect_policy =
  rcp_base_delay :: duration
  rcp_max_delay :: duration
  deterministic_spread :: duration
  min_healthy_duration :: duration

definition reconnect_policy_new ::
    "duration \<Rightarrow> duration \<Rightarrow> duration \<Rightarrow> duration \<Rightarrow> runtime_error + reconnect_policy" where
  "reconnect_policy_new base mx spread mhd =
     (if base = 0 \<or> mx = 0 then Inl (RtReconnectPolicy ''reconnect delays must be nonzero'')
      else if mhd = 0 then Inl (RtReconnectPolicy ''reconnect healthy duration must be nonzero'')
      else if base > mx then Inl (RtReconnectPolicy ''reconnect base delay must not exceed max delay'')
      else Inr \<lparr>rcp_base_delay = base, rcp_max_delay = mx, deterministic_spread = spread, min_healthy_duration = mhd\<rparr>)"

definition saturating_duration_mul :: "duration \<Rightarrow> u64 \<Rightarrow> duration" where
  "saturating_duration_mul d m = min (min (d * unat m) (2 ^ 128 - 1)) (2 ^ 64 - 1)"

text \<open>\<open>spread_nanos + 1\<close> wraps to zero for a spread of 584 years, and the remainder panics: \<open>None\<close>.\<close>

definition spread_for_attempt :: "reconnect_policy \<Rightarrow> u64 \<Rightarrow> duration option" where
  "spread_for_attempt p attempt =
     (let spread_nanos = (of_nat (min (deterministic_spread p) (2 ^ 64 - 1)) :: u64) in
      if spread_nanos = 0 then Some 0
      else
        let mixed = attempt * 6364136223846793005 + 1442695040888963407 in
        if spread_nanos + 1 = 0 then None else Some (unat (mixed mod (spread_nanos + 1))))"

definition delay_for_attempt :: "reconnect_policy \<Rightarrow> u64 \<Rightarrow> duration option" where
  "delay_for_attempt p attempt =
     (let exponent = unat (min (sat_sub attempt 1) 31);
          multiplier = (push_bit exponent 1 :: u64);
          exponential = min (saturating_duration_mul (rcp_base_delay p) multiplier) (rcp_max_delay p)
      in map_option (dur_add exponential) (spread_for_attempt p attempt))"

section \<open>The readiness state machine\<close>

datatype runtime_readiness = RtReady | RtUnavailable

datatype reconnect_action = ReconnectAfter duration | ReconnectHalt

record reconnect_loop =
  rc_policy :: reconnect_policy
  rc_attempt :: u64
  rc_readiness :: runtime_readiness
  rc_halted :: bool
  healthy_since :: "nat option"
  subscribed_to_wakeups :: bool
  reconciled_after_subscribe :: bool

definition reconnect_new :: "reconnect_policy \<Rightarrow> reconnect_loop" where
  "reconnect_new p =
     \<lparr>rc_policy = p, rc_attempt = 0, rc_readiness = RtUnavailable, rc_halted = False, healthy_since = None,
      subscribed_to_wakeups = False, reconciled_after_subscribe = False\<rparr>"

definition reset_backoff_if_min_healthy_elapsed :: "nat \<Rightarrow> reconnect_loop \<Rightarrow> reconnect_loop" where
  "reset_backoff_if_min_healthy_elapsed now l =
     (case healthy_since l of
        None \<Rightarrow> l
      | Some t \<Rightarrow> if min_healthy_duration (rc_policy l) \<le> now - t then l\<lparr>rc_attempt := 0\<rparr> else l)"

definition record_disconnect_at :: "nat \<Rightarrow> reconnect_loop \<Rightarrow> reconnect_loop" where
  "record_disconnect_at now l =
     (reset_backoff_if_min_healthy_elapsed now l)
       \<lparr>rc_readiness := RtUnavailable, healthy_since := None, subscribed_to_wakeups := False,
        reconciled_after_subscribe := False\<rparr>"

definition record_connected_needs_reconciliation :: "reconnect_loop \<Rightarrow> reconnect_loop" where
  "record_connected_needs_reconciliation l =
     l\<lparr>rc_readiness := RtUnavailable, healthy_since := None, subscribed_to_wakeups := False,
       reconciled_after_subscribe := False\<rparr>"

definition record_catch_up_complete_at :: "nat \<Rightarrow> reconnect_loop \<Rightarrow> reconnect_loop" where
  "record_catch_up_complete_at now l =
     (if \<not> rc_halted l then l\<lparr>rc_readiness := RtReady, healthy_since := Some now\<rparr> else l)"

definition record_subscribed_for_wakeups :: "reconnect_loop \<Rightarrow> reconnect_loop" where
  "record_subscribed_for_wakeups l =
     l\<lparr>rc_readiness := RtUnavailable, healthy_since := None, subscribed_to_wakeups := True,
       reconciled_after_subscribe := False\<rparr>"

definition record_reconciled_to_head :: "reconnect_loop \<Rightarrow> (runtime_error + unit) \<times> reconnect_loop" where
  "record_reconciled_to_head l =
     (if \<not> subscribed_to_wakeups l
      then (Inl (RtReconnectOrder ''must subscribe to head wakeups before reconciliation''), l)
      else (Inr (), l\<lparr>rc_readiness := RtUnavailable, reconciled_after_subscribe := True\<rparr>))"

definition record_ready_after_reconnect_at :: "nat \<Rightarrow> reconnect_loop \<Rightarrow> (runtime_error + unit) \<times> reconnect_loop" where
  "record_ready_after_reconnect_at now l =
     (if \<not> subscribed_to_wakeups l \<or> \<not> reconciled_after_subscribe l
      then (Inl (RtReconnectOrder ''must subscribe and reconcile before marking live tracker ready''), l)
      else (Inr (), record_catch_up_complete_at now
        (l\<lparr>subscribed_to_wakeups := False, reconciled_after_subscribe := False\<rparr>)))"

text \<open>\<open>None\<close> when the policy panics.\<close>

definition record_availability_failure :: "reconnect_loop \<Rightarrow> reconnect_action option \<times> reconnect_loop" where
  "record_availability_failure l =
     (if rc_halted l then (Some ReconnectHalt, l)
      else
        let l = l\<lparr>rc_readiness := RtUnavailable, healthy_since := None, subscribed_to_wakeups := False,
              reconciled_after_subscribe := False, rc_attempt := sat_add (rc_attempt l) 1\<rparr>
        in (map_option ReconnectAfter (delay_for_attempt (rc_policy l) (rc_attempt l)), l))"

definition record_correctness_error :: "reconnect_loop \<Rightarrow> reconnect_action \<times> reconnect_loop" where
  "record_correctness_error l =
     (ReconnectHalt, l\<lparr>rc_readiness := RtUnavailable, healthy_since := None, subscribed_to_wakeups := False,
        reconciled_after_subscribe := False, rc_halted := True\<rparr>)"

definition record_task_error :: "task_error \<Rightarrow> reconnect_loop \<Rightarrow> reconnect_action option \<times> reconnect_loop" where
  "record_task_error e l =
     (case classify e of
        TransientClass \<Rightarrow> record_availability_failure l
      | CorrectnessClass \<Rightarrow> apfst Some (record_correctness_error l))"

section \<open>The supervisor\<close>

text \<open>
  How a spawned task ends: its future returned or panicked (\<open>None\<close>, which \<open>catch_unwind\<close> turns into an
  error of that task); or the task was aborted or panicked outside of its future.
\<close>

datatype task_end = Ended live_task "(task_error + unit) option" | Aborted | JoinPanicked

fun guarded :: "live_task \<Rightarrow> (task_error + unit) option \<Rightarrow> task_error + unit" where
  "guarded t None = Inl (TaskPanicked t)"
| "guarded t (Some r) = r"

fun first_result :: "bool \<Rightarrow> task_end \<Rightarrow> task_error + unit" where
  "first_result cancelled (Ended t r) =
     (case guarded t r of
        Inr _ \<Rightarrow> if cancelled then Inr () else Inl (TaskExitedEarly t)
      | Inl e \<Rightarrow> Inl e)"
| "first_result cancelled Aborted = Inl SupervisorCancelled"
| "first_result cancelled JoinPanicked = Inl (TaskPanicked Tracker)"

text \<open>
  The ends in the order in which the tasks finish, and whether shutdown was requested by the first
  of them.  The result, whether shutdown is requested afterwards, and the tasks left running.
\<close>

fun drain :: "task_end list \<Rightarrow> task_end list" where
  "drain [] = []"
| "drain (_ # ends) = drain ends"

definition run_until_first_exit :: "bool \<Rightarrow> task_end list \<Rightarrow> (task_error + unit) \<times> bool \<times> task_end list" where
  "run_until_first_exit cancelled ends =
     (case ends of
        [] \<Rightarrow> (Inr (), cancelled, [])
      | e # rest \<Rightarrow> (first_result cancelled e, True, drain rest))"

section \<open>What the budget lets through\<close>

definition live_budget_inv :: "live_budget \<Rightarrow> bool" where
  "live_budget_inv b \<longleftrightarrow> 0 < lb_window b \<and> lb_max_cost_units b \<noteq> 0 \<and> max_requests (lb_budget b) = - 1 \<and>
     max_cost_units (lb_budget b) = lb_max_cost_units b \<and> cost_units (lb_budget b) \<le> lb_max_cost_units b"

lemma live_budget_new_inv:
  assumes "live_budget_new mx w now = Inr b"
  shows "live_budget_inv b \<and> lb_max_cost_units b = mx \<and> lb_window b = w \<and> lb_started_at b = now \<and>
    cost_units (lb_budget b) = 0"
  using assms by (auto simp: live_budget_new_def live_budget_inv_def budget_new_def try_simps split: if_splits)

text \<open>The window in which a call at \<open>now\<close> falls: the current one, or a new one.\<close>

definition in_window :: "nat \<Rightarrow> live_budget \<Rightarrow> live_budget" where
  "in_window now b =
     (if lb_window b \<le> now - lb_started_at b
      then b\<lparr>lb_started_at := now, lb_budget := \<lparr>max_requests = - 1, max_cost_units = lb_max_cost_units b,
             requests = 0, cost_units = 0\<rparr>\<rparr>
      else b)"

lemma in_window_inv: "live_budget_inv b \<Longrightarrow> live_budget_inv (in_window now b)"
  by (simp add: live_budget_inv_def in_window_def)

lemma in_window_simps [simp]:
  "lb_window (in_window now b) = lb_window b" "lb_max_cost_units (in_window now b) = lb_max_cost_units b"
  by (simp_all add: in_window_def)

lemma sat_add_top: "\<not> (- 1 :: u64) < sat_add a 1"
  by (simp add: word_less_nat_alt not_less unat_max_word sat_simps)

text \<open>A call is let through at its cost, or the caller is told how long the window still lasts.\<close>

lemma record_at_cases:
  assumes "live_budget_inv b"
  shows "record_at m now b =
    (let x = in_window now b; next_cost = sat_add (cost_units (lb_budget x)) (default_cost m) in
     if next_cost \<le> lb_max_cost_units b
     then (Inr None, x\<lparr>lb_budget := (lb_budget x)\<lparr>requests := sat_add (requests (lb_budget x)) 1, cost_units := next_cost\<rparr>\<rparr>)
     else (Inr (Some (lb_window b - (now - lb_started_at x))), x))"
proof -
  have "budget_new (- 1) (lb_max_cost_units b) =
      Inr \<lparr>max_requests = - 1, max_cost_units = lb_max_cost_units b, requests = 0, cost_units = 0\<rparr>"
    using assms by (simp add: live_budget_inv_def budget_new_def)
  then have "record_at m now b = (case budget_record m (default_cost m) (lb_budget (in_window now b)) of
      (r, x) \<Rightarrow> (let y = (in_window now b)\<lparr>lb_budget := x\<rparr> in
        if is_ok r then (Inr None, y) else (Inr (Some (lb_window b - (now - lb_started_at y))), y)))"
    by (simp add: record_at_def live_budget_reset_def in_window_def Let_def split: prod.split)
  moreover have "max_requests (lb_budget (in_window now b)) = - 1" "max_cost_units (lb_budget (in_window now b)) = lb_max_cost_units b"
    using in_window_inv [OF assms, of now] by (simp_all add: live_budget_inv_def)
  ultimately show ?thesis
    by (auto simp: budget_record_def Let_def sat_add_top not_less)
qed

lemma record_at_inv:
  assumes "live_budget_inv b" and "record_at m now b = (r, b')"
  shows "live_budget_inv b'"
  using assms in_window_inv [OF assms(1), of now]
  by (auto simp: record_at_cases Let_def live_budget_inv_def split: if_splits)

text \<open>The calls let through, each with its time and its cost.\<close>

fun granted :: "(rpc_method \<times> nat) list \<Rightarrow> live_budget \<Rightarrow> (nat \<times> nat) list" where
  "granted [] b = []"
| "granted ((m, t) # calls) b =
     (case record_at m t b of
        (Inr None, b) \<Rightarrow> (t, unat (default_cost m)) # granted calls b
      | (_, b) \<Rightarrow> granted calls b)"

definition cost_between :: "nat \<Rightarrow> nat \<Rightarrow> (nat \<times> nat) list \<Rightarrow> nat" where
  "cost_between s e xs = sum_list (map snd (filter (\<lambda>x. s \<le> fst x \<and> fst x < e) xs))"

lemma cost_between_simps [simp]:
  "cost_between s e [] = 0"
  "cost_between s e ((t, c) # xs) = (if s \<le> t \<and> t < e then c else 0) + cost_between s e xs"
  by (simp_all add: cost_between_def)

text \<open>What can still be spent between \<open>s\<close> and \<open>s + w\<close> when the current window started at \<open>a\<close>.\<close>

definition allowance :: "nat \<Rightarrow> live_budget \<Rightarrow> nat" where
  "allowance s b =
     (let cap = unat (lb_max_cost_units b); left = cap - unat (cost_units (lb_budget b)); a = lb_started_at b in
      if a + lb_window b \<le> s then 2 * cap
      else if a \<le> s then left + cap
      else if a < s + lb_window b then left
      else 0)"

lemma record_at_allowance:
  assumes inv: "live_budget_inv b" and cap: "lb_max_cost_units b \<noteq> - 1" and t: "lb_started_at b \<le> t"
    and rec: "record_at m t b = (r, b')"
  shows "(case r of Inr None \<Rightarrow> if s \<le> t \<and> t < s + lb_window b then unat (default_cost m) else 0 | _ \<Rightarrow> 0) +
      allowance s b' \<le> allowance s b \<and>
    lb_max_cost_units b' = lb_max_cost_units b \<and> lb_window b' = lb_window b \<and> lb_started_at b' \<le> t"
proof -
  let ?x = "in_window t b"
  have lt: "unat (lb_max_cost_units b) < 2 ^ 64 - 1"
    using cap u64_le_max [of "lb_max_cost_units b"] by (simp add: word_eq_unat unat_max_word)
  have ix: "live_budget_inv ?x" by (rule in_window_inv [OF inv])
  have left: "unat (cost_units (lb_budget ?x)) \<le> unat (lb_max_cost_units b)"
      "unat (cost_units (lb_budget b)) \<le> unat (lb_max_cost_units b)" "0 < lb_window b"
    using ix inv by (simp_all add: live_budget_inv_def word_le_nat_alt)
  have x: "allowance s ?x \<le> allowance s b \<and> lb_started_at ?x \<le> t \<and> t < lb_started_at ?x + lb_window b"
    using left t by (auto simp: allowance_def in_window_def Let_def)
  show ?thesis
  proof (cases "sat_add (cost_units (lb_budget ?x)) (default_cost m) \<le> lb_max_cost_units b")
    case True
    then have "unat (cost_units (lb_budget ?x)) + unat (default_cost m) \<le> unat (lb_max_cost_units b)"
      "unat (sat_add (cost_units (lb_budget ?x)) (default_cost m)) = unat (cost_units (lb_budget ?x)) + unat (default_cost m)"
      using lt by (auto simp: word_le_nat_alt sat_simps)
    with True rec x show ?thesis
      by (auto simp: record_at_cases [OF inv] Let_def allowance_def)
  next
    case False
    with rec x show ?thesis by (auto simp: record_at_cases [OF inv] Let_def)
  qed
qed

lemma granted_allowance:
  assumes "live_budget_inv b" and "lb_max_cost_units b \<noteq> - 1" and "sorted (lb_started_at b # map snd calls)"
  shows "cost_between s (s + lb_window b) (granted calls b) \<le> allowance s b"
  using assms
proof (induction calls arbitrary: b)
  case Nil
  then show ?case by simp
next
  case (Cons mt calls)
  obtain m t where mt: "mt = (m, t)" by (cases mt)
  obtain r b' where rec: "record_at m t b = (r, b')" by (cases "record_at m t b")
  have t: "lb_started_at b \<le> t" using Cons.prems(3) mt by simp
  note step = record_at_allowance [OF Cons.prems(1,2) t rec, of s]
  have "cost_between s (s + lb_window b') (granted calls b') \<le> allowance s b'"
    using record_at_inv [OF Cons.prems(1) rec] step Cons.prems(2,3) mt by (intro Cons.IH) (auto intro: order_trans)
  with step rec show ?case by (auto simp: mt split: sum.splits option.splits)
qed

text \<open>
  C38: The live budget bounds the rate of requests over every span of time, not only over its own
  windows.  Whatever requests are made at whatever times of a clock that does not run backwards: in
  any span of the length of a window, those let through cost at most twice the cap (a window may end
  and the next one start within the span).  The cap is below the largest \<open>u64\<close>, where the saturating
  counter stops counting.
\<close>
theorem live_budget_bounds_rate:
  assumes "live_budget_new mx w t0 = Inr b" and "mx \<noteq> - 1" and "sorted (t0 # map snd calls)"
  shows "cost_between s (s + w) (granted calls b) \<le> 2 * unat mx"
proof -
  note b = live_budget_new_inv [OF assms(1)]
  have "cost_between s (s + w) (granted calls b) \<le> allowance s b"
    using granted_allowance [of b calls s] b assms(2,3) by simp
  also have "\<dots> \<le> 2 * unat mx" using b by (simp add: allowance_def Let_def)
  finally show ?thesis .
qed

definition sample_budget :: "nat \<Rightarrow> u64 \<Rightarrow> u64 \<Rightarrow> live_budget" where
  "sample_budget t r c = \<lparr>lb_max_cost_units = 10, lb_window = 100, lb_started_at = t, lb_budget =
     \<lparr>max_requests = - 1, max_cost_units = 10, requests = r, cost_units = c\<rparr>\<rparr>"

lemma sample_budget_new: "live_budget_new 10 100 0 = Inr (sample_budget 0 0 0)"
  by (simp add: live_budget_new_def budget_new_def sample_budget_def)

lemma sample_records:
  "record_at GetLogs 90 (sample_budget 0 0 0) = (Inr None, sample_budget 0 1 5)"
  "record_at GetLogs 95 (sample_budget 0 1 5) = (Inr None, sample_budget 0 2 10)"
  "record_at GetLogs 99 (sample_budget 0 2 10) = (Inr (Some 1), sample_budget 0 2 10)"
  "record_at GetLogs 100 (sample_budget 0 2 10) = (Inr None, sample_budget 100 1 5)"
  by (simp_all add: record_at_def live_budget_reset_def budget_new_def budget_record_def sample_budget_def Let_def sat_add_def)

theorem live_budget_bounds_rate_witness:
  "let calls = [(GetLogs, 90), (GetLogs, 95), (GetLogs, 99), (GetLogs, 100)] in
     granted calls (sample_budget 0 0 0) = [(90, 5), (95, 5), (100, 5)] \<and>
     cost_between 90 190 (granted calls (sample_budget 0 0 0)) \<le> 20"
  using live_budget_bounds_rate [OF sample_budget_new, of "[(GetLogs, 90), (GetLogs, 95), (GetLogs, 99), (GetLogs, 100)]" 90]
  by (simp add: Let_def sample_records)

section \<open>Waiting for the budget\<close>

lemma sat_add_zero_cost [simp]: "sat_add 0 (default_cost m) = default_cost m"
  by (cases m) (simp_all add: sat_add_def)

lemma record_at_refused:
  assumes inv: "live_budget_inv b" and refused: "record_at m t b = (Inr (Some d), b')"
    and fits: "default_cost m \<le> lb_max_cost_units b" and later: "lb_started_at b \<le> t" "t + d \<le> t'"
  shows "fst (record_at m t' b') = Inr None"
proof -
  have inv': "live_budget_inv b'" by (rule record_at_inv [OF inv refused])
  have b': "b' = in_window t b" "d = lb_window b - (t - lb_started_at b')"
    using refused by (auto simp: record_at_cases [OF inv] Let_def split: if_splits)
  have "lb_window b' \<le> t' - lb_started_at b'"
    using later b' by (auto simp: in_window_def split: if_splits)
  then have x: "in_window t' b' = b'\<lparr>lb_started_at := t', lb_budget := \<lparr>max_requests = - 1,
      max_cost_units = lb_max_cost_units b', requests = 0, cost_units = 0\<rparr>\<rparr>"
    by (simp add: in_window_def)
  have "default_cost m \<le> lb_max_cost_units b'" using fits b'(1) by simp
  then show ?thesis unfolding record_at_cases [OF inv'] x by (simp add: Let_def)
qed

lemma record_at_too_dear:
  assumes inv: "live_budget_inv b" and "lb_max_cost_units b < default_cost m"
  shows "\<exists>d b'. record_at m t b = (Inr (Some d), b') \<and> live_budget_inv b' \<and> lb_max_cost_units b' = lb_max_cost_units b"
proof -
  have "\<not> sat_add (cost_units (lb_budget (in_window t b))) (default_cost m) \<le> lb_max_cost_units b"
    using assms(2) u64_le_max [of "default_cost m"] by (auto simp: word_le_nat_alt word_less_nat_alt sat_simps)
  then show ?thesis using in_window_inv [OF inv] by (simp add: record_at_cases [OF inv] Let_def)
qed

lemma backoff_granted:
  assumes "record_at m (fst (clock p)) b = (Inr None, b')"
  shows "record_or_backoff clock sleep m b p = Some (Inr (), b', snd (clock p))"
  using assms by (subst record_or_backoff.simps) (simp add: case_prod_beta)

lemma backoff_refused:
  assumes "record_at m (fst (clock p)) b = (Inr (Some d), b')"
  shows "record_or_backoff clock sleep m b p = record_or_backoff clock sleep m b' (sleep d (snd (clock p)))"
  using assms by (subst record_or_backoff.simps) (simp add: case_prod_beta)

lemma record_at_never_fails:
  "live_budget_inv b \<Longrightarrow> \<exists>d b'. record_at m t b = (Inr d, b')"
  by (simp add: record_at_cases Let_def)

lemma backoff_returns:
  assumes inv: "live_budget_inv b" and fits: "default_cost m \<le> lb_max_cost_units b"
    and started: "lb_started_at b \<le> fst (clock p)"
    and slept: "\<And>d p. fst (clock p) + d \<le> fst (clock (sleep d (snd (clock p))))"
  shows "\<exists>b' p'. record_or_backoff clock sleep m b p = Some (Inr (), b', p')"
proof -
  obtain r b' where rec: "record_at m (fst (clock p)) b = (Inr r, b')"
    using record_at_never_fails [OF inv] by blast
  show ?thesis
  proof (cases r)
    case None
    with rec show ?thesis by (simp add: backoff_granted)
  next
    case (Some d)
    let ?p = "sleep d (snd (clock p))"
    have "fst (record_at m (fst (clock ?p)) b') = Inr None"
      using record_at_refused [OF inv _ fits started slept] rec Some by simp
    then obtain b'' where "record_at m (fst (clock ?p)) b' = (Inr None, b'')" by (metis prod.collapse)
    with rec Some show ?thesis by (simp add: backoff_refused backoff_granted)
  qed
qed

lemma backoff_result:
  assumes "record_or_backoff clock sleep m b p = Some y" and "live_budget_inv b"
  shows "default_cost m \<le> lb_max_cost_units b \<and> fst y = Inr () \<and> live_budget_inv (fst (snd y)) \<and>
    lb_max_cost_units (fst (snd y)) = lb_max_cost_units b"
proof -
  let ?P = "\<lambda>m b y. live_budget_inv b \<longrightarrow> default_cost m \<le> lb_max_cost_units b \<and> fst y = (Inr () :: runtime_error + unit) \<and>
    live_budget_inv (fst (snd y)) \<and> lb_max_cost_units (fst (snd y)) = lb_max_cost_units b"
  have "?P m b y"
  proof (rule record_or_backoff.raw_induct [where P = "\<lambda>_ _ m b _ y. ?P m b y", OF _ assms(1)])
    fix f :: "('a \<Rightarrow> nat \<times> 'a) \<Rightarrow> (duration \<Rightarrow> 'a \<Rightarrow> 'a) \<Rightarrow> rpc_method \<Rightarrow> live_budget \<Rightarrow> 'a \<Rightarrow>
      ((runtime_error + unit) \<times> live_budget \<times> 'a) option"
    fix clock :: "'a \<Rightarrow> nat \<times> 'a" and sleep m b p y
    assume IH: "\<And>clock sleep m b p y. f clock sleep m b p = Some y \<Longrightarrow> ?P m b y"
      and body: "(case clock p of (now, p) \<Rightarrow>
        (case record_at m now b of (Inl e, b) \<Rightarrow> Some (Inl e, b, p)
         | (Inr None, b) \<Rightarrow> Some (Inr (), b, p)
         | (Inr (Some delay), b) \<Rightarrow> f clock sleep m b (sleep delay p))) = Some y"
    show "?P m b y"
    proof
      assume inv: "live_budget_inv b"
      obtain r b' where rec: "record_at m (fst (clock p)) b = (Inr r, b')"
        using record_at_never_fails [OF inv] by blast
      note inv' = record_at_inv [OF inv rec]
      have same: "lb_max_cost_units b' = lb_max_cost_units b"
        using rec by (auto simp: record_at_cases [OF inv] Let_def split: if_splits)
      show "default_cost m \<le> lb_max_cost_units b \<and> fst y = Inr () \<and> live_budget_inv (fst (snd y)) \<and>
          lb_max_cost_units (fst (snd y)) = lb_max_cost_units b"
      proof (cases r)
        case None
        with body rec have y: "y = (Inr (), b', snd (clock p))" by (simp add: case_prod_beta)
        have "default_cost m \<le> lb_max_cost_units b"
          using record_at_too_dear [OF inv, of m "fst (clock p)"] rec None by (auto simp: not_less [symmetric])
        with y inv' same show ?thesis by simp
      next
        case (Some d)
        with body rec have "f clock sleep m b' (sleep d (snd (clock p))) = Some y" by (simp add: case_prod_beta)
        from IH [OF this] inv' same show ?thesis by simp
      qed
    qed
  qed
  with assms(2) show ?thesis by simp
qed

text \<open>
  C39: Waiting for the live budget ends exactly when the request fits into the cap.  With a clock that
  counts at least the time slept, a request whose cost is at most the cap is let through after at
  most one sleep, and one that costs more waits for ever: the loop has no other way out.  The command
  line lets the operator choose the cap, and a cap below the five units of \<open>eth_getLogs\<close> is accepted.
\<close>
theorem budget_wait_ends_iff:
  assumes "live_budget_inv b" and "lb_started_at b \<le> fst (clock p)"
    and "\<And>d p. fst (clock p) + d \<le> fst (clock (sleep d (snd (clock p))))"
  shows "(record_or_backoff clock sleep m b p = None) = (lb_max_cost_units b < default_cost m)"
  using backoff_returns [OF assms(1) _ assms(2,3)] backoff_result [OF _ assms(1)]
  by (metis not_le option.exhaust option.distinct(1))

text \<open>The state is the time; the clock itself takes none.\<close>

theorem budget_wait_ends_iff_witness:
  "record_or_backoff (\<lambda>t. (t, t)) (\<lambda>d t. t + d) GetLogs (sample_budget 0 2 10) (99 :: nat) \<noteq> None \<and>
   record_or_backoff (\<lambda>t. (t, t)) (\<lambda>d t. t + d) GetLogs
     ((sample_budget 0 0 0)\<lparr>lb_max_cost_units := 4, lb_budget := \<lparr>max_requests = - 1, max_cost_units = 4,
       requests = 0, cost_units = 0\<rparr>\<rparr>) (99 :: nat) = None"
proof -
  let ?dear = "(sample_budget 0 0 0)\<lparr>lb_max_cost_units := 4, lb_budget := \<lparr>max_requests = - 1, max_cost_units = 4,
       requests = 0, cost_units = 0\<rparr>\<rparr>"
  have "live_budget_inv (sample_budget 0 2 10)" "live_budget_inv ?dear"
    by (simp_all add: live_budget_inv_def sample_budget_def)
  then show ?thesis
    using budget_wait_ends_iff [where clock = "\<lambda>t. (t, t)" and sleep = "\<lambda>d t. t + d" and p = 99 and m = GetLogs]
    by (simp add: sample_budget_def)
qed

section \<open>Readiness is a function of the history\<close>

text \<open>The public operations that change the reconnect loop.\<close>

datatype reconnect_op =
    Subscribed
  | Reconciled
  | ReadyAt nat
  | CatchUpComplete nat
  | Disconnected nat
  | Connected
  | AvailabilityFailure
  | CorrectnessError
  | TaskError task_error

fun reconnect_step :: "reconnect_op \<Rightarrow> reconnect_loop \<Rightarrow> reconnect_loop" where
  "reconnect_step Subscribed l = record_subscribed_for_wakeups l"
| "reconnect_step Reconciled l = snd (record_reconciled_to_head l)"
| "reconnect_step (ReadyAt now) l = snd (record_ready_after_reconnect_at now l)"
| "reconnect_step (CatchUpComplete now) l = record_catch_up_complete_at now l"
| "reconnect_step (Disconnected now) l = record_disconnect_at now l"
| "reconnect_step Connected l = record_connected_needs_reconciliation l"
| "reconnect_step AvailabilityFailure l = snd (record_availability_failure l)"
| "reconnect_step CorrectnessError l = snd (record_correctness_error l)"
| "reconnect_step (TaskError e) l = snd (record_task_error e l)"

definition reconnect_run :: "reconnect_op list \<Rightarrow> reconnect_loop \<Rightarrow> reconnect_loop" where
  "reconnect_run ops l = fold reconnect_step ops l"

fun stops :: "reconnect_op \<Rightarrow> bool" where
  "stops CorrectnessError = True"
| "stops (TaskError e) = (classify e = CorrectnessClass)"
| "stops _ = False"

text \<open>The operations that do not start a connection over.\<close>

fun carries_on :: "reconnect_op \<Rightarrow> bool" where
  "carries_on Reconciled = True"
| "carries_on (ReadyAt _) = True"
| "carries_on (CatchUpComplete _) = True"
| "carries_on _ = False"

text \<open>
  What a history (the last operation first) says: how far the order has come (nothing, subscribed,
  reconciled), and whether the loop is ready.
\<close>

fun phase :: "reconnect_op list \<Rightarrow> nat" where
  "phase [] = 0"
| "phase (Subscribed # h) = 1"
| "phase (Reconciled # h) = (if phase h = 1 then 2 else phase h)"
| "phase (ReadyAt _ # h) = (if phase h = 2 then 0 else phase h)"
| "phase (CatchUpComplete _ # h) = phase h"
| "phase (_ # h) = 0"

fun marked :: "reconnect_op list \<Rightarrow> bool" where
  "marked (Reconciled # h) = (phase h = 0 \<and> marked h)"
| "marked (ReadyAt _ # h) = (phase h = 2 \<or> marked h)"
| "marked (CatchUpComplete _ # h) = True"
| "marked _ = False"

lemma phases: "phase h \<le> 2"
  by (induction h rule: phase.induct) auto

lemma reconnect_run_phase:
  "rc_halted (reconnect_run ops (reconnect_new pol)) = list_ex stops ops \<and>
   (if list_ex stops ops then rc_readiness (reconnect_run ops (reconnect_new pol)) = RtUnavailable
    else (rc_readiness (reconnect_run ops (reconnect_new pol)) = RtReady) = marked (rev ops) \<and>
      subscribed_to_wakeups (reconnect_run ops (reconnect_new pol)) = (phase (rev ops) \<noteq> 0) \<and>
      reconciled_after_subscribe (reconnect_run ops (reconnect_new pol)) = (phase (rev ops) = 2))"
proof (induction ops rule: rev_induct)
  case Nil
  then show ?case by (simp add: reconnect_run_def reconnect_new_def)
next
  case (snoc x ops)
  have avail: "snd (record_availability_failure l) =
     (if rc_halted l then l else l\<lparr>rc_readiness := RtUnavailable, healthy_since := None, subscribed_to_wakeups := False,
        reconciled_after_subscribe := False, rc_attempt := sat_add (rc_attempt l) 1\<rparr>)" for l
    by (simp add: record_availability_failure_def Let_def)
  note defs = record_subscribed_for_wakeups_def record_reconciled_to_head_def record_ready_after_reconnect_at_def
    record_catch_up_complete_at_def record_disconnect_at_def reset_backoff_if_min_healthy_elapsed_def
    record_connected_needs_reconciliation_def avail record_correctness_error_def record_task_error_def
  have runs: "reconnect_run (ops @ [x]) l = reconnect_step x (reconnect_run ops l)" for l
    by (simp add: reconnect_run_def)
  consider "phase (rev ops) = 0" | "phase (rev ops) = 1" | "phase (rev ops) = 2" using phases [of "rev ops"] by linarith
  then show ?case
  proof cases
    case 1
    with snoc show ?thesis unfolding runs
      by (cases x) (auto simp: defs split: option.splits task_error_class.splits)
  next
    case 2
    with snoc show ?thesis unfolding runs
      by (cases x) (auto simp: defs split: option.splits task_error_class.splits)
  next
    case 3
    with snoc show ?thesis unfolding runs
      by (cases x) (auto simp: defs split: option.splits task_error_class.splits)
  qed
qed

text \<open>The shapes of a history, again the last operation first.\<close>

definition ends_with ::
    "(reconnect_op \<Rightarrow> bool) \<Rightarrow> (reconnect_op \<Rightarrow> bool) \<Rightarrow> (reconnect_op list \<Rightarrow> bool) \<Rightarrow> reconnect_op list \<Rightarrow> bool" where
  "ends_with P Y Q h \<longleftrightarrow> (\<exists>post y pre. h = post @ y # pre \<and> list_all P post \<and> Y y \<and> Q pre)"

lemma ends_with_Nil: "\<not> ends_with P Y Q []"
  by (simp add: ends_with_def)

lemma ends_with_Cons: "ends_with P Y Q (x # h) \<longleftrightarrow> Y x \<and> Q h \<or> P x \<and> ends_with P Y Q h"
proof
  assume "ends_with P Y Q (x # h)"
  then obtain post y pre where "x # h = post @ y # pre" "list_all P post" "Y y" "Q pre" by (auto simp: ends_with_def)
  then show "Y x \<and> Q h \<or> P x \<and> ends_with P Y Q h" by (cases post) (auto simp: ends_with_def)
next
  assume "Y x \<and> Q h \<or> P x \<and> ends_with P Y Q h"
  then show "ends_with P Y Q (x # h)"
  proof (elim disjE conjE)
    assume "Y x" "Q h"
    then show ?thesis unfolding ends_with_def by - (rule exI [of _ "[]"], simp)
  next
    assume "P x" "ends_with P Y Q h"
    then obtain post y pre where "h = post @ y # pre" "list_all P post" "Y y" "Q pre" by (auto simp: ends_with_def)
    with \<open>P x\<close> show ?thesis unfolding ends_with_def by - (rule exI [of _ "x # post"], auto)
  qed
qed

lemma ends_with_rev:
  "ends_with P Y Q (rev ops) \<longleftrightarrow> (\<exists>pre y post. ops = pre @ y # post \<and> list_all P post \<and> Y y \<and> Q (rev pre))"
proof
  assume "ends_with P Y Q (rev ops)"
  then obtain post y pre where h: "rev ops = post @ y # pre" "list_all P post" "Y y" "Q pre" by (auto simp: ends_with_def)
  then have "ops = rev pre @ y # rev post" by (subst (asm) rev_swap) simp
  with h show "\<exists>pre y post. ops = pre @ y # post \<and> list_all P post \<and> Y y \<and> Q (rev pre)"
    by (metis list_all_rev rev_rev_ident)
next
  assume "\<exists>pre y post. ops = pre @ y # post \<and> list_all P post \<and> Y y \<and> Q (rev pre)"
  then obtain pre y post where "rev ops = rev post @ y # rev pre" "list_all P (rev post)" "Y y" "Q (rev pre)"
    by (auto simp: list_all_rev)
  then show "ends_with P Y Q (rev ops)" unfolding ends_with_def by blast
qed

definition was_subscribed :: "reconnect_op list \<Rightarrow> bool" where
  "was_subscribed = ends_with carries_on (\<lambda>x. x = Subscribed) (\<lambda>_. True)"

definition was_reconciled :: "reconnect_op list \<Rightarrow> bool" where
  "was_reconciled = ends_with carries_on (\<lambda>x. x = Reconciled) was_subscribed"

definition went_in_order :: "reconnect_op list \<Rightarrow> bool" where
  "went_in_order = ends_with carries_on (\<lambda>x. \<exists>t. x = ReadyAt t) was_reconciled"

definition caught_up_since :: "reconnect_op list \<Rightarrow> bool" where
  "caught_up_since = ends_with (\<lambda>x. carries_on x \<and> x \<noteq> Reconciled) (\<lambda>x. \<exists>t. x = CatchUpComplete t) (\<lambda>_. True)"

definition caught_up_idle :: "reconnect_op list \<Rightarrow> bool" where
  "caught_up_idle = ends_with carries_on (\<lambda>x. \<exists>t. x = CatchUpComplete t) (\<lambda>h. \<not> was_subscribed h)"

lemmas history_defs = was_subscribed_def was_reconciled_def went_in_order_def caught_up_since_def caught_up_idle_def

lemma history_Nil: "\<not> was_subscribed []" "\<not> was_reconciled []" "\<not> went_in_order []" "\<not> caught_up_since []" "\<not> caught_up_idle []"
  by (simp_all add: history_defs ends_with_Nil)

lemma history_Cons:
  "was_subscribed (x # h) \<longleftrightarrow> x = Subscribed \<or> carries_on x \<and> was_subscribed h"
  "was_reconciled (x # h) \<longleftrightarrow> x = Reconciled \<and> was_subscribed h \<or> carries_on x \<and> was_reconciled h"
  "went_in_order (x # h) \<longleftrightarrow> (\<exists>t. x = ReadyAt t) \<and> was_reconciled h \<or> carries_on x \<and> went_in_order h"
  "caught_up_since (x # h) \<longleftrightarrow> (\<exists>t. x = CatchUpComplete t) \<or> (carries_on x \<and> x \<noteq> Reconciled) \<and> caught_up_since h"
  "caught_up_idle (x # h) \<longleftrightarrow> (\<exists>t. x = CatchUpComplete t) \<and> \<not> was_subscribed h \<or> carries_on x \<and> caught_up_idle h"
proof -
  show "was_subscribed (x # h) \<longleftrightarrow> x = Subscribed \<or> carries_on x \<and> was_subscribed h"
    unfolding was_subscribed_def ends_with_Cons by simp
  show "was_reconciled (x # h) \<longleftrightarrow> x = Reconciled \<and> was_subscribed h \<or> carries_on x \<and> was_reconciled h"
    unfolding was_reconciled_def ends_with_Cons by simp
  show "went_in_order (x # h) \<longleftrightarrow> (\<exists>t. x = ReadyAt t) \<and> was_reconciled h \<or> carries_on x \<and> went_in_order h"
    unfolding went_in_order_def ends_with_Cons by simp
  show "caught_up_since (x # h) \<longleftrightarrow> (\<exists>t. x = CatchUpComplete t) \<or> (carries_on x \<and> x \<noteq> Reconciled) \<and> caught_up_since h"
    unfolding caught_up_since_def ends_with_Cons by simp
  show "caught_up_idle (x # h) \<longleftrightarrow> (\<exists>t. x = CatchUpComplete t) \<and> \<not> was_subscribed h \<or> carries_on x \<and> caught_up_idle h"
    unfolding caught_up_idle_def ends_with_Cons by simp
qed

lemma was_reconciled_subscribed: "was_reconciled h \<Longrightarrow> was_subscribed h"
  by (induction h) (auto simp: history_Nil history_Cons)

lemma went_in_order_reconciled: "went_in_order h \<Longrightarrow> was_reconciled h"
  by (induction h) (auto simp: history_Nil history_Cons)

lemma caught_up_idle_unsubscribed: "caught_up_idle h \<Longrightarrow> \<not> was_subscribed h"
  by (induction h) (auto simp: history_Nil history_Cons)

lemma caught_up_since_idle: "caught_up_since h \<Longrightarrow> \<not> was_subscribed h \<Longrightarrow> caught_up_idle h"
  by (induction h) (auto simp: history_Nil history_Cons)

lemma phase_history:
  "phase h = (if was_subscribed h \<and> \<not> went_in_order h then if was_reconciled h then 2 else 1 else 0)"
proof (induction h)
  case (Cons x h)
  show ?case
    using Cons was_reconciled_subscribed [of h] went_in_order_reconciled [of h]
    by (cases x; cases "was_subscribed h"; cases "was_reconciled h"; cases "went_in_order h"; simp add: history_Cons)
qed (simp add: history_Nil)

lemma history_marked: "marked h \<longleftrightarrow> went_in_order h \<or> caught_up_since h \<or> caught_up_idle h"
proof (induction h)
  case (Cons x h)
  show ?case
    using Cons phase_history [of h] was_reconciled_subscribed [of h] went_in_order_reconciled [of h]
      caught_up_idle_unsubscribed [of h] caught_up_since_idle [of h]
    by (cases x; cases "was_subscribed h"; cases "was_reconciled h"; cases "went_in_order h"; simp add: history_Cons; blast)
qed (simp add: history_Nil)

lemma subscribed_forward:
  "was_subscribed (rev ops) \<longleftrightarrow> (\<exists>pre mid. ops = pre @ Subscribed # mid \<and> list_all carries_on mid)"
  unfolding was_subscribed_def ends_with_rev by auto

lemma reconciled_forward:
  "was_reconciled (rev ops) \<longleftrightarrow>
   (\<exists>pre mid mid'. ops = pre @ Subscribed # mid @ Reconciled # mid' \<and> list_all carries_on (mid @ mid'))"
proof
  assume "was_reconciled (rev ops)"
  then obtain pre mid mid' where "ops = (pre @ Subscribed # mid) @ Reconciled # mid'" "list_all carries_on (mid @ mid')"
    unfolding was_reconciled_def ends_with_rev subscribed_forward by (auto simp: list_all_append)
  then show "\<exists>pre mid mid'. ops = pre @ Subscribed # mid @ Reconciled # mid' \<and> list_all carries_on (mid @ mid')"
    unfolding append_assoc append_Cons by blast
next
  assume "\<exists>pre mid mid'. ops = pre @ Subscribed # mid @ Reconciled # mid' \<and> list_all carries_on (mid @ mid')"
  then obtain pre mid mid' where "ops = (pre @ Subscribed # mid) @ Reconciled # mid'" "list_all carries_on mid" "list_all carries_on mid'"
    by auto
  then show "was_reconciled (rev ops)" unfolding was_reconciled_def ends_with_rev subscribed_forward by blast
qed

lemma order_forward:
  "went_in_order (rev ops) \<longleftrightarrow>
   (\<exists>pre mid mid' t post. ops = pre @ Subscribed # mid @ Reconciled # mid' @ ReadyAt t # post \<and>
      list_all carries_on (mid @ mid' @ post))"
proof
  assume "went_in_order (rev ops)"
  then obtain pre mid mid' t post where "ops = (pre @ Subscribed # mid @ Reconciled # mid') @ ReadyAt t # post"
    "list_all carries_on (mid @ mid' @ post)"
    unfolding went_in_order_def ends_with_rev reconciled_forward by (auto simp: list_all_append)
  then show "\<exists>pre mid mid' t post. ops = pre @ Subscribed # mid @ Reconciled # mid' @ ReadyAt t # post \<and>
      list_all carries_on (mid @ mid' @ post)"
    unfolding append_assoc append_Cons by blast
next
  assume "\<exists>pre mid mid' t post. ops = pre @ Subscribed # mid @ Reconciled # mid' @ ReadyAt t # post \<and>
      list_all carries_on (mid @ mid' @ post)"
  then obtain pre mid mid' t post where "ops = (pre @ Subscribed # mid @ Reconciled # mid') @ ReadyAt t # post"
    "list_all carries_on (mid @ mid')" "list_all carries_on post"
    by auto
  then show "went_in_order (rev ops)" unfolding went_in_order_def ends_with_rev reconciled_forward by blast
qed

lemma caught_up_forward:
  "caught_up_since (rev ops) \<or> caught_up_idle (rev ops) \<longleftrightarrow>
   (\<exists>pre t post. ops = pre @ CatchUpComplete t # post \<and> list_all carries_on post \<and>
      (Reconciled \<in> set post \<longrightarrow> \<not> was_subscribed (rev pre)))"
proof -
  have all: "list_all (\<lambda>x. carries_on x \<and> x \<noteq> Reconciled) post \<longleftrightarrow> list_all carries_on post \<and> Reconciled \<notin> set post" for post
    by (auto simp: list_all_iff)
  show ?thesis unfolding caught_up_since_def caught_up_idle_def ends_with_rev all by blast
qed

text \<open>
  C37: The live tracker is ready exactly when its history says so.  After any sequence of operations:
  readiness is \<open>Ready\<close> if and only if no correctness error ever occurred, and the history ends in one of
  two ways.  Either it went in order: a subscription, then a reconciliation, then the readiness mark,
  with nothing that starts the connection over in between or afterwards.  Or the catch-up was declared
  complete, which needs no order at all, with nothing that starts over since, and no reconciliation since
  unless no subscription was open for it.
\<close>
theorem ready_iff_history:
  "(rc_readiness (reconnect_run ops (reconnect_new pol)) = RtReady) =
    (list_all (\<lambda>x. \<not> stops x) ops \<and>
     ((\<exists>pre mid mid' t post. ops = pre @ Subscribed # mid @ Reconciled # mid' @ ReadyAt t # post \<and>
         list_all carries_on (mid @ mid' @ post)) \<or>
      (\<exists>pre t post. ops = pre @ CatchUpComplete t # post \<and> list_all carries_on post \<and>
         (Reconciled \<in> set post \<longrightarrow> \<not> (\<exists>pre' mid. pre = pre' @ Subscribed # mid \<and> list_all carries_on mid)))))"
proof -
  have "list_all (\<lambda>x. \<not> stops x) ops = (\<not> list_ex stops ops)" by (simp add: list_ex_iff list_all_iff)
  moreover have "marked (rev ops) = (went_in_order (rev ops) \<or> caught_up_since (rev ops) \<or> caught_up_idle (rev ops))"
    using history_marked by blast
  ultimately show ?thesis
    using reconnect_run_phase [of ops pol] unfolding order_forward [symmetric] subscribed_forward [symmetric] caught_up_forward [symmetric]
    by (auto split: if_splits)
qed

text \<open>
  A catch-up alone makes the loop ready after a disconnection; a reconciliation of a new
  subscription takes the readiness away until the mark.
\<close>

definition sample_policy :: reconnect_policy where
  "sample_policy = \<lparr>rcp_base_delay = 1, rcp_max_delay = 1, deterministic_spread = 0, min_healthy_duration = 1\<rparr>"

theorem ready_iff_history_witness:
  "rc_readiness (reconnect_run [Disconnected 0, Connected, CatchUpComplete 1] (reconnect_new sample_policy)) = RtReady \<and>
   rc_readiness (reconnect_run [Subscribed, CatchUpComplete 1, Reconciled, ReadyAt 2, Reconciled] (reconnect_new sample_policy)) = RtReady \<and>
   rc_readiness (reconnect_run [Subscribed, CatchUpComplete 1, Reconciled] (reconnect_new sample_policy)) \<noteq> RtReady"
proof -
  have "\<exists>pre t post. [Disconnected 0, Connected, CatchUpComplete 1] = pre @ CatchUpComplete t # post \<and> list_all carries_on post \<and>
      (Reconciled \<in> set post \<longrightarrow> \<not> (\<exists>pre' mid. pre = pre' @ Subscribed # mid \<and> list_all carries_on mid))"
    by (rule exI [of _ "[Disconnected 0, Connected]"]) simp
  then have 1: "rc_readiness (reconnect_run [Disconnected 0, Connected, CatchUpComplete 1] (reconnect_new sample_policy)) = RtReady"
    unfolding ready_iff_history by simp
  have "\<exists>pre mid mid' t post. [Subscribed, CatchUpComplete 1, Reconciled, ReadyAt 2, Reconciled] =
      pre @ Subscribed # mid @ Reconciled # mid' @ ReadyAt t # post \<and> list_all carries_on (mid @ mid' @ post)"
    by (intro exI [of _ "[]"] exI [of _ "[CatchUpComplete 1]"] exI [of _ "[Reconciled]"] exI [of _ 2]) simp
  then have 2: "rc_readiness (reconnect_run [Subscribed, CatchUpComplete 1, Reconciled, ReadyAt 2, Reconciled] (reconnect_new sample_policy)) = RtReady"
    unfolding ready_iff_history by simp
  have "rc_readiness (reconnect_run [Subscribed, CatchUpComplete 1, Reconciled] (reconnect_new sample_policy)) \<noteq> RtReady"
    by (simp add: reconnect_run_def reconnect_new_def record_subscribed_for_wakeups_def record_catch_up_complete_at_def
        record_reconciled_to_head_def)
  with 1 2 show ?thesis by blast
qed

end
