(* ===== verification/Rpc_Source.thy ===== *)
theory Rpc_Source
  imports Reconnect Abi
begin

text \<open>
  The live source of \<open>chainweave-cli/src/live_runtime.rs\<close>: \<open>RpcLiveSource\<close>, which asks a node under the
  retry policy and the budget of a window, \<open>RpcReconciliationSource\<close>, which has a second node check the
  heads, and \<open>BlockingTrackerSource\<close>, the \<open>LiveSource\<close> of the tracker.

  A client is a provider with a clock, a sleep, and the time limit of a request; all of them act on
  the state of the world.  An operation returns \<open>None\<close> when it never returns (a wait for the budget
  without end), or when the retry policy panics, which the policy of the live command never does.
\<close>

section \<open>Texts of errors\<close>

fun show_rpc_error :: "rpc_error \<Rightarrow> string" where
  "show_rpc_error (Connect m) = ''failed to connect to RPC endpoint: '' @ m"
| "show_rpc_error (Request m) = ''RPC request failed: '' @ m"
| "show_rpc_error (MissingBlock s) = ''RPC returned no block for '' @ s"
| "show_rpc_error (MissingBlockNumber n) = ''RPC returned no block at height '' @ show_u64 n"
| "show_rpc_error (MissingBlockField n f) = ''RPC block '' @ show_u64 n @ '' is missing a required field: '' @ f"
| "show_rpc_error (MissingLogField f) = ''RPC log is missing a required field: '' @ f"
| "show_rpc_error (LogOutsideRange a f t) =
     ''RPC log belongs to block '' @ show_u64 a @ '', outside requested range '' @ show_u64 f @ ''..='' @ show_u64 t"
| "show_rpc_error (LogBlockHashMismatch n) = ''RPC log block hash does not match fetched header at height '' @ show_u64 n"
| "show_rpc_error (LogIntegerOverflow f v) =
     ''RPC log integer field '' @ f @ '' value '' @ show_u64 v @ '' exceeds supported range''"
| "show_rpc_error (InvalidTimestamp t) = ''RPC block timestamp '' @ show_u64 t @ '' is outside supported range''"
| "show_rpc_error (ChainIdMismatch e a) =
     ''configured chain ID '' @ show_u64 e @ '' does not match RPC chain ID '' @ show_u64 a"
| "show_rpc_error (GenesisMismatch e a) =
     ''configured genesis hash '' @ hex_hash e @ '' does not match RPC genesis hash '' @ hex_hash a"
| "show_rpc_error (InvalidGenesis m) = ''configured genesis hash is invalid: '' @ m"
| "show_rpc_error (RpcInvalidAddress m) = ''contract address is invalid: '' @ m"

fun debug_task :: "live_task \<Rightarrow> string" where
  "debug_task HealthServer = ''HealthServer''"
| "debug_task Wakeups = ''Wakeups''"
| "debug_task Poll = ''Poll''"
| "debug_task Tracker = ''Tracker''"

text \<open>The texts of the errors of the other crates.\<close>

record error_texts =
  tx_config :: "config_error \<Rightarrow> string"
  tx_pg :: "pg_error \<Rightarrow> string"
  tx_observability :: "observability_error \<Rightarrow> string"
  tx_backfill :: "backfill_error \<Rightarrow> string"
  tx_chain :: "chain_error \<Rightarrow> string"

fun show_task_error :: "error_texts \<Rightarrow> task_error \<Rightarrow> string" where
  "show_task_error T (TaskChain e) = ''live runtime correctness error: '' @ tx_chain T e"
| "show_task_error T (RpcTransient m) = ''live runtime transient RPC error: '' @ m"
| "show_task_error T (WebSocketTransient m) = ''live runtime transient WebSocket error: '' @ m"
| "show_task_error T (DatabaseTransient m) = ''live runtime transient database error: '' @ m"
| "show_task_error T (TaskPanicked t) = ''live runtime task '' @ debug_task t @ '' panicked''"
| "show_task_error T (LiveTaskCancelled t) = ''live runtime task '' @ debug_task t @ '' was cancelled''"
| "show_task_error T (TaskExitedEarly t) = ''live runtime task '' @ debug_task t @ '' exited before shutdown''"
| "show_task_error T (TaskFailed t m) = ''live runtime task '' @ debug_task t @ '' failed: '' @ m"
| "show_task_error T SupervisorCancelled = ''live runtime supervisor task was cancelled''"

fun show_runtime_error :: "error_texts \<Rightarrow> runtime_error \<Rightarrow> string" where
  "show_runtime_error T (RtConfig e) = ''configuration validation failed: '' @ tx_config T e"
| "show_runtime_error T (RtRpcEndpoint u e) = ''RPC endpoint '' @ u @ '' failed: '' @ show_rpc_error e"
| "show_runtime_error T (RtRpc e) = show_rpc_error e"
| "show_runtime_error T (RtSink e) = tx_pg T e"
| "show_runtime_error T (RtMigration m) = ''database migration failed: '' @ m"
| "show_runtime_error T (RtObservability e) = ''observability server failed: '' @ tx_observability T e"
| "show_runtime_error T (RtBackfill e) = tx_backfill T e"
| "show_runtime_error T (RtMissingCheckpointHeader n) = ''checkpoint height '' @ show_u64 n @ '' has no canonical header''"
| "show_runtime_error T (RtBudget m) = ''invalid live RPC budget: '' @ m"
| "show_runtime_error T (RtReconnectPolicy m) = ''invalid reconnect policy: '' @ m"
| "show_runtime_error T (RtReconnectOrder m) = ''invalid reconnect order: '' @ m"
| "show_runtime_error T (RtTask e) = show_task_error T e"

section \<open>The source of one node\<close>

record 'p rpc_client =
  rcl_provider :: "'p rpc_provider"
  rcl_clock :: "'p \<Rightarrow> nat \<times> 'p"
  rcl_sleep :: "duration \<Rightarrow> 'p \<Rightarrow> 'p"
  rcl_late :: "duration \<Rightarrow> 'p \<Rightarrow> 'p \<Rightarrow> bool"

record 'ev runtime_live_config =
  rlc_retry_policy :: retry_policy
  rlc_rpc_timeout :: duration
  rlc_budget_window :: duration
  rlc_budget_cost_units_per_window :: u64
  rlc_filter :: "contract_log_filter option"
  rlc_abi_registry :: "'ev abi_registry option"

text \<open>
  Of a \<open>RpcLiveSource\<close> only the budget ever changes: it is the state of the operations, and the other
  two fields are an argument.
\<close>

record ('p, 'ev) live_node =
  rls_client :: "'p rpc_client"
  rls_config :: "'ev runtime_live_config"

type_synonym ('s, 'a) run = "'s \<Rightarrow> ((runtime_error + 'a) \<times> 's) option"

definition andThen :: "('s, 'a) run \<Rightarrow> ('a \<Rightarrow> ('s, 'b) run) \<Rightarrow> ('s, 'b) run" where
  "andThen m k s = Option.bind (m s) (\<lambda>(r, s). case r of Inl e \<Rightarrow> Some (Inl e, s) | Inr x \<Rightarrow> k x s)"

definition yield_value :: "'a \<Rightarrow> ('s, 'a) run" where
  "yield_value x s = Some (Inr x, s)"

definition rpc_live_source_new ::
    "'p rpc_client \<Rightarrow> 'ev runtime_live_config \<Rightarrow> nat \<Rightarrow>
      runtime_error + ('p, 'ev) live_node \<times> live_budget" where
  "rpc_live_source_new c cfg now =
     tryR (live_budget_new (rlc_budget_cost_units_per_window cfg) (rlc_budget_window cfg) now) (\<lambda>b.
       Inr (\<lparr>rls_client = c, rls_config = cfg\<rparr>, b))"

text \<open>\<open>self.budget.record_or_backoff(method).await?\<close>\<close>

definition spend :: "('p, 'ev) live_node \<Rightarrow> rpc_method \<Rightarrow> (live_budget \<times> 'p, unit) run" where
  "spend L m = (\<lambda>(b, p). record_or_backoff (rcl_clock (rls_client L)) (rcl_sleep (rls_client L)) m b p)"

text \<open>A call under the time limit, and a request under the retry policy.\<close>

definition timed :: "('p, 'ev) live_node \<Rightarrow> ('p \<Rightarrow> 'r \<times> 'p) \<Rightarrow> 'p \<Rightarrow> 'r option \<times> 'p" where
  "timed L f p =
     (case f p of (r, q) \<Rightarrow> (if rcl_late (rls_client L) (rlc_rpc_timeout (rls_config L)) p q then None else Some r, q))"

definition lift_retry :: "('p \<Rightarrow> (rpc_error + 'a) option \<times> 'p) \<Rightarrow> (live_budget \<times> 'p, 'a) run" where
  "lift_retry f = (\<lambda>(b, p). case f p of (r, p) \<Rightarrow> map_option (\<lambda>r. (map_err RtRpc r, b, p)) r)"

definition ask_node ::
    "('p, 'ev) live_node \<Rightarrow> string \<Rightarrow> ('p rpc_provider \<Rightarrow> 'p \<Rightarrow> (rpc_error + 'a) \<times> 'p) \<Rightarrow> (live_budget \<times> 'p, 'a) run" where
  "ask_node L late_text f =
     lift_retry (retry_rpc_request (rlc_retry_policy (rls_config L)) (Request late_text) (rcl_sleep (rls_client L))
       (timed L (f (rcl_provider (rls_client L)))))"

definition source_header_by_number :: "('p, 'ev) live_node \<Rightarrow> u64 \<Rightarrow> (live_budget \<times> 'p, block_header) run" where
  "source_header_by_number L n =
     andThen (spend L GetBlockByNumber) (\<lambda>_.
       lift_retry (fetch_header_by_number_with_retry (rcl_provider (rls_client L)) n (rlc_retry_policy (rls_config L))
         (rcl_sleep (rls_client L)) (timed L)))"

definition source_header_of_hash :: "('p, 'ev) live_node \<Rightarrow> block_hash \<Rightarrow> (live_budget \<times> 'p, block_header option) run" where
  "source_header_of_hash L h =
     andThen (spend L GetBlockByHash) (\<lambda>_.
       lift_retry (fetch_header_by_hash_with_retry (rcl_provider (rls_client L)) h (rlc_retry_policy (rls_config L))
         (rcl_sleep (rls_client L)) (timed L)))"

definition poll_head :: "('p, 'ev) live_node \<Rightarrow> (live_budget \<times> 'p, block_header) run" where
  "poll_head L =
     andThen (spend L GetBlockByNumber) (\<lambda>_.
     andThen (lift_retry (capture_target_head_with_retry (rcl_provider (rls_client L))
         (rlc_retry_policy (rls_config L)) (rcl_sleep (rls_client L)) (timed L))) (\<lambda>head.
       source_header_by_number L (ch_number head)))"

definition decode_block_logs :: "'ev alloy \<Rightarrow> ('p, 'ev) live_node \<Rightarrow> indexed_block \<Rightarrow> indexed_block" where
  "decode_block_logs A L b =
     (case rlc_abi_registry (rls_config L) of
        None \<Rightarrow> b
      | Some reg \<Rightarrow> b\<lparr>block_logs := snd (decode_logs_in_place A reg (block_logs b))\<rparr>)"

definition source_block_by_number :: "'ev alloy \<Rightarrow> ('p, 'ev) live_node \<Rightarrow> u64 \<Rightarrow> (live_budget \<times> 'p, indexed_block) run" where
  "source_block_by_number A L n =
     andThen (spend L GetBlockByNumber) (\<lambda>_.
     andThen (ask_node L (''timed out fetching block at height '' @ show_u64 n) (\<lambda>P. fetch_block_by_number P n)) (\<lambda>b.
     andThen (spend L GetLogs) (\<lambda>_.
     andThen (ask_node L (''timed out fetching logs by block hash '' @ debug_bytes (bytes_of (hash (ib_header b))))
         (\<lambda>P. fetch_logs_by_block_hash P (hash (ib_header b)) (rlc_filter (rls_config L)))) (\<lambda>ls.
       yield_value (decode_block_logs A L (b\<lparr>block_logs := ls\<rparr>))))))"

definition source_block_by_hash :: "'ev alloy \<Rightarrow> ('p, 'ev) live_node \<Rightarrow> block_hash \<Rightarrow> (live_budget \<times> 'p, indexed_block) run" where
  "source_block_by_hash A L h =
     andThen (spend L GetBlockByHash) (\<lambda>_.
     andThen (spend L GetLogs) (\<lambda>_.
     andThen (ask_node L (''timed out fetching block by hash '' @ debug_bytes (bytes_of h)) (\<lambda>P. fetch_block_by_hash P h)) (\<lambda>b.
       yield_value (decode_block_logs A L b))))"

section \<open>The source of the tracker\<close>

record rpc_reconciliation_source =
  rrs_primary :: live_budget
  rrs_verifier :: "live_budget option"
  rrs_verifier_disagreements :: u64
  rrs_last_head :: "block_header option"

definition rpc_reconciliation_source_new :: "live_budget \<Rightarrow> live_budget option \<Rightarrow> rpc_reconciliation_source" where
  "rpc_reconciliation_source_new pr ver =
     \<lparr>rrs_primary = pr, rrs_verifier = ver, rrs_verifier_disagreements = 0, rrs_last_head = None\<rparr>"

definition disagree :: "rpc_reconciliation_source \<Rightarrow> rpc_reconciliation_source" where
  "disagree R = R\<lparr>rrs_verifier_disagreements := sat_add (rrs_verifier_disagreements R) 1\<rparr>"

text \<open>A verifier that fails counts as one that disagrees.\<close>

definition verify_head :: "('p, 'ev) live_node \<Rightarrow> block_header \<Rightarrow> (rpc_reconciliation_source \<times> 'p, unit) run" where
  "verify_head V pr = (\<lambda>(R, p).
     case rrs_verifier R of
       None \<Rightarrow> Some (Inr (), R, p)
     | Some b \<Rightarrow>
         map_option (\<lambda>(r, b, p).
           let R = R\<lparr>rrs_verifier := Some b\<rparr> in
           (Inr (), case r of Inr v \<Rightarrow> (if hash v \<noteq> hash pr then disagree R else R) | Inl _ \<Rightarrow> disagree R, p))
         (source_header_by_number V (height pr) (b, p)))"

definition on_primary :: "(live_budget \<times> 'p, 'a) run \<Rightarrow> (rpc_reconciliation_source \<times> 'p, 'a) run" where
  "on_primary f = (\<lambda>(R, p). map_option (\<lambda>(r, b, p). (r, R\<lparr>rrs_primary := b\<rparr>, p)) (f (rrs_primary R, p)))"

text \<open>
  \<open>block_on_with_shutdown\<close>: shutdown wins the race against a call in the states of \<open>shutdown_wins\<close>, and
  against a call that never returns.  A call that is cut leaves the source as it was (its counters
  change after the last answer only).
\<close>

definition block_on_with_shutdown ::
    "error_texts \<Rightarrow> ('p \<Rightarrow> bool) \<Rightarrow> ('s \<times> 'p, 'a) run \<Rightarrow> 's \<times> 'p \<Rightarrow> (string + 'a) \<times> 's \<times> 'p" where
  "block_on_with_shutdown T shutdown_wins f = (\<lambda>(s, p).
     let cancelled = Inl (show_runtime_error T (RtTask (LiveTaskCancelled Tracker))) in
     case f (s, p) of
       None \<Rightarrow> (cancelled, s, p)
     | Some (r, s', p') \<Rightarrow>
         if shutdown_wins p' then (cancelled, s, p') else (map_err (show_runtime_error T) r, s', p'))"

definition source_error_requests_rereconcile :: "string \<Rightarrow> bool" where
  "source_error_requests_rereconcile m =
     (let lower = to_ascii_lowercase m;
          hash_anchored_block_not_found = str_contains lower ''eth_getlogs'' \<and>
            (str_contains lower ''blockhash'' \<or> str_contains lower ''block hash'') \<and>
            str_contains lower ''block not found''
      in hash_anchored_block_not_found \<or> str_contains lower ''rpc log block hash does not match'')"

text \<open>
  The nodes, the texts and the registry are arguments of the methods: \<open>L\<close> is the primary node and \<open>V\<close>
  the verifier.
\<close>

definition tracker_current_head ::
    "error_texts \<Rightarrow> ('p \<Rightarrow> bool) \<Rightarrow> ('p, 'ev) live_node \<Rightarrow> ('p, 'ev) live_node \<Rightarrow> rpc_reconciliation_source \<times> 'p \<Rightarrow>
      (string + block_header) \<times> rpc_reconciliation_source \<times> 'p" where
  "tracker_current_head T W L V s =
     tryS (block_on_with_shutdown T W (on_primary (poll_head L)) s) (\<lambda>x (R, p).
     tryS (block_on_with_shutdown T W (verify_head V x) (R\<lparr>rrs_last_head := Some x\<rparr>, p)) (\<lambda>_ s. (Inr x, s)))"

definition tracker_verify_recent ::
    "error_texts \<Rightarrow> ('p \<Rightarrow> bool) \<Rightarrow> ('p, 'ev) live_node \<Rightarrow> u64 \<Rightarrow> block_hash \<Rightarrow> rpc_reconciliation_source \<times> 'p \<Rightarrow>
      (string + verifier_status) \<times> rpc_reconciliation_source \<times> 'p" where
  "tracker_verify_recent T W V n h = (\<lambda>(R, p).
     case rrs_verifier R of
       None \<Rightarrow> (Inr VerifierUnavailable, R, p)
     | Some b \<Rightarrow>
         (case block_on_with_shutdown T W (source_header_by_number V n) (b, p) of
            (r, b, p) \<Rightarrow>
              (let R = R\<lparr>rrs_verifier := Some b\<rparr> in
               case r of
                 Inr v \<Rightarrow> if hash v = h then (Inr Match, R, p) else (Inr Disagree, disagree R, p)
               | Inl _ \<Rightarrow> (Inr VerifierUnavailable, R, p))))"

definition tracker_source ::
    "'ev alloy \<Rightarrow> error_texts \<Rightarrow> ('p \<Rightarrow> bool) \<Rightarrow> ('p, 'ev) live_node \<Rightarrow> ('p, 'ev) live_node \<Rightarrow>
      (indexed_block, string, rpc_reconciliation_source \<times> 'p) live_source" where
  "tracker_source A T W L V =
     \<lparr>current_head = tracker_current_head T W L V,
      block_by_number = (\<lambda>n. block_on_with_shutdown T W (on_primary (source_block_by_number A L n))),
      block_by_hash = (\<lambda>h. block_on_with_shutdown T W (on_primary (source_block_by_hash A L h))),
      header_by_number = (\<lambda>n s. apfst (map_sum id Some) (block_on_with_shutdown T W (on_primary (source_header_by_number L n)) s)),
      source_header_by_hash = (\<lambda>h. block_on_with_shutdown T W (on_primary (source_header_of_hash L h))),
      block_header_of = ib_header, block_logs_match_header = (\<lambda>_. True),
      source_error_kind = (\<lambda>e. if source_error_requests_rereconcile e then ReconcileError else TransientError),
      source_error_string = (\<lambda>e. e), verify_recent = tracker_verify_recent T W V\<rparr>"

section \<open>What the node answers\<close>

lemma andThen_Inr [try_simps]:
  "andThen m k s = Some (Inr y, s') \<longleftrightarrow> (\<exists>x s1. m s = Some (Inr x, s1) \<and> k x s1 = Some (Inr y, s'))"
  by (cases "m s") (auto simp: andThen_def split: sum.splits)

lemma retry_from_answer:
  "retry_from pol te sl once a p = (Some r, p') \<Longrightarrow> r = Inl te \<or> (\<exists>q. fst (once q) = Some r)"
proof (induction pol te sl once a p arbitrary: r p' rule: retry_from.induct)
  case (1 pol te sl once a p)
  obtain res q where o: "once p = (res, q)" by (rule prod.exhaust)
  show ?case
  proof (cases res)
    case None
    with 1(3) o 1(1) [OF o [symmetric] None, of _ _ r p'] show ?thesis
      by (subst (asm) retry_from.simps) (auto split: option.splits retry_decision.splits)
  next
    case (Some v)
    show ?thesis
    proof (cases v)
      case (Inl e)
      with 1(3) o Some 1(2) [OF o [symmetric] Some Inl, of _ _ r p'] show ?thesis
        by (subst (asm) retry_from.simps) (auto split: option.splits retry_decision.splits intro: exI [of _ p])
    next
      case (Inr x)
      with 1(3) o Some show ?thesis by (subst (asm) retry_from.simps) (auto intro: exI [of _ p])
    qed
  qed
qed

lemma lift_retry_answer:
  assumes "lift_retry (retry_rpc_request pol te sl (timed L f)) s = Some (Inr v, s')"
  shows "\<exists>q q'. f q = (Inr v, q')"
proof -
  obtain b p where s: "s = (b, p)" by (rule prod.exhaust)
  obtain r q where r: "retry_rpc_request pol te sl (timed L f) p = (r, q)" by (rule prod.exhaust)
  with assms s have "r = Some (Inr v)" by (auto simp: lift_retry_def try_simps)
  with r have "\<exists>q. fst (timed L f q) = Some (Inr v)"
    using retry_from_answer [of pol te sl "timed L f" 1 p "Inr v" q] by (simp add: retry_rpc_request_def)
  then obtain q where "fst (f q) = Inr v" by (auto simp: timed_def case_prod_beta split: if_splits)
  then show ?thesis by (metis prod.collapse)
qed

lemma with_retry_eta:
  "fetch_header_by_number_with_retry P n pol sl t = retry_rpc_request pol
     (Request (''timed out fetching header at height '' @ show_u64 n)) sl (t (fetch_header_by_number P n))"
  "fetch_header_by_hash_with_retry P h pol sl u = retry_rpc_request pol
     (Request (''timed out fetching header by hash '' @ debug_bytes (bytes_of h))) sl (u (fetch_header_by_hash P h))"
  by (simp_all add: fun_eq_iff fetch_header_by_number_with_retry_def fetch_header_by_hash_with_retry_def)

lemma ask_answer:
  assumes "ask_node L t f s = Some (Inr v, s')"
  shows "\<exists>q q'. f (rcl_provider (rls_client L)) q = (Inr v, q')"
  using lift_retry_answer [OF assms [unfolded ask_node_def]] by blast

text \<open>A node that names its blocks by their hashes.\<close>

definition header_of_block :: "rpc_block \<Rightarrow> block_header" where
  "header_of_block b = BlockHeader (rb_hash b) (rb_parent_hash b) (rb_number b)"

definition node_genuine :: "(block_header \<Rightarrow> bool) \<Rightarrow> 'p rpc_provider \<Rightarrow> bool" where
  "node_genuine genuine P \<longleftrightarrow>
     (\<forall>q q' v t b. rp_block_by_number P t q = (Inr v, q') \<longrightarrow> rpc_block_of_json P v = Some b \<longrightarrow> genuine (header_of_block b)) \<and>
     (\<forall>q q' v h b. rp_block_by_hash P h q = (Inr v, q') \<longrightarrow> rpc_block_of_json P v = Some b \<longrightarrow> genuine (header_of_block b))"

lemma rpc_block_header: "rpc_block_header b = Inr (header_of_block b)"
  by (simp add: rpc_block_header_def header_of_block_def)

lemma node_genuineD:
  assumes "node_genuine genuine P" and "rpc_block_of_json P v = Some b"
  shows "rp_block_by_number P t q = (Inr v, q') \<Longrightarrow> genuine (header_of_block b)"
    and "rp_block_by_hash P h q = (Inr v, q') \<Longrightarrow> genuine (header_of_block b)"
  using assms unfolding node_genuine_def by blast+

lemma fetch_header_genuine:
  assumes "node_genuine genuine P"
  shows "fetch_header_by_number P n q = (Inr x, q') \<Longrightarrow> genuine x"
    and "fetch_header_by_hash P h q = (Inr (Some x), q') \<Longrightarrow> genuine x"
    and "fetch_block_by_number P n q = (Inr blk, q') \<Longrightarrow> genuine (ib_header blk)"
proof -
  have nullable: "nullable f v = Some (Some b) \<longleftrightarrow> v \<noteq> JNull \<and> f v = Some b" for f :: "json \<Rightarrow> 'x option" and v b
    by (auto simp: nullable_def)
  note defs = fetch_header_by_number_def fetch_header_by_hash_def fetch_block_by_number_def
    fetch_rpc_block_by_number_def fetch_rpc_block_by_hash_def response_def rpc_block_header indexed_block_from_rpc_def
    transpose_def
  show "fetch_header_by_number P n q = (Inr x, q') \<Longrightarrow> genuine x"
    by (auto simp: defs try_simps nullable dest: node_genuineD [OF assms] split: prod.splits option.splits)
  show "fetch_header_by_hash P h q = (Inr (Some x), q') \<Longrightarrow> genuine x"
    by (auto simp: defs try_simps nullable dest: node_genuineD [OF assms] split: prod.splits option.splits)
  show "fetch_block_by_number P n q = (Inr blk, q') \<Longrightarrow> genuine (ib_header blk)"
    by (auto simp: defs try_simps nullable dest: node_genuineD [OF assms] split: prod.splits option.splits if_splits)
qed

lemma block_on_Inr:
  assumes "block_on_with_shutdown T W f s = (Inr x, s')"
  shows "\<exists>s'. f s = Some (Inr x, s')"
  using assms by (cases s) (auto simp: block_on_with_shutdown_def Let_def try_simps split: option.splits prod.splits if_splits)

lemma on_primary_Inr: "on_primary f (R, p) = Some (Inr x, s') \<Longrightarrow> \<exists>s1. f (rrs_primary R, p) = Some (Inr x, s1)"
  by (auto simp: on_primary_def)

lemma block_on_primary:
  assumes "block_on_with_shutdown T W (on_primary f) s = (Inr x, s')"
  shows "\<exists>b p s1. f (b, p) = Some (Inr x, s1)"
  using block_on_Inr [OF assms] on_primary_Inr by (metis prod.exhaust)

lemma ib_header_decode [simp]: "ib_header (decode_block_logs A L b) = ib_header b"
  by (simp add: decode_block_logs_def split: option.split)

lemma source_header_by_number_answer:
  assumes "source_header_by_number L n s = Some (Inr x, s')"
  shows "\<exists>q q'. fetch_header_by_number (rcl_provider (rls_client L)) n q = (Inr x, q')"
  using assms by (auto simp: source_header_by_number_def with_retry_eta try_simps dest: lift_retry_answer)

lemma source_header_of_hash_answer:
  assumes "source_header_of_hash L h s = Some (Inr x, s')"
  shows "\<exists>q q'. fetch_header_by_hash (rcl_provider (rls_client L)) h q = (Inr x, q')"
  using assms by (auto simp: source_header_of_hash_def with_retry_eta try_simps dest: lift_retry_answer)

lemma source_block_by_number_answer:
  assumes "source_block_by_number A L n s = Some (Inr x, s')"
  shows "\<exists>b ls q q1 q2 q3. fetch_block_by_number (rcl_provider (rls_client L)) n q = (Inr b, q1) \<and>
    fetch_logs_by_block_hash (rcl_provider (rls_client L)) (hash (ib_header b)) (rlc_filter (rls_config L)) q2 = (Inr ls, q3) \<and>
    x = decode_block_logs A L (b\<lparr>block_logs := ls\<rparr>)"
proof -
  from assms obtain b s1 s2 s3 ls where
    b: "ask_node L (''timed out fetching block at height '' @ show_u64 n) (\<lambda>P. fetch_block_by_number P n) s1 = Some (Inr b, s2)" and
    ls: "ask_node L (''timed out fetching logs by block hash '' @ debug_bytes (bytes_of (hash (ib_header b))))
      (\<lambda>P. fetch_logs_by_block_hash P (hash (ib_header b)) (rlc_filter (rls_config L))) s3 = Some (Inr ls, s')" and
    x: "x = decode_block_logs A L (b\<lparr>block_logs := ls\<rparr>)"
    unfolding source_block_by_number_def yield_value_def andThen_Inr by auto
  with ask_answer show ?thesis by (metis prod.exhaust)
qed

lemma source_block_by_hash_answer:
  assumes "source_block_by_hash A L h s = Some (Inr x, s')"
  shows "\<exists>b q q1. fetch_block_by_hash (rcl_provider (rls_client L)) h q = (Inr b, q1) \<and> x = decode_block_logs A L b"
proof -
  from assms obtain b s1 where
    b: "ask_node L (''timed out fetching block by hash '' @ debug_bytes (bytes_of h)) (\<lambda>P. fetch_block_by_hash P h) s1 = Some (Inr b, s')" and
    x: "x = decode_block_logs A L b"
    unfolding source_block_by_hash_def yield_value_def andThen_Inr by auto
  with ask_answer show ?thesis by (metis prod.exhaust)
qed

lemma poll_head_answer:
  assumes "poll_head L s = Some (Inr x, s')"
  shows "\<exists>n q q'. fetch_header_by_number (rcl_provider (rls_client L)) n q = (Inr x, q')"
  using assms unfolding poll_head_def andThen_Inr by (meson source_header_by_number_answer)

text \<open>So the tracker's source is as genuine as its node.\<close>

lemma tracker_source_genuine:
  assumes "node_genuine genuine (rcl_provider (rls_client L))"
  shows "source_genuine genuine (tracker_source A T W L V)"
proof -
  note g = fetch_header_genuine [OF assms]
  have "genuine x" if "tracker_current_head T W L V s = (Inr x, s')" for s x s'
  proof -
    from that obtain s1 where "block_on_with_shutdown T W (on_primary (poll_head L)) s = (Inr x, s1)"
      by (auto simp: tracker_current_head_def try_simps split: prod.splits)
    with block_on_primary poll_head_answer g(1) show ?thesis by metis
  qed
  moreover have "genuine (ib_header b)"
    if run: "block_on_with_shutdown T W (on_primary (source_block_by_number A L n)) s = (Inr b, s')" for n s b s'
  proof -
    from block_on_primary [OF run] obtain s0 s1 where "source_block_by_number A L n s0 = Some (Inr b, s1)" by blast
    from source_block_by_number_answer [OF this] g(3) show ?thesis by fastforce
  qed
  moreover have "genuine x"
    if "block_on_with_shutdown T W (on_primary (source_header_of_hash L h)) s = (Inr (Some x), s')" for h s x s'
    using block_on_primary [OF that] source_header_of_hash_answer g(2) by metis
  ultimately show ?thesis unfolding source_genuine_def tracker_source_def by simp
qed

section \<open>Blocks and their logs\<close>

text \<open>The logs are those of the block itself, whatever the node did between the two requests.\<close>

definition anchored_in :: "rpc_log \<Rightarrow> block_header \<Rightarrow> raw_log \<Rightarrow> bool" where
  "anchored_in l x r \<longleftrightarrow> rl_block_hash l = Some (hash x) \<and> \<not> rl_removed l \<and>
     rl_transaction_hash l = Some (tx_hash r) \<and> rl_address l = log_address r \<and> rl_topics l = topics r \<and> rl_data l = log_data r \<and>
     map_option unat (rl_transaction_index l) = Some (unat (transaction_index r)) \<and>
     map_option unat (rl_log_index l) = Some (unat (log_index r))"

lemma required_u32_Inr: "required_u32 v f = Inr n \<Longrightarrow> map_option unat v = Some (unat n)"
  by (auto simp: required_u32_def try_simps unsigned_ucast_eq take_bit_nat_eq_self split: if_splits)

lemma raw_log_anchored:
  "raw_log_from_rpc_block_hash l h = Inr r \<Longrightarrow> hash x = h \<Longrightarrow> anchored_in l x r"
  by (auto simp: raw_log_from_rpc_block_hash_def anchored_in_def try_simps dest: required_u32_Inr split: if_splits)

lemma fetch_logs_anchored:
  assumes "fetch_logs_by_block_hash P h flt q = (Inr ls, q')" and "hash x = h"
  shows "\<exists>rs q1 q2. fetch_rpc_logs_by_block_hash P h flt q1 = (Inr rs, q2) \<and> list_all2 (\<lambda>l r. anchored_in l x r) rs ls"
proof -
  from assms(1) obtain rs q1 where "fetch_rpc_logs_by_block_hash P h flt q = (Inr rs, q1)"
    and m: "mapR (\<lambda>l. raw_log_from_rpc_block_hash l h) rs = Inr ls"
    by (cases "fetch_rpc_logs_by_block_hash P h flt q") (auto simp: fetch_logs_by_block_hash_def try_simps)
  moreover have "list_all2 (\<lambda>l r. anchored_in l x r) rs ls"
    using m assms(2) by (auto simp: mapR_Inr_iff raw_log_anchored elim: list_all2_mono)
  ultimately show ?thesis by blast
qed

lemma decode_all_keeps:
  "list_all2 (\<lambda>l r. anchored_in l x r) rs ls \<Longrightarrow> list_all2 (\<lambda>l r. anchored_in l x r) rs (snd (decode_all A reg ls st))"
proof (induction A reg ls st arbitrary: rs rule: decode_all.induct)
  case (2 A reg l ls st)
  have "anchored_in k x (snd (decode_log_in_place A reg l)) = anchored_in k x l" for k
    by (auto simp: decode_log_in_place_def anchored_in_def Let_def split: decode_result.split)
  with 2 show ?case
    by (auto simp: list_all2_Cons2 split: prod.splits)
qed simp

lemma decode_block_anchored:
  assumes "list_all2 (\<lambda>l r. anchored_in l x r) rs (block_logs b)"
  shows "list_all2 (\<lambda>l r. anchored_in l x r) rs (block_logs (decode_block_logs A L b))"
  using assms by (auto simp: decode_block_logs_def decode_logs_in_place_def intro: decode_all_keeps split: option.split)

lemma indexed_block_fields:
  "indexed_block_from_rpc b ls = Inr x \<Longrightarrow> ib_header x = header_of_block b \<and> block_logs x = ls"
  by (auto simp: indexed_block_from_rpc_def rpc_block_header try_simps split: if_splits)

lemma fetch_block_by_hash_anchored:
  assumes "fetch_block_by_hash P h q = (Inr b, q')"
  shows "hash (ib_header b) = h \<and> (\<exists>rs q1 q2. fetch_rpc_logs_by_block_hash P h None q1 = (Inr rs, q2) \<and>
    list_all2 (\<lambda>l r. anchored_in l (ib_header b) r) rs (block_logs b))"
proof -
  from assms obtain blk ls q1 q2 where ls: "fetch_logs_by_block_hash P h None q1 = (Inr ls, q2)"
    and h: "hash (header_of_block blk) = h" and b: "indexed_block_from_rpc blk ls = Inr b"
    by (auto simp: fetch_block_by_hash_def try_simps rpc_block_header split: if_splits)
  with indexed_block_fields [OF b] fetch_logs_anchored [OF ls, of "ib_header b"] show ?thesis by auto
qed

text \<open>
  C36: Whatever block the live tracker gets from a node, by height or by hash, its logs are exactly
  the logs that the node reported for that very block: one for one and in order, each naming the
  hash of the block's header and not removed, with its transaction, address, topics, data and
  indices unchanged (32-bit indices that were not cut off).  A block asked for by its hash has that
  hash.  So the constant answer of \<open>block_logs_match_header\<close> is right, however the chain moved between
  the two requests.
\<close>
theorem live_block_has_its_own_logs:
  assumes "block_by_number (tracker_source A T W L V) n s = (Inr b, s') \<or>
    block_by_hash (tracker_source A T W L V) h s = (Inr b, s')"
  shows "(hash (ib_header b) = h \<or> block_by_number (tracker_source A T W L V) n s = (Inr b, s')) \<and>
    (\<exists>flt rs q q'. flt \<in> {None, rlc_filter (rls_config L)} \<and>
      fetch_rpc_logs_by_block_hash (rcl_provider (rls_client L)) (hash (ib_header b)) flt q = (Inr rs, q') \<and>
      list_all2 (\<lambda>l r. anchored_in l (ib_header b) r) rs (block_logs b))"
  using assms
proof
  assume num: "block_by_number (tracker_source A T W L V) n s = (Inr b, s')"
  then have "block_on_with_shutdown T W (on_primary (source_block_by_number A L n)) s = (Inr b, s')"
    by (simp add: tracker_source_def)
  from block_on_primary [OF this] obtain b1 p1 s1 where src: "source_block_by_number A L n (b1, p1) = Some (Inr b, s1)" by (elim exE)
  from source_block_by_number_answer [OF src] obtain b0 ls q2 q3 where
    "fetch_logs_by_block_hash (rcl_provider (rls_client L)) (hash (ib_header b0)) (rlc_filter (rls_config L)) q2 = (Inr ls, q3)"
    "b = decode_block_logs A L (b0\<lparr>block_logs := ls\<rparr>)" by blast
  moreover from this(2) have x: "ib_header b = ib_header b0" by simp
  ultimately obtain rs q1 q2 where
    rs: "fetch_rpc_logs_by_block_hash (rcl_provider (rls_client L)) (hash (ib_header b)) (rlc_filter (rls_config L)) q1 = (Inr rs, q2)"
      "list_all2 (\<lambda>l r. anchored_in l (ib_header b) r) rs (block_logs (b0\<lparr>block_logs := ls\<rparr>))"
    using fetch_logs_anchored [of "rcl_provider (rls_client L)" "hash (ib_header b0)" "rlc_filter (rls_config L)" q2 ls q3 "ib_header b"]
    by auto
  from decode_block_anchored [OF rs(2)] \<open>b = decode_block_logs A L (b0\<lparr>block_logs := ls\<rparr>)\<close> rs(1) have
    "\<exists>rs q q'. fetch_rpc_logs_by_block_hash (rcl_provider (rls_client L)) (hash (ib_header b)) (rlc_filter (rls_config L)) q = (Inr rs, q') \<and>
      list_all2 (\<lambda>l r. anchored_in l (ib_header b) r) rs (block_logs b)" by blast
  with num show ?thesis by blast
next
  assume "block_by_hash (tracker_source A T W L V) h s = (Inr b, s')"
  then have "block_on_with_shutdown T W (on_primary (source_block_by_hash A L h)) s = (Inr b, s')"
    by (simp add: tracker_source_def)
  from block_on_primary [OF this] obtain b1 p1 s1 where src: "source_block_by_hash A L h (b1, p1) = Some (Inr b, s1)" by (elim exE)
  from source_block_by_hash_answer [OF src] obtain b0 q q1 where
    b0: "fetch_block_by_hash (rcl_provider (rls_client L)) h q = (Inr b0, q1)" "b = decode_block_logs A L b0" by blast
  then have x: "ib_header b = ib_header b0" by simp
  from fetch_block_by_hash_anchored [OF b0(1)] obtain rs q1 q2 where h: "hash (ib_header b) = h" and
    rs: "fetch_rpc_logs_by_block_hash (rcl_provider (rls_client L)) h None q1 = (Inr rs, q2)"
      "list_all2 (\<lambda>l r. anchored_in l (ib_header b) r) rs (block_logs b0)" unfolding x by blast
  from decode_block_anchored [OF rs(2)] b0(2) have "list_all2 (\<lambda>l r. anchored_in l (ib_header b) r) rs (block_logs b)" by simp
  with h rs(1) show ?thesis by blast
qed

text \<open>A node that answers at once from the sample provider, and a clock that stands still.\<close>

definition toy_node :: "(nat, string) live_node" where
  "toy_node =
     \<lparr>rls_client = \<lparr>rcl_provider = toy_provider, rcl_clock = (\<lambda>p. (0, p)), rcl_sleep = (\<lambda>d p. p), rcl_late = (\<lambda>d p q. False)\<rparr>,
      rls_config = \<lparr>rlc_retry_policy = \<lparr>max_attempts = 1, base_delay = 1, max_delay = 1, jitter = 0\<rparr>, rlc_rpc_timeout = 1,
        rlc_budget_window = 100, rlc_budget_cost_units_per_window = 10, rlc_filter = None, rlc_abi_registry = None\<rparr>\<rparr>"

lemma toy_spend:
  "spend toy_node GetBlockByNumber (sample_budget 0 0 0, p) = Some (Inr (), sample_budget 0 1 1, p)"
  "spend toy_node GetLogs (sample_budget 0 1 1, p) = Some (Inr (), sample_budget 0 2 6, p)"
proof -
  have "record_at GetBlockByNumber 0 (sample_budget 0 0 0) = (Inr None, sample_budget 0 1 1)"
    "record_at GetLogs 0 (sample_budget 0 1 1) = (Inr None, sample_budget 0 2 6)"
    by (simp_all add: record_at_def budget_record_def sample_budget_def Let_def sat_add_def)
  then show "spend toy_node GetBlockByNumber (sample_budget 0 0 0, p) = Some (Inr (), sample_budget 0 1 1, p)"
    "spend toy_node GetLogs (sample_budget 0 1 1, p) = Some (Inr (), sample_budget 0 2 6, p)"
    by (simp_all add: spend_def toy_node_def backoff_granted)
qed

lemma toy_ask:
  "f toy_provider p = (Inr v, q) \<Longrightarrow> ask_node toy_node t f (b, p) = Some (Inr v, b, q)"
  by (simp add: ask_node_def lift_retry_def retry_rpc_request_def retry_from.simps timed_def toy_node_def)

lemma toy_block:
  "\<exists>b l. fetch_block_by_number toy_provider 5 p = (Inr b, p + 1) \<and> hash (ib_header b) = fill 5 \<and>
     fetch_logs_by_block_hash toy_provider (fill 5) None q = (Inr [l], q + 1)"
  by (simp add: fetch_block_by_number_def fetch_rpc_block_by_number_def toy_provider_def response_def nullable_def
      rpc_block_of_json_def j_field_def quantity_def parse_quantity_def j_u64_def u64_of_int_def ok_or_def rpc_block_header_def
      indexed_block_from_rpc_def valid_unix_timestamp_def i64_max_def fetch_logs_by_block_hash_def
      fetch_rpc_logs_by_block_hash_def j_list_def toy_log_def rpc_log_of_json_def opt_field_def default_field_def
      raw_log_from_rpc_block_hash_def required_u32_def with_address_def)

definition toy_texts :: error_texts where
  "toy_texts = \<lparr>tx_config = (\<lambda>_. ''config''), tx_pg = (\<lambda>_. ''database''), tx_observability = (\<lambda>_. ''server''),
     tx_backfill = (\<lambda>_. ''backfill''), tx_chain = (\<lambda>_. ''chain'')\<rparr>"

theorem live_block_has_its_own_logs_witness:
  "\<exists>b s' rs. block_by_number (tracker_source sample_alloy toy_texts (\<lambda>_. False) toy_node toy_node) 5
       (rpc_reconciliation_source_new (sample_budget 0 0 0) None, 0) = (Inr b, s') \<and>
     length (block_logs b) = 1 \<and> list_all2 (\<lambda>l r. anchored_in l (ib_header b) r) rs (block_logs b)"
proof -
  let ?S = "tracker_source sample_alloy toy_texts (\<lambda>_. False) toy_node toy_node"
  let ?R = "rpc_reconciliation_source_new (sample_budget 0 0 0) None"
  obtain b l where b: "fetch_block_by_number toy_provider 5 0 = (Inr b, 0 + 1)" "hash (ib_header b) = fill 5"
    and l: "fetch_logs_by_block_hash toy_provider (fill 5) None 1 = (Inr [l], 1 + 1)" using toy_block by blast
  have flt: "rlc_filter (rls_config toy_node) = None" "rlc_abi_registry (rls_config toy_node) = None"
    by (simp_all add: toy_node_def)
  have "source_block_by_number sample_alloy toy_node 5 (sample_budget 0 0 0, 0) =
      Some (Inr (b\<lparr>block_logs := [l]\<rparr>), sample_budget 0 2 6, 2)"
    using toy_ask [of "\<lambda>P. fetch_block_by_number P 5" 0 b "0 + 1"] toy_ask [of "\<lambda>P. fetch_logs_by_block_hash P (fill 5) None" 1 "[l]" "1 + 1"] b(1) l
    by (simp add: source_block_by_number_def andThen_def toy_spend yield_value_def decode_block_logs_def flt b(2))
  then obtain s' where run: "block_by_number ?S 5 (?R, 0) = (Inr (b\<lparr>block_logs := [l]\<rparr>), s')"
    by (simp add: tracker_source_def block_on_with_shutdown_def on_primary_def rpc_reconciliation_source_new_def Let_def)
  from live_block_has_its_own_logs [OF disjI1 [OF run]]
  obtain rs where "list_all2 (\<lambda>k r. anchored_in k (ib_header (b\<lparr>block_logs := [l]\<rparr>)) r) rs (block_logs (b\<lparr>block_logs := [l]\<rparr>))" by blast
  with run show ?thesis by (intro exI [of _ "b\<lparr>block_logs := [l]\<rparr>"] exI [of _ s'] exI [of _ rs]) simp
qed

section \<open>A block that is replaced while it is fetched\<close>

lemma lower_append [simp]: "to_ascii_lowercase (s @ t) = to_ascii_lowercase s @ to_ascii_lowercase t"
  by (simp add: to_ascii_lowercase_def)

lemma str_contains_append: "str_contains s u \<Longrightarrow> str_contains (s @ t) u" "str_contains t u \<Longrightarrow> str_contains (s @ t) u"
  by (auto simp: str_contains_iff) (metis append.assoc)+

text \<open>The errors by which a node shows that the block of a header is no longer its block.\<close>

fun recognised_reorg :: "rpc_error \<Rightarrow> bool" where
  "recognised_reorg (LogBlockHashMismatch _) = True"
| "recognised_reorg (Request m) = is_hash_anchored_log_block_not_found m"
| "recognised_reorg _ = False"

lemma lower_rpc: "char_of (114 :: nat) = CHR ''r''" "char_of (112 :: nat) = CHR ''p''" "char_of (99 :: nat) = CHR ''c''"
  by code_simp+

lemma mismatch_text:
  "str_contains (to_ascii_lowercase ''RPC log block hash does not match fetched header at height '') ''rpc log block hash does not match''"
  by (simp add: to_ascii_lowercase_def ascii_lower_def char_nat_def str_contains_iff lower_rpc)
    (rule exI [of _ "[]"], simp)

text \<open>
  The two errors of a log request by which the source recognises a replaced block (a log of
  another block, and an answer that says that the block of the hash is not found) are permanent for the
  retry policy and make the tracker reconcile again.  Other errors that a replaced block can cause are not
  recognised: a missing block ends the tracker, and a removed log is asked for again.
\<close>
theorem reorg_during_fetch_reconciles:
  assumes "recognised_reorg e"
  shows "classify_rpc_error e = Permanent \<and>
    live_source.source_error_kind (tracker_source A T W L V) (show_runtime_error T (RtRpc e)) = ReconcileError"
proof (cases "\<exists>n. e = LogBlockHashMismatch n")
  case True
  then show ?thesis
    using str_contains_append(1) [OF mismatch_text]
    by (auto simp: tracker_source_def source_error_requests_rereconcile_def Let_def simp del: append_Cons)
next
  case False
  with assms obtain m where e: "e = Request m" and m: "is_hash_anchored_log_block_not_found m" by (cases e) auto
  have "str_contains (to_ascii_lowercase (''RPC request failed: '' @ m)) u" if "str_contains (to_ascii_lowercase m) u" for u
    unfolding lower_append by (rule str_contains_append(2) [OF that])
  with m show ?thesis
    unfolding e is_hash_anchored_log_block_not_found_def Let_def
    by (auto simp: tracker_source_def source_error_requests_rereconcile_def is_hash_anchored_log_block_not_found_def Let_def simp del: append_Cons lower_append)
qed

theorem reorg_during_fetch_reconciles_witness:
  "live_source.source_error_kind (tracker_source sample_alloy toy_texts (\<lambda>_. False) toy_node toy_node)
     (show_rpc_error (LogBlockHashMismatch 7)) = ReconcileError \<and> classify_rpc_error (LogBlockHashMismatch 7) = Permanent"
  using reorg_during_fetch_reconciles [of "LogBlockHashMismatch 7" sample_alloy toy_texts "\<lambda>_. False" toy_node toy_node]
  by simp

end
