(* ===== verification/Live_Runtime.thy ===== *)
theory Live_Runtime
  imports Rpc_Source
begin

text \<open>
  The live runtime of \<open>chainweave-cli/src/live_runtime.rs\<close>: one reconciliation and what it publishes,
  the tracker task and the tasks that wake it, and the start of the live command up to the point
  where its tasks run.

  The tasks share the health state and the wakeup channel.  A pass of the tracker touches the health
  once, at its end, and the channel only there, so what the other tasks do meanwhile is the same as
  if they had done it before the pass: the tracker task is a machine over the events of all tasks.
\<close>

section \<open>Options\<close>

record live_options =
  lo_start_block :: "u64 option"
  lo_poll_interval :: duration
  lo_rpc_timeout :: duration
  lo_budget_window :: duration
  lo_budget_cost_units_per_window :: u64
  lo_shutdown_timeout :: duration

definition from_secs :: "nat \<Rightarrow> duration" where
  "from_secs s = s * 10 ^ 9"

definition live_options_default :: live_options where
  "live_options_default =
     \<lparr>lo_start_block = None, lo_poll_interval = from_secs 12, lo_rpc_timeout = from_secs 30,
      lo_budget_window = from_secs 60, lo_budget_cost_units_per_window = 1200, lo_shutdown_timeout = from_secs 30\<rparr>"

text \<open>The retry policy of the live command, as written in two places.\<close>

definition live_retry_policy :: "runtime_error + retry_policy" where
  "live_retry_policy = map_err RtBackfill (retry_new 8 (from_millis 500) (from_secs 30) (from_millis 500))"

section \<open>Errors from one layer to the next\<close>

fun live_runtime_error_to_task :: "error_texts \<Rightarrow> runtime_error \<Rightarrow> task_error" where
  "live_runtime_error_to_task T (RtTask e) = e"
| "live_runtime_error_to_task T (RtRpcEndpoint _ e) = RpcTransient (show_rpc_error e)"
| "live_runtime_error_to_task T (RtRpc e) = RpcTransient (show_rpc_error e)"
| "live_runtime_error_to_task T (RtSink e) = DatabaseTransient (tx_pg T e)"
| "live_runtime_error_to_task T (RtBackfill e) = DatabaseTransient (tx_backfill T e)"
| "live_runtime_error_to_task T e = TaskFailed Tracker (show_runtime_error T e)"

fun live_tracker_error_to_runtime :: "error_texts \<Rightarrow> live_error \<Rightarrow> runtime_error" where
  "live_tracker_error_to_runtime T Cancelled = RtTask (LiveTaskCancelled Tracker)"
| "live_tracker_error_to_runtime T (Chain e) = RtTask (TaskChain e)"
| "live_tracker_error_to_runtime T (Reconcile m) = RtTask (RpcTransient m)"
| "live_tracker_error_to_runtime T (Source m) = RtTask (RpcTransient m)"
| "live_tracker_error_to_runtime T (Sink m) = RtTask (DatabaseTransient m)"
| "live_tracker_error_to_runtime T (Backfill e) = RtTask (DatabaseTransient (tx_backfill T e))"

fun stop_reason :: "live_halt_reason \<Rightarrow> string" where
  "stop_reason MaxReorgDepth = ''unresolved_ancestry''"
| "stop_reason HaltFinalizedBoundary = ''finalized_boundary_violation''"
| "stop_reason MissingExplicitStart = ''correctness_stop''"
| "stop_reason Correctness = ''correctness_stop''"

fun live_runtime_error_is_rpc_degradation :: "runtime_error \<Rightarrow> bool" where
  "live_runtime_error_is_rpc_degradation (RtRpcEndpoint _ _) = True"
| "live_runtime_error_is_rpc_degradation (RtRpc _) = True"
| "live_runtime_error_is_rpc_degradation (RtTask (RpcTransient _)) = True"
| "live_runtime_error_is_rpc_degradation (RtTask (WebSocketTransient _)) = True"
| "live_runtime_error_is_rpc_degradation _ = False"

section \<open>Status\<close>

text \<open>The fields of \<open>StatusContext\<close>, and the other arguments that never change.\<close>

record ('p, 'ev) runtime_context =
  rx_alloy :: "'ev alloy"
  rx_texts :: error_texts
  rx_shutdown_wins :: "'p \<Rightarrow> bool"
  rx_primary :: "('p, 'ev) live_node"
  rx_verifier :: "('p, 'ev) live_node"
  rx_options :: live_options
  rx_max_reorg_depth :: u64
  rx_primary_rpc_url :: string
  rx_verifier_rpc_url :: "string option"

record 'p tracker_state =
  tr_source :: "rpc_reconciliation_source \<times> 'p"
  tr_sink :: pg_sink
  tr_reconnect :: reconnect_loop
  tr_health :: status_snapshot
  tr_wakeups :: wakeup_channel

definition initial_status :: "string \<Rightarrow> string option \<Rightarrow> live_status" where
  "initial_status pr ver =
     \<lparr>ls_healthy = False, ls_ready = False, ls_readiness = ''unavailable'', ls_primary_rpc_url = Some pr,
      ls_verifier_rpc_url = ver, ls_current_lag_blocks = 0, ls_reconnect_count = 0, ls_wakeup_depth = 0,
      ls_unreconciled_gap_count = 0, ls_verifier_disagreement_count = 0\<rparr>"

definition readiness_from_reconnect :: "reconnect_loop \<Rightarrow> u64 \<Rightarrow> u64 \<Rightarrow> bool \<times> string" where
  "readiness_from_reconnect l disagreements gap =
     (let reconnect_ready = (rc_readiness l = RtReady);
          ok = (reconnect_ready \<and> disagreements = 0 \<and> gap = 0)
      in (ok, if ok then ''ready'' else if reconnect_ready then ''degraded'' else ''unavailable''))"

text \<open>\<open>read_error\<close> is the failure of the read of the checkpoint row, when it fails.\<close>

definition publish_status ::
    "('p, 'ev) runtime_context \<Rightarrow> pg_error option \<Rightarrow> u64 \<Rightarrow> 'p tracker_state \<Rightarrow> (runtime_error + unit) \<times> 'p tracker_state" where
  "publish_status X read_error gap st =
     (case (case read_error of Some e \<Rightarrow> Inl e | None \<Rightarrow> read_checkpoint (ps_writer (tr_sink st)) (ps_db (tr_sink st))) of
        Inl e \<Rightarrow> (Inl (RtSink e), st)
      | Inr cp \<Rightarrow>
          (let R = fst (tr_source st);
               lag = (case (rrs_last_head R, cp) of (Some x, Some c) \<Rightarrow> sat_sub (height x) (last_height c) | _ \<Rightarrow> 0);
               (ok, text) = readiness_from_reconnect (tr_reconnect st) (rrs_verifier_disagreements R) gap
           in (Inr (), st\<lparr>tr_health := update_live_status
                \<lparr>ls_healthy = (\<not> rc_halted (tr_reconnect st)), ls_ready = ok, ls_readiness = text,
                 ls_primary_rpc_url = Some (rx_primary_rpc_url X), ls_verifier_rpc_url = rx_verifier_rpc_url X,
                 ls_current_lag_blocks = lag, ls_reconnect_count = rc_attempt (tr_reconnect st),
                 ls_wakeup_depth = wc_pending (tr_wakeups st), ls_unreconciled_gap_count = gap,
                 ls_verifier_disagreement_count = rrs_verifier_disagreements R\<rparr> (tr_health st)\<rparr>)))"

section \<open>One reconciliation\<close>

text \<open>
  What happens around one pass: when the cancellation is seen, how the blocking task ends (it can be
  cancelled only before it starts; a panic is one after its last operation), the error of the read of
  the checkpoint before the pass, when that read fails, the time when the pass is done, and the failure of
  the read for the status.  Which of the reads inside the pass fail, the state of the sink says.
\<close>

datatype blocking_end = Completed | BlockingPanicked | BlockingCancelled

record pass_env =
  pass_cancelled :: "nat \<Rightarrow> bool"
  pass_end :: blocking_end
  pass_read_error :: "pg_error option"
  pass_now :: nat
  pass_publish_error :: "pg_error option"

definition pg_display :: "error_texts \<Rightarrow> display" where
  "pg_display T = \<lparr>show_pg = tx_pg T, show_store = (\<lambda>e. show_runtime_error T (runtime_of_store e))\<rparr>"

definition live_config_of :: "live_options \<Rightarrow> u64 \<Rightarrow> retry_policy \<Rightarrow> live_config" where
  "live_config_of opt depth pol =
     \<lparr>lc_max_reorg_depth = depth, live_budget_cost_units_per_minute = lo_budget_cost_units_per_window opt,
      poll_interval = lo_poll_interval opt, explicit_start = lo_start_block opt, lc_finalized_height = None,
      budget_window = lo_budget_window opt, lc_retry_policy = pol\<rparr>"

definition reconcile_once ::
    "('p, 'ev) runtime_context \<Rightarrow> pass_env \<Rightarrow> (rpc_reconciliation_source \<times> 'p) \<times> pg_sink \<Rightarrow>
      (runtime_error + live_report) \<times> (rpc_reconciliation_source \<times> 'p) \<times> pg_sink" where
  "reconcile_once X E = (\<lambda>(s, k).
     case (case pass_read_error E of
             Some e \<Rightarrow> Inl (RtSink e)
           | None \<Rightarrow> map_err runtime_of_store (checkpoint_header (ps_writer k) (ps_db k))) of
       Inl e \<Rightarrow> (Inl e, s, k)
     | Inr c \<Rightarrow>
         (case live_retry_policy of
            Inl e \<Rightarrow> (Inl e, s, k)
          | Inr pol \<Rightarrow>
              if pass_end E = BlockingCancelled then (Inl (RtTask (LiveTaskCancelled Tracker)), s, k)
              else
                (case run_with_cancellation (live_config_of (rx_options X) (rx_max_reorg_depth X) pol)
                   (tracker_source (rx_alloy X) (rx_texts X) (rx_shutdown_wins X) (rx_primary X) (rx_verifier X))
                   (pg_live_sink (pg_display (rx_texts X))) [] (pass_cancelled E) s
                   (k\<lparr>ps_parent_anchor := c\<rparr>) of
                   (r, s', k') \<Rightarrow>
                     if pass_end E = BlockingPanicked then (Inl (RtTask (TaskPanicked Tracker)), s, k')
                     else (map_err (live_tracker_error_to_runtime (rx_texts X)) r, s', k'))))"

definition gap_of :: "live_report \<Rightarrow> rpc_reconciliation_source \<Rightarrow> u64" where
  "gap_of rep R =
     (case (final_checkpoint rep, rrs_last_head R) of
        (Some c, Some x) \<Rightarrow> sat_sub (height x) (height c)
      | _ \<Rightarrow> 0)"

definition reconcile_and_publish ::
    "('p, 'ev) runtime_context \<Rightarrow> pass_env \<Rightarrow> u64 option \<Rightarrow> 'p tracker_state \<Rightarrow> (runtime_error + unit) \<times> 'p tracker_state" where
  "reconcile_and_publish X E gap st =
     (let st = st\<lparr>tr_reconnect := record_subscribed_for_wakeups (tr_reconnect st)\<rparr> in
      case reconcile_once X E (tr_source st, tr_sink st) of
        (r, s, k) \<Rightarrow>
          (let st = st\<lparr>tr_source := s, tr_sink := k\<rparr> in
           case r of
             Inl e \<Rightarrow>
               if live_runtime_error_is_rpc_degradation e
               then (Inl e, st\<lparr>tr_reconnect := snd (record_availability_failure (tr_reconnect st)),
                       tr_health := mark_degraded ''rpc'' (tr_health st)\<rparr>)
               else (Inl e, st)
           | Inr rep \<Rightarrow>
               (case halted rep of
                  Some reason \<Rightarrow>
                    (Inl (RtTask (TaskFailed Tracker (''correctness-stop: '' @ stop_reason reason))),
                     st\<lparr>tr_reconnect := snd (record_correctness_error (tr_reconnect st)),
                       tr_health := mark_correctness_stop (stop_reason reason) (tr_health st)\<rparr>)
                | None \<Rightarrow>
                    tryS (apsnd (\<lambda>l. st\<lparr>tr_reconnect := l\<rparr>) (record_reconciled_to_head (tr_reconnect st))) (\<lambda>_ st.
                    tryS (apsnd (\<lambda>l. st\<lparr>tr_reconnect := l\<rparr>) (record_ready_after_reconnect_at (pass_now E) (tr_reconnect st))) (\<lambda>_ st.
                      publish_status X (pass_publish_error E)
                        (case gap of Some g \<Rightarrow> g | None \<Rightarrow> gap_of rep (fst (tr_source st))) st)))))"

section \<open>The tasks\<close>

definition health_server_task :: "string + unit \<Rightarrow> bool \<Rightarrow> task_error + unit" where
  "health_server_task served shutdown_first =
     (if shutdown_first then Inr () else map_err (TaskFailed HealthServer) served)"

definition poll_wakeup_task :: "nat \<Rightarrow> wakeup_channel \<Rightarrow> (task_error + unit) \<times> wakeup_channel" where
  "poll_wakeup_task ticks c = (Inr (), ((\<lambda>c. snd (try_wake c)) ^^ ticks) c)"

text \<open>The ends of the subscriptions, one after the other; \<open>None\<close> while the task still runs.\<close>

datatype subscription_end =
    ShutdownFirst
  | SubscriptionReturned "rpc_error + unit"
  | SubscriptionAborted
  | SubscriptionPanicked
  | SubscriptionJoin string

fun websocket_wakeup_task :: "subscription_end list \<Rightarrow> status_snapshot \<Rightarrow> (task_error + unit) option \<times> status_snapshot" where
  "websocket_wakeup_task [] h = (None, h)"
| "websocket_wakeup_task (ShutdownFirst # _) h = (Some (Inr ()), h)"
| "websocket_wakeup_task (SubscriptionReturned (Inr _) # _) h = (Some (Inr ()), h)"
| "websocket_wakeup_task (SubscriptionReturned (Inl e) # ends) h = websocket_wakeup_task ends (mark_degraded ''rpc'' h)"
| "websocket_wakeup_task (SubscriptionAborted # _) h = (Some (Inl (LiveTaskCancelled Wakeups)), h)"
| "websocket_wakeup_task (SubscriptionPanicked # _) h = (Some (Inl (TaskPanicked Wakeups)), h)"
| "websocket_wakeup_task (SubscriptionJoin m # _) h = (Some (Inl (WebSocketTransient m)), h)"

text \<open>
  The events: another task wakes the tracker, or loses its subscription; the tracker receives a
  wakeup and makes a pass, sees the shutdown, or finds the channel closed.
\<close>

datatype runtime_event =
    Wakeup
  | SubscriptionLost
  | Received pass_env
  | ShutdownSeen nat "pg_error option"
  | ChannelClosed

definition tracker_pass ::
    "('p, 'ev) runtime_context \<Rightarrow> pass_env \<Rightarrow> 'p tracker_state \<Rightarrow> (task_error + unit) option \<times> 'p tracker_state" where
  "tracker_pass X E st =
     (case reconcile_and_publish X E None st of
        (Inl e, st) \<Rightarrow> (Some (Inl (live_runtime_error_to_task (rx_texts X) e)), st)
      | (Inr _, st) \<Rightarrow> (None, st))"

fun tracker_event ::
    "('p, 'ev) runtime_context \<Rightarrow> runtime_event \<Rightarrow> 'p tracker_state \<Rightarrow> (task_error + unit) option \<times> 'p tracker_state" where
  "tracker_event X Wakeup st = (None, st\<lparr>tr_wakeups := snd (try_wake (tr_wakeups st))\<rparr>)"
| "tracker_event X SubscriptionLost st = (None, st\<lparr>tr_health := mark_degraded ''rpc'' (tr_health st)\<rparr>)"
| "tracker_event X (Received E) st =
     (if wc_pending (tr_wakeups st) = 0 then (None, st)
      else tracker_pass X E (st\<lparr>tr_wakeups := (tr_wakeups st)\<lparr>wc_pending := wc_pending (tr_wakeups st) - 1\<rparr>\<rparr>))"
| "tracker_event X (ShutdownSeen now read_error) st =
     (case publish_status X read_error 0 (st\<lparr>tr_reconnect := record_disconnect_at now (tr_reconnect st)\<rparr>) of
        (Inl e, st) \<Rightarrow> (Some (Inl (live_runtime_error_to_task (rx_texts X) e)), st)
      | (Inr _, st) \<Rightarrow> (Some (Inr ()), st))"
| "tracker_event X ChannelClosed st = (Some (Inr ()), st)"

fun tracker_loop ::
    "('p, 'ev) runtime_context \<Rightarrow> runtime_event list \<Rightarrow> 'p tracker_state \<Rightarrow> (task_error + unit) option \<times> 'p tracker_state" where
  "tracker_loop X [] st = (None, st)"
| "tracker_loop X (ev # evs) st =
     (case tracker_event X ev st of
        (Some r, st) \<Rightarrow> (Some r, st)
      | (None, st) \<Rightarrow> tracker_loop X evs st)"

definition tracker_task ::
    "('p, 'ev) runtime_context \<Rightarrow> pass_env \<Rightarrow> runtime_event list \<Rightarrow> 'p tracker_state \<Rightarrow>
      (task_error + unit) option \<times> 'p tracker_state" where
  "tracker_task X E evs st =
     (case tracker_pass X E st of
        (Some r, st) \<Rightarrow> (Some r, st)
      | (None, st) \<Rightarrow> tracker_loop X evs st)"

section \<open>The start of the live command\<close>

text \<open>
  The world of the command: the network, the database and the health state.  Connecting to a URL, to
  the database and to the listen address, and the migrations, are parameters.
\<close>

record ('u, 'p, 'ev, 'a) live_env =
  le_urls :: "'u url_lib"
  le_alloy :: "'ev alloy"
  le_texts :: error_texts
  le_registry_text :: "registry_error \<Rightarrow> string"
  le_connect :: "'u \<Rightarrow> 'p \<Rightarrow> (string + 'p rpc_client) \<times> 'p"
  le_shutdown_wins :: "'p \<Rightarrow> bool"
  le_bind :: "'a \<Rightarrow> observability_error + unit"
  le_pool :: "string \<Rightarrow> pg_error + unit"
  le_migrate :: "database \<Rightarrow> (string + unit) \<times> database"
  le_checkpoint_error :: "pg_error option"
  le_now :: nat

record 'p live_world =
  lw_net :: 'p
  lw_db :: database
  lw_health :: status_snapshot

definition abi_registry_from_config ::
    "'ev alloy \<Rightarrow> (registry_error \<Rightarrow> string) \<Rightarrow> ('u, 'a) app_config \<Rightarrow> string + 'ev abi_registry option" where
  "abi_registry_from_config A text cfg =
     (if \<not> abi_enabled (abi cfg) \<or> abi_contracts (abi cfg) = [] then Inr None
      else tryR (map_err text (from_config_entries A
          (map (\<lambda>c. (ac_address c, ac_standard c, ac_decoder_version c)) (abi_contracts (abi cfg))))) (\<lambda>r. Inr (Some r)))"

definition live_endpoint_labels :: "'u url_lib \<Rightarrow> ('u, 'a) app_config \<Rightarrow> string \<times> string option" where
  "live_endpoint_labels U cfg = (redact_url U (primary_url (rpc cfg)), map_option (redact_url U) (verifier_url (rpc cfg)))"

definition verify_verifier_chain_identity :: "u64 \<Rightarrow> string \<Rightarrow> u64 \<Rightarrow> string \<Rightarrow> rpc_error + unit" where
  "verify_verifier_chain_identity pc pg vc vg =
     (if vc \<noteq> pc then Inl (ChainIdMismatch pc vc)
      else if vg \<noteq> pg then Inl (InvalidGenesis (''verifier genesis hash '' @ vg @ '' does not match primary '' @ pg))
      else Inr ())"

definition is_ws_url :: "'u url_lib \<Rightarrow> 'u \<Rightarrow> bool" where
  "is_ws_url U u \<longleftrightarrow> url_scheme U u \<in> {''ws'', ''wss''}"

text \<open>An error of the command, or the panic of a retry policy (which the policy of the command never does).\<close>

datatype live_stop = Refused runtime_error | PolicyPanic

definition with_health :: "(status_snapshot \<Rightarrow> status_snapshot) \<Rightarrow> 'p live_world \<Rightarrow> 'p live_world" where
  "with_health f w = w\<lparr>lw_health := f (lw_health w)\<rparr>"

definition connect_rpc :: "('u, 'p, 'ev, 'a) live_env \<Rightarrow> 'u \<Rightarrow> 'p live_world \<Rightarrow> (live_stop + 'p rpc_client) \<times> 'p live_world" where
  "connect_rpc V u w =
     (case le_connect V u (lw_net w) of
        (Inl m, p) \<Rightarrow> (Inl (Refused (RtRpcEndpoint (redact_url (le_urls V) u) (Connect m))), with_health (mark_degraded ''rpc'') (w\<lparr>lw_net := p\<rparr>))
      | (Inr c, p) \<Rightarrow> (Inr c, w\<lparr>lw_net := p\<rparr>))"

definition capture_head :: "('p, 'ev) live_node \<Rightarrow> 'p live_world \<Rightarrow> (live_stop + chain_head) \<times> 'p live_world" where
  "capture_head L w =
     (case capture_target_head_with_retry (rcl_provider (rls_client L)) (rlc_retry_policy (rls_config L))
         (rcl_sleep (rls_client L)) (timed L) (lw_net w) of
        (None, p) \<Rightarrow> (Inl PolicyPanic, w\<lparr>lw_net := p\<rparr>)
      | (Some (Inl e), p) \<Rightarrow> (Inl (Refused (RtRpc e)), with_health (mark_degraded ''rpc'') (w\<lparr>lw_net := p\<rparr>))
      | (Some (Inr h), p) \<Rightarrow> (Inr h, w\<lparr>lw_net := p\<rparr>))"

text \<open>A check that stops the command for good when it fails.\<close>

definition check_identity :: "rpc_error + unit \<Rightarrow> 'p live_world \<Rightarrow> (live_stop + unit) \<times> 'p live_world" where
  "check_identity r w =
     (case r of
        Inr _ \<Rightarrow> (Inr (), w)
      | Inl e \<Rightarrow> (Inl (Refused (RtRpc e)), with_health (mark_correctness_stop ''chain_identity_mismatch'') w))"

definition connect_verifier ::
    "('u, 'p, 'ev, 'a) live_env \<Rightarrow> 'ev runtime_live_config \<Rightarrow> chain_head \<Rightarrow> 'u option \<Rightarrow> 'p live_world \<Rightarrow>
      (live_stop + 'p rpc_client option) \<times> 'p live_world" where
  "connect_verifier V rcfg head u w =
     (case u of
        None \<Rightarrow> (Inr None, w)
      | Some u \<Rightarrow>
          tryS (connect_rpc V u w) (\<lambda>c w.
          tryS (capture_head \<lparr>rls_client = c, rls_config = rcfg\<rparr> w) (\<lambda>h w.
          tryS (check_identity (verify_verifier_chain_identity (ch_chain_id head) (hex_hash (ch_genesis_hash head))
              (ch_chain_id h) (hex_hash (ch_genesis_hash h))) w) (\<lambda>_ w.
            (Inr (Some c), w)))))"

definition ensure_identity :: "pg_writer \<Rightarrow> block_hash \<Rightarrow> 'p live_world \<Rightarrow> (live_stop + unit) \<times> 'p live_world" where
  "ensure_identity wr g w =
     (case ensure_chain_identity wr g (lw_db w) of
        (Inr _, db) \<Rightarrow> (Inr (), w\<lparr>lw_db := db\<rparr>)
      | (Inl e, db) \<Rightarrow>
          (Inl (Refused (RtSink e)),
           (case e of
              ChainIdentityMismatch _ \<Rightarrow> with_health (mark_correctness_stop ''chain_identity_mismatch'')
            | _ \<Rightarrow> id) (w\<lparr>lw_db := db\<rparr>)))"

text \<open>What the command starts its tasks with.\<close>

record ('p, 'ev) live_start =
  st_writer :: pg_writer
  st_reconnect :: reconnect_loop
  st_primary :: "('p, 'ev) live_node"
  st_verifier :: "('p, 'ev) live_node option"
  st_source :: rpc_reconciliation_source
  st_wakeups :: wakeup_channel
  st_websocket :: bool
  st_labels :: "string \<times> string option"

definition refuse :: "runtime_error + 'a \<Rightarrow> 'p live_world \<Rightarrow> (live_stop + 'a) \<times> 'p live_world" where
  "refuse r w = (map_err Refused r, w)"

definition live_setup ::
    "('u, 'p, 'ev, 'a) live_env \<Rightarrow> ('u, 'a) app_config \<Rightarrow> live_options \<Rightarrow> 'p live_world \<Rightarrow>
      (live_stop + ('p, 'ev) live_start) \<times> 'p live_world" where
  "live_setup V cfg opt w =
     tryS (refuse (map_err RtConfig (validate (le_urls V) cfg ProfileWorkers)) w) (\<lambda>_ w.
     tryS (refuse live_retry_policy w) (\<lambda>pol w.
     tryS (refuse (map_err (\<lambda>m. RtConfig (ConfigInvalid m))
         (abi_registry_from_config (le_alloy V) (le_registry_text V) cfg)) w) (\<lambda>reg w.
     let rcfg = \<lparr>rlc_retry_policy = pol, rlc_rpc_timeout = lo_rpc_timeout opt, rlc_budget_window = lo_budget_window opt,
           rlc_budget_cost_units_per_window = lo_budget_cost_units_per_window opt, rlc_filter = None, rlc_abi_registry = reg\<rparr>;
         labels = live_endpoint_labels (le_urls V) cfg;
         w = with_health (update_live_status (initial_status (fst labels) (snd labels))) w in
     tryS (refuse (map_err RtObservability (le_bind V (listen_addr cfg))) w) (\<lambda>_ w.
     tryS (connect_rpc V (primary_url (rpc cfg)) w) (\<lambda>pc w.
     tryS (capture_head \<lparr>rls_client = pc, rls_config = rcfg\<rparr> w) (\<lambda>head w.
     tryS (case expected_chain cfg of
         None \<Rightarrow> (Inr (), w)
       | Some e \<Rightarrow> check_identity (verify_identity (rcl_provider pc) head e) w) (\<lambda>_ w.
     tryS (connect_verifier V rcfg head (verifier_url (rpc cfg)) w) (\<lambda>vc w.
     tryS (refuse (ok_or (database_url cfg) (RtConfig (ConfigInvalid ''database_url is required before live mode''))) w) (\<lambda>url w.
     tryS (refuse (map_err RtSink (tryR (le_pool V url) (\<lambda>_. writer_new (ch_chain_id head)))) w) (\<lambda>wr w.
     tryS (case le_migrate V (lw_db w) of (r, db) \<Rightarrow> refuse (map_err RtMigration r) (w\<lparr>lw_db := db\<rparr>)) (\<lambda>_ w.
     tryS (ensure_identity wr (ch_genesis_hash head) w) (\<lambda>_ w.
     tryS (refuse (map_err RtSink (case le_checkpoint_error V of
         Some e \<Rightarrow> Inl e | None \<Rightarrow> read_checkpoint wr (lw_db w))) w) (\<lambda>cp w.
     tryS (refuse (map_err RtConfig (validate_live_start
         (case cp of Some _ \<Rightarrow> Some DurableCheckpoint | None \<Rightarrow> map_option Explicit (lo_start_block opt)))) w) (\<lambda>_ w.
     tryS (refuse (reconnect_policy_new (from_secs 1) (from_secs 30) (from_millis 500) (from_secs 30)) w) (\<lambda>rp w.
     tryS (refuse (rpc_live_source_new pc rcfg (le_now V)) w) (\<lambda>(pn, pb) w.
     tryS (refuse (case vc of
         None \<Rightarrow> Inr None
       | Some c \<Rightarrow> tryR (rpc_live_source_new c rcfg (le_now V)) (\<lambda>x. Inr (Some x))) w) (\<lambda>ver w.
       (Inr \<lparr>st_writer = wr, st_reconnect = reconnect_new rp, st_primary = pn, st_verifier = map_option fst ver,
          st_source = rpc_reconciliation_source_new pb (map_option snd ver), st_wakeups = new_head_wakeup_channel,
          st_websocket = is_ws_url (le_urls V) (primary_url (rpc cfg)), st_labels = labels\<rparr>, w))))))))))))))))))"

text \<open>The tracker on what was set up, with the faults of the database connection, the shutdown and the failing reads as given.\<close>

definition tracker_begin ::
    "('p, 'ev) live_start \<Rightarrow> (nat \<Rightarrow> faults) \<Rightarrow> (nat \<Rightarrow> bool) \<Rightarrow> (nat \<Rightarrow> bool) \<Rightarrow> 'p live_world \<Rightarrow>
      'p tracker_state" where
  "tracker_begin s flt sdn lost w =
     \<lparr>tr_source = (st_source s, lw_net w),
      tr_sink = \<lparr>ps_writer = st_writer s, ps_db = lw_db w, ps_parent_anchor = None, ps_faults = flt, ps_shutdown = sdn,
        ps_transactions = 0, ps_read_lost = lost, ps_reads = 0\<rparr>,
      tr_reconnect = st_reconnect s, tr_health = lw_health w, tr_wakeups = st_wakeups s\<rparr>"

definition context_of ::
    "('u, 'p, 'ev, 'a) live_env \<Rightarrow> ('u, 'a) app_config \<Rightarrow> live_options \<Rightarrow> ('p, 'ev) live_start \<Rightarrow> ('p, 'ev) runtime_context" where
  "context_of V cfg opt s =
     \<lparr>rx_alloy = le_alloy V, rx_texts = le_texts V, rx_shutdown_wins = le_shutdown_wins V, rx_primary = st_primary s,
      rx_verifier = (case st_verifier s of Some n \<Rightarrow> n | None \<Rightarrow> st_primary s), rx_options = opt,
      rx_max_reorg_depth = ic_max_reorg_depth (indexer cfg), rx_primary_rpc_url = fst (st_labels s),
      rx_verifier_rpc_url = snd (st_labels s)\<rparr>"

text \<open>
  The command from end to end: the tracker runs through the events, and the tasks end in the order
  \<open>ends\<close>.  \<open>Inl\<close> is the error with which the command exits.
\<close>

definition run_live ::
    "('u, 'p, 'ev, 'a) live_env \<Rightarrow> ('u, 'a) app_config \<Rightarrow> live_options \<Rightarrow> (nat \<Rightarrow> faults) \<Rightarrow> (nat \<Rightarrow> bool) \<Rightarrow> (nat \<Rightarrow> bool) \<Rightarrow>
      pass_env \<Rightarrow> runtime_event list \<Rightarrow> bool \<Rightarrow> ((task_error + unit) option \<Rightarrow> task_end list) \<Rightarrow> 'p live_world \<Rightarrow>
      (live_stop + unit) \<times> 'p live_world" where
  "run_live V cfg opt flt sdn lost E evs stopped ends w =
     tryS (live_setup V cfg opt w) (\<lambda>s w.
       case tracker_task (context_of V cfg opt s) E evs (tracker_begin s flt sdn lost w) of
         (res, st) \<Rightarrow>
           (map_err (\<lambda>e. Refused (RtTask e)) (fst (run_until_first_exit stopped (ends res))),
            w\<lparr>lw_net := snd (tr_source st), lw_db := ps_db (tr_sink st), lw_health := tr_health st\<rparr>))"

section \<open>The persisted chain over the life of the tracker\<close>

definition store_ok :: "(block_header \<Rightarrow> bool) \<Rightarrow> pg_sink \<Rightarrow> bool" where
  "store_ok genuine k \<longleftrightarrow> names_blocks genuine \<and> db_ok genuine (chain_id (ps_writer k)) (ps_db k)"

lemma store_ok_sink:
  assumes "store_ok genuine k" and "checkpoint_header (ps_writer k) (ps_db k) = Inr c"
  shows "sink_ok genuine (k\<lparr>ps_parent_anchor := c\<rparr>)" "sink_anchored (k\<lparr>ps_parent_anchor := c\<rparr>)"
    "sink_view (k\<lparr>ps_parent_anchor := c\<rparr>) = sink_view k"
proof -
  have bare: "sink_ok genuine (k\<lparr>ps_parent_anchor := None\<rparr>)"
    using assms(1) by (simp add: sink_ok_def store_ok_def)
  have view: "sink_view (k\<lparr>ps_parent_anchor := x\<rparr>) = sink_view k" for x by (simp add: sink_view_def)
  have c: "c = tip_of (sink_view k)"
    using assms checkpoint_header_view by (fastforce simp: store_ok_def)
  have "\<forall>x \<in> set (sink_view k). genuine x" using sink_view_genuine [OF bare] view by simp
  with sink_ok_anchor(1) [OF bare, of c] c view show "sink_ok genuine (k\<lparr>ps_parent_anchor := c\<rparr>)" by simp
  show "sink_view (k\<lparr>ps_parent_anchor := c\<rparr>) = sink_view k" by (rule view)
  then show "sink_anchored (k\<lparr>ps_parent_anchor := c\<rparr>)" by (simp add: sink_anchored_def c tip_of_def)
qed

text \<open>The policy of the live command is accepted, so its configuration is always the same.\<close>

definition live_policy :: retry_policy where
  "live_policy = \<lparr>max_attempts = 8, base_delay = 500000000, max_delay = 30000000000, jitter = 500000000\<rparr>"

lemma live_retry_policy [simp]: "live_retry_policy = Inr live_policy"
  by (simp add: live_retry_policy_def retry_new_def live_policy_def from_millis_def from_secs_def)

abbreviation runtime_config :: "('p, 'ev) runtime_context \<Rightarrow> live_config" where
  "runtime_config X \<equiv> live_config_of (rx_options X) (rx_max_reorg_depth X) live_policy"

lemma reconcile_once_keeps:
  assumes ok: "store_ok genuine k" and node: "node_genuine genuine (rcl_provider (rls_client (rx_primary X)))"
    and run: "reconcile_once X E (s, k) = (r, s', k')"
  shows "store_ok genuine k' \<and> evolves (runtime_config X) (sink_view k) (sink_view k')"
proof (cases "\<exists>c. pass_read_error E = None \<and> checkpoint_header (ps_writer k) (ps_db k) = Inr c \<and> pass_end E \<noteq> BlockingCancelled")
  case False
  with run ok show ?thesis
    by (auto simp: reconcile_once_def map_err_def intro: evolves.stay split: option.splits sum.splits if_splits)
next
  case True
  let ?S = "tracker_source (rx_alloy X) (rx_texts X) (rx_shutdown_wins X) (rx_primary X) (rx_verifier X)"
  let ?K = "pg_live_sink (pg_display (rx_texts X))"
  from True obtain c where c: "pass_read_error E = None" "checkpoint_header (ps_writer k) (ps_db k) = Inr c"
    "pass_end E \<noteq> BlockingCancelled" by blast
  let ?k = "k\<lparr>ps_parent_anchor := c\<rparr>"
  obtain r1 s1 k1 where pass: "run_with_cancellation (runtime_config X) ?S ?K [] (pass_cancelled E) s ?k = (r1, s1, k1)"
    by (rule prod_cases3)
  have k': "k' = k1" using run c pass by (auto simp: reconcile_once_def split: if_splits)
  note start = store_ok_sink [OF ok c(2)]
  have "sink_ok genuine k1 \<and> evolves (runtime_config X) (sink_view ?k) (sink_view k1)"
    by (rule pg_store.pass_evolves [OF start(1,2) tracker_source_genuine [OF node] _ pass])
      (simp add: tracker_source_def)
  then show ?thesis unfolding k' start(3) by (simp add: sink_ok_def store_ok_def)
qed

lemma publish_keeps: "publish_status X e g st = (r, st') \<Longrightarrow> tr_sink st' = tr_sink st \<and> tr_source st' = tr_source st \<and>
    tr_reconnect st' = tr_reconnect st \<and> tr_wakeups st' = tr_wakeups st"
  by (auto simp: publish_status_def Let_def split: option.splits sum.splits prod.splits)

text \<open>A pass changes source and sink only by its reconciliation.\<close>

lemma reconcile_and_publish_sink:
  assumes "reconcile_and_publish X E gap st = (r, st')"
  shows "\<exists>r1. reconcile_once X E (tr_source st, tr_sink st) = (r1, tr_source st', tr_sink st') \<and>
    (r = Inr () \<longrightarrow> (\<exists>rep. r1 = Inr rep \<and> halted rep = None))"
proof -
  obtain r1 s k where once: "reconcile_once X E (tr_source st, tr_sink st) = (r1, s, k)" by (rule prod_cases3)
  show ?thesis
    using assms once
    by (auto simp: reconcile_and_publish_def Let_def record_subscribed_for_wakeups_def record_reconciled_to_head_def
        record_ready_after_reconnect_at_def dest: publish_keeps split: sum.splits option.splits if_splits)
qed

lemma tracker_event_keeps:
  assumes node: "node_genuine genuine (rcl_provider (rls_client (rx_primary X)))"
  shows "tracker_pass X E st = (res, st') \<Longrightarrow> store_ok genuine (tr_sink st) \<Longrightarrow>
      store_ok genuine (tr_sink st') \<and> evolves (runtime_config X) (sink_view (tr_sink st)) (sink_view (tr_sink st'))"
    and "tracker_event X ev st = (res, st') \<Longrightarrow> store_ok genuine (tr_sink st) \<Longrightarrow>
      store_ok genuine (tr_sink st') \<and> evolves (runtime_config X) (sink_view (tr_sink st)) (sink_view (tr_sink st'))"
proof -
  show pass: "tracker_pass X E st = (res, st') \<Longrightarrow> store_ok genuine (tr_sink st) \<Longrightarrow>
      store_ok genuine (tr_sink st') \<and> evolves (runtime_config X) (sink_view (tr_sink st)) (sink_view (tr_sink st'))"
    for E st res st'
  proof -
    assume p: "tracker_pass X E st = (res, st')" and ok: "store_ok genuine (tr_sink st)"
    obtain r where r: "reconcile_and_publish X E None st = (r, st')"
      using p by (auto simp: tracker_pass_def split: prod.splits sum.splits)
    from reconcile_and_publish_sink [OF r] reconcile_once_keeps [OF ok node] show ?thesis by blast
  qed
  show "tracker_event X ev st = (res, st') \<Longrightarrow> store_ok genuine (tr_sink st) \<Longrightarrow>
      store_ok genuine (tr_sink st') \<and> evolves (runtime_config X) (sink_view (tr_sink st)) (sink_view (tr_sink st'))"
  proof (cases ev)
    case (Received E)
    assume "tracker_event X ev st = (res, st')" "store_ok genuine (tr_sink st)"
    with Received pass [of E _ res st'] show ?thesis by (fastforce intro: evolves.stay split: if_splits)
  qed (auto intro: evolves.stay dest!: publish_keeps split: prod.splits sum.splits)
qed

lemma tracker_loop_keeps:
  assumes node: "node_genuine genuine (rcl_provider (rls_client (rx_primary X)))"
  shows "tracker_loop X evs st = (res, st') \<Longrightarrow> store_ok genuine (tr_sink st) \<Longrightarrow>
    store_ok genuine (tr_sink st') \<and> evolves (runtime_config X) (sink_view (tr_sink st)) (sink_view (tr_sink st'))"
proof (induction evs arbitrary: st)
  case Nil
  then show ?case by (auto intro: evolves.stay)
next
  case (Cons ev evs)
  obtain r1 st1 where ev: "tracker_event X ev st = (r1, st1)" by (rule prod.exhaust)
  note step = tracker_event_keeps(2) [OF node ev Cons.prems(2)]
  show ?case
  proof (cases r1)
    case None
    with Cons.IH [of st1] Cons.prems(1) ev step show ?thesis by (auto intro: evolves_trans)
  next
    case (Some r)
    with Cons.prems(1) ev step show ?thesis by auto
  qed
qed

text \<open>A node whose head is the checkpoint of the sample database, and a pass in which nothing fails.\<close>

definition steady_provider :: "nat rpc_provider" where
  "steady_provider = toy_provider\<lparr>rp_block_number := (\<lambda>p. (Inr 11, p)), rp_block_by_number := (\<lambda>t p. (Inr (JObj
     [(''hash'', JNum 2), (''parentHash'', JNum 1), (''number'', JNum 11), (''timestamp'', JNum 7)]), p + 1))\<rparr>"

definition steady_node :: "(nat, string) live_node" where
  "steady_node = toy_node\<lparr>rls_client := (rls_client toy_node)\<lparr>rcl_provider := steady_provider\<rparr>\<rparr>"

definition steady_context :: "(nat, string) runtime_context" where
  "steady_context = \<lparr>rx_alloy = sample_alloy, rx_texts = toy_texts, rx_shutdown_wins = (\<lambda>_. False), rx_primary = steady_node,
     rx_verifier = steady_node, rx_options = live_options_default, rx_max_reorg_depth = 8, rx_primary_rpc_url = ''node'',
     rx_verifier_rpc_url = None\<rparr>"

definition quiet_pass :: pass_env where
  "quiet_pass = \<lparr>pass_cancelled = (\<lambda>_. False), pass_end = Completed, pass_read_error = None, pass_now = 5, pass_publish_error = None\<rparr>"

definition steady_state :: "nat tracker_state" where
  "steady_state = \<lparr>tr_source = (rpc_reconciliation_source_new (sample_budget 0 0 0) None, 0), tr_sink = sample_sink,
     tr_reconnect = reconnect_new \<lparr>rcp_base_delay = 1, rcp_max_delay = 1, deterministic_spread = 0, min_healthy_duration = 1\<rparr>,
     tr_health = status_default, tr_wakeups = new_head_wakeup_channel\<rparr>"

lemma steady_block:
  "rpc_block_of_json steady_provider (JObj [(''hash'', JNum 2), (''parentHash'', JNum 1), (''number'', JNum 11), (''timestamp'', JNum 7)]) =
     Some \<lparr>rb_hash = fill 2, rb_parent_hash = fill 1, rb_number = 11, rb_timestamp = 7\<rparr>"
  by (simp add: rpc_block_of_json_def steady_provider_def toy_provider_def j_field_def quantity_def parse_quantity_def j_u64_def u64_of_int_def)

lemma null_block: "rpc_block_of_json P JNull = None"
  by (simp add: rpc_block_of_json_def j_field_def j_get_def)

lemma steady_genuine: "node_genuine (\<lambda>x. x \<in> {pg_a, pg_b, pg_c}) (rcl_provider (rls_client (rx_primary steady_context)))"
proof -
  have node: "rcl_provider (rls_client (rx_primary steady_context)) = steady_provider"
    by (simp add: steady_context_def steady_node_def)
  have num: "rp_block_by_number steady_provider t q = (Inr v, q') \<Longrightarrow>
      v = JObj [(''hash'', JNum 2), (''parentHash'', JNum 1), (''number'', JNum 11), (''timestamp'', JNum 7)]" for t q v q'
    by (simp add: steady_provider_def)
  have byhash: "rp_block_by_hash steady_provider h q = (Inr v, q') \<Longrightarrow> v = JNull" for h q v q'
    by (simp add: steady_provider_def toy_provider_def)
  have "header_of_block \<lparr>rb_hash = fill 2, rb_parent_hash = fill 1, rb_number = 11, rb_timestamp = 7\<rparr> = pg_b"
    by (simp add: header_of_block_def sample_headers)
  then show ?thesis
    unfolding node node_genuine_def by (auto dest!: num byhash simp: steady_block null_block)
qed

lemma steady_store: "store_ok (\<lambda>x. x \<in> {pg_a, pg_b, pg_c}) (tr_sink steady_state)"
  using sample_sink_ok by (simp add: store_ok_def sink_ok_def steady_state_def)

text \<open>
  C7: Over its whole life the live tracker never damages the persisted chain.  From a consistent
  database, with a node that names its blocks by their hashes, and whatever wakes the tracker, whatever
  fails (reads of the database included, each by itself), panics, is cancelled or shut down, and in
  whatever order: after any number of passes the database is consistent, its canonical headers are one linked chain with the checkpoint at its tip, and they
  evolved from the first ones by appending blocks and by replacing at most \<open>max_reorg_depth\<close> of them.
\<close>
theorem tracker_keeps_one_chain:
  assumes "store_ok genuine (tr_sink st)" and "node_genuine genuine (rcl_provider (rls_client (rx_primary X)))"
    and "tracker_task X E evs st = (res, st')"
  shows "store_ok genuine (tr_sink st') \<and> evolves (runtime_config X) (sink_view (tr_sink st)) (sink_view (tr_sink st'))"
proof -
  obtain r1 st1 where p: "tracker_pass X E st = (r1, st1)" by (rule prod.exhaust)
  note first = tracker_event_keeps(1) [OF assms(2) p assms(1)]
  show ?thesis
  proof (cases r1)
    case None
    with p assms(3) have "tracker_loop X evs st1 = (res, st')" by (simp add: tracker_task_def)
    from tracker_loop_keeps [OF assms(2) this] first show ?thesis by (auto intro: evolves_trans)
  next
    case (Some r)
    with p assms(3) first show ?thesis by (simp add: tracker_task_def)
  qed
qed

text \<open>The same state, but every second read of the database fails.\<close>

theorem tracker_keeps_one_chain_witness:
  "\<exists>res st'. tracker_task steady_context quiet_pass [Wakeup, SubscriptionLost, Received quiet_pass, ShutdownSeen 9 None]
       (steady_state\<lparr>tr_sink := sample_sink\<lparr>ps_read_lost := odd\<rparr>\<rparr>) = (res, st') \<and>
     store_ok (\<lambda>x. x \<in> {pg_a, pg_b, pg_c}) (tr_sink st') \<and>
     evolves (runtime_config steady_context) [pg_a, pg_b] (sink_view (tr_sink st'))"
proof -
  let ?st = "steady_state\<lparr>tr_sink := sample_sink\<lparr>ps_read_lost := odd\<rparr>\<rparr>"
  obtain res st' where run: "tracker_task steady_context quiet_pass [Wakeup, SubscriptionLost, Received quiet_pass, ShutdownSeen 9 None]
      ?st = (res, st')" by (rule prod.exhaust)
  have "store_ok (\<lambda>x. x \<in> {pg_a, pg_b, pg_c}) (tr_sink ?st)"
    using steady_store by (simp add: store_ok_def steady_state_def)
  moreover have "sink_view (tr_sink ?st) = [pg_a, pg_b]"
    by (simp add: sink_view_def sample_sink_def sample_events sample_canon)
  ultimately show ?thesis using tracker_keeps_one_chain [OF _ steady_genuine run] run by auto
qed

section \<open>What readiness means\<close>












lemma ready_update:
  "ready (update_live_status l s) = ls_ready l" "reconnect_count (update_live_status l s) = ls_reconnect_count l"
  by (simp_all add: update_live_status_def snapshot_of_live_def)

lemma publish_readiness:
  assumes "publish_status X e gap st = (Inr u, st')"
  shows "ready (tr_health st') = (rc_readiness (tr_reconnect st) = RtReady \<and>
      rrs_verifier_disagreements (fst (tr_source st)) = 0 \<and> gap = 0) \<and>
    reconnect_count (tr_health st') = rc_attempt (tr_reconnect st)"
  using assms
  by (auto simp: publish_status_def readiness_from_reconnect_def ready_update Let_def split: option.splits sum.splits)

















text \<open>
  A checkpoint that cannot be read counts as no gap.  When the last read of a pass fails, the report
  names no checkpoint, the gap is taken for 0, and \<open>/ready\<close> answers 200 whatever the head of the
  node and the persisted chain are.
\<close>
theorem unread_checkpoint_answers_ready:
  assumes "reconcile_once X E (tr_source st, tr_sink st) = (Inr rep, s, k)"
    and "halted rep = None" and "final_checkpoint rep = None"
    and "rrs_verifier_disagreements (fst s) = 0" and "\<not> rc_halted (tr_reconnect st)"
    and "tracker_pass X E st = (None, st')"
  shows "fst (readiness_endpoint (tr_health st')) = 200"
proof -
  let ?l = "record_catch_up_complete_at (pass_now E) ((tr_reconnect st)\<lparr>healthy_since := None, rc_readiness := RtUnavailable,
      subscribed_to_wakeups := False, reconciled_after_subscribe := False\<rparr>)"
  let ?st = "st\<lparr>tr_source := s, tr_sink := k, tr_reconnect := ?l\<rparr>"
  obtain u where "reconcile_and_publish X E None st = (Inr u, st')"
    using assms(6) by (auto simp: tracker_pass_def split: prod.splits sum.splits)
  then have "publish_status X (pass_publish_error E) 0 ?st = (Inr u, st')"
    using assms(1-5)
    by (simp add: reconcile_and_publish_def Let_def record_subscribed_for_wakeups_def record_reconciled_to_head_def
        record_ready_after_reconnect_at_def gap_of_def split: if_splits)
  from publish_readiness [OF this] assms(4,5) show ?thesis
    by (simp add: record_catch_up_complete_at_def readiness_endpoint_def status_response_def)
qed





section \<open>The command starts on the right chain\<close>

lemma refuse_Inr [try_simps]: "refuse r w = (Inr x, w') \<longleftrightarrow> r = Inr x \<and> w' = w"
  by (auto simp: refuse_def try_simps)

lemma check_identity_Inr [try_simps]: "check_identity r w = (Inr u, w') \<longleftrightarrow> r = Inr () \<and> w' = w"
  by (auto simp: check_identity_def split: sum.splits)

lemma capture_head_Inr:
  assumes "capture_head L w = (Inr h, w')"
  shows "(\<exists>q q'. capture_target_head (rcl_provider (rls_client L)) q = (Inr h, q')) \<and> lw_db w' = lw_db w"
proof -
  obtain p where p: "capture_target_head_with_retry (rcl_provider (rls_client L)) (rlc_retry_policy (rls_config L))
         (rcl_sleep (rls_client L)) (timed L) (lw_net w) = (Some (Inr h), p)" and w': "w' = w\<lparr>lw_net := p\<rparr>"
    using assms by (auto simp: capture_head_def split: prod.splits option.splits sum.splits)
  have "\<exists>q. fst (timed L (capture_target_head (rcl_provider (rls_client L))) q) = Some (Inr h)"
    using retry_from_answer p by (fastforce simp: capture_target_head_with_retry_def retry_rpc_request_def)
  then obtain q where "fst (capture_target_head (rcl_provider (rls_client L)) q) = Inr h"
    by (auto simp: timed_def case_prod_beta split: if_splits)
  with w' show ?thesis by (metis prod.collapse live_world.simps(2) live_world.select_convs(2) live_world.surjective live_world.update_convs(1))
qed

lemma connect_rpc_Inr: "connect_rpc V u w = (Inr c, w') \<Longrightarrow> lw_db w' = lw_db w"
  by (auto simp: connect_rpc_def split: prod.splits sum.splits)

lemma connect_verifier_Inr:
  assumes "connect_verifier V rcfg head u w = (Inr vc, w')"
  shows "lw_db w' = lw_db w \<and> (vc = None) = (u = None) \<and>
    (\<forall>c. vc = Some c \<longrightarrow> (\<exists>h q q'. capture_target_head (rcl_provider c) q = (Inr h, q') \<and>
       ch_chain_id h = ch_chain_id head \<and> ch_genesis_hash h = ch_genesis_hash head))"
proof (cases u)
  case None
  with assms show ?thesis by (simp add: connect_verifier_def)
next
  case (Some v)
  with assms obtain c w1 h w2 where c: "connect_rpc V v w = (Inr c, w1)" "capture_head \<lparr>rls_client = c, rls_config = rcfg\<rparr> w1 = (Inr h, w2)"
    "verify_verifier_chain_identity (ch_chain_id head) (hex_hash (ch_genesis_hash head)) (ch_chain_id h) (hex_hash (ch_genesis_hash h)) = Inr ()"
    "vc = Some c" "w' = w2"
    by (auto simp: connect_verifier_def try_simps)
  from capture_head_Inr [OF c(2)] connect_rpc_Inr [OF c(1)] c(3-5) Some show ?thesis
    by (auto simp: verify_verifier_chain_identity_def hex_hash_inject split: if_splits)
qed

lemma ensure_identity_Inr:
  assumes "ensure_identity wr g w = (Inr u, w')"
  shows "hm_get (chain_identity (lw_db w')) (chain_id wr) = Some g"
  using assms
  by (auto simp: ensure_identity_def ensure_chain_identity_def insert_identity_def split: prod.splits sum.splits option.splits if_splits)

text \<open>
  C21: The live command starts its tasks only on the chain it was configured for.  When the setup
  succeeds, whatever the network and the database answered: the primary node gave a head; its chain
  and genesis block are the expected ones when the configuration names them; a configured verifier
  gave a head of the same chain and genesis block; the database is marked with that genesis block
  under that chain; and there is a checkpoint to start from or an explicit start block.
\<close>
theorem live_starts_on_one_chain:
  assumes "live_setup V cfg opt w = (Inr s, w')"
  shows "\<exists>head q q'. capture_target_head (rcl_provider (rls_client (st_primary s))) q = (Inr head, q') \<and>
    chain_id (st_writer s) = ch_chain_id head \<and> ch_chain_id head \<noteq> 0 \<and>
    hm_get (chain_identity (lw_db w')) (ch_chain_id head) = Some (ch_genesis_hash head) \<and>
    (\<forall>e. expected_chain cfg = Some e \<longrightarrow> ei_chain_id e = ch_chain_id head \<and>
       b256_of_str (rcl_provider (rls_client (st_primary s))) (ei_genesis_hash e) = Inr (ch_genesis_hash head)) \<and>
    (st_verifier s = None) = (verifier_url (rpc cfg) = None) \<and>
    (\<forall>n. st_verifier s = Some n \<longrightarrow> (\<exists>h q q'. capture_target_head (rcl_provider (rls_client n)) q = (Inr h, q') \<and>
       ch_chain_id h = ch_chain_id head \<and> ch_genesis_hash h = ch_genesis_hash head)) \<and>
    ((\<exists>c. read_checkpoint (st_writer s) (lw_db w') = Inr (Some c)) \<or> lo_start_block opt \<noteq> None)"
proof -
  let ?rcfg = "\<lambda>pol reg. \<lparr>rlc_retry_policy = pol, rlc_rpc_timeout = lo_rpc_timeout opt, rlc_budget_window = lo_budget_window opt,
           rlc_budget_cost_units_per_window = lo_budget_cost_units_per_window opt, rlc_filter = None, rlc_abi_registry = reg\<rparr>"
  from assms obtain reg pc w1 w2 head w3 w3' vc w4 url wr w5 cp pn pb ver where
    pc: "connect_rpc V (primary_url (rpc cfg)) w1 = (Inr pc, w2)" and
    head: "capture_head \<lparr>rls_client = pc, rls_config = ?rcfg live_policy reg\<rparr> w2 = (Inr head, w3)" and
    expected: "(case expected_chain cfg of None \<Rightarrow> (Inr (), w3) | Some e \<Rightarrow> check_identity (verify_identity (rcl_provider pc) head e) w3) = (Inr (), w3')" and
    vc: "connect_verifier V (?rcfg live_policy reg) head (verifier_url (rpc cfg)) w3' = (Inr vc, w4)" and
    wr: "map_err RtSink (tryR (le_pool V url) (\<lambda>_. writer_new (ch_chain_id head))) = Inr wr" and
    ident: "ensure_identity wr (ch_genesis_hash head) w5 = (Inr (), w')" and
    cp: "map_err RtSink (case le_checkpoint_error V of Some e \<Rightarrow> Inl e | None \<Rightarrow> read_checkpoint wr (lw_db w')) = Inr cp" and
    start: "map_err RtConfig (validate_live_start (case cp of Some _ \<Rightarrow> Some DurableCheckpoint | None \<Rightarrow> map_option Explicit (lo_start_block opt))) = Inr ()" and
    pn: "rpc_live_source_new pc (?rcfg live_policy reg) (le_now V) = Inr (pn, pb)" and
    ver: "(case vc of None \<Rightarrow> Inr None | Some c \<Rightarrow> tryR (rpc_live_source_new c (?rcfg live_policy reg) (le_now V)) (\<lambda>x. Inr (Some x))) = Inr ver" and
    s: "st_writer s = wr" "st_primary s = pn" "st_verifier s = map_option fst ver"
    by (auto simp: live_setup_def Let_def tryS_Inr refuse_Inr)
  have node: "rls_client pn = pc" using pn by (auto simp: rpc_live_source_new_def try_simps)
  have ver_node: "rls_client n = c" if "vc = Some c" "st_verifier s = Some n" for c n
    using ver that s(3) by (auto simp: rpc_live_source_new_def try_simps)
  have some: "(st_verifier s = None) = (vc = None)" using ver s(3) by (auto simp: try_simps split: option.splits)
  have wr': "chain_id wr = ch_chain_id head" "ch_chain_id head \<noteq> 0" using wr by (auto simp: writer_new_def try_simps split: if_splits)
  have exp: "ei_chain_id e = ch_chain_id head \<and> b256_of_str (rcl_provider pc) (ei_genesis_hash e) = Inr (ch_genesis_hash head)"
    if "expected_chain cfg = Some e" for e
    using expected that by (auto simp: try_simps verify_identity_def split: if_splits)
  have st: "(\<exists>c. read_checkpoint wr (lw_db w') = Inr (Some c)) \<or> lo_start_block opt \<noteq> None"
    using cp start by (auto simp: try_simps validate_live_start_def require_def split: option.splits if_splits)
  obtain q q' where q: "capture_target_head (rcl_provider pc) q = (Inr head, q')" using capture_head_Inr [OF head] by auto
  show ?thesis
    using q wr' exp st some connect_verifier_Inr [OF vc] ensure_identity_Inr [OF ident] ver_node
    by (intro exI [of _ head] exI [of _ q] exI [of _ q']) (auto simp: s node)
qed

text \<open>A first start against the steady node and an empty database.\<close>

definition toy_urls :: "sample_url url_lib" where
  "toy_urls = sample_urls\<lparr>url_parse := (\<lambda>_. Some (sample_url\<lparr>su_scheme := ''postgres''\<rparr>))\<rparr>"

definition toy_live_config :: "(sample_url, unit) app_config" where
  "toy_live_config = (config_default sample_url ())\<lparr>database_url := Some ''postgres''\<rparr>"

definition toy_env :: "(sample_url, nat, string, unit) live_env" where
  "toy_env = \<lparr>le_urls = toy_urls, le_alloy = sample_alloy, le_texts = toy_texts, le_registry_text = (\<lambda>_. ''registry''),
     le_connect = (\<lambda>u p. (Inr (rls_client steady_node), p)), le_shutdown_wins = (\<lambda>_. False), le_bind = (\<lambda>_. Inr ()),
     le_pool = (\<lambda>_. Inr ()), le_migrate = (\<lambda>db. (Inr (), db)), le_checkpoint_error = None, le_now = 0\<rparr>"

definition toy_world :: "nat live_world" where
  "toy_world = \<lparr>lw_net = 0, lw_db = empty_db, lw_health = status_default\<rparr>"

lemma toy_trims:
  "str_trim ''postgres'' = ''postgres''" "str_trim ''chainweave.outbox'' = ''chainweave.outbox''"
  "str_trim ''chainweave-demo-consumer'' = ''chainweave-demo-consumer''"
  by (rule trim_ascii, simp add: char_nat_def)+

lemma toy_valid: "validate toy_urls toy_live_config ProfileWorkers = Inr ()"
  by (simp add: validate_def toy_live_config_def config_default_def toy_urls_def sample_urls_def sample_url_def validate_rpc_url_def
      validate_indexer_def validate_abi_config_def validate_workers_def validate_database_url_def validate_kafka_config_def
      kafka_brokers_def require_def blank_def toy_trims uses_local_socket_def)

lemma toy_capture:
  "\<exists>h. capture_head \<lparr>rls_client = rls_client steady_node, rls_config = \<lparr>rlc_retry_policy = pol, rlc_rpc_timeout = t,
       rlc_budget_window = bw, rlc_budget_cost_units_per_window = bc, rlc_filter = None, rlc_abi_registry = None\<rparr>\<rparr> w =
     (Inr h, w\<lparr>lw_net := lw_net w + 2\<rparr>) \<and> ch_chain_id h = 1"
  by (simp add: capture_head_def capture_target_head_with_retry_def retry_rpc_request_def retry_from.simps timed_def
      steady_node_def toy_node_def capture_target_head_def fetch_head_def steady_provider_def toy_provider_def response_def nullable_def
      block_identity_of_json_def j_field_def ok_or_def)

theorem live_starts_on_one_chain_witness:
  "\<exists>s w'. live_setup toy_env toy_live_config (live_options_default\<lparr>lo_start_block := Some 0\<rparr>) toy_world = (Inr s, w') \<and>
     chain_id (st_writer s) \<noteq> 0 \<and> hm_get (chain_identity (lw_db w')) (chain_id (st_writer s)) \<noteq> None"
proof -
  let ?opt = "live_options_default\<lparr>lo_start_block := Some 0\<rparr>"
  let ?w = "with_health (update_live_status (initial_status (fst (live_endpoint_labels toy_urls toy_live_config))
      (snd (live_endpoint_labels toy_urls toy_live_config)))) toy_world"
  obtain h where h: "capture_head \<lparr>rls_client = rls_client steady_node, rls_config = \<lparr>rlc_retry_policy = live_policy,
       rlc_rpc_timeout = from_secs 30, rlc_budget_window = from_secs 60, rlc_budget_cost_units_per_window = 1200,
       rlc_filter = None, rlc_abi_registry = (None :: string abi_registry option)\<rparr>\<rparr> ?w = (Inr h, ?w\<lparr>lw_net := lw_net ?w + 2\<rparr>)" "ch_chain_id h = 1"
    using toy_capture by blast
  have env: "le_urls toy_env = toy_urls" "le_bind toy_env x = Inr ()" "le_connect toy_env u p = (Inr (rls_client steady_node), p)"
    "le_pool toy_env d = Inr ()" "le_migrate toy_env db = (Inr (), db)" "le_checkpoint_error toy_env = None" "le_now toy_env = 0"
    for x u p d db by (simp_all add: toy_env_def)
  have cfg: "abi_registry_from_config A f toy_live_config = Inr None" "expected_chain toy_live_config = None"
    "verifier_url (rpc toy_live_config) = None" "database_url toy_live_config = Some ''postgres''" for A f
    by (simp_all add: abi_registry_from_config_def toy_live_config_def config_default_def)
  have opt: "lo_rpc_timeout ?opt = from_secs 30" "lo_budget_window ?opt = from_secs 60" "lo_budget_cost_units_per_window ?opt = 1200"
    "lo_start_block ?opt = Some 0" by (simp_all add: live_options_default_def)
  have ident: "lw_db v = empty_db \<Longrightarrow> ensure_identity \<lparr>chain_id = 1\<rparr> g v =
      (Inr (), v\<lparr>lw_db := empty_db\<lparr>chain_identity := hm_insert 1 g hm_new\<rparr>\<rparr>)" for g and v :: "nat live_world"
    by (simp add: ensure_identity_def ensure_chain_identity_def insert_identity_def empty_db_def hm_get_def hm_new_def)
  have no_cp: "read_checkpoint \<lparr>chain_id = 1\<rparr> (empty_db\<lparr>chain_identity := x\<rparr>) = Inr None" for x
    by (simp add: read_checkpoint_def empty_db_def transpose_def hm_get_def hm_new_def)
  have db: "lw_db ?w = empty_db" by (simp add: with_health_def toy_world_def)
  obtain rp where rp: "reconnect_policy_new (from_secs 1) (from_secs 30) (from_millis 500) (from_secs 30) = Inr rp"
    by (simp add: reconnect_policy_new_def from_secs_def from_millis_def)
  have secs: "from_secs 60 \<noteq> 0" by (simp add: from_secs_def)
  have "\<exists>s w'. live_setup toy_env toy_live_config ?opt toy_world = (Inr s, w')"
    unfolding live_setup_def Let_def cfg opt
    by (simp add: refuse_def toy_valid connect_rpc_def env h connect_verifier_def writer_new_def db ident no_cp cfg
        validate_live_start_def require_def rp [simplified] rpc_live_source_new_def live_budget_new_def budget_new_def secs)
  then obtain s w' where run: "live_setup toy_env toy_live_config ?opt toy_world = (Inr s, w')" by blast
  from live_starts_on_one_chain [OF run] run show ?thesis by fastforce
qed

text \<open>The command ends without an error only after a requested shutdown.\<close>

lemma first_result_ok: "first_result stopped e = Inr () \<Longrightarrow> stopped \<and> (\<exists>t. e = Ended t (Some (Inr ())))"
proof (cases e)
  case (Ended t r)
  assume "first_result stopped e = Inr ()"
  with Ended show ?thesis by (cases r) (auto split: sum.splits if_splits)
qed simp_all

lemma live_ends_ok_only_on_shutdown:
  assumes "run_live V cfg opt flt sdn lost E evs stopped ends w = (Inr (), w')" and "\<And>r. ends r \<noteq> []"
  shows "stopped"
proof -
  from assms obtain r where "fst (run_until_first_exit stopped (ends r)) = Inr ()"
    by (auto simp: run_live_def try_simps case_prod_beta)
  moreover obtain e es where "ends r = e # es" using assms(2) by (meson list.exhaust)
  ultimately show ?thesis by (auto simp: run_until_first_exit_def dest: first_result_ok)
qed

end
