(* ===== verification/Backfill_Fetch.thy ===== *)
theory Backfill_Fetch
  imports Rpc_Source
begin

text \<open>
  The workers of the backfill command (\<open>chainweave-cli/src/main.rs\<close>): how one range is fetched, with the
  shared request budget and the retries, and the queue of the ranges that are still to be fetched.

  The workers run concurrently.  A worker is a program counter (\<open>fetch_phase\<close>), and one step of it is
  one operation on what the workers share, the budget and the network; a schedule of steps is one
  interleaving of them.
\<close>

section \<open>Errors and configuration\<close>

text \<open>
  \<open>BudgetPoisoned\<close> never happens: it takes a panic of a thread that holds the lock, and recording in
  the budget cannot panic.
\<close>

datatype fetch_error =
    FrRpc backfill_range rpc_error
  | FrProviderLimit backfill_range rpc_error
  | FrTimeout backfill_range string
  | FrBackfill backfill_error
  | FrBudgetPoisoned
  | FrLogBlockHashMismatch u64

record 'ev fetch_config =
  fc_workers :: nat
  fc_retry_policy :: retry_policy
  fc_rpc_timeout :: duration
  fc_filter :: "contract_log_filter option"
  fc_abi_registry :: "'ev abi_registry option"

type_synonym 'p shared = "rpc_budget \<times> 'p"

definition shared_record :: "rpc_method \<Rightarrow> u64 \<Rightarrow> 'p shared \<Rightarrow> (fetch_error + unit) \<times> 'p shared" where
  "shared_record m cost = (\<lambda>(b, p).
     case budget_record m cost b of (r, b) \<Rightarrow> (map_err FrBackfill r, (b, p)))"

definition shared_usage :: "'p shared \<Rightarrow> u64 \<times> u64" where
  "shared_usage = (\<lambda>(b, p). (requests b, cost_units b))"

text \<open>\<open>tokio::time::timeout\<close>: \<open>None\<close> when the time ran out.\<close>

definition under_limit :: "'p rpc_client \<Rightarrow> duration \<Rightarrow> ('p \<Rightarrow> 'r \<times> 'p) \<Rightarrow> 'p \<Rightarrow> 'r option \<times> 'p" where
  "under_limit c limit f p = (case f p of (r, q) \<Rightarrow> (if rcl_late c limit p q then None else Some r, q))"

section \<open>One attempt\<close>

datatype 'a verdict = Answered 'a | Again duration | Gone fetch_error | PolicyPanics

text \<open>What the code makes of a failure: \<open>None\<close> when the retry policy panics.\<close>

definition judge :: "retry_policy \<Rightarrow> rpc_failure \<Rightarrow> u32 \<Rightarrow> fetch_error \<Rightarrow> 'a verdict" where
  "judge pol failure attempt e =
     (case decision pol failure attempt of
        None \<Rightarrow> PolicyPanics
      | Some GiveUp \<Rightarrow> Gone e
      | Some (RetryAfter d) \<Rightarrow> Again d)"

definition judge_logs ::
    "'ev fetch_config \<Rightarrow> backfill_range \<Rightarrow> u32 \<Rightarrow> (rpc_error + anchored_log list) option \<Rightarrow> anchored_log list verdict" where
  "judge_logs cfg r attempt answer =
     (case answer of
        Some (Inr ls) \<Rightarrow> Answered ls
      | Some (Inl e) \<Rightarrow>
          if classify_rpc_error e = ProviderLimit then Gone (FrProviderLimit r e)
          else judge (fc_retry_policy cfg) (classify_rpc_error e) attempt (FrRpc r e)
      | None \<Rightarrow> judge (fc_retry_policy cfg) Timeout attempt (FrTimeout r ''eth_getLogs''))"

definition judge_blocks ::
    "'ev fetch_config \<Rightarrow> backfill_range \<Rightarrow> u32 \<Rightarrow> (rpc_error + indexed_block list) option \<Rightarrow> indexed_block list verdict" where
  "judge_blocks cfg r attempt answer =
     (case answer of
        Some (Inr bs) \<Rightarrow> Answered bs
      | Some (Inl e) \<Rightarrow> judge (fc_retry_policy cfg) (classify_rpc_error e) attempt (FrRpc r e)
      | None \<Rightarrow> judge (fc_retry_policy cfg) Timeout attempt (FrTimeout r ''eth_getBlockByNumber''))"

definition ask_logs ::
    "'p rpc_client \<Rightarrow> 'ev fetch_config \<Rightarrow> backfill_range \<Rightarrow> 'p \<Rightarrow> (rpc_error + anchored_log list) option \<times> 'p" where
  "ask_logs c cfg r = under_limit c (fc_rpc_timeout cfg) (fetch_anchored_logs (rcl_provider c) r (fc_filter cfg))"

definition ask_blocks ::
    "'p rpc_client \<Rightarrow> 'ev fetch_config \<Rightarrow> backfill_range \<Rightarrow> 'p \<Rightarrow> (rpc_error + indexed_block list) option \<times> 'p" where
  "ask_blocks c cfg r = under_limit c (fc_rpc_timeout cfg) (fetch_blocks_by_number (rcl_provider c) r)"

section \<open>The fetched range\<close>

definition grouped_by_height :: "anchored_log list \<Rightarrow> (u64, anchored_log list) btree_map" where
  "grouped_by_height ls =
     fold (\<lambda>l m. bt_insert (al_block_number l)
       ((case bt_get m (al_block_number l) of Some xs \<Rightarrow> xs | None \<Rightarrow> []) @ [l]) m) ls bt_new"

definition decoded :: "'ev alloy \<Rightarrow> 'ev abi_registry option \<Rightarrow> raw_log list \<Rightarrow> raw_log list" where
  "decoded A reg ls = (case reg of None \<Rightarrow> ls | Some g \<Rightarrow> snd (decode_logs_in_place A g ls))"

fun attach_logs ::
    "'ev alloy \<Rightarrow> 'ev abi_registry option \<Rightarrow> indexed_block list \<Rightarrow> (u64, anchored_log list) btree_map \<Rightarrow>
      fetch_error + indexed_block list" where
  "attach_logs A reg [] m = Inr []"
| "attach_logs A reg (b # bs) m =
     (let n = height (ib_header b);
          ls = (case bt_get m n of Some xs \<Rightarrow> xs | None \<Rightarrow> []) in
      if list_ex (\<lambda>l. al_block_hash l \<noteq> hash (ib_header b)) ls then Inl (FrLogBlockHashMismatch n)
      else tryR (attach_logs A reg bs (bt_remove n m)) (\<lambda>rest.
        Inr (b\<lparr>block_logs := decoded A reg (map al_raw ls)\<rparr> # rest)))"

definition assemble_range ::
    "'ev alloy \<Rightarrow> 'ev fetch_config \<Rightarrow> backfill_range \<Rightarrow> anchored_log list \<Rightarrow> indexed_block list \<Rightarrow>
      fetch_error + indexed_block fetched_range" where
  "assemble_range A cfg r ls bs =
     tryR (attach_logs A (fc_abi_registry cfg) bs (grouped_by_height ls)) (\<lambda>bs.
       map_err FrBackfill (fetched_new r (map ib_header bs) bs))"

section \<open>The steps of a worker\<close>

text \<open>
  \<open>RecordLogs\<close> and \<open>AskLogs\<close> are the two halves of a turn of the loop of \<open>fetch_logs_with_retry\<close>, with the
  number of the attempt; \<open>RecordBlocks\<close> counts the requests that its inner loop has recorded.  A sleep
  is part of the step before it: the other workers run at any step of this one.
\<close>

datatype fetch_phase =
    RecordLogs u32
  | AskLogs u32
  | RecordBlocks "anchored_log list" u32 nat
  | AskBlocks "anchored_log list" u32
  | FetchDone "fetch_error + indexed_block fetched_range"
  | FetchPanicked

fun fetch_step ::
    "'ev alloy \<Rightarrow> 'p rpc_client \<Rightarrow> 'ev fetch_config \<Rightarrow> backfill_range \<Rightarrow> fetch_phase \<Rightarrow> 'p shared \<Rightarrow>
      fetch_phase \<times> 'p shared" where
  "fetch_step A c cfg r (RecordLogs a) s =
     (case shared_record GetLogs 0 s of
        (Inl e, s) \<Rightarrow> (FetchDone (Inl e), s)
      | (Inr _, s) \<Rightarrow> (AskLogs a, s))"
| "fetch_step A c cfg r (AskLogs a) s =
     (case ask_logs c cfg r (snd s) of
        (answer, p) \<Rightarrow>
          (case judge_logs cfg r a answer of
             Answered ls \<Rightarrow> (RecordBlocks ls 1 0, (fst s, p))
           | Again d \<Rightarrow> (RecordLogs (a + 1), (fst s, rcl_sleep c d p))
           | Gone e \<Rightarrow> (FetchDone (Inl e), (fst s, p))
           | PolicyPanics \<Rightarrow> (FetchPanicked, (fst s, p))))"
| "fetch_step A c cfg r (RecordBlocks ls a k) s =
     (if k < length (blocks r)
      then (case shared_record GetBlockByNumber 0 s of
              (Inl e, s) \<Rightarrow> (FetchDone (Inl e), s)
            | (Inr _, s) \<Rightarrow> (RecordBlocks ls a (Suc k), s))
      else (AskBlocks ls a, s))"
| "fetch_step A c cfg r (AskBlocks ls a) s =
     (case ask_blocks c cfg r (snd s) of
        (answer, p) \<Rightarrow>
          (case judge_blocks cfg r a answer of
             Answered bs \<Rightarrow> (FetchDone (assemble_range A cfg r ls bs), (fst s, p))
           | Again d \<Rightarrow> (RecordBlocks ls (a + 1) 0, (fst s, rcl_sleep c d p))
           | Gone e \<Rightarrow> (FetchDone (Inl e), (fst s, p))
           | PolicyPanics \<Rightarrow> (FetchPanicked, (fst s, p))))"
| "fetch_step A c cfg r (FetchDone res) s = (FetchDone res, s)"
| "fetch_step A c cfg r FetchPanicked s = (FetchPanicked, s)"

text \<open>
  The loop of \<open>fetch_logs_with_retry\<close> in one piece, for the caller that runs alone: \<open>None\<close> when the
  policy panics.
\<close>

lemma judge_logs_retries: "judge_logs cfg r a answer = Again d \<Longrightarrow> unat a < unat (max_attempts (fc_retry_policy cfg))"
  by (auto simp: judge_logs_def judge_def dest: decision_retries
      split: option.splits sum.splits if_splits retry_decision.splits)

lemma next_attempt: "unat a < unat m \<Longrightarrow> unat (a + 1) = Suc (unat a)"
  for a m :: u32
proof -
  assume "unat a < unat m"
  then have "a \<noteq> - 1"
    using unsigned_less [of m, where ?'a = nat] by (auto simp: unat_max_word)
  then show ?thesis by (rule unat_succ)
qed

function fetch_logs_from ::
    "'p rpc_client \<Rightarrow> 'ev fetch_config \<Rightarrow> backfill_range \<Rightarrow> u32 \<Rightarrow> 'p shared \<Rightarrow>
      (fetch_error + anchored_log list) option \<times> 'p shared" where
  "fetch_logs_from c cfg r a s =
     (case shared_record GetLogs 0 s of
        (Inl e, s) \<Rightarrow> (Some (Inl e), s)
      | (Inr _, s) \<Rightarrow>
          (case ask_logs c cfg r (snd s) of
             (answer, p) \<Rightarrow>
               (case judge_logs cfg r a answer of
                  Answered ls \<Rightarrow> (Some (Inr ls), (fst s, p))
                | Again d \<Rightarrow> fetch_logs_from c cfg r (a + 1) (fst s, rcl_sleep c d p)
                | Gone e \<Rightarrow> (Some (Inl e), (fst s, p))
                | PolicyPanics \<Rightarrow> (None, (fst s, p)))))"
  by pat_completeness auto

termination
  by (relation "measure (\<lambda>(c, cfg, r, a, s). unat (max_attempts (fc_retry_policy cfg)) - unat a)")
    (auto simp: next_attempt [OF judge_logs_retries] dest: judge_logs_retries)

declare fetch_logs_from.simps [simp del]

definition fetch_logs_with_retry ::
    "'p rpc_client \<Rightarrow> 'ev fetch_config \<Rightarrow> backfill_range \<Rightarrow> 'p shared \<Rightarrow>
      (fetch_error + anchored_log list) option \<times> 'p shared" where
  "fetch_logs_with_retry c cfg r s = fetch_logs_from c cfg r 1 s"

section \<open>The queue of ranges\<close>

text \<open>The chunks that \<open>enqueue_chunks_front\<close> puts before the queue.\<close>

definition chunk_end :: "u64 \<Rightarrow> u64 \<Rightarrow> u64 \<Rightarrow> u64" where
  "chunk_end span f t = min (sat_add f (sat_sub span 1)) t"

lemma chunk_end_ge: "f \<le> t \<Longrightarrow> f \<le> chunk_end span f t"
  by (simp add: chunk_end_def word_le_nat_alt sat_simps u64_le_max)

function chunk_loop :: "u64 \<Rightarrow> u64 \<Rightarrow> u64 \<Rightarrow> backfill_range list" where
  "chunk_loop span f t =
     (if f \<le> t then
        (let e = chunk_end span f t; r = \<lparr>from_block = f, to_block = e\<rparr>
         in if e = - 1 then [r] else r # chunk_loop span (e + 1) t)
      else [])"
  by pat_completeness auto

termination
proof (relation "measure (\<lambda>(m, f, t). 2 ^ 64 - unat f)")
  fix m f t x :: u64 and r
  assume "f \<le> t" and "x = chunk_end m f t" and "x \<noteq> - 1"
  then have "unat f < unat (x + 1)"
    using chunk_end_ge [of f t m] by (simp add: unat_succ word_le_nat_alt)
  with u64_le_max [of "x + 1"] show "((m, x + 1, t), m, f, t) \<in> measure (\<lambda>(m, f, t). 2 ^ 64 - unat f)"
    by simp
qed simp

declare chunk_loop.simps [simp del]

definition enqueue_chunks_front :: "backfill_range list \<Rightarrow> u64 \<Rightarrow> u64 \<Rightarrow> u64 \<Rightarrow> backfill_range list" where
  "enqueue_chunks_front queued f t span =
     (if f > t then queued else fold (#) (rev (chunk_loop span f t)) queued)"

section \<open>What the queue holds\<close>

lemma chunk_loop_plan: "chunk_loop span f t = plan_loop (max span 1) f t"
proof (induction span f t rule: chunk_loop.induct)
  case (1 span f t)
  have "sat_sub span 1 = max span 1 - 1"
  proof (cases "span = 0")
    case False
    then have "1 \<le> span" by (simp add: word_le_nat_alt unat_pos Suc_le_eq)
    then show ?thesis by (simp add: sat_sub_def max_absorb1)
  qed (simp add: sat_sub_def)
  then have "chunk_end span f t = request_end (max span 1) f t"
    by (simp add: chunk_end_def request_end_def)
  with 1 show ?case
    by (subst chunk_loop.simps, subst plan_loop.simps) (simp add: Let_def)
qed

lemma fold_push_front: "fold (#) (rev xs) ys = xs @ ys"
  by (induction xs arbitrary: ys rule: rev_induct) auto

lemma enqueue_chunks_front_eq: "enqueue_chunks_front queued f t span = plan_loop (max span 1) f t @ queued"
proof (cases "f \<le> t")
  case True
  then show ?thesis by (simp add: enqueue_chunks_front_def fold_push_front chunk_loop_plan leD)
next
  case False
  then have "plan_loop m f t = []" for m by (subst plan_loop.simps) simp
  with False show ?thesis by (simp add: enqueue_chunks_front_def not_le)
qed

section \<open>What a worker delivers\<close>

definition fits :: "(block_header \<Rightarrow> bool) \<Rightarrow> indexed_block fetched_range \<Rightarrow> bool" where
  "fits genuine f \<longleftrightarrow> fetched_ok f \<and> map ib_header (fr_logs f) = fr_headers f \<and>
     (\<forall>x \<in> set (fr_headers f). genuine x)"

lemma attach_logs_headers: "attach_logs A reg bs m = Inr bs' \<Longrightarrow> map ib_header bs' = map ib_header bs"
  by (induction A reg bs m arbitrary: bs' rule: attach_logs.induct) (auto simp: Let_def try_simps split: if_splits)

definition range_genuine :: "(block_header \<Rightarrow> bool) \<Rightarrow> 'p rpc_provider \<Rightarrow> bool" where
  "range_genuine genuine P \<longleftrightarrow>
     (\<forall>r p bs q. fetch_blocks_by_number P r p = (Inr bs, q) \<longrightarrow> (\<forall>b \<in> set bs. genuine (ib_header b)))"

lemma fetch_blocks_length: "fetch_blocks_by_number P r p = (Inr bs, q) \<Longrightarrow> length bs = length (blocks r)"
  by (auto simp: fetch_blocks_by_number_def fetch_rpc_blocks_by_number_def try_simps range_heights_def
      dest!: mapR_length split: prod.splits)

lemma assemble_range_ok:
  assumes "assemble_range A cfg r ls bs = Inr f" and "from_block r \<le> to_block r"
    and "length bs < 2 ^ 64 - 1" and "\<forall>b \<in> set bs. genuine (ib_header b)"
  shows "fits genuine f \<and> fr_range f = r"
proof -
  from assms(1) obtain bs' where bs': "attach_logs A (fc_abi_registry cfg) bs (grouped_by_height ls) = Inr bs'"
    and f: "fetched_new r (map ib_header bs') bs' = Inr f"
    by (auto simp: assemble_range_def try_simps)
  have hs: "map ib_header bs' = map ib_header bs" by (rule attach_logs_headers [OF bs'])
  then have "length (map ib_header bs') < 2 ^ 64 - 1" using assms(3) by simp
  from fetched_new_ok [OF f assms(2) this] have "fetched_ok f" .
  moreover have "fr_range f = r" "fr_headers f = map ib_header bs'" "fr_logs f = bs'"
    using f by (auto simp: fetched_new_def try_simps)
  moreover have "genuine x" if "x \<in> set (map ib_header bs)" for x using assms(4) that by auto
  ultimately show ?thesis
    unfolding fits_def by (simp add: hs)
qed

text \<open>The phases that a worker for the range can be in.\<close>

fun phase_ok :: "(block_header \<Rightarrow> bool) \<Rightarrow> backfill_range \<Rightarrow> fetch_phase \<Rightarrow> bool" where
  "phase_ok genuine r (FetchDone (Inr f)) \<longleftrightarrow> fits genuine f \<and> fr_range f = r"
| "phase_ok genuine r (FetchDone (Inl (FrProviderLimit q e))) \<longleftrightarrow> q = r"
| "phase_ok genuine r ph \<longleftrightarrow> True"

definition range_ok :: "backfill_range \<Rightarrow> bool" where
  "range_ok r \<longleftrightarrow> from_block r \<le> to_block r \<and> unat (to_block r) < 2 ^ 63"

lemma range_ok_length: "range_ok r \<Longrightarrow> length (blocks r) < 2 ^ 64 - 1"
  unfolding range_ok_def length_blocks by (cases r) (auto simp: length_blocks)

lemma judge_provider_limit [simp]:
  "judge pol f a e = Gone e' \<longleftrightarrow> decision pol f a = Some GiveUp \<and> e' = e"
  by (auto simp: judge_def split: option.splits retry_decision.splits)

lemma fetch_step_ok:
  assumes "phase_ok genuine r ph" and "range_ok r" and "range_genuine genuine (rcl_provider c)"
    and step: "fetch_step A c cfg r ph s = (ph', s')"
  shows "phase_ok genuine r ph'"
proof (cases ph)
  case (RecordLogs a)
  with step show ?thesis
    by (auto simp: shared_record_def map_err_def split: prod.splits sum.splits)
next
  case (AskLogs a)
  with step show ?thesis
    by (auto simp: judge_logs_def split: prod.splits sum.splits verdict.splits option.splits if_splits)
next
  case (RecordBlocks ls a k)
  with step show ?thesis
    by (auto simp: shared_record_def map_err_def split: prod.splits sum.splits if_splits)
next
  case (AskBlocks ls a)
  obtain answer p where ask: "ask_blocks c cfg r (snd s) = (answer, p)" by (rule prod.exhaust)
  show ?thesis
  proof (cases "judge_blocks cfg r a answer")
    case (Answered bs)
    then have "answer = Some (Inr bs)"
      by (auto simp: judge_blocks_def judge_def split: option.splits sum.splits retry_decision.splits)
    with ask obtain q where bs: "fetch_blocks_by_number (rcl_provider c) r (snd s) = (Inr bs, q)"
      by (auto simp: ask_blocks_def under_limit_def split: prod.splits if_splits)
    have ph': "ph' = FetchDone (assemble_range A cfg r ls bs)" using step AskBlocks ask Answered by simp
    have "length bs < 2 ^ 64 - 1" using fetch_blocks_length [OF bs] range_ok_length [OF assms(2)] by simp
    moreover have "\<forall>b \<in> set bs. genuine (ib_header b)" using assms(3) bs by (auto simp: range_genuine_def)
    ultimately have "assemble_range A cfg r ls bs = Inr f \<Longrightarrow> fits genuine f \<and> fr_range f = r" for f
      using assemble_range_ok [of A cfg r ls bs f genuine] assms(2) by (simp add: range_ok_def)
    moreover have "assemble_range A cfg r ls bs \<noteq> Inl (FrProviderLimit q e)" for q e
    proof -
      have "attach_logs A reg bs m \<noteq> Inl (FrProviderLimit q e)" for reg m
        by (induction A reg bs m rule: attach_logs.induct) (auto simp: Let_def try_simps)
      then show ?thesis by (auto simp: assemble_range_def try_simps)
    qed
    ultimately have res: "\<And>f. assemble_range A cfg r ls bs = Inr f \<Longrightarrow> fits genuine f \<and> fr_range f = r"
      "\<And>q e. assemble_range A cfg r ls bs \<noteq> Inl (FrProviderLimit q e)" by blast+
    show ?thesis
    proof (cases "assemble_range A cfg r ls bs")
      case (Inl e)
      with res(2) show ?thesis by (cases e) (auto simp: ph')
    qed (simp add: ph' res(1))
  qed (use step AskBlocks ask in
      \<open>auto simp: judge_blocks_def split: option.splits sum.splits\<close>)
qed (use assms step in auto)

section \<open>A worker alone\<close>

text \<open>Run without interference, the steps of a worker are the loop that the code writes.\<close>

fun logs_phase :: "(fetch_error + anchored_log list) option \<Rightarrow> fetch_phase" where
  "logs_phase None = FetchPanicked"
| "logs_phase (Some (Inl e)) = FetchDone (Inl e)"
| "logs_phase (Some (Inr ls)) = RecordBlocks ls 1 0"

lemma steps_are_the_loop:
  "\<exists>n. ((\<lambda>(ph, s). fetch_step A c cfg r ph s) ^^ n) (RecordLogs a, s) = apfst logs_phase (fetch_logs_from c cfg r a s)"
proof (induction c cfg r a s rule: fetch_logs_from.induct)
  case (1 c cfg r a s)
  let ?st = "\<lambda>(ph, s). fetch_step A c cfg r ph s"
  obtain res s1 where rec: "shared_record GetLogs 0 s = (res, s1)" by (rule prod.exhaust)
  show ?case
  proof (cases res)
    case (Inl e)
    with rec show ?thesis
      by (intro exI [of _ "Suc 0"]) (simp add: fetch_logs_from.simps [of c cfg r a s])
  next
    case (Inr u)
    obtain answer p where ask: "ask_logs c cfg r (snd s1) = (answer, p)" by (rule prod.exhaust)
    have two: "(?st ^^ Suc (Suc n)) (RecordLogs a, s) = (?st ^^ n) (fetch_step A c cfg r (AskLogs a) s1)" for n
      using rec Inr by (simp add: funpow_swap1)
    show ?thesis
    proof (cases "\<exists>d. judge_logs cfg r a answer = Again d")
      case True
      then obtain d where d: "judge_logs cfg r a answer = Again d" ..
      obtain b p0 where s1: "s1 = (b, p0)" by (rule prod.exhaust)
      from 1 [OF rec [symmetric] Inr ask [symmetric] d] obtain n where
        "(?st ^^ n) (RecordLogs (a + 1), (fst s1, rcl_sleep c d p)) =
          apfst logs_phase (fetch_logs_from c cfg r (a + 1) (fst s1, rcl_sleep c d p))" by auto
      then show ?thesis
        using two [of n] rec Inr ask d
        by (intro exI [of _ "Suc (Suc n)"]) (simp add: fetch_logs_from.simps [of c cfg r a s])
    next
      case False
      then show ?thesis
        using two [of 0] rec Inr ask
        by (intro exI [of _ "Suc (Suc 0)"])
          (auto simp: fetch_logs_from.simps [of c cfg r a s] split: verdict.splits)
    qed
  qed
qed

section \<open>The logs of a fetched range\<close>

definition entry_of :: "(u64, 'a list) btree_map \<Rightarrow> u64 \<Rightarrow> 'a list" where
  "entry_of m n = (case bt_get m n of Some ls \<Rightarrow> ls | None \<Rightarrow> [])"

lemma grouped_by_height_entry:
  "entry_of (grouped_by_height ls) n = filter (\<lambda>l. al_block_number l = n) ls"
proof -
  have "bt_inv m \<Longrightarrow> entry_of (fold (\<lambda>l m. bt_insert (al_block_number l)
       ((case bt_get m (al_block_number l) of Some xs \<Rightarrow> xs | None \<Rightarrow> []) @ [l]) m) ls m) n =
     entry_of m n @ filter (\<lambda>l. al_block_number l = n) ls" for m
    by (induction ls arbitrary: m) (auto simp: entry_of_def split: option.splits)
  from this [of bt_new] show ?thesis by (simp add: grouped_by_height_def entry_of_def)
qed

lemma attach_logs_entries:
  "attach_logs A reg bs m = Inr bs' \<Longrightarrow> distinct (map (\<lambda>b. height (ib_header b)) bs) \<Longrightarrow>
   b \<in> set bs' \<Longrightarrow> block_logs b = decoded A reg (map al_raw (entry_of m (height (ib_header b)))) \<and>
     (\<forall>l \<in> set (entry_of m (height (ib_header b))). al_block_hash l = hash (ib_header b))"
proof (induction A reg bs m arbitrary: bs' rule: attach_logs.induct)
  case (2 A reg b0 bs m)
  let ?n = "height (ib_header b0)"
  from 2(2) obtain rest where ok: "\<forall>l \<in> set (entry_of m ?n). al_block_hash l = hash (ib_header b0)"
    and rest: "attach_logs A reg bs (bt_remove ?n m) = Inr rest"
    and bs': "bs' = b0\<lparr>block_logs := decoded A reg (map al_raw (entry_of m ?n))\<rparr> # rest"
    by (auto simp: Let_def try_simps entry_of_def list_ex_iff split: if_splits)
  show ?case
  proof (cases "b \<in> set rest")
    case False
    with 2(4) bs' have "b = b0\<lparr>block_logs := decoded A reg (map al_raw (entry_of m ?n))\<rparr>" by simp
    with ok show ?thesis by simp
  next
    case b: True
    have "height (ib_header b) \<in> set (map height (map ib_header rest))" using b by simp
    then have "height (ib_header b) \<in> set (map (\<lambda>b. height (ib_header b)) bs)"
      unfolding attach_logs_headers [OF rest] by simp
    then have "height (ib_header b) \<noteq> ?n" using 2(3) by auto
    then have "entry_of (bt_remove ?n m) (height (ib_header b)) = entry_of m (height (ib_header b))"
      by (simp add: entry_of_def)
    moreover have "\<not> list_ex (\<lambda>l. al_block_hash l \<noteq> hash (ib_header b0))
        (case bt_get m ?n of Some xs \<Rightarrow> xs | None \<Rightarrow> [])"
      using ok by (auto simp: entry_of_def list_ex_iff)
    ultimately show ?thesis using 2(1) [OF refl refl _ rest _ b] 2(3) by simp
  qed
qed simp

text \<open>
  C40: A fetched range of the backfill has the logs that the node gave, each in the block that it
  belongs to: whenever the worker puts the answers together, the headers are the linked blocks of the
  range, and the logs of each block are those of the answer with its number, in the order of the
  answer, decoded by the registry when there is one; each of them names the hash of that very
  block.
\<close>
theorem backfill_range_has_its_own_logs:
  assumes "range_ok r" and "length bs = length (blocks r)" and "assemble_range A cfg r ls bs = Inr f"
  shows "fetched_ok f \<and> fr_range f = r \<and> map ib_header (fr_logs f) = fr_headers f \<and>
    (\<forall>b \<in> set (fr_logs f). block_logs b = decoded A (fc_abi_registry cfg)
         (map al_raw (filter (\<lambda>l. al_block_number l = height (ib_header b)) ls)) \<and>
       (\<forall>l \<in> set ls. al_block_number l = height (ib_header b) \<longrightarrow> al_block_hash l = hash (ib_header b)))"
proof -
  have r: "from_block r \<le> to_block r" "length bs < 2 ^ 64 - 1"
    using assms(1,2) range_ok_length [OF assms(1)] by (simp_all add: range_ok_def)
  have f: "fits (\<lambda>_. True) f" "fr_range f = r"
    using assemble_range_ok [OF assms(3) r, of "\<lambda>_. True"] by simp_all
  from assms(3) have at: "attach_logs A (fc_abi_registry cfg) bs (grouped_by_height ls) = Inr (fr_logs f)"
    by (auto simp: assemble_range_def try_simps fetched_new_def)
  have "map (\<lambda>x. unat (height x)) (fr_headers f) = blocks r"
    using f by (simp add: fits_def fetched_ok_def)
  then have "distinct (map (\<lambda>x. unat (height x)) (fr_headers f))" by (simp add: blocks_def)
  moreover have "fr_headers f = map ib_header bs"
    using f(1) attach_logs_headers [OF at] by (simp add: fits_def)
  ultimately have "distinct (map (\<lambda>b. height (ib_header b)) bs)"
    by (auto simp: distinct_map inj_on_def)
  from attach_logs_entries [OF at this] f show ?thesis
    by (auto simp: grouped_by_height_entry fits_def)
qed

definition sample_anchored :: anchored_log where
  "sample_anchored = \<lparr>al_block_number = 5, al_block_hash = fill 5, al_raw = \<lparr>transaction_index = 0, log_index = 0,
     tx_hash = fill 1, log_address = fill 6, topics = [], log_data = [], decoded_event = None, decoder_version = None\<rparr>\<rparr>"

definition sample_fetched_block :: indexed_block where
  "sample_fetched_block = \<lparr>ib_header = BlockHeader (fill 5) (fill 4) 5, timestamp = 7, ib_status = Unsafe,
     ib_status_source = Observed, block_logs = []\<rparr>"

definition sample_fetch_config :: "string fetch_config" where
  "sample_fetch_config = \<lparr>fc_workers = 1, fc_retry_policy = \<lparr>max_attempts = 3, base_delay = 1, max_delay = 8, jitter = 0\<rparr>,
     fc_rpc_timeout = 1, fc_filter = None, fc_abi_registry = None\<rparr>"

theorem backfill_range_has_its_own_logs_witness:
  "\<exists>f. assemble_range sample_alloy sample_fetch_config \<lparr>from_block = 5, to_block = 5\<rparr> [sample_anchored] [sample_fetched_block] = Inr f \<and>
     fetched_ok f \<and> map block_logs (fr_logs f) = [[al_raw sample_anchored]]"
proof -
  let ?r = "\<lparr>from_block = 5, to_block = 5\<rparr> :: backfill_range"
  let ?b = "sample_fetched_block\<lparr>block_logs := [al_raw sample_anchored]\<rparr>"
  have "grouped_by_height [sample_anchored] = [(5, [sample_anchored])]"
    by (simp add: grouped_by_height_def sample_anchored_def bt_new_def bt_get_def)
  then have "attach_logs sample_alloy None [sample_fetched_block] (grouped_by_height [sample_anchored]) = Inr [?b]"
    by (simp add: sample_fetched_block_def bt_get_def decoded_def) (simp add: sample_anchored_def decoded_def)
  moreover have "fetched_new ?r [ib_header ?b] [?b] = Inr \<lparr>fr_range = ?r, fr_headers = [ib_header ?b], fr_logs = [?b]\<rparr>"
    by (simp add: fetched_new_def validate_headers_def range_len_def sat_add_def sat_sub_def sample_fetched_block_def)
  ultimately obtain f where f: "assemble_range sample_alloy sample_fetch_config ?r [sample_anchored] [sample_fetched_block] = Inr f"
    "fr_logs f = [?b]"
    by (simp add: assemble_range_def sample_fetch_config_def)
  have r: "range_ok ?r" "length [sample_fetched_block] = length (blocks ?r)" by (simp_all add: range_ok_def blocks_def)
  from backfill_range_has_its_own_logs [OF r f(1)] f show ?thesis by auto
qed

end
