(* ===== verification/Backfill_Loop.thy ===== *)
theory Backfill_Loop
  imports Backfill_Fetch Live_Store
begin

text \<open>
  The main loop of the backfill command (\<open>chainweave-cli/src/main.rs\<close>): \<open>fetch_and_commit_ranges\<close> keeps
  up to \<open>workers\<close> fetches in flight, takes their results in the order in which they end, and pushes
  them into the ordered coordinator, whose sink is the writer of the database.

  The \<open>JoinSet\<close> is the list of its tasks, each with its range and its program counter.  A schedule is a
  list of numbers: turn \<open>i\<close> goes to task \<open>i\<close> (modulo their number), which makes its next step, or is
  joined when it has ended.  So a schedule is an interleaving of the workers and the loop, and every
  turn does something.  What the loop does when a task is joined touches nothing that the workers share,
  so the steps of the workers meanwhile are as well made before or after it.
\<close>

section \<open>State\<close>

text \<open>
  The errors that the loop returns; the command that calls it adds no other meaning to them.
\<close>

datatype loop_error =
    LoopFetch fetch_error
  | LoopBackfill backfill_error
  | LoopTaskPanicked
  | LoopIncomplete u64

text \<open>The sink: the committer, the database, and the number of transactions made.\<close>

type_synonym commit_sink = "committer \<times> database \<times> nat"

record 'p backfill_loop =
  bl_tasks :: "(backfill_range \<times> fetch_phase) list"
  bl_queued :: "backfill_range list"
  bl_next_unallocated :: u64
  bl_in_flight :: nat
  bl_sizer :: log_range_sizer
  bl_progress :: commit_progress
  bl_coordinator :: "indexed_block coordinator"
  bl_sink :: commit_sink
  bl_shared :: "'p shared"

text \<open>What never changes: the client, the configuration, the range, and the faults of the database.\<close>

record ('p, 'ev) backfill_context =
  bx_alloy :: "'ev alloy"
  bx_client :: "'p rpc_client"
  bx_config :: "'ev fetch_config"
  bx_show_error :: "pg_error \<Rightarrow> string"
  bx_faults :: "nat \<Rightarrow> faults"
  bx_full_range :: backfill_range

definition sink_commit :: "(pg_error \<Rightarrow> string) \<Rightarrow> (nat \<Rightarrow> faults) \<Rightarrow> (indexed_block, commit_sink) commit_fn" where
  "sink_commit show_error flt f = (\<lambda>(cm, db, n).
     case committer_commit show_error (flt n) f (cm, db) of (r, cm, db) \<Rightarrow> (r, cm, db, n + 1))"

section \<open>Progress\<close>

definition merge_progress :: "commit_progress \<Rightarrow> commit_progress \<Rightarrow> commit_progress" where
  "merge_progress p q =
     \<lparr>committed_ranges = committed_ranges p + committed_ranges q,
      committed_blocks = committed_blocks p + committed_blocks q,
      committed_logs = committed_logs p + committed_logs q,
      last_committed_height = (case last_committed_height q of Some n \<Rightarrow> Some n | None \<Rightarrow> last_committed_height p)\<rparr>"

definition record_partial_commit_before_invalidation :: "commit_progress \<Rightarrow> u64 \<Rightarrow> u64 \<Rightarrow> commit_progress" where
  "record_partial_commit_before_invalidation p before after =
     (if after \<le> before then p
      else p\<lparr>committed_ranges := committed_ranges p + 1, committed_blocks := committed_blocks p + (after - before),
             last_committed_height := Some (after - 1)\<rparr>)"

section \<open>The window\<close>

definition take_range :: "u64 \<Rightarrow> 'p backfill_loop \<Rightarrow> (backfill_range \<times> 'p backfill_loop) option" where
  "take_range target st =
     (case bl_queued st of
        r # rs \<Rightarrow> Some (r, st\<lparr>bl_queued := rs\<rparr>)
      | [] \<Rightarrow> map_option (\<lambda>r. (r, st\<lparr>bl_next_unallocated := sat_add (to_block r) 1\<rparr>))
          (next_range (bl_sizer st) (bl_next_unallocated st) target))"

lemma take_range_in_flight: "take_range target st = Some (r, st') \<Longrightarrow> bl_in_flight st' = bl_in_flight st"
  by (auto simp: take_range_def split: list.splits)

definition spawn_fetch :: "backfill_range \<Rightarrow> 'p backfill_loop \<Rightarrow> 'p backfill_loop" where
  "spawn_fetch r st = st\<lparr>bl_tasks := bl_tasks st @ [(r, RecordLogs 1)]\<rparr>"

function fill_fetch_window :: "nat \<Rightarrow> u64 \<Rightarrow> 'p backfill_loop \<Rightarrow> 'p backfill_loop" where
  "fill_fetch_window workers target st =
     (if bl_in_flight st < workers
      then (case take_range target st of
              None \<Rightarrow> st
            | Some (r, st) \<Rightarrow>
                fill_fetch_window workers target ((spawn_fetch r st)\<lparr>bl_in_flight := bl_in_flight st + 1\<rparr>))
      else st)"
  by pat_completeness auto

termination
  by (relation "measure (\<lambda>(workers, target, st). workers - bl_in_flight st)")
    (auto dest: take_range_in_flight)

declare fill_fetch_window.simps [simp del]

definition refill :: "('p, 'ev) backfill_context \<Rightarrow> 'p backfill_loop \<Rightarrow> 'p backfill_loop" where
  "refill X = fill_fetch_window (fc_workers (bx_config X)) (to_block (bx_full_range X))"

section \<open>The loop\<close>

text \<open>A range came back: it is pushed, and what it invalidates is thrown away.\<close>

definition on_fetched ::
    "('p, 'ev) backfill_context \<Rightarrow> indexed_block fetched_range \<Rightarrow> 'p backfill_loop \<Rightarrow> (loop_error + unit) \<times> 'p backfill_loop" where
  "on_fetched X f st =
     (let st = st\<lparr>bl_sizer := record_success (bl_sizer st)\<rparr>;
          before = next_height (bl_coordinator st);
          target = to_block (bx_full_range X) in
      case push (sink_commit (bx_show_error X) (bx_faults X)) f (bl_coordinator st) (bl_sink st) of
        (r, c, k) \<Rightarrow>
          (let st = st\<lparr>bl_coordinator := c, bl_sink := k\<rparr> in
           case r of
             Inr p \<Rightarrow> (Inr (), st\<lparr>bl_progress := merge_progress (bl_progress st) p\<rparr>)
           | Inl (FetchedSuffixInvalidated refetch_from expected found) \<Rightarrow>
               (Inr (), st\<lparr>bl_progress := record_partial_commit_before_invalidation (bl_progress st) before (next_height c),
                  bl_tasks := [], bl_in_flight := 0,
                  bl_queued := enqueue_chunks_front [] refetch_from target (current_blocks (bl_sizer st)),
                  bl_next_unallocated := sat_add target 1\<rparr>)
           | Inl e \<Rightarrow> (Inl (LoopBackfill e), st)))"

definition on_provider_limit :: "backfill_range \<Rightarrow> 'p backfill_loop \<Rightarrow> 'p backfill_loop" where
  "on_provider_limit r st =
     (let z = record_provider_limit (bl_sizer st) in
      st\<lparr>bl_sizer := z, bl_queued := enqueue_chunks_front (bl_queued st) (from_block r) (to_block r) (current_blocks z)\<rparr>)"

fun on_joined ::
    "('p, 'ev) backfill_context \<Rightarrow> fetch_phase \<Rightarrow> 'p backfill_loop \<Rightarrow> (loop_error + unit) \<times> 'p backfill_loop" where
  "on_joined X (FetchDone (Inr f)) st = on_fetched X f st"
| "on_joined X (FetchDone (Inl (FrProviderLimit r e))) st = (Inr (), on_provider_limit r st)"
| "on_joined X (FetchDone (Inl e)) st = (Inl (LoopFetch e), st)"
| "on_joined X ph st = (Inl LoopTaskPanicked, st)"

fun has_ended :: "fetch_phase \<Rightarrow> bool" where
  "has_ended (FetchDone res) = True"
| "has_ended FetchPanicked = True"
| "has_ended ph = False"

definition join_task ::
    "('p, 'ev) backfill_context \<Rightarrow> nat \<Rightarrow> 'p backfill_loop \<Rightarrow> (loop_error + unit) \<times> 'p backfill_loop" where
  "join_task X j st =
     (let ph = snd (bl_tasks st ! j);
          st = st\<lparr>bl_tasks := take j (bl_tasks st) @ drop (Suc j) (bl_tasks st), bl_in_flight := bl_in_flight st - 1\<rparr> in
      tryS (on_joined X ph st) (\<lambda>_ st. (Inr (), refill X st)))"

definition worker_step :: "('p, 'ev) backfill_context \<Rightarrow> nat \<Rightarrow> 'p backfill_loop \<Rightarrow> 'p backfill_loop" where
  "worker_step X j st =
     (case bl_tasks st ! j of (r, ph) \<Rightarrow>
        (case fetch_step (bx_alloy X) (bx_client X) (bx_config X) r ph (bl_shared st) of
           (ph, s) \<Rightarrow> st\<lparr>bl_tasks := (bl_tasks st)[j := (r, ph)], bl_shared := s\<rparr>))"

definition loop_turn ::
    "('p, 'ev) backfill_context \<Rightarrow> nat \<Rightarrow> 'p backfill_loop \<Rightarrow> (loop_error + unit) \<times> 'p backfill_loop" where
  "loop_turn X i st =
     (let j = i mod length (bl_tasks st) in
      if has_ended (snd (bl_tasks st ! j)) then join_task X j st else (Inr (), worker_step X j st))"

text \<open>After the last task: the result of the loop.\<close>

definition loop_end :: "'p backfill_loop \<Rightarrow> loop_error + commit_progress" where
  "loop_end st =
     (if is_complete (bl_coordinator st) then Inr (bl_progress st)
      else Inl (LoopIncomplete (next_height (bl_coordinator st))))"

text \<open>\<open>None\<close> while the loop still runs.\<close>

fun run_turns ::
    "('p, 'ev) backfill_context \<Rightarrow> nat list \<Rightarrow> 'p backfill_loop \<Rightarrow> (loop_error + commit_progress) option \<times> 'p backfill_loop" where
  "run_turns X sched st =
     (if bl_tasks st = [] then (Some (loop_end st), st)
      else case sched of
        [] \<Rightarrow> (None, st)
      | i # sched \<Rightarrow>
          (case loop_turn X i st of
             (Inl e, st) \<Rightarrow> (Some (Inl e), st)
           | (Inr _, st) \<Rightarrow> run_turns X sched st))"

declare run_turns.simps [simp del]

definition loop_start ::
    "('p, 'ev) backfill_context \<Rightarrow> log_range_sizer \<Rightarrow> indexed_block coordinator \<Rightarrow> commit_sink \<Rightarrow> 'p shared \<Rightarrow> 'p backfill_loop" where
  "loop_start X z c k s =
     refill X \<lparr>bl_tasks = [], bl_queued = [], bl_next_unallocated = from_block (bx_full_range X), bl_in_flight = 0,
       bl_sizer = z, bl_progress = progress_default, bl_coordinator = c, bl_sink = k, bl_shared = s\<rparr>"

definition fetch_and_commit_ranges ::
    "('p, 'ev) backfill_context \<Rightarrow> nat list \<Rightarrow> log_range_sizer \<Rightarrow> indexed_block coordinator \<Rightarrow> commit_sink \<Rightarrow> 'p shared \<Rightarrow>
      (loop_error + commit_progress) option \<times> 'p backfill_loop" where
  "fetch_and_commit_ranges X sched z c k s = run_turns X sched (loop_start X z c k s)"

end
