(* ===== verification/Backfill_Loop_Correct.thy ===== *)
theory Backfill_Loop_Correct
  imports Backfill_Loop
begin

text \<open>
  What the loop of the backfill achieves: no block is fetched twice or forgotten, whatever reaches the
  database is one linked chain, and the loop cannot end before the range is complete.
\<close>

section \<open>What one commit adds to the database\<close>

definition good_sink :: "(block_header \<Rightarrow> bool) \<Rightarrow> commit_sink \<Rightarrow> bool" where
  "good_sink genuine = (\<lambda>(cm, db, n).
     names_blocks genuine \<and> db_inv db \<and> rows_genuine genuine (chain_id (cm_writer cm)) db)"

text \<open>
  The database of the second sink is that of the first with one more run of blocks, and its checkpoint
  is at the last of them.
\<close>

definition grew :: "(block_header \<Rightarrow> bool) \<Rightarrow> commit_sink \<Rightarrow> block_header list \<Rightarrow> commit_sink \<Rightarrow> bool" where
  "grew genuine k hs k' \<longleftrightarrow>
     (let c = chain_id (cm_writer (fst k)); db = fst (snd k); db' = fst (snd k') in
      cm_writer (fst k') = cm_writer (fst k) \<and>
      (good_sink genuine k \<longrightarrow> good_sink genuine k' \<and>
         canon_set c db' = canon_set c db \<union> set hs \<and>
         (if hs = [] then hm_get (checkpoint_table db') c = hm_get (checkpoint_table db) c
          else checkpoint_at c (Some (last hs)) db')))"

definition grows :: "(block_header \<Rightarrow> bool) \<Rightarrow> commit_sink \<Rightarrow> block_header list \<Rightarrow> commit_sink \<Rightarrow> bool" where
  "grows genuine k hs k' \<longleftrightarrow> grew genuine k hs k' \<and>
     last_committed_hash (fst k') = (if hs = [] then last_committed_hash (fst k) else Some (hash (last hs)))"

lemma grew_refl: "grew genuine k [] k"
  by (simp add: grew_def)

lemma grew_trans:
  assumes "grew genuine k hs k1" and "grew genuine k1 ks k2"
  shows "grew genuine k (hs @ ks) k2"
  using assms by (cases "ks = []") (auto simp: grew_def Let_def checkpoint_at_def)

lemma apply_only_batch:
  assumes run: "apply_batch flt w b db = (res, db')"
    and events: "db_events b = map DApply bs" "bs \<noteq> []"
    and good: "names_blocks genuine" "db_inv db" "rows_genuine genuine (chain_id w) db"
      "\<forall>x \<in> set bs. genuine (ib_header x)"
  shows "db_inv db' \<and> rows_genuine genuine (chain_id w) db' \<and>
    (canon_set (chain_id w) db' = canon_set (chain_id w) db \<and> (\<forall>rep. res \<noteq> Inr rep) \<and>
       checkpoint_table db' = checkpoint_table db \<or>
     canon_set (chain_id w) db' = canon_set (chain_id w) db \<union> ib_header ` set bs \<and>
       checkpoint_at (chain_id w) (Some (ib_header (last bs))) db')"
proof -
  let ?c = "chain_id w" and ?t = "\<lparr>tx_db = db, tx_statements = 0, gate_step = 0\<rparr>"
  obtain wr where inner: "apply_batch_inner flt None w b db = (wr, db')"
    and res: "\<forall>rep. res = Inr rep \<longrightarrow> wr = Returned (Inr rep)"
    using run by (auto simp: apply_batch_def split: prod.splits write_result.splits)
  note inv' = batch_keeps_inv [OF good(2) inner]
  from batch_all_or_nothing [OF inner] show ?thesis
  proof (elim disjE exE conjE)
    fix n assume n: "db' = db\<lparr>outbox_seq := n\<rparr>" "\<forall>rep. wr \<noteq> Returned (Inr rep)"
    then have "canon_set ?c db' = canon_set ?c db" "rows_genuine genuine ?c db'"
      using good(3) by (simp_all add: canon_set_def rows_genuine_def)
    with inv' n res show ?thesis by auto
  next
    fix rep assume ok: "apply_batch_inner clean None w b db = (Returned (Inr rep), db')"
    have "\<not> durable_is_empty b" using events by (simp add: durable_is_empty_def)
    with ok obtain t where body: "batch_body clean None w b ?t = (Inr rep, t)" and db': "db' = tx_db t"
      by (auto simp: apply_batch_inner_def clean_def split: prod.splits sum.splits tx_stop.splits)
    have inv0: "db_inv (tx_db ?t)" "rows_genuine genuine ?c (tx_db ?t)" using good by simp_all
    have gen: "\<forall>e \<in> set (db_events b). genuine (durable_header e)" using good(4) events(1) by auto
    have target: "(if db_events b = [] then db_common_ancestor b else
        (case last (db_events b) of DApply b \<Rightarrow> Some (ib_header b) | DRollback _ \<Rightarrow> db_common_ancestor b)) =
        Some (ib_header (last bs))"
      using events by (simp add: last_map)
    note eff = batch_effect [OF body inv0 good(1) gen target]
    have "fold event_effect (db_events b) (canon_set ?c db) = canon_set ?c db \<union> ib_header ` set bs"
      using event_effect_reorg [of "[]" bs "canon_set ?c db"] by (simp add: events)
    with eff inv' show ?thesis by (simp add: db' checkpoint_at_def)
  qed
qed

lemma committer_commit_grows:
  assumes fit: "fits genuine f" and run: "sink_commit sh flt f k = (r, k')"
  shows "(r = Inr () \<and> grows genuine k (fr_headers f) k') \<or>
    (\<exists>m. r = Inl (Commit m)) \<and> (grew genuine k (fr_headers f) k' \<or> grew genuine k [] k')"
proof -
  obtain cm db n where k: "k = (cm, db, n)" by (cases k)
  let ?w = "cm_writer cm"
  let ?batch = "\<lparr>transition = (if cm_parent_anchor cm \<noteq> None then Gap else Bootstrap),
    common_ancestor = cm_parent_anchor cm, events = map Apply (fr_headers f)\<rparr>"
  have f: "fr_headers f \<noteq> []" "map ib_header (fr_logs f) = fr_headers f" "\<forall>x \<in> set (fr_headers f). genuine x"
    using fit fetched_okD(1) by (auto simp: fits_def)
  show ?thesis
  proof (cases "from_chain_batch ?batch (fr_logs f)")
    case (Inl e)
    with run f(1) have "\<exists>m. r = Inl (Commit m)" "k' = (cm, db, n + 1)"
      by (auto simp: sink_commit_def committer_commit_def Let_def k)
    then show ?thesis by (auto simp: grew_def good_sink_def k)
  next
    case (Inr d)
    obtain res db' where ab: "apply_batch (flt n) ?w d db = (res, db')" by (rule prod.exhaust)
    have out: "(\<forall>e. res = Inl e \<longrightarrow> (\<exists>m. r = Inl (Commit m)) \<and> k' = (cm, db', n + 1)) \<and>
      (\<forall>rep. res = Inr rep \<longrightarrow> r = Inr () \<and> k' = (cm\<lparr>cm_parent_anchor := Some (last (fr_headers f)),
           last_committed_hash := Some (hash (last (fr_headers f)))\<rparr>, db', n + 1))"
      using run f(1) Inr ab by (auto simp: sink_commit_def committer_commit_def Let_def k split: sum.splits)
    have eff: "db_inv db' \<and> rows_genuine genuine (chain_id ?w) db' \<and>
        (canon_set (chain_id ?w) db' = canon_set (chain_id ?w) db \<and> (\<forall>rep. res \<noteq> Inr rep) \<and>
           checkpoint_table db' = checkpoint_table db \<or>
         canon_set (chain_id ?w) db' = canon_set (chain_id ?w) db \<union> set (fr_headers f) \<and>
           checkpoint_at (chain_id ?w) (Some (last (fr_headers f))) db')"
      if good: "names_blocks genuine" "db_inv db" "rows_genuine genuine (chain_id ?w) db"
    proof -
      have ev: "events ?batch = map Rollback [] @ map Apply (fr_headers f)" by simp
      have "\<forall>x \<in> set (fr_logs f). genuine (ib_header x)" using f(2,3) by (metis image_eqI list.set_map)
      from durable_reorg [OF Inr ev good(1) f(3) this] obtain bs where
        bs: "db_events d = map DApply bs" "map ib_header bs = fr_headers f" by auto
      then have ne: "bs \<noteq> []" and g: "\<forall>x \<in> set bs. genuine (ib_header x)"
        using f(1,3) by (auto simp flip: bs(2))
      have "ib_header ` set bs = set (fr_headers f)" "ib_header (last bs) = last (fr_headers f)"
        using ne by (simp_all add: last_map flip: bs(2))
      with apply_only_batch [OF ab bs(1) ne good g] show ?thesis by simp
    qed
    show ?thesis
    proof (cases res)
      case (Inl e)
      with out eff show ?thesis
        by (cases "canon_set (chain_id ?w) db' = canon_set (chain_id ?w) db \<and> checkpoint_table db' = checkpoint_table db")
          (auto simp: grew_def good_sink_def k f(1))
    next
      case (Inr rep)
      with out eff show ?thesis by (auto simp: grows_def grew_def good_sink_def k f(1))
    qed
  qed
qed

section \<open>The coordinator over a sink that grows\<close>

text \<open>
  What the coordinator may rely on: a commit that is reported adds the headers of the range, and one that
  fails may still have added them, when its answer was lost.
\<close>

locale growing_sink =
  fixes commit :: "('l, 's) commit_fn" and fit :: "'l fetched_range \<Rightarrow> bool"
    and added :: "'s \<Rightarrow> block_header list \<Rightarrow> 's \<Rightarrow> bool" and maybe :: "'s \<Rightarrow> block_header list \<Rightarrow> 's \<Rightarrow> bool"
  assumes added_nil: "added s [] s"
    and added_append: "added s hs s1 \<Longrightarrow> added s1 ks s2 \<Longrightarrow> added s (hs @ ks) s2"
    and maybe_append: "added s hs s1 \<Longrightarrow> maybe s1 ks s2 \<Longrightarrow> maybe s (hs @ ks) s2"
    and fit_ok: "fit f \<Longrightarrow> fetched_ok f"
    and commits: "fit f \<Longrightarrow> commit f s = (r, s') \<Longrightarrow> (r = Inr () \<and> added s (fr_headers f) s') \<or>
      (\<exists>m. r = Inl (Commit m)) \<and> (maybe s (fr_headers f) s' \<or> maybe s [] s')"

interpretation db_sink: growing_sink "sink_commit sh flt" "fits genuine" "grows genuine" "grew genuine" for sh flt genuine
proof unfold_locales
  show "grows genuine s [] s" for s by (simp add: grows_def grew_refl)
  show "grows genuine s hs s1 \<Longrightarrow> grows genuine s1 ks s2 \<Longrightarrow> grows genuine s (hs @ ks) s2" for s hs s1 ks s2
    using grew_trans [of genuine s hs s1 ks s2] by (auto simp: grows_def)
  show "grows genuine s hs s1 \<Longrightarrow> grew genuine s1 ks s2 \<Longrightarrow> grew genuine s (hs @ ks) s2" for s hs s1 ks s2
    using grew_trans [of genuine s hs s1 ks s2] by (auto simp: grows_def)
  show "fits genuine f \<Longrightarrow> fetched_ok f" for f by (simp add: fits_def)
qed (rule committer_commit_grows)

section \<open>The blocks of the pending ranges\<close>

definition pending_blocks :: "'l coordinator \<Rightarrow> nat list" where
  "pending_blocks c = concat (map (\<lambda>(_, f). blocks (fr_range f)) (pending c))"

definition all_pending :: "('l fetched_range \<Rightarrow> bool) \<Rightarrow> 'l coordinator \<Rightarrow> bool" where
  "all_pending fit c \<longleftrightarrow> (\<forall>k f. bt_get (pending c) k = Some f \<longrightarrow> fit f)"

lemma mset_bt_remove:
  assumes "bt_inv m" and "bt_get m k = Some v"
  shows "mset (concat (map g m)) = mset (g (k, v)) + mset (concat (map g (bt_remove k m)))"
  using assms
proof (induction m)
  case (Cons kv m)
  obtain k' v' where kv: "kv = (k', v')" by (rule prod.exhaust)
  have inv: "bt_inv m" "\<forall>x \<in> set m. k' < fst x" using Cons.prems(1) by (auto simp: bt_inv_def kv)
  show ?case
  proof (cases "k' = k")
    case True
    have "bt_remove k m = m" using inv(2) True unfolding bt_remove_def by (intro filter_True) auto
    then show ?thesis using Cons.prems(2) True by (simp add: kv bt_get_def bt_remove_def)
  next
    case False
    then have "bt_get m k = Some v" using Cons.prems(2) by (simp add: kv bt_get_def)
    from Cons.IH [OF inv(1) this] False show ?thesis by (simp add: kv bt_remove_def ac_simps)
  qed
qed (simp add: bt_get_def)

lemma mset_bt_insert:
  assumes "bt_inv m" and "bt_get m k = None"
  shows "mset (concat (map g (bt_insert k v m))) = mset (g (k, v)) + mset (concat (map g m))"
proof -
  have "bt_remove k (bt_insert k v m) = m"
    using assms
  proof (induction k v m rule: bt_insert.induct)
    case (2 k v k' v' m)
    have inv: "bt_inv m" "\<forall>x \<in> set m. k' < fst x" using 2(2) by (auto simp: bt_inv_def)
    have "k < k' \<Longrightarrow> \<forall>x \<in> set m. fst x \<noteq> k" using inv(2) by auto
    then have "k < k' \<Longrightarrow> filter (\<lambda>(k', _). k' \<noteq> k) m = m" by (intro filter_True) auto
    with 2 inv show ?case by (auto simp: bt_remove_def bt_get_def split: if_splits)
  qed (simp add: bt_remove_def)
  with mset_bt_remove [of "bt_insert k v m" k v g] assms show ?thesis by simp
qed

text \<open>
  The end of a drain: the commit failed (and its blocks are there or not), or a prefix of the pending
  ranges is committed, up to the first gap or to a range that does not fit, where everything pending
  was thrown away.
\<close>

definition drained :: "('l fetched_range \<Rightarrow> bool) \<Rightarrow> 'l coordinator \<Rightarrow> block_header list \<Rightarrow> backfill_error + 'p \<Rightarrow> 'l coordinator \<Rightarrow> bool" where
  "drained fit c hs res c' \<longleftrightarrow>
     coord_wf c' \<and> all_pending fit c' \<and> parent_anchor c' = end_of (parent_anchor c) hs \<and>
     target_height c' = target_height c \<and>
     unat (next_height c) \<le> unat (next_height c') \<and>
     map (\<lambda>x. unat (height x)) hs = [unat (next_height c) ..< unat (next_height c')] \<and>
     (is_ok res \<and> bt_get (pending c') (next_height c') = None \<and>
        mset (pending_blocks c) = mset [unat (next_height c) ..< unat (next_height c')] + mset (pending_blocks c') \<or>
      (\<exists>e x. res = Inl (FetchedSuffixInvalidated (next_height c') e x)) \<and> pending c' = [] \<and>
        unat (next_height c') \<le> unat (target_height c'))"

lemma all_pending_remove: "all_pending fit c \<Longrightarrow> all_pending fit (c\<lparr>pending := bt_remove k (pending c)\<rparr>)"
  by (auto simp: all_pending_def split: if_splits)

lemma next_after_step:
  assumes "unat (to_block r) < 2 ^ 63" and "height x = to_block r"
  shows "unat (sat_add (height x) 1) = Suc (unat (to_block r))"
  using assms by (simp add: sat_simps)

lemma refused_range:
  assumes "validate_ready_range f c = (Inl e, c')" and "fetched_ok f" and "from_block (fr_range f) = next_height c"
  shows "(\<exists>x y. e = FetchedSuffixInvalidated (next_height c) x y) \<and> c' = c\<lparr>pending := []\<rparr>"
  using assms fetched_okD [OF assms(2)]
  by (cases "fr_headers f")
    (auto simp: validate_ready_range_def discard_suffix_def Let_def bt_clear_def split: option.splits if_splits)

context growing_sink
begin

lemma drain_outcome:
  "coord_wf c \<Longrightarrow> all_pending fit c \<Longrightarrow> unat (target_height c) < 2 ^ 63 \<Longrightarrow>
   drain_loop commit p c s = (res, c', s') \<Longrightarrow>
   \<exists>hs. follows (parent_anchor c) hs \<and>
     ((\<exists>m. res = Inl (Commit m)) \<and> maybe s hs s' \<or> added s hs s' \<and> drained fit c hs res c')"
proof (induction c arbitrary: p s rule: measure_induct_rule [of "\<lambda>c. length (pending c)"])
  case (less c)
  let ?c = "c\<lparr>pending := bt_remove (next_height c) (pending c)\<rparr>"
  have wf: "coord_wf ?c" by (rule coord_wf_remove [OF less.prems(1)])
  have ready: "fetched_ok f \<and> from_block (fr_range f) = next_height c \<and> fit f \<and>
      to_block (fr_range f) \<le> target_height c"
    if "bt_get (pending c) (next_height c) = Some f" for f
    using less.prems(1,2) that by (auto simp: coord_wf_def all_pending_def)
  have na: "next_after (parent_anchor ?c) (from_block (fr_range f))"
    if "from_block (fr_range f) = next_height c" for f :: "'a fetched_range"
    using less.prems(1) that by (simp add: coord_wf_def)
  from less.prems(4) show ?case
  proof (cases rule: drain_loop_cases)
    case idle
    with less.prems(1,2) show ?thesis
      by (intro exI [of _ "[]"]) (simp add: added_nil drained_def)
  next
    case (invalid f e)
    note f = ready [OF invalid(1)]
    have "from_block (fr_range f) = next_height ?c" using f by simp
    note bad = refused_range [OF invalid(4) conjunct1 [OF f] this]
    have "coord_wf c'" "all_pending fit c'"
      using bad validate_ready_range_wf [OF wf invalid(4)] by (auto simp: all_pending_def bt_get_def)
    moreover have "unat (next_height c) \<le> unat (target_height c)"
      using f fetched_okD(2,3) [of f] by (auto simp: fetched_ok_def word_le_nat_alt)
    ultimately show ?thesis
      using invalid(2,3) bad by (intro exI [of _ "[]"]) (auto simp: added_nil drained_def)
  next
    case (refused f e blk)
    note f = ready [OF refused(1)]
    from validate_ready_range_ok [OF refused(3) conjunct1 [OF f] na] f
    have fol: "follows (parent_anchor c) (fr_headers f)" by simp
    from commits [OF _ refused(4)] f have "\<exists>m. e = Commit m" "maybe s (fr_headers f) s' \<or> maybe s [] s'" by auto
    with fol refused(2) show ?thesis
      by (elim disjE) (auto intro: exI [of _ "fr_headers f"] exI [of _ "[]"])
  next
    case (step f blk c1 s1 u)
    note f = ready [OF step(1)]
    from validate_ready_range_ok [OF step(2) conjunct1 [OF f] na] f
    have ok: "blk = last (fr_headers f)" "c1 = ?c" "follows (parent_anchor c) (fr_headers f)" by auto
    note fh = fetched_okD [OF conjunct1 [OF f]]
    let ?c1 = "advance blk c1"
    have shorter: "length (pending ?c1) < length (pending c)"
      using step(1) by (simp add: ok advance_def)
    have c1: "coord_wf ?c1" "all_pending fit ?c1" "unat (target_height ?c1) < 2 ^ 63"
      "parent_anchor ?c1 = Some blk" "target_height ?c1 = target_height c"
      using coord_wf_advance wf ok(2) all_pending_remove [OF less.prems(2)] less.prems(3)
      by (auto simp: advance_def all_pending_def)
    have to63: "unat (to_block (fr_range f)) < 2 ^ 63"
      using f less.prems(3) by (simp add: word_le_nat_alt)
    have next1: "unat (next_height ?c1) = Suc (unat (to_block (fr_range f)))"
      using next_after_step [OF to63, of blk] fh(3) by (simp add: advance_def ok(1))
    from less.IH [OF shorter c1(1-3) step(4)] obtain hs where fol: "follows (Some blk) hs" and
      out: "(\<exists>m. res = Inl (Commit m)) \<and> maybe s1 hs s' \<or> added s1 hs s' \<and> drained fit ?c1 hs res c'"
      using c1(4) by auto
    have add1: "added s (fr_headers f) s1" using commits [OF _ step(3)] f by auto
    have e1: "end_of (parent_anchor c) (fr_headers f) = Some blk" using ok fh(1) by simp
    have follows: "follows (parent_anchor c) (fr_headers f @ hs)" using fol ok(3) e1 by (simp add: follows_append)
    have heights: "map (\<lambda>x. unat (height x)) (fr_headers f) = [unat (next_height c) ..< unat (next_height ?c1)]"
      using f next1 by (simp add: fetched_ok_def blocks_def)
    have le1: "unat (next_height c) \<le> unat (next_height ?c1)"
      using f next1 by (auto simp: fetched_ok_def word_le_nat_alt)
    have taken: "mset (pending_blocks c) = mset (blocks (fr_range f)) + mset (pending_blocks ?c1)"
      using mset_bt_remove [OF _ step(1), of "\<lambda>(_, f). blocks (fr_range f)"] less.prems(1)
      by (simp add: pending_blocks_def ok(2) advance_def coord_wf_def)
    have fb: "mset (blocks (fr_range f)) = mset [unat (next_height c) ..< unat (next_height ?c1)]"
      using f by (simp add: blocks_def next1)
    have join: "[a ..< b] @ [b ..< d] = [a ..< d]" if "a \<le> b" "b \<le> d" for a b d :: nat
      using that upt_add_eq_append [of a b "d - b"] by simp
    from out show ?thesis
    proof (elim disjE conjE)
      assume "\<exists>m. res = Inl (Commit m)" "maybe s1 hs s'"
      with maybe_append [OF add1] follows show ?thesis by blast
    next
      assume a: "added s1 hs s'" and d: "drained fit ?c1 hs res c'"
      have le2: "unat (next_height ?c1) \<le> unat (next_height c')" using d by (simp add: drained_def)
      have "end_of (parent_anchor c) (fr_headers f @ hs) = end_of (Some blk) hs"
        using e1 end_of_simps(3) [of "parent_anchor c" "fr_headers f" hs] by simp
      moreover have "map (\<lambda>x. unat (height x)) (fr_headers f @ hs) = [unat (next_height c) ..< unat (next_height c')]"
        using d heights join [OF le1 le2] by (simp add: drained_def)
      moreover have "mset [unat (next_height c) ..< unat (next_height c')] =
          mset [unat (next_height c) ..< unat (next_height ?c1)] + mset [unat (next_height ?c1) ..< unat (next_height c')]"
        unfolding join [OF le1 le2, symmetric] by simp
      ultimately have "drained fit c (fr_headers f @ hs) res c'"
        using d le1 le2 c1(4,5) unfolding drained_def taken fb by (auto simp: ac_simps)
      with added_append [OF add1 a] follows show ?thesis by blast
    qed
  qed
qed

lemma push_outcome:
  assumes c: "coord_wf c" "all_pending fit c" "unat (target_height c) < 2 ^ 63"
    and f: "fit f" "unat (next_height c) \<le> unat (from_block (fr_range f))"
      "unat (to_block (fr_range f)) \<le> unat (target_height c)" "bt_get (pending c) (from_block (fr_range f)) = None"
    and run: "push commit f c s = (res, c', s')"
  shows "\<exists>c1 hs. parent_anchor c1 = parent_anchor c \<and> next_height c1 = next_height c \<and> target_height c1 = target_height c \<and>
    mset (pending_blocks c1) = mset (blocks (fr_range f)) + mset (pending_blocks c) \<and>
    follows (parent_anchor c) hs \<and>
    ((\<exists>m. res = Inl (Commit m)) \<and> maybe s hs s' \<or> added s hs s' \<and> drained fit c1 hs res c')"
proof -
  let ?k = "from_block (fr_range f)"
  let ?c1 = "c\<lparr>pending := bt_insert ?k f (pending c)\<rparr>"
  have i: "insert_pending f c = (Inr (), ?c1)"
    using f by (simp add: insert_pending_def Let_def word_less_nat_alt)
  note wf = insert_pending_wf [OF c(1) fit_ok [OF f(1)] i]
  have ap: "all_pending fit ?c1"
    using c(1,2) f(1) by (auto simp: all_pending_def coord_wf_def split: if_splits)
  from run i have d: "drain_loop commit progress_default ?c1 s = (res, c', s')"
    by (simp add: push_def drain_ready_def)
  have "mset (pending_blocks ?c1) = mset (blocks (fr_range f)) + mset (pending_blocks c)"
    using mset_bt_insert [OF _ f(4), of "\<lambda>(_, f). blocks (fr_range f)" f] c(1)
    by (simp add: pending_blocks_def coord_wf_def)
  with drain_outcome [OF _ ap _ d] wf c(3) show ?thesis
    by (intro exI [of _ ?c1]) simp
qed

end

section \<open>Every block is in one place\<close>

definition setup_ok :: "(block_header \<Rightarrow> bool) \<Rightarrow> ('p, 'ev) backfill_context \<Rightarrow> bool" where
  "setup_ok genuine X \<longleftrightarrow> range_genuine genuine (rcl_provider (bx_client X)) \<and> 0 < fc_workers (bx_config X) \<and>
     range_ok (bx_full_range X)"

text \<open>
  The blocks that are pending in the coordinator, being fetched, queued, or not yet handed out.
\<close>

definition in_hand :: "('p, 'ev) backfill_context \<Rightarrow> 'p backfill_loop \<Rightarrow> nat multiset" where
  "in_hand X st =
     mset (pending_blocks (bl_coordinator st)) + mset (concat (map (\<lambda>(r, _). blocks r) (bl_tasks st))) +
     mset (concat (map blocks (bl_queued st))) +
     mset [unat (bl_next_unallocated st) ..< Suc (unat (to_block (bx_full_range X)))]"

definition committed :: "(block_header \<Rightarrow> bool) \<Rightarrow> ('p, 'ev) backfill_context \<Rightarrow> block_header option \<Rightarrow> commit_sink \<Rightarrow>
    'p backfill_loop \<Rightarrow> bool" where
  "committed genuine X anchor k0 st \<longleftrightarrow>
     (\<exists>hs. follows anchor hs \<and> grows genuine k0 hs (bl_sink st) \<and>
        parent_anchor (bl_coordinator st) = end_of anchor hs \<and>
        unat (from_block (bx_full_range X)) \<le> unat (next_height (bl_coordinator st)) \<and>
        map (\<lambda>x. unat (height x)) hs =
          [unat (from_block (bx_full_range X)) ..< unat (next_height (bl_coordinator st))])"

definition loop_shape :: "(block_header \<Rightarrow> bool) \<Rightarrow> ('p, 'ev) backfill_context \<Rightarrow> block_header option \<Rightarrow> commit_sink \<Rightarrow>
    'p backfill_loop \<Rightarrow> bool" where
  "loop_shape genuine X anchor k0 st \<longleftrightarrow>
     coord_wf (bl_coordinator st) \<and> all_pending (fits genuine) (bl_coordinator st) \<and>
     target_height (bl_coordinator st) = to_block (bx_full_range X) \<and>
     unat (next_height (bl_coordinator st)) \<le> Suc (unat (to_block (bx_full_range X))) \<and>
     bt_get (pending (bl_coordinator st)) (next_height (bl_coordinator st)) = None \<and>
     (\<forall>(r, ph) \<in> set (bl_tasks st). range_ok r \<and> phase_ok genuine r ph) \<and>
     (\<forall>r \<in> set (bl_queued st). range_ok r) \<and> sizer_wf (bl_sizer st) \<and>
     bl_in_flight st = length (bl_tasks st) \<and> length (bl_tasks st) \<le> fc_workers (bx_config X) \<and>
     committed genuine X anchor k0 st"

definition loop_core :: "(block_header \<Rightarrow> bool) \<Rightarrow> ('p, 'ev) backfill_context \<Rightarrow> block_header option \<Rightarrow> commit_sink \<Rightarrow>
    'p backfill_loop \<Rightarrow> bool" where
  "loop_core genuine X anchor k0 st \<longleftrightarrow> loop_shape genuine X anchor k0 st \<and>
     in_hand X st = mset [unat (next_height (bl_coordinator st)) ..< Suc (unat (to_block (bx_full_range X)))]"

text \<open>After the window is filled: it is full, or nothing is left to hand out.\<close>

definition window_full :: "('p, 'ev) backfill_context \<Rightarrow> 'p backfill_loop \<Rightarrow> bool" where
  "window_full X st \<longleftrightarrow> length (bl_tasks st) = fc_workers (bx_config X) \<or>
     bl_queued st = [] \<and> to_block (bx_full_range X) < bl_next_unallocated st"

lemma take_range_core:
  assumes "take_range (to_block (bx_full_range X)) st = Some (r, st')" and core: "loop_core genuine X anchor k0 st"
    and "setup_ok genuine X" and room: "length (bl_tasks st) < fc_workers (bx_config X)"
  shows "loop_core genuine X anchor k0 ((spawn_fetch r st')\<lparr>bl_in_flight := bl_in_flight st' + 1\<rparr>)"
proof -
  let ?t = "to_block (bx_full_range X)" and ?n = "bl_next_unallocated st"
  have t: "unat ?t < 2 ^ 63" using assms(3) by (simp add: setup_ok_def range_ok_def)
  show ?thesis
  proof (cases "bl_queued st")
    case (Cons q qs)
    with assms(1) have "r = q" "st' = st\<lparr>bl_queued := qs\<rparr>" by (auto simp: take_range_def)
    with core room Cons show ?thesis
      by (auto simp: loop_core_def loop_shape_def spawn_fetch_def in_hand_def committed_def ac_simps)
  next
    case Nil
    with assms(1) have nr: "next_range (bl_sizer st) ?n ?t = Some r"
      and st': "st' = st\<lparr>bl_next_unallocated := sat_add (to_block r) 1\<rparr>"
      by (auto simp: take_range_def)
    let ?e = "request_end (current_blocks (bl_sizer st)) ?n ?t"
    from nr have r: "r = \<lparr>from_block = ?n, to_block = ?e\<rparr>" and nt: "?n \<le> ?t"
      by (auto simp: next_range_def request_end_def split: if_splits)
    have b: "unat ?n \<le> unat ?e" "unat ?e \<le> unat ?t"
      using request_end_ge [OF nt] request_end_le [of _ ?n ?t] by (simp_all add: word_le_nat_alt)
    have s: "unat (sat_add ?e 1) = Suc (unat ?e)" using b t by (simp add: sat_simps)
    have "[unat ?n ..< Suc (unat ?t)] = [unat ?n ..< Suc (unat ?e)] @ [Suc (unat ?e) ..< Suc (unat ?t)]"
      using b upt_add_eq_append [of "unat ?n" "Suc (unat ?e)" "unat ?t - unat ?e"] by (simp del: upt_Suc)
    then have "mset [unat ?n ..< Suc (unat ?t)] = mset (blocks r) + mset [unat (sat_add ?e 1) ..< Suc (unat ?t)]"
      by (simp add: blocks_def r s del: upt_Suc)
    moreover have "range_ok r" using b t by (simp add: range_ok_def r word_le_nat_alt)
    ultimately show ?thesis
      using core room unfolding loop_core_def loop_shape_def spawn_fetch_def in_hand_def committed_def st'
      by (auto simp: r ac_simps simp del: upt_Suc)
  qed
qed

lemma refill_core:
  assumes "loop_core genuine X anchor k0 st" and "setup_ok genuine X"
  shows "loop_core genuine X anchor k0 (refill X st) \<and> window_full X (refill X st)"
proof -
  let ?w = "fc_workers (bx_config X)" and ?t = "to_block (bx_full_range X)"
  have "w = ?w \<Longrightarrow> t = ?t \<Longrightarrow> loop_core genuine X anchor k0 st \<Longrightarrow>
      loop_core genuine X anchor k0 (fill_fetch_window w t st) \<and> window_full X (fill_fetch_window w t st)" for w t
  proof (induction w t st rule: fill_fetch_window.induct)
    case (1 w t st)
    have len: "bl_in_flight st = length (bl_tasks st)" "length (bl_tasks st) \<le> ?w" using 1(4) by (simp_all add: loop_core_def loop_shape_def)
    show ?case
    proof (cases "bl_in_flight st < w")
      case False
      with 1 len show ?thesis by (subst fill_fetch_window.simps, subst fill_fetch_window.simps) (simp add: window_full_def)
    next
      case True
      show ?thesis
      proof (cases "take_range t st")
        case None
        then have "bl_queued st = []" "t < bl_next_unallocated st"
          by (auto simp: take_range_def next_range_def split: list.splits if_splits)
        with 1 None show ?thesis
          by (subst fill_fetch_window.simps, subst fill_fetch_window.simps) (simp add: window_full_def)
      next
        case (Some rs)
        obtain r st' where rs: "rs = (r, st')" by (rule prod.exhaust)
        have room: "length (bl_tasks st) < ?w" using True len 1(2) by simp
        from take_range_core [OF _ 1(4) assms(2) room] Some rs 1(3)
        have core: "loop_core genuine X anchor k0 ((spawn_fetch r st')\<lparr>bl_in_flight := bl_in_flight st' + 1\<rparr>)" by simp
        have "fill_fetch_window w t st = fill_fetch_window w t ((spawn_fetch r st')\<lparr>bl_in_flight := bl_in_flight st' + 1\<rparr>)"
          using True Some rs by (subst fill_fetch_window.simps) simp
        with 1(1) [OF True Some rs [symmetric] 1(2,3) core] show ?thesis by simp
      qed
    qed
  qed
  with assms(1) show ?thesis by (simp add: refill_def)
qed

section \<open>A task is joined\<close>

definition without_task :: "nat \<Rightarrow> 'p backfill_loop \<Rightarrow> 'p backfill_loop" where
  "without_task j st =
     st\<lparr>bl_tasks := take j (bl_tasks st) @ drop (Suc j) (bl_tasks st), bl_in_flight := bl_in_flight st - 1\<rparr>"

lemma without_task_shape:
  assumes "loop_core genuine X anchor k0 st" and "j < length (bl_tasks st)" and "bl_tasks st ! j = (r, ph)"
  shows "loop_shape genuine X anchor k0 (without_task j st)" "in_hand X st = mset (blocks r) + in_hand X (without_task j st)"
proof -
  have tasks: "bl_tasks st = take j (bl_tasks st) @ (r, ph) # drop (Suc j) (bl_tasks st)"
    using id_take_nth_drop [OF assms(2)] assms(3) by simp
  show "in_hand X st = mset (blocks r) + in_hand X (without_task j st)"
    unfolding in_hand_def without_task_def by (subst tasks) simp
  have "set (take j (bl_tasks st)) \<subseteq> set (bl_tasks st)" "set (drop (Suc j) (bl_tasks st)) \<subseteq> set (bl_tasks st)"
    by (simp_all add: set_take_subset set_drop_subset)
  with assms show "loop_shape genuine X anchor k0 (without_task j st)"
    unfolding loop_core_def loop_shape_def without_task_def committed_def by (auto dest: subsetD)
qed

lemma plan_loop_range_ok:
  assumes "m \<noteq> 0" and "unat t < 2 ^ 63" and "r \<in> set (plan_loop m f t)"
  shows "range_ok r"
proof -
  note le = conjunct1 [OF plan_loop_sizes [OF assms(1,3)]]
  then have "unat (to_block r) \<in> set (blocks r)" by (simp add: blocks_def word_le_nat_alt)
  then have "unat (to_block r) \<in> set (concat (map blocks (plan_loop m f t)))" using assms(3) by auto
  then have "unat (to_block r) \<in> {unat f ..< Suc (unat t)}" unfolding plan_loop_covers by (simp only: set_upt)
  with le assms(2) show ?thesis by (simp add: range_ok_def)
qed

lemma chunks_ok:
  assumes "unat t < 2 ^ 63"
  shows "\<forall>r \<in> set (plan_loop (max span 1) f t). range_ok r"
    "concat (map blocks (plan_loop (max span 1) f t)) = [unat f ..< Suc (unat t)]"
proof -
  have "max span 1 \<noteq> 0" by (auto simp: max_def)
  from plan_loop_range_ok [OF this assms] show "\<forall>r \<in> set (plan_loop (max span 1) f t). range_ok r" by blast
qed (rule plan_loop_covers)

lemma on_provider_limit_core:
  assumes "loop_shape genuine X anchor k0 st" and "range_ok r"
    and "mset (blocks r) + in_hand X st =
      mset [unat (next_height (bl_coordinator st)) ..< Suc (unat (to_block (bx_full_range X)))]"
  shows "loop_core genuine X anchor k0 (on_provider_limit r st)"
proof -
  let ?z = "record_provider_limit (bl_sizer st)"
  have z: "sizer_wf ?z"
    using assms(1) record_outcome_wf [of "bl_sizer st" ProviderLimited] by (simp add: loop_shape_def)
  have "unat (to_block r) < 2 ^ 63" using assms(2) by (simp add: range_ok_def)
  note ch = chunks_ok [OF this, of "current_blocks ?z" "from_block r"]
  have "concat (map blocks (plan_loop (max (current_blocks ?z) 1) (from_block r) (to_block r))) = blocks r"
    by (simp only: ch(2) blocks_def)
  with assms ch(1) z show ?thesis
    unfolding loop_core_def loop_shape_def on_provider_limit_def Let_def enqueue_chunks_front_eq in_hand_def committed_def
    by (auto simp: ac_simps)
qed

text \<open>The errors with which the loop can stop.\<close>

fun real_error :: "loop_error \<Rightarrow> bool" where
  "real_error (LoopFetch e) = True"
| "real_error (LoopBackfill (Commit m)) = True"
| "real_error LoopTaskPanicked = True"
| "real_error e = False"

definition ended_on_chain :: "(block_header \<Rightarrow> bool) \<Rightarrow> block_header option \<Rightarrow> commit_sink \<Rightarrow> 'p backfill_loop \<Rightarrow> bool" where
  "ended_on_chain genuine anchor k0 st \<longleftrightarrow> (\<exists>hs. follows anchor hs \<and> grew genuine k0 hs (bl_sink st))"

lemma committed_ended: "committed genuine X anchor k0 st \<Longrightarrow> ended_on_chain genuine anchor k0 st"
  by (auto simp: committed_def ended_on_chain_def grows_def)

lemma mset_upt_split: "a \<le> b \<Longrightarrow> b \<le> c \<Longrightarrow> mset [a ..< c] = mset [a ..< b] + mset [b ..< c]" for a b c :: nat
  using upt_add_eq_append [of a b "c - b"] by simp

lemma count_mset_upt: "count (mset [a ..< b]) x \<le> 1" for a b x :: nat
  using distinct_count_atmost_1 [of "[a ..< b]"] by (metis distinct_upt le_refl zero_le_one)

lemma fetched_room:
  assumes "loop_shape genuine X anchor k0 st" and f: "fetched_ok f"
    and hand: "mset (blocks (fr_range f)) + in_hand X st =
      mset [unat (next_height (bl_coordinator st)) ..< Suc (unat (to_block (bx_full_range X)))]"
  shows "unat (next_height (bl_coordinator st)) \<le> unat (from_block (fr_range f)) \<and>
    unat (to_block (fr_range f)) \<le> unat (target_height (bl_coordinator st)) \<and>
    bt_get (pending (bl_coordinator st)) (from_block (fr_range f)) = None"
proof -
  let ?c = "bl_coordinator st" and ?t = "to_block (bx_full_range X)" and ?r = "fr_range f"
  have le: "unat (from_block ?r) \<le> unat (to_block ?r)" using f by (simp add: fetched_ok_def word_le_nat_alt)
  have c: "coord_wf ?c" "target_height ?c = ?t" using assms(1) by (simp_all add: loop_shape_def)
  have "set_mset (mset (blocks ?r)) \<subseteq> set_mset (mset (blocks ?r) + in_hand X st)" by simp
  then have sub: "set (blocks ?r) \<subseteq> {unat (next_height ?c) ..< Suc (unat ?t)}" unfolding hand by (simp del: upt_Suc)
  have bounds: "unat (next_height ?c) \<le> unat (from_block ?r)" "unat (to_block ?r) \<le> unat (target_height ?c)"
    using sub le by (auto simp: blocks_def c(2))
  have new: "bt_get (pending ?c) (from_block ?r) = None"
  proof (rule ccontr)
    assume "bt_get (pending ?c) (from_block ?r) \<noteq> None"
    then obtain g where g: "bt_get (pending ?c) (from_block ?r) = Some g" by blast
    then have "fetched_ok g" "from_block (fr_range g) = from_block ?r" using c(1) by (auto simp: coord_wf_def)
    then have "unat (from_block ?r) \<in> set (blocks (fr_range g))"
      by (simp add: fetched_ok_def blocks_def word_le_nat_alt del: upt_Suc)
    then have "unat (from_block ?r) \<in> set (pending_blocks ?c)"
      using bt_get_Some_set [OF g] by (force simp: pending_blocks_def)
    then have "unat (from_block ?r) \<in># in_hand X st" by (simp add: in_hand_def)
    moreover have "unat (from_block ?r) \<in># mset (blocks ?r)" using le by (simp add: blocks_def del: upt_Suc)
    ultimately have "1 < count (mset (blocks ?r) + in_hand X st) (unat (from_block ?r))"
      unfolding count_union count_greater_zero_iff [symmetric] by linarith
    then show False unfolding hand using count_mset_upt [of "unat (next_height ?c)"] by (metis leD)
  qed
  from bounds new show ?thesis by simp
qed

lemma on_fetched_core:
  assumes ready: "setup_ok genuine X" and shape: "loop_shape genuine X anchor k0 st" and f: "fits genuine f"
    and hand: "mset (blocks (fr_range f)) + in_hand X st =
      mset [unat (next_height (bl_coordinator st)) ..< Suc (unat (to_block (bx_full_range X)))]"
    and run: "on_fetched X f st = (res, st')"
  shows "(res = Inr () \<and> loop_core genuine X anchor k0 st') \<or>
    (\<exists>e. res = Inl e \<and> real_error e \<and> ended_on_chain genuine anchor k0 st')"
proof -
  let ?c = "bl_coordinator st" and ?t = "to_block (bx_full_range X)" and ?r = "fr_range f" and ?z = "record_success (bl_sizer st)"
  have t: "unat ?t < 2 ^ 63" using ready by (simp add: setup_ok_def range_ok_def)
  have ok: "fetched_ok f" using f by (simp add: fits_def)
  then have le: "unat (from_block ?r) \<le> unat (to_block ?r)" by (simp add: fetched_ok_def word_le_nat_alt)
  have z: "sizer_wf ?z"
    using shape record_outcome_wf [of "bl_sizer st" Success] by (simp add: loop_shape_def)
  have c: "coord_wf ?c" "all_pending (fits genuine) ?c" "target_height ?c = ?t" "unat (target_height ?c) < 2 ^ 63"
    using shape t by (simp_all add: loop_shape_def)
  have bounds: "unat (next_height ?c) \<le> unat (from_block ?r)" "unat (to_block ?r) \<le> unat (target_height ?c)"
    and new: "bt_get (pending ?c) (from_block ?r) = None"
    using fetched_room [OF shape ok hand] by simp_all
  obtain pr c' k' where pu: "push (sink_commit (bx_show_error X) (bx_faults X)) f ?c (bl_sink st) = (pr, c', k')"
    by (rule prod_cases3)
  from db_sink.push_outcome [OF c(1,2,4) f bounds new pu] obtain c1 hs where
    c1: "parent_anchor c1 = parent_anchor ?c" "next_height c1 = next_height ?c" "target_height c1 = target_height ?c"
      "mset (pending_blocks c1) = mset (blocks ?r) + mset (pending_blocks ?c)" and
    fol: "follows (parent_anchor ?c) hs" and
    out: "(\<exists>m. pr = Inl (Commit m)) \<and> grew genuine (bl_sink st) hs k' \<or>
      grows genuine (bl_sink st) hs k' \<and> drained (fits genuine) c1 hs pr c'" by blast
  from shape obtain hs0 where hs0: "follows anchor hs0" "grows genuine k0 hs0 (bl_sink st)"
    "parent_anchor ?c = end_of anchor hs0" "unat (from_block (bx_full_range X)) \<le> unat (next_height ?c)"
    "map (\<lambda>x. unat (height x)) hs0 = [unat (from_block (bx_full_range X)) ..< unat (next_height ?c)]"
    by (auto simp: loop_shape_def committed_def)
  have fol': "follows anchor (hs0 @ hs)" using fol hs0 by (simp add: follows_append)
  from out show ?thesis
  proof (elim disjE conjE)
    assume e: "\<exists>m. pr = Inl (Commit m)" and g: "grew genuine (bl_sink st) hs k'"
    with run pu have "\<exists>m. res = Inl (LoopBackfill (Commit m))" "bl_sink st' = k'"
      by (auto simp: on_fetched_def Let_def)
    moreover have "grew genuine k0 (hs0 @ hs) k'" using db_sink.maybe_append [OF hs0(2) g] .
    ultimately show ?thesis using fol' by (auto simp: ended_on_chain_def)
  next
    assume g: "grows genuine (bl_sink st) hs k'" and d: "drained (fits genuine) c1 hs pr c'"
    have n: "unat (next_height ?c) \<le> unat (next_height c')" using d c1 by (simp add: drained_def)
    have com: "committed genuine X anchor k0 st''" if "bl_sink st'' = k'" "bl_coordinator st'' = c'" for st'' :: "'a backfill_loop"
    proof -
      have "parent_anchor c' = end_of anchor (hs0 @ hs)" using d c1 hs0(3) end_of_simps(3) [of anchor hs0 hs] by (simp add: drained_def)
      moreover have "map (\<lambda>x. unat (height x)) (hs0 @ hs) = [unat (from_block (bx_full_range X)) ..< unat (next_height c')]"
        using d c1 hs0(4,5) n upt_add_eq_append [of "unat (from_block (bx_full_range X))" "unat (next_height ?c)"
            "unat (next_height c') - unat (next_height ?c)"] by (simp add: drained_def)
      ultimately show ?thesis
        using fol' db_sink.added_append [OF hs0(2) g] hs0(4) n that unfolding committed_def
        by (intro exI [of _ "hs0 @ hs"]) simp
    qed
    have c': "coord_wf c'" "all_pending (fits genuine) c'" "target_height c' = ?t"
      using d c1 c(3) by (simp_all add: drained_def)
    from d have "is_ok pr \<and> bt_get (pending c') (next_height c') = None \<and>
        mset (pending_blocks c1) = mset [unat (next_height c1) ..< unat (next_height c')] + mset (pending_blocks c') \<or>
      (\<exists>e x. pr = Inl (FetchedSuffixInvalidated (next_height c') e x)) \<and> pending c' = [] \<and>
        unat (next_height c') \<le> unat (target_height c1)"
    proof -
      have "target_height c' = target_height c1" using d by (simp add: drained_def)
      with d show ?thesis unfolding drained_def by metis
    qed
    then show ?thesis
    proof (elim disjE conjE exE)
      assume o: "is_ok pr" "bt_get (pending c') (next_height c') = None"
        "mset (pending_blocks c1) = mset [unat (next_height c1) ..< unat (next_height c')] + mset (pending_blocks c')"
      then obtain p where p: "pr = Inr p" by (auto simp: is_ok_iff)
      with run pu have r: "res = Inr ()" "bl_sink st' = k'" "bl_coordinator st' = c'" "bl_sizer st' = ?z"
        "bl_tasks st' = bl_tasks st" "bl_queued st' = bl_queued st" "bl_next_unallocated st' = bl_next_unallocated st"
        "bl_in_flight st' = bl_in_flight st"
        by (auto simp: on_fetched_def Let_def)
      have full: "mset [unat (next_height ?c) ..< unat (next_height c')] + in_hand X st' =
          mset [unat (next_height ?c) ..< Suc (unat ?t)]"
        using o(3) c1 unfolding hand [symmetric] in_hand_def r by (simp add: ac_simps)
      have top: "unat (next_height c') \<le> Suc (unat ?t)"
      proof (cases "next_height c' = next_height ?c")
        case True
        with bounds le c(3) show ?thesis by simp
      next
        case False
        with n have "unat (next_height c') - 1 \<in> set [unat (next_height ?c) ..< unat (next_height c')]"
          by (auto simp: word_eq_unat)
        then have "unat (next_height c') - 1 \<in># mset [unat (next_height ?c) ..< Suc (unat ?t)]"
          unfolding full [symmetric] by simp
        then show ?thesis by (auto simp del: upt_Suc)
      qed
      have "in_hand X st' = mset [unat (next_height c') ..< Suc (unat ?t)]"
        using full mset_upt_split [OF n top] by (metis add_left_cancel)
      with shape c' o(2) top com [OF r(2,3)] r z have "loop_core genuine X anchor k0 st'"
        by (simp add: loop_core_def loop_shape_def)
      with r(1) show ?thesis by simp
    next
      fix e x assume i: "pr = Inl (FetchedSuffixInvalidated (next_height c') e x)" "pending c' = []"
        "unat (next_height c') \<le> unat (target_height c1)"
      with run pu have r: "res = Inr ()" "bl_sink st' = k'" "bl_coordinator st' = c'" "bl_sizer st' = ?z"
        "bl_tasks st' = []" "bl_queued st' = plan_loop (max (current_blocks ?z) 1) (next_height c') ?t"
        "bl_next_unallocated st' = sat_add ?t 1" "bl_in_flight st' = 0"
        by (auto simp: on_fetched_def Let_def enqueue_chunks_front_eq)
      have s: "unat (sat_add ?t 1) = Suc (unat ?t)" using t by (simp add: sat_simps)
      have "in_hand X st' = mset [unat (next_height c') ..< Suc (unat ?t)]"
        using i(2) unfolding in_hand_def pending_blocks_def r s chunks_ok(2) [OF t] by simp
      with shape c' i(2,3) c1(3) c(3) com [OF r(2,3)] r z chunks_ok(1) [OF t] have "loop_core genuine X anchor k0 st'"
        by (simp add: loop_core_def loop_shape_def bt_get_def)
      with r(1) show ?thesis by simp
    qed
  qed
qed

section \<open>The loop keeps the invariant\<close>

lemma joined_core:
  assumes ready: "setup_ok genuine X" and core: "loop_core genuine X anchor k0 st" and j: "j < length (bl_tasks st)"
    and ended: "has_ended (snd (bl_tasks st ! j))" and oj: "on_joined X (snd (bl_tasks st ! j)) (without_task j st) = (r1, st1)"
  shows "(r1 = Inr () \<and> loop_core genuine X anchor k0 st1) \<or>
    (\<exists>e. r1 = Inl e \<and> real_error e \<and> ended_on_chain genuine anchor k0 st1)"
proof -
  obtain r ph where jt: "bl_tasks st ! j = (r, ph)" by (rule prod.exhaust)
  note w = without_task_shape [OF core j jt]
  let ?st = "without_task j st"
  have hand: "mset (blocks r) + in_hand X ?st =
      mset [unat (next_height (bl_coordinator ?st)) ..< Suc (unat (to_block (bx_full_range X)))]"
    using core w(2) by (simp add: loop_core_def without_task_def)
  have ph: "range_ok r" "phase_ok genuine r ph"
    using core j jt nth_mem [OF j] by (auto simp: loop_core_def loop_shape_def)
  have stop: ?thesis if "r1 = Inl e" "real_error e" "st1 = ?st" for e
  proof -
    have "committed genuine X anchor k0 ?st" using w(1) by (simp add: loop_shape_def)
    from committed_ended [OF this] that show ?thesis by simp
  qed
  show ?thesis
  proof (cases ph)
    case (FetchDone fr)
    show ?thesis
    proof (cases fr)
      case (Inr f)
      with ph(2) FetchDone have f: "fits genuine f" "fr_range f = r" by simp_all
      have "on_fetched X f ?st = (r1, st1)" using oj jt FetchDone Inr by simp
      from on_fetched_core [OF ready w(1) f(1) _ this] hand f(2) show ?thesis by simp
    next
      case (Inl e)
      show ?thesis
      proof (cases "\<exists>q x. e = FrProviderLimit q x")
        case True
        with ph(2) FetchDone Inl obtain x where "e = FrProviderLimit r x" by auto
        with oj jt FetchDone Inl on_provider_limit_core [OF w(1) ph(1) hand] show ?thesis by simp
      next
        case False
        then have "on_joined X ph ?st = (Inl (LoopFetch e), ?st)" using FetchDone Inl by (cases e) auto
        with oj jt show ?thesis by (intro stop [of "LoopFetch e"]) auto
      qed
    qed
  qed (use ended jt oj stop [of LoopTaskPanicked] in auto)
qed

lemma join_core:
  assumes ready: "setup_ok genuine X" and core: "loop_core genuine X anchor k0 st" and j: "j < length (bl_tasks st)"
    and ended: "has_ended (snd (bl_tasks st ! j))" and run: "join_task X j st = (res, st')"
  shows "(res = Inr () \<and> loop_core genuine X anchor k0 st' \<and> window_full X st') \<or>
    (\<exists>e. res = Inl e \<and> real_error e \<and> ended_on_chain genuine anchor k0 st')"
proof -
  obtain r1 st1 where oj: "on_joined X (snd (bl_tasks st ! j)) (without_task j st) = (r1, st1)" by (rule prod.exhaust)
  have "tryS (on_joined X (snd (bl_tasks st ! j)) (without_task j st)) (\<lambda>_ st. (Inr (), refill X st)) = (res, st')"
    using run by (simp add: join_task_def without_task_def Let_def)
  with joined_core [OF ready core j ended oj] oj refill_core [of genuine X anchor k0 st1, OF _ ready] show ?thesis by auto
qed

lemma worker_step_core:
  assumes ready: "setup_ok genuine X" and core: "loop_core genuine X anchor k0 st" and j: "j < length (bl_tasks st)"
  shows "loop_core genuine X anchor k0 (worker_step X j st)"
    "length (bl_tasks (worker_step X j st)) = length (bl_tasks st)"
    "window_full X (worker_step X j st) = window_full X st"
proof -
  obtain r ph where jt: "bl_tasks st ! j = (r, ph)" by (rule prod.exhaust)
  obtain ph' s' where step: "fetch_step (bx_alloy X) (bx_client X) (bx_config X) r ph (bl_shared st) = (ph', s')"
    by (rule prod.exhaust)
  have ws: "worker_step X j st = st\<lparr>bl_tasks := (bl_tasks st)[j := (r, ph')], bl_shared := s'\<rparr>"
    by (simp add: worker_step_def jt step)
  have "range_ok r" "phase_ok genuine r ph"
    using core j jt nth_mem [OF j] by (auto simp: loop_core_def loop_shape_def)
  then have ok: "range_ok r" "phase_ok genuine r ph'"
    using fetch_step_ok [OF _ _ _ step] ready by (auto simp: setup_ok_def)
  have "map (\<lambda>(r, _). blocks r) ((bl_tasks st)[j := (r, ph')]) = map (\<lambda>(r, _). blocks r) (bl_tasks st)"
    using jt j by (simp add: map_update list_update_same_conv)
  then have "in_hand X (worker_step X j st) = in_hand X st" by (simp add: in_hand_def ws)
  with core ok j show "loop_core genuine X anchor k0 (worker_step X j st)"
    by (auto simp: loop_core_def loop_shape_def ws committed_def dest!: set_update_subset_insert [THEN subsetD])
qed (auto simp: worker_step_def window_full_def split: prod.splits)

text \<open>A window that is full and has no task: everything is handed out and taken.\<close>

lemma no_task_complete:
  assumes ready: "setup_ok genuine X" and core: "loop_core genuine X anchor k0 st" "window_full X st" and "bl_tasks st = []"
  shows "is_complete (bl_coordinator st) \<and> unat (next_height (bl_coordinator st)) = Suc (unat (to_block (bx_full_range X)))"
proof -
  let ?c = "bl_coordinator st" and ?t = "to_block (bx_full_range X)"
  have "bl_queued st = []" "?t < bl_next_unallocated st"
    using core(2) ready assms(4) by (auto simp: window_full_def setup_ok_def)
  then have hand: "mset (pending_blocks ?c) = mset [unat (next_height ?c) ..< Suc (unat ?t)]"
    using core(1) assms(4) by (simp add: loop_core_def in_hand_def word_less_nat_alt del: upt_Suc)
  have wf: "coord_wf ?c" "bt_get (pending ?c) (next_height ?c) = None" "target_height ?c = ?t"
    using core(1) by (simp_all add: loop_core_def loop_shape_def)
  have top: "\<not> unat (next_height ?c) \<le> unat ?t"
  proof
    assume "unat (next_height ?c) \<le> unat ?t"
    then have "unat (next_height ?c) \<in># mset (pending_blocks ?c)" unfolding hand by (simp del: upt_Suc)
    then obtain k f where kf: "(k, f) \<in> set (pending ?c)" "unat (next_height ?c) \<in> set (blocks (fr_range f))"
      by (auto simp: pending_blocks_def)
    have "distinct (map fst (pending ?c))"
      using wf(1) strict_sorted_iff by (auto simp: coord_wf_def bt_inv_def)
    then have g: "bt_get (pending ?c) k = Some f" using kf(1) by (simp add: bt_get_def)
    then have f: "fetched_ok f" "from_block (fr_range f) = k" using wf(1) by (auto simp: coord_wf_def)
    have "unat k \<in># mset (pending_blocks ?c)"
      using kf(1) f by (force simp: pending_blocks_def fetched_ok_def blocks_def word_le_nat_alt simp del: upt_Suc)
    then have "unat (next_height ?c) \<le> unat k" unfolding hand by (simp del: upt_Suc)
    moreover have "unat k \<le> unat (next_height ?c)" using kf(2) f(2) by (simp add: blocks_def del: upt_Suc)
    ultimately have "k = next_height ?c" by (simp add: word_eq_unat)
    with g wf(2) show False by simp
  qed
  moreover have "unat (next_height ?c) \<le> Suc (unat ?t)"
    using core(1) by (simp add: loop_core_def loop_shape_def)
  ultimately show ?thesis using wf(3) by (simp add: is_complete_def word_less_nat_alt)
qed

lemma turn_core:
  assumes ready: "setup_ok genuine X" and core: "loop_core genuine X anchor k0 st" "window_full X st"
    and ne: "bl_tasks st \<noteq> []" and run: "loop_turn X i st = (res, st')"
  shows "(res = Inr () \<and> loop_core genuine X anchor k0 st' \<and> window_full X st') \<or>
    (\<exists>e. res = Inl e \<and> real_error e \<and> ended_on_chain genuine anchor k0 st')"
proof -
  let ?j = "i mod length (bl_tasks st)"
  have j: "?j < length (bl_tasks st)" using ne by simp
  show ?thesis
  proof (cases "has_ended (snd (bl_tasks st ! ?j))")
    case True
    with run have "join_task X ?j st = (res, st')" by (simp add: loop_turn_def Let_def)
    from join_core [OF ready core(1) j True this] show ?thesis .
  next
    case False
    with run have "res = Inr ()" "st' = worker_step X ?j st" by (auto simp: loop_turn_def Let_def)
    with worker_step_core [OF ready core(1) j] core(2) show ?thesis by simp
  qed
qed

lemma run_turns_outcome:
  assumes ready: "setup_ok genuine X"
  shows "loop_core genuine X anchor k0 st \<Longrightarrow> window_full X st \<Longrightarrow> run_turns X sched st = (res, st') \<Longrightarrow>
    (res = None \<and> loop_core genuine X anchor k0 st' \<and> window_full X st' \<and> bl_tasks st' \<noteq> []) \<or>
    (\<exists>p. res = Some (Inr p) \<and> loop_core genuine X anchor k0 st' \<and> is_complete (bl_coordinator st') \<and>
       unat (next_height (bl_coordinator st')) = Suc (unat (to_block (bx_full_range X)))) \<or>
    (\<exists>e. res = Some (Inl e) \<and> real_error e \<and> ended_on_chain genuine anchor k0 st')"
proof (induction sched arbitrary: st)
  case Nil
  show ?case
  proof (cases "bl_tasks st = []")
    case True
    with Nil no_task_complete [OF ready Nil(1,2) True] show ?thesis by (auto simp: run_turns.simps [of X "[]"] loop_end_def)
  qed (use Nil in \<open>simp add: run_turns.simps [of X "[]"]\<close>)
next
  case (Cons i sched)
  show ?case
  proof (cases "bl_tasks st = []")
    case True
    with Cons no_task_complete [OF ready Cons.prems(1,2) True] show ?thesis
      by (auto simp: run_turns.simps [of X "i # sched"] loop_end_def)
  next
    case False
    obtain r st1 where t: "loop_turn X i st = (r, st1)" by (rule prod.exhaust)
    with False Cons.prems(3) have "(case r of Inl e \<Rightarrow> (Some (Inl e), st1) | Inr _ \<Rightarrow> run_turns X sched st1) = (res, st')"
      by (simp add: run_turns.simps [of X "i # sched"] split: sum.splits)
    with turn_core [OF ready Cons.prems(1,2) False t] Cons.IH [of st1] show ?thesis by auto
  qed
qed

lemma unfilled_core:
  assumes ready: "setup_ok genuine X" and c: "coordinator_new (from_block (bx_full_range X)) (to_block (bx_full_range X)) anchor = Inr c"
    and z: "sizer_wf z"
  shows "loop_core genuine X anchor k \<lparr>bl_tasks = [], bl_queued = [], bl_next_unallocated = from_block (bx_full_range X),
    bl_in_flight = 0, bl_sizer = z, bl_progress = progress_default, bl_coordinator = c, bl_sink = k, bl_shared = s\<rparr>"
proof -
  let ?r = "bx_full_range X"
  have c': "next_height c = from_block ?r" "target_height c = to_block ?r" "parent_anchor c = anchor" "pending c = []"
    using c by (auto simp: coordinator_new_def try_simps bt_new_def split: if_splits option.splits)
  have "coord_wf c" using coordinator_new_wf [OF c] by simp
  moreover have "committed genuine X anchor k st" if "bl_sink st = k" "bl_coordinator st = c" for st :: "'a backfill_loop"
    using that c' unfolding committed_def by (intro exI [of _ "[]"]) (simp add: db_sink.added_nil)
  moreover have "unat (from_block ?r) \<le> unat (to_block ?r)"
    using ready by (simp add: setup_ok_def range_ok_def word_le_nat_alt)
  ultimately show ?thesis
    using c' z by (simp add: loop_core_def loop_shape_def in_hand_def pending_blocks_def all_pending_def bt_get_def del: upt_Suc)
qed

lemma loop_start_core:
  assumes ready: "setup_ok genuine X" and c: "coordinator_new (from_block (bx_full_range X)) (to_block (bx_full_range X)) anchor = Inr c"
    and z: "sizer_wf z"
  shows "loop_core genuine X anchor k (loop_start X z c k s) \<and> window_full X (loop_start X z c k s)"
  unfolding loop_start_def by (rule refill_core [OF unfilled_core [OF ready c z] ready])

section \<open>The properties of the loop\<close>

lemma fetch_outcome:
  assumes ready: "setup_ok genuine X"
    and c: "coordinator_new (from_block (bx_full_range X)) (to_block (bx_full_range X)) anchor = Inr c"
    and z: "sizer_wf z" and run: "fetch_and_commit_ranges X sched z c k s = (res, st)"
  shows "(res = None \<and> loop_core genuine X anchor k st \<and> window_full X st \<and> bl_tasks st \<noteq> []) \<or>
    (\<exists>p. res = Some (Inr p) \<and> loop_core genuine X anchor k st \<and> is_complete (bl_coordinator st) \<and>
       unat (next_height (bl_coordinator st)) = Suc (unat (to_block (bx_full_range X)))) \<or>
    (\<exists>e. res = Some (Inl e) \<and> real_error e \<and> ended_on_chain genuine anchor k st)"
proof -
  note start = loop_start_core [OF ready c z, of k s]
  from run_turns_outcome [OF ready conjunct1 [OF start] conjunct2 [OF start]
      run [unfolded fetch_and_commit_ranges_def]] show ?thesis .
qed

text \<open>
  C24: The backfill loses no block and fetches none twice.  At any moment of any interleaving in which the
  loop still runs, the blocks that wait in the coordinator, are being fetched, are queued, or are not
  handed out yet are together exactly those from the next block to commit to the target, each once;
  at most \<open>workers\<close> fetches are in flight, and fewer only when nothing is left to hand out.
\<close>
theorem every_block_in_one_place:
  assumes "setup_ok genuine X"
    and "coordinator_new (from_block (bx_full_range X)) (to_block (bx_full_range X)) anchor = Inr c"
    and "sizer_wf z" and "fetch_and_commit_ranges X sched z c k s = (None, st)"
  shows "in_hand X st =
      mset [unat (next_height (bl_coordinator st)) ..< Suc (unat (to_block (bx_full_range X)))] \<and>
    bl_in_flight st = length (bl_tasks st) \<and> 0 < length (bl_tasks st) \<and>
    length (bl_tasks st) \<le> fc_workers (bx_config X) \<and>
    (length (bl_tasks st) < fc_workers (bx_config X) \<longrightarrow>
       bl_queued st = [] \<and> to_block (bx_full_range X) < bl_next_unallocated st)"
  using fetch_outcome [OF assms]
  by (auto simp: loop_core_def loop_shape_def window_full_def)

text \<open>
  Whatever the interleaving, the node, the connection to the database and the budget do, the backfill
  adds one linked chain to the canonical blocks, which starts at the child of the parent anchor, and
  nothing else; and when it reports success, that chain is the whole range, the checkpoint is at its
  last block, and so is the hash that the command compares with the captured head.
\<close>
theorem backfill_commits_whole_range:
  assumes "setup_ok genuine X"
    and "coordinator_new (from_block (bx_full_range X)) (to_block (bx_full_range X)) anchor = Inr c"
    and "sizer_wf z" and "good_sink genuine (cm, db, n)"
    and "fetch_and_commit_ranges X sched z c (cm, db, n) s = (res, st)" and "bl_sink st = (cm', db', n')"
  shows "\<exists>hs. follows anchor hs \<and> db_inv db' \<and> cm_writer cm' = cm_writer cm \<and>
    canon_set (chain_id (cm_writer cm)) db' = canon_set (chain_id (cm_writer cm)) db \<union> set hs \<and>
    (\<forall>p. res = Some (Inr p) \<longrightarrow>
       map (\<lambda>x. unat (height x)) hs = blocks (bx_full_range X) \<and>
       checkpoint_at (chain_id (cm_writer cm)) (Some (last hs)) db' \<and>
       last_committed_hash cm' = Some (hash (last hs)))"
proof -
  let ?k = "(cm, db, n)" and ?r = "bx_full_range X"
  have grown: "db_inv db'" "cm_writer cm' = cm_writer cm" "canon_set (chain_id (cm_writer cm)) db' = canon_set (chain_id (cm_writer cm)) db \<union> set hs"
    if "grew genuine ?k hs (bl_sink st)" for hs
    using that assms(4,6) by (auto simp: grew_def good_sink_def Let_def)
  from fetch_outcome [OF assms(1-3,5)]
  show ?thesis
  proof (elim disjE conjE exE)
    assume "res = None" "loop_core genuine X anchor ?k st"
    then obtain hs where "follows anchor hs" "grew genuine ?k hs (bl_sink st)"
      by (auto simp: loop_core_def loop_shape_def committed_def grows_def)
    with grown \<open>res = None\<close> show ?thesis by auto
  next
    fix p assume p: "res = Some (Inr p)" "loop_core genuine X anchor ?k st"
      "unat (next_height (bl_coordinator st)) = Suc (unat (to_block ?r))"
    then obtain hs where hs: "follows anchor hs" "grows genuine ?k hs (bl_sink st)"
      "map (\<lambda>x. unat (height x)) hs = blocks ?r"
      by (auto simp: loop_core_def loop_shape_def committed_def blocks_def)
    have "blocks ?r \<noteq> []" using assms(1) by (simp add: setup_ok_def range_ok_def blocks_def word_le_nat_alt)
    then have ne: "hs \<noteq> []" using hs(3) by auto
    have g: "grew genuine ?k hs (bl_sink st)" using hs(2) by (simp add: grows_def)
    from g hs(2) ne assms(4,6) have "checkpoint_at (chain_id (cm_writer cm)) (Some (last hs)) db'"
      "last_committed_hash cm' = Some (hash (last hs))"
      by (auto simp: grows_def grew_def Let_def)
    with grown [OF g] hs show ?thesis by blast
  next
    fix e assume "res = Some (Inl e)" "ended_on_chain genuine anchor ?k st"
    with grown show ?thesis by (auto simp: ended_on_chain_def)
  qed
qed

text \<open>
  The loop never ends before the range is complete: its only errors are those of a fetch that
  was given up, of a commit that the database refused, and a panic of a worker.  No interleaving and no
  behaviour of the node makes the coordinator refuse a range as stale, duplicate, out of the
  target or empty, or leaves blocks behind.
\<close>
theorem loop_errors_are_real:
  assumes "setup_ok genuine X"
    and "coordinator_new (from_block (bx_full_range X)) (to_block (bx_full_range X)) anchor = Inr c"
    and "sizer_wf z" and "fetch_and_commit_ranges X sched z c k s = (Some (Inl e), st)"
  shows "(\<exists>x. e = LoopFetch x) \<or> (\<exists>m. e = LoopBackfill (Commit m)) \<or> e = LoopTaskPanicked"
proof -
  have "real_error e"
    using fetch_outcome [OF assms] by auto
  then show ?thesis by (cases e rule: real_error.cases) auto
qed

text \<open>Blocks above everything canonical always go through when nothing is lost.\<close>

lemma fresh_blocks_commit:
  assumes good: "names_blocks genuine" "db_inv db" "rows_genuine genuine (chain_id w) db"
    and ident: "hm_get (chain_identity db) (chain_id w) \<noteq> None"
    and bs: "bs \<noteq> []" "\<forall>b \<in> set bs. block_fits b \<and> genuine (ib_header b) \<and>
        (\<forall>y \<in> canon_set (chain_id w) db. height y < height (ib_header b))"
      "sorted_wrt (\<lambda>x y. height (ib_header x) < height (ib_header y)) bs"
    and events: "db_events d = map DApply bs"
  shows "\<exists>rep db'. apply_batch clean w d db = (Inr rep, db')"
proof -
  let ?c = "chain_id w" and ?t = "\<lparr>tx_db = db, tx_statements = 1, gate_step = 0\<rparr>"
  let ?anc = "db_common_ancestor d" and ?x = "ib_header (last bs)"
  have ready: "chain_ready genuine ?c (tx_db ?t)" using good ident by (simp add: chain_ready_def)
  obtain rep t1 where E: "apply_events clean None w ?anc (db_events d) (apply_report_default, ?anc) ?t = (Inr (rep, Some ?x), t1)"
    using applies_progress [OF ready good(1), of bs ?anc apply_report_default ?anc] bs by (auto simp: events)
  have "\<forall>e \<in> set (db_events d). genuine (durable_header e)" using bs(2) by (auto simp: events)
  from apply_events_effect [OF E _ _ good(1) this] good
  have eff: "canon_set ?c (tx_db t1) = fold event_effect (db_events d) (canon_set ?c db)"
    "rows_genuine genuine ?c (tx_db t1)" by simp_all
  have wf: "rows_wf (tx_db t1)" using apply_events_inv [OF E] good(2) by (simp add: db_inv_def)
  have "?x \<in> canon_set ?c (tx_db t1)"
    using event_effect_reorg [of "[]" bs "canon_set ?c db"] bs(1) by (simp add: eff(1) events)
  moreover have gx: "genuine ?x" using bs by simp
  ultimately have "canonical_at ?c (hash ?x) (uint (height ?x)) (tx_db t1)"
    using canonical_at_canon_set [OF wf gx eff(2) good(1)] by simp
  from move_target_progress [OF this wf] obtain t2 where m: "move_target clean None w (Some ?x) t1 = (Inr (), t2)" ..
  have "run_stmt clean (\<lambda>db. (Inr (), db)) \<lparr>tx_db = db, tx_statements = 0, gate_step = 0\<rparr> = (Inr (), ?t)"
    by (simp add: run_stmt_def clean_def)
  with E m have "batch_body clean None w d \<lparr>tx_db = db, tx_statements = 0, gate_step = 0\<rparr> = (Inr rep, t2)"
    by (simp add: batch_body_def)
  with bs(1) show ?thesis
    by (auto simp: apply_batch_def apply_batch_inner_def durable_is_empty_def events clean_def)
qed

section \<open>A range of one block\<close>

definition one_block :: json where
  "one_block = JObj [(''hash'', JNum 1), (''parentHash'', JNum 0), (''number'', JNum 0), (''timestamp'', JNum 7)]"

definition one_header :: block_header where "one_header = BlockHeader (fill 1) (fill 0) 0"

definition one_provider :: "nat rpc_provider" where
  "one_provider = toy_provider\<lparr>rp_block_batch := (\<lambda>ns p. (Inr (\<lambda>n. Inr one_block), p + 1)),
     rp_get_logs := (\<lambda>f p. (Inr (JArr []), p + 1))\<rparr>"

definition no_alloy :: "string alloy" where
  "no_alloy = \<lparr>parse_ev = Inl, ev_name = id, ev_signature = id, ev_selector = (\<lambda>_. fill 0), ev_inputs = (\<lambda>_. []),
     decode_parts = (\<lambda>_ _ _. Inl ''no''), parse_addr = Inl, show_addr = (\<lambda>_. [])\<rparr>"

definition one_context :: "(nat, string) backfill_context" where
  "one_context = \<lparr>bx_alloy = no_alloy,
     bx_client = (rls_client toy_node)\<lparr>rcl_provider := one_provider\<rparr>,
     bx_config = \<lparr>fc_workers = 1, fc_retry_policy = \<lparr>max_attempts = 8, base_delay = 500000000, max_delay = 30000000000, jitter = 500000000\<rparr>,
       fc_rpc_timeout = 1, fc_filter = None, fc_abi_registry = None\<rparr>,
     bx_show_error = (\<lambda>_. ''database''), bx_faults = (\<lambda>_. clean), bx_full_range = \<lparr>from_block = 0, to_block = 0\<rparr>\<rparr>"

definition one_db :: database where "one_db = empty_db\<lparr>chain_identity := [(1, fill 5)]\<rparr>"

definition one_sizer :: log_range_sizer where "one_sizer = \<lparr>current_blocks = 4, min_blocks = 1, max_blocks = 8\<rparr>"

definition one_coordinator :: "indexed_block coordinator" where
  "one_coordinator = \<lparr>next_height = 0, target_height = 0, parent_anchor = None, pending = bt_new\<rparr>"

definition one_sink :: commit_sink where "one_sink = (committer_new sample_writer None, one_db, 0)"

lemma one_fetch: "fetch_blocks_by_number one_provider r p = (Inr bs, q) \<Longrightarrow> \<forall>b \<in> set bs. ib_header b = one_header"
proof -
  have b: "tryR (tryR (response one_provider (nullable (rpc_block_of_json one_provider)) (Inr one_block)) (\<lambda>b. ok_or b e)) 
      (\<lambda>b. indexed_block_from_rpc b []) = Inr x \<Longrightarrow> ib_header x = one_header" for e x
    by (auto simp: one_provider_def toy_provider_def response_def nullable_def rpc_block_of_json_def one_block_def j_field_def
        quantity_def parse_quantity_def j_u64_def u64_of_int_def indexed_block_from_rpc_def rpc_block_header_def one_header_def
        valid_unix_timestamp_def i64_max_def split: if_splits)
  have "mapR f xs = Inr ys \<Longrightarrow> mapR g ys = Inr zs \<Longrightarrow> (\<And>x y. tryR (f x) g = Inr y \<Longrightarrow> P y) \<Longrightarrow> z \<in> set zs \<Longrightarrow> P z"
    for f :: "u64 \<Rightarrow> rpc_error + rpc_block" and g :: "rpc_block \<Rightarrow> rpc_error + indexed_block" and xs ys zs z P
    by (induction xs arbitrary: ys zs) (auto simp: try_simps, metis)
  note m = this
  assume "fetch_blocks_by_number one_provider r p = (Inr bs, q)"
  then obtain ys where "mapR (\<lambda>n. tryR (response one_provider (nullable (rpc_block_of_json one_provider)) (Inr one_block))
       (\<lambda>b. ok_or b (MissingBlockNumber n))) (range_heights r) = Inr ys" "mapR (\<lambda>b. indexed_block_from_rpc b []) ys = Inr bs"
    by (auto simp: fetch_blocks_by_number_def fetch_rpc_blocks_by_number_def one_provider_def toy_provider_def try_simps)
  from m [OF this, of "\<lambda>x. ib_header x = one_header"] b show ?thesis by blast
qed

lemma one_setup: "setup_ok (\<lambda>x. x = one_header) one_context"
  using one_fetch by (auto simp: setup_ok_def range_genuine_def one_context_def range_ok_def)

lemma one_coordinator: "coordinator_new (from_block (bx_full_range one_context)) (to_block (bx_full_range one_context)) None = Inr one_coordinator"
  by (simp add: coordinator_new_def one_context_def one_coordinator_def)

lemma one_sizer: "sizer_wf one_sizer" by (simp add: sizer_wf_def one_sizer_def)

lemma one_sink: "good_sink (\<lambda>x. x = one_header) one_sink"
proof -
  have rows: "get_block c h one_db = None" for c h by (simp add: get_block_def one_db_def empty_db_def hm_get_def hm_new_def)
  have "rows_wf one_db"
    by (auto simp: rows_wf_def rows block_at_def) (auto simp: one_db_def empty_db_def hm_inv_def hm_new_def hm_get_def)
  moreover have "journal_wf one_db"
    by (auto simp: journal_wf_def canonical_def rows block_at_def) (auto simp: one_db_def empty_db_def replay_def hm_get_def hm_new_def hm_inv_def split: if_splits)
  ultimately show ?thesis by (simp add: good_sink_def one_sink_def db_inv_def rows_genuine_def rows names_blocks_def)
qed

definition one_indexed :: indexed_block where
  "one_indexed = \<lparr>ib_header = one_header, timestamp = 7, ib_status = Unsafe, ib_status_source = Observed, block_logs = []\<rparr>"

definition one_fetched :: "indexed_block fetched_range" where
  "one_fetched = \<lparr>fr_range = \<lparr>from_block = 0, to_block = 0\<rparr>, fr_headers = [one_header], fr_logs = [one_indexed]\<rparr>"


text \<open>The database and the sink after the commit.\<close>

definition one_final :: database where
  "one_final = one_db\<lparr>
     blocks_table := [((1, fill 1), \<lparr>br_parent = fill 0, br_height = 0, br_timestamp = 7, is_canonical = True,
       br_status = ''unsafe'', br_status_source = ''observed''\<rparr>)],
     checkpoint_table := [(1, 0, fill 1)],
     outbox_table := [\<lparr>event_id = 1, ev_chain = 1, ev_kind = ''apply'', ev_block_hash = fill 1, ev_block_height = 0,
       ev_payload = outbox_payload \<lparr>chain_id = 1\<rparr> ''apply'' one_header (Some one_indexed), ev_created = 0, published_at = None\<rparr>],
     outbox_seq := 2\<rparr>"

definition one_written :: commit_sink where
  "one_written = (\<lparr>cm_writer = sample_writer, cm_parent_anchor = Some one_header, last_committed_hash = Some (fill 1)\<rparr>, one_final, 1)"

lemma one_commit: "sink_commit (\<lambda>_. ''database'') (\<lambda>_. clean) one_fetched one_sink = (Inr (), one_written)"
proof -
  let ?d = "\<lparr>db_transition = Bootstrap, db_common_ancestor = None, db_events = [DApply one_indexed]\<rparr>"
  have d: "from_chain_batch \<lparr>transition = Bootstrap, common_ancestor = None, events = [Apply one_header]\<rparr> [one_indexed] = Inr ?d"
    by (simp add: from_chain_batch_def Let_def one_indexed_def hm_insert_def hm_remove_def hm_new_def hm_get_def hm_keys_def)
  have "\<exists>rep. apply_batch clean sample_writer ?d one_db = (Inr rep, one_final)"
    by (simp add: apply_batch_def apply_batch_inner_def durable_is_empty_def batch_body_def run_stmt_def clean_def crash_gate_hit_def
        apply_event_def one_indexed_def one_header_def upsert_block_def upsert_logs_def append_outbox_def move_target_def move_checkpoint_def
        pg_height_def i64_max_def convert_def one_db_def empty_db_def hm_new_def hm_get_def hm_insert_def sample_writer_def
        get_block_def height_taken_def canonical_rows_def Let_def canonical_at_def upsert_canonical_def block_to_row_def
        insert_outbox_def upsert_checkpoint_def block_at_def apply_report_default_def set_row_def one_final_def)
  moreover have "hash one_header = fill 1" by (simp add: one_header_def)
  ultimately show ?thesis
    by (auto simp: sink_commit_def one_sink_def committer_new_def committer_commit_def one_fetched_def d one_written_def Let_def)
qed

lemma one_push:
  "\<exists>p c. push (sink_commit (\<lambda>_. ''database'') (\<lambda>_. clean)) one_fetched one_coordinator one_sink = (Inr p, c, one_written) \<and> is_complete c"
proof -
  let ?co = "sink_commit (\<lambda>_. ''database'') (\<lambda>_. clean)"
  let ?c = "one_coordinator\<lparr>pending := [(0, one_fetched)]\<rparr>"
  have i: "insert_pending one_fetched one_coordinator = (Inr (), ?c)"
    by (simp add: insert_pending_def one_coordinator_def one_fetched_def bt_new_def bt_get_def)
  have g: "bt_get (pending ?c) (next_height ?c) = Some one_fetched"
    by (simp add: one_coordinator_def bt_get_def)
  have v: "validate_ready_range one_fetched (?c\<lparr>pending := bt_remove (next_height ?c) (pending ?c)\<rparr>) =
      (Inr one_header, one_coordinator\<lparr>pending := []\<rparr>)"
    by (simp add: validate_ready_range_def one_fetched_def one_coordinator_def ok_or_def bt_remove_def)
  have "drain_loop ?co progress_default ?c one_sink =
      drain_loop ?co (note_commit one_fetched one_header progress_default) (advance one_header (one_coordinator\<lparr>pending := []\<rparr>)) one_written"
    by (subst drain_loop.simps) (simp only: g v one_commit option.case prod.case sum.case)
  also have "\<dots> = (Inr (note_commit one_fetched one_header progress_default), advance one_header (one_coordinator\<lparr>pending := []\<rparr>), one_written)"
    by (subst drain_loop.simps) (simp add: advance_def bt_get_def)
  moreover have "is_complete (advance one_header (one_coordinator\<lparr>pending := []\<rparr>) :: indexed_block coordinator)"
    by (simp add: is_complete_def advance_def one_coordinator_def one_header_def sat_add_def)
  ultimately show ?thesis by (simp add: push_def i drain_ready_def)
qed

lemma one_answers:
  "fetch_anchored_logs one_provider r flt p = (Inr [], p + 1)"
  "fetch_blocks_by_number one_provider \<lparr>from_block = 0, to_block = 0\<rparr> p = (Inr [one_indexed], p + 1)"
proof -
  show "fetch_anchored_logs one_provider r flt p = (Inr [], p + 1)"
    by (simp add: fetch_anchored_logs_def fetch_rpc_logs_def one_provider_def response_def j_list_def)
  have "range_heights \<lparr>from_block = 0, to_block = 0\<rparr> = [0]" by (simp add: range_heights_def blocks_def)
  then show "fetch_blocks_by_number one_provider \<lparr>from_block = 0, to_block = 0\<rparr> p = (Inr [one_indexed], p + 1)"
    by (simp add: fetch_blocks_by_number_def fetch_rpc_blocks_by_number_def one_provider_def toy_provider_def response_def nullable_def
        rpc_block_of_json_def one_block_def j_field_def quantity_def parse_quantity_def j_u64_def u64_of_int_def
        indexed_block_from_rpc_def rpc_block_header_def one_header_def one_indexed_def valid_unix_timestamp_def i64_max_def)
qed

definition one_budget :: "u64 \<Rightarrow> u64 \<Rightarrow> rpc_budget" where
  "one_budget n m = \<lparr>max_requests = 9, max_cost_units = 99, requests = n, cost_units = m\<rparr>"

definition one_step :: "fetch_phase \<Rightarrow> nat shared \<Rightarrow> fetch_phase \<times> nat shared" where
  "one_step ph s = fetch_step (bx_alloy one_context) (bx_client one_context) (bx_config one_context) \<lparr>from_block = 0, to_block = 0\<rparr> ph s"

lemma one_steps:
  "one_step (RecordLogs 1) (one_budget 0 0, p) = (AskLogs 1, one_budget 1 5, p)"
  "one_step (AskLogs 1) (b, p) = (RecordBlocks [] 1 0, b, p + 1)"
  "one_step (RecordBlocks [] 1 0) (one_budget 1 5, p) = (RecordBlocks [] 1 (Suc 0), one_budget 2 6, p)"
  "one_step (RecordBlocks [] 1 (Suc 0)) (b, p) = (AskBlocks [] 1, b, p)"
  "one_step (AskBlocks [] 1) (b, p) = (FetchDone (Inr one_fetched), b, p + 1)"
proof -
  let ?r = "\<lparr>from_block = 0, to_block = 0\<rparr> :: backfill_range"
  show "one_step (RecordLogs 1) (one_budget 0 0, p) = (AskLogs 1, one_budget 1 5, p)"
    "one_step (RecordBlocks [] 1 0) (one_budget 1 5, p) = (RecordBlocks [] 1 (Suc 0), one_budget 2 6, p)"
    by (simp_all add: one_step_def shared_record_def budget_record_def Let_def one_budget_def sat_add_def blocks_def)
  show "one_step (RecordBlocks [] 1 (Suc 0)) (b, p) = (AskBlocks [] 1, b, p)"
    by (simp add: one_step_def blocks_def)
  have c: "rcl_provider (bx_client one_context) = one_provider" "fc_abi_registry (bx_config one_context) = None"
    "rcl_late (bx_client one_context) = (\<lambda>_ _ _. False)"
    by (simp_all add: one_context_def toy_node_def)
  show "one_step (AskLogs 1) (b, p) = (RecordBlocks [] 1 0, b, p + 1)"
    by (simp add: one_step_def ask_logs_def under_limit_def c one_answers judge_logs_def)
  have "fetched_new ?r [one_header] [one_indexed] = Inr one_fetched"
    by (simp add: fetched_new_def validate_headers_def range_len_def sat_add_def sat_sub_def one_fetched_def one_header_def)
  then have "assemble_range A (bx_config one_context) ?r [] [one_indexed] = Inr one_fetched" for A
    by (simp add: assemble_range_def c grouped_by_height_def decoded_def one_indexed_def)
  then show "one_step (AskBlocks [] 1) (b, p) = (FetchDone (Inr one_fetched), b, p + 1)"
    by (simp add: one_step_def ask_blocks_def under_limit_def c one_answers judge_blocks_def)
qed

text \<open>The loop while its one task is in a phase, and how it ends.\<close>

definition one_loop :: "fetch_phase \<Rightarrow> nat shared \<Rightarrow> nat backfill_loop" where
  "one_loop ph s = \<lparr>bl_tasks = [(\<lparr>from_block = 0, to_block = 0\<rparr>, ph)], bl_queued = [], bl_next_unallocated = 1, bl_in_flight = 1,
     bl_sizer = one_sizer, bl_progress = progress_default, bl_coordinator = one_coordinator, bl_sink = one_sink, bl_shared = s\<rparr>"

lemma one_start: "loop_start one_context one_sizer one_coordinator one_sink s = one_loop (RecordLogs 1) s"
  by (simp add: loop_start_def refill_def fill_fetch_window.simps take_range_def next_range_def one_context_def one_sizer_def
      sat_add_def spawn_fetch_def one_loop_def)

lemma one_turn:
  assumes "\<not> has_ended ph" and "one_step ph s = (ph', s')"
  shows "run_turns one_context (0 # sched) (one_loop ph s) = run_turns one_context sched (one_loop ph' s')"
  using assms by (subst run_turns.simps) (simp add: loop_turn_def worker_step_def one_loop_def one_step_def)

lemma one_end:
  "\<exists>p st. run_turns one_context (0 # sched) (one_loop (FetchDone (Inr one_fetched)) s) = (Some (Inr p), st) \<and>
     bl_sink st = one_written \<and> bl_shared st = s"
proof -
  obtain p c where p: "push (sink_commit (\<lambda>_. ''database'') (\<lambda>_. clean)) one_fetched one_coordinator one_sink = (Inr p, c, one_written)"
    and c: "is_complete c" using one_push by blast
  have j: "\<exists>st. loop_turn one_context 0 (one_loop (FetchDone (Inr one_fetched)) s) = (Inr (), st) \<and> bl_tasks st = [] \<and>
      bl_coordinator st = c \<and> bl_sink st = one_written \<and> bl_shared st = s"
    using p by (simp add: loop_turn_def join_task_def one_loop_def on_fetched_def one_context_def refill_def fill_fetch_window.simps
        take_range_def next_range_def)
  then obtain st where st: "loop_turn one_context 0 (one_loop (FetchDone (Inr one_fetched)) s) = (Inr (), st)" "bl_tasks st = []"
    "bl_coordinator st = c" "bl_sink st = one_written" "bl_shared st = s" by blast
  have "run_turns one_context (0 # sched) (one_loop (FetchDone (Inr one_fetched)) s) = run_turns one_context sched st"
    by (subst run_turns.simps) (simp add: st(1), simp add: one_loop_def)
  with st c show ?thesis by (simp add: run_turns.simps [of _ _ st] loop_end_def)
qed

lemma one_run:
  "\<exists>p st. fetch_and_commit_ranges one_context (replicate 6 0) one_sizer one_coordinator one_sink (one_budget 0 0, q) = (Some (Inr p), st) \<and>
     bl_sink st = one_written \<and> bl_shared st = (one_budget 2 6, q + 2)"
proof -
  have r: "replicate 6 0 = [0, 0, 0, 0, 0, 0 :: nat]" by (simp add: eval_nat_numeral)
  show ?thesis
    unfolding fetch_and_commit_ranges_def one_start r
    using one_end [of "[]"] by (simp add: one_turn [OF _ one_steps(1)] one_turn [OF _ one_steps(2)] one_turn [OF _ one_steps(3)]
        one_turn [OF _ one_steps(4)] one_turn [OF _ one_steps(5)])
qed

theorem every_block_in_one_place_witness:
  "\<exists>st. fetch_and_commit_ranges one_context [] one_sizer one_coordinator one_sink (one_budget 0 0, 0) = (None, st) \<and>
     in_hand one_context st = mset [0] \<and> length (bl_tasks st) = 1"
proof -
  have run: "fetch_and_commit_ranges one_context [] one_sizer one_coordinator one_sink (one_budget 0 0, 0) =
      (None, one_loop (RecordLogs 1) (one_budget 0 0, 0))"
    by (simp add: fetch_and_commit_ranges_def one_start run_turns.simps) (simp add: one_loop_def)
  from every_block_in_one_place [OF one_setup one_coordinator one_sizer run] run show ?thesis
    by (auto simp: one_loop_def one_coordinator_def one_context_def)
qed

theorem backfill_commits_whole_range_witness:
  "\<exists>p st hs. fetch_and_commit_ranges one_context (replicate 6 0) one_sizer one_coordinator one_sink (one_budget 0 0, 0) = (Some (Inr p), st) \<and>
     canon_set 1 (fst (snd (bl_sink st))) = set hs \<and> map (\<lambda>x. unat (height x)) hs = [0]"
proof -
  obtain p st where run: "fetch_and_commit_ranges one_context (replicate 6 0) one_sizer one_coordinator one_sink (one_budget 0 0, 0) =
      (Some (Inr p), st)" using one_run by blast
  obtain cm db n where k: "bl_sink st = (cm, db, n)" by (rule prod_cases3)
  have w: "chain_id (cm_writer (committer_new sample_writer None)) = 1" by (simp add: committer_new_def sample_writer_def)
  have e: "canon_set 1 one_db = {}"
    by (simp add: canon_set_def get_block_def one_db_def empty_db_def hm_get_def hm_new_def)
  have b: "blocks (bx_full_range one_context) = [0]" by (simp add: one_context_def blocks_def)
  from backfill_commits_whole_range [OF one_setup one_coordinator one_sizer one_sink [unfolded one_sink_def]
      run [unfolded one_sink_def] k] run k show ?thesis
    unfolding w e b by auto
qed

theorem loop_errors_are_real_witness:
  "\<exists>e st. fetch_and_commit_ranges one_context (replicate 2 0) one_sizer one_coordinator one_sink (one_budget 9 9, 0) = (Some (Inl e), st) \<and>
     (\<exists>x. e = LoopFetch x)"
proof -
  have s: "one_step (RecordLogs 1) (one_budget 9 9, 0) = (FetchDone (Inl (FrBackfill (RequestBudgetExceeded 9))), one_budget 9 9, 0)"
    by (simp add: one_step_def shared_record_def budget_record_def Let_def one_budget_def sat_add_def)
  have "run_turns one_context [0] (one_loop (FetchDone (Inl e)) s) = (Some (Inl (LoopFetch e)),
      (one_loop (FetchDone (Inl e)) s)\<lparr>bl_tasks := [], bl_in_flight := 0\<rparr>)" if "e = FrBackfill x" for e x s
    by (subst run_turns.simps) (simp add: loop_turn_def join_task_def one_loop_def that)
  then obtain st where run: "fetch_and_commit_ranges one_context (replicate 2 0) one_sizer one_coordinator one_sink (one_budget 9 9, 0) =
      (Some (Inl (LoopFetch (FrBackfill (RequestBudgetExceeded 9)))), st)"
    by (simp add: fetch_and_commit_ranges_def one_start eval_nat_numeral one_turn [OF _ s])
  from loop_errors_are_real [OF one_setup one_coordinator one_sizer run] run show ?thesis by auto
qed

end
