(* ===== verification/Backfill_Ends.thy ===== *)
theory Backfill_Ends
  imports Backfill_Loop_Correct
begin

text \<open>
  The loop of the backfill ends under every interleaving: a potential that every turn lowers.
\<close>

section \<open>The loop ends\<close>

text \<open>
  Every request is counted before it is made, so the requests that are left bound what can still happen.
  A worker that has paid for a request carries enough potential for handing all the blocks out again,
  which is the most that its result can lead to.
\<close>

definition budget_ok :: "rpc_budget \<Rightarrow> bool" where
  "budget_ok b \<longleftrightarrow> max_requests b \<noteq> - 1 \<and> requests b \<le> max_requests b"

definition requests_left :: "rpc_budget \<Rightarrow> nat" where
  "requests_left b = unat (max_requests b) - unat (requests b)"

definition range_size :: "('p, 'ev) backfill_context \<Rightarrow> nat" where
  "range_size X = length (blocks (bx_full_range X))"

fun phase_weight :: "nat \<Rightarrow> fetch_phase \<Rightarrow> nat" where
  "phase_weight n (RecordLogs a) = 2"
| "phase_weight n (AskLogs a) = 3 * n + 9"
| "phase_weight n (RecordBlocks ls a k) = 3 * n + (if k = 0 then 6 else 8)"
| "phase_weight n (AskBlocks ls a) = 3 * n + 7"
| "phase_weight n (FetchDone (Inr f)) = 3 * n + 4"
| "phase_weight n (FetchDone (Inl (FrProviderLimit r e))) = 3 * n + 4"
| "phase_weight n (FetchDone (Inl e)) = 1"
| "phase_weight n FetchPanicked = 1"

definition queue_weight :: "('p, 'ev) backfill_context \<Rightarrow> 'p backfill_loop \<Rightarrow> nat" where
  "queue_weight X st =
     3 * length (concat (map blocks (bl_queued st))) +
     3 * length [unat (bl_next_unallocated st) ..< Suc (unat (to_block (bx_full_range X)))]"

definition potential :: "('p, 'ev) backfill_context \<Rightarrow> 'p backfill_loop \<Rightarrow> nat" where
  "potential X st =
     requests_left (fst (bl_shared st)) * (3 * range_size X + 10) +
     sum_list (map (\<lambda>(r, ph). phase_weight (range_size X) ph) (bl_tasks st)) + queue_weight X st"

lemma phase_weight_pos: "0 < phase_weight n ph"
  by (cases "(n, ph)" rule: phase_weight.cases) simp_all

lemma phase_weight_done: "phase_weight n (FetchDone res) \<le> 3 * n + 4"
  by (cases "(n, FetchDone res)" rule: phase_weight.cases) simp_all

lemma shared_record_left:
  assumes "shared_record m cost s = (res, s')" and "budget_ok (fst s)"
  shows "budget_ok (fst s') \<and> (\<forall>e. res = Inl e \<longrightarrow> fst s' = fst s \<and> (\<exists>x. e = FrBackfill x)) \<and>
    (\<forall>u. res = Inr u \<longrightarrow> requests_left (fst s) = Suc (requests_left (fst s')))"
proof -
  obtain b p where s: "s = (b, p)" by (rule prod.exhaust)
  have lim: "unat (max_requests b) < 18446744073709551615" "unat (requests b) \<le> unat (max_requests b)"
    using assms(2) u64_le_max [of "max_requests b"]
    by (auto simp: budget_ok_def s word_eq_unat unat_max_word word_le_nat_alt)
  then have "unat (sat_add (requests b) 1) = Suc (unat (requests b))" by (simp add: sat_simps)
  with assms lim show ?thesis
    by (auto simp: shared_record_def budget_record_def Let_def s budget_ok_def requests_left_def
        word_less_nat_alt word_le_nat_alt split: if_splits)
qed

lemma fetch_step_weight:
  assumes step: "fetch_step A c cfg r ph s = (ph', s')" and "\<not> has_ended ph" and r: "range_ok r" and b: "budget_ok (fst s)"
  shows "budget_ok (fst s') \<and>
    requests_left (fst s') * (3 * n + 10) + phase_weight n ph' < requests_left (fst s) * (3 * n + 10) + phase_weight n ph"
proof (cases ph)
  case (RecordLogs a)
  obtain res s1 where rec: "shared_record GetLogs 0 s = (res, s1)" by (rule prod.exhaust)
  note left = shared_record_left [OF rec b]
  from left step RecordLogs rec show ?thesis by (cases res) auto
next
  case (AskLogs a)
  obtain answer p where ask: "ask_logs c cfg r (snd s) = (answer, p)" by (rule prod.exhaust)
  show ?thesis
  proof (cases "judge_logs cfg r a answer")
    case (Gone e)
    with step AskLogs ask b phase_weight_done [of n "Inl e"] show ?thesis by auto
  qed (use step AskLogs ask b in auto)
next
  case (RecordBlocks ls a k)
  have ne: "0 < length (blocks r)" using r by (simp add: range_ok_def length_blocks)
  show ?thesis
  proof (cases "k < length (blocks r)")
    case True
    obtain res s1 where rec: "shared_record GetBlockByNumber 0 s = (res, s1)" by (rule prod.exhaust)
    note left = shared_record_left [OF rec b]
    from left step RecordBlocks rec True show ?thesis by (cases res) auto
  next
    case False
    with step RecordBlocks ne b show ?thesis by auto
  qed
next
  case (AskBlocks ls a)
  obtain answer p where ask: "ask_blocks c cfg r (snd s) = (answer, p)" by (rule prod.exhaust)
  show ?thesis
  proof (cases "judge_blocks cfg r a answer")
    case (Gone e)
    with step AskBlocks ask b phase_weight_done [of n "Inl e"] show ?thesis by auto
  next
    case (Answered bs)
    with step AskBlocks ask b phase_weight_done [of n "assemble_range A cfg r ls bs"] show ?thesis by auto
  qed (use step AskBlocks ask b in auto)
qed (use assms in auto)

lemma take_range_weight:
  assumes "take_range (to_block (bx_full_range X)) st = Some (r, st')"
    and "\<forall>r \<in> set (bl_queued st). range_ok r" and "unat (to_block (bx_full_range X)) < 2 ^ 63"
  shows "queue_weight X st' + 2 < queue_weight X st \<and> bl_tasks st' = bl_tasks st \<and> bl_shared st' = bl_shared st"
proof (cases "bl_queued st")
  case (Cons q qs)
  moreover obtain n where "length (blocks q) = Suc n" using assms(2) Cons by (simp add: range_ok_def length_blocks)
  ultimately show ?thesis using assms(1) by (auto simp: take_range_def queue_weight_def)
next
  case Nil
  let ?t = "to_block (bx_full_range X)" and ?n = "bl_next_unallocated st"
  from Nil assms(1) have nr: "next_range (bl_sizer st) ?n ?t = Some r"
    and st': "st' = st\<lparr>bl_next_unallocated := sat_add (to_block r) 1\<rparr>"
    by (auto simp: take_range_def)
  from nr have r: "to_block r = request_end (current_blocks (bl_sizer st)) ?n ?t" and nt: "?n \<le> ?t"
    by (auto simp: next_range_def request_end_def split: if_splits)
  have b: "unat ?n \<le> unat (to_block r)" "unat (to_block r) \<le> unat ?t"
    using request_end_ge [OF nt] request_end_le [of _ ?n ?t] r by (simp_all add: word_le_nat_alt)
  have "unat (sat_add (to_block r) 1) = Suc (unat (to_block r))" using b assms(3) by (simp add: sat_simps)
  then have q: "queue_weight X st' = 3 * (Suc (unat ?t) - Suc (unat (to_block r)))" "queue_weight X st = 3 * (Suc (unat ?t) - unat ?n)"
    using Nil by (simp_all only: queue_weight_def st' length_upt) simp_all
  with b show ?thesis by (simp add: st')
qed

lemma refill_potential:
  assumes "loop_core genuine X anchor k0 st" and ready: "setup_ok genuine X"
  shows "potential X (refill X st) \<le> potential X st \<and> bl_shared (refill X st) = bl_shared st"
proof -
  let ?w = "fc_workers (bx_config X)" and ?t = "to_block (bx_full_range X)"
  have t: "unat ?t < 2 ^ 63" using ready by (simp add: setup_ok_def range_ok_def)
  have "w = ?w \<Longrightarrow> t = ?t \<Longrightarrow> loop_core genuine X anchor k0 st \<Longrightarrow>
      potential X (fill_fetch_window w t st) \<le> potential X st \<and> bl_shared (fill_fetch_window w t st) = bl_shared st" for w t
  proof (induction w t st rule: fill_fetch_window.induct)
    case (1 w t st)
    have len: "bl_in_flight st = length (bl_tasks st)" "\<forall>r \<in> set (bl_queued st). range_ok r"
      using 1(4) by (simp_all add: loop_core_def loop_shape_def)
    show ?case
    proof (cases "bl_in_flight st < w \<and> take_range t st \<noteq> None")
      case False
      then have "fill_fetch_window w t st = st" by (subst fill_fetch_window.simps) (auto split: option.splits)
      then show ?thesis by simp
    next
      case True
      then obtain r st' where tk: "take_range t st = Some (r, st')" by auto
      let ?st = "(spawn_fetch r st')\<lparr>bl_in_flight := bl_in_flight st' + 1\<rparr>"
      have room: "length (bl_tasks st) < ?w" using True len(1) 1(2) by simp
      from take_range_core [OF _ 1(4) ready room] tk 1(3) have core: "loop_core genuine X anchor k0 ?st" by simp
      from take_range_weight [of X st r st'] tk 1(3) len(2) t
      have w: "queue_weight X st' + 2 < queue_weight X st" "bl_tasks st' = bl_tasks st" "bl_shared st' = bl_shared st" by auto
      have "queue_weight X ?st = queue_weight X st'" by (simp add: queue_weight_def spawn_fetch_def)
      with w have "potential X ?st \<le> potential X st" "bl_shared ?st = bl_shared st"
        by (simp_all add: potential_def spawn_fetch_def)
      moreover have "fill_fetch_window w t st = fill_fetch_window w t ?st"
        using True tk by (subst fill_fetch_window.simps) simp
      ultimately show ?thesis using 1(1) [OF conjunct1 [OF True] tk refl 1(2,3) core] by simp
    qed
  qed
  with assms(1) show ?thesis by (simp add: refill_def)
qed

lemma core_size:
  assumes "loop_core genuine X anchor k0 st"
  shows "size (in_hand X st) \<le> range_size X"
proof -
  have "unat (from_block (bx_full_range X)) \<le> unat (next_height (bl_coordinator st))"
    using assms by (auto simp: loop_core_def loop_shape_def committed_def)
  then have "length [unat (next_height (bl_coordinator st)) ..< Suc (unat (to_block (bx_full_range X)))] \<le> range_size X"
    by (simp only: range_size_def blocks_def length_upt diff_le_mono2)
  then show ?thesis using assms by (simp only: loop_core_def size_mset)
qed

lemma queue_weight_hand: "queue_weight X st \<le> 3 * size (in_hand X st)"
  by (simp only: queue_weight_def in_hand_def size_union size_mset distrib_left)

lemma sum_without:
  "j < length xs \<Longrightarrow> sum_list (map g xs) = g (xs ! j) + sum_list (map g (take j xs @ drop (Suc j) xs))" for g :: "'a \<Rightarrow> nat"
  by (subst id_take_nth_drop [of j xs]) simp_all

lemma on_joined_potential:
  assumes ready: "setup_ok genuine X" and core: "loop_core genuine X anchor k0 st" and j: "j < length (bl_tasks st)"
    and ended: "has_ended (snd (bl_tasks st ! j))" and run: "on_joined X (snd (bl_tasks st ! j)) (without_task j st) = (Inr (), st1)"
    and core1: "loop_core genuine X anchor k0 st1"
  shows "potential X st1 < potential X st \<and> bl_shared st1 = bl_shared st"
proof -
  obtain r ph where jt: "bl_tasks st ! j = (r, ph)" by (rule prod.exhaust)
  let ?st = "without_task j st" and ?n = "range_size X"
  have pot: "potential X st = potential X ?st + phase_weight ?n ph"
    using sum_without [OF j, of "\<lambda>(r, ph). phase_weight ?n ph"] jt
    by (simp add: potential_def without_task_def queue_weight_def)
  have sh: "bl_shared ?st = bl_shared st" by (simp add: without_task_def)
  have size1: "queue_weight X st1 \<le> 3 * ?n" using queue_weight_hand [of X st1] core_size [OF core1] by simp
  consider (fetched) f where "ph = FetchDone (Inr f)" | (limit) q x where "ph = FetchDone (Inl (FrProviderLimit q x))"
    using run jt ended by (cases "(X, ph, ?st)" rule: on_joined.cases) auto
  then show ?thesis
  proof cases
    case fetched
    with run jt have of: "on_fetched X f ?st = (Inr (), st1)" by simp
    then have "(bl_tasks st1 = bl_tasks ?st \<or> bl_tasks st1 = []) \<and> bl_shared st1 = bl_shared ?st"
      by (auto simp: on_fetched_def Let_def split: prod.splits sum.splits backfill_error.splits)
    then have "sum_list (map (\<lambda>(r, ph). phase_weight ?n ph) (bl_tasks st1)) \<le>
        sum_list (map (\<lambda>(r, ph). phase_weight ?n ph) (bl_tasks ?st))" "bl_shared st1 = bl_shared ?st" by auto
    with pot fetched size1 sh show ?thesis by (simp add: potential_def)
  next
    case limit
    with run jt have "st1 = on_provider_limit q ?st" by simp
    then have "bl_tasks st1 = bl_tasks ?st" "bl_shared st1 = bl_shared ?st"
      by (simp_all add: on_provider_limit_def Let_def)
    with pot limit size1 sh show ?thesis by (simp add: potential_def)
  qed
qed

lemma join_potential:
  assumes ready: "setup_ok genuine X" and core: "loop_core genuine X anchor k0 st" and j: "j < length (bl_tasks st)"
    and ended: "has_ended (snd (bl_tasks st ! j))" and run: "join_task X j st = (Inr (), st')"
  shows "potential X st' < potential X st \<and> bl_shared st' = bl_shared st"
proof -
  obtain r ph where jt: "bl_tasks st ! j = (r, ph)" by (rule prod.exhaust)
  from run jt obtain st1 where oj: "on_joined X ph (without_task j st) = (Inr (), st1)" and st': "st' = refill X st1"
    by (auto simp: join_task_def without_task_def Let_def try_simps)
  have core1: "loop_core genuine X anchor k0 st1"
    using joined_core [OF ready core j ended] jt oj by simp
  show ?thesis
    using on_joined_potential [OF ready core j ended _ core1] refill_potential [OF core1 ready] jt oj st' by simp
qed

lemma worker_potential:
  assumes core: "loop_core genuine X anchor k0 st" and j: "j < length (bl_tasks st)"
    and "\<not> has_ended (snd (bl_tasks st ! j))" and b: "budget_ok (fst (bl_shared st))"
  shows "potential X (worker_step X j st) < potential X st \<and> budget_ok (fst (bl_shared (worker_step X j st)))"
proof -
  obtain r ph where jt: "bl_tasks st ! j = (r, ph)" by (rule prod.exhaust)
  obtain ph' s' where step: "fetch_step (bx_alloy X) (bx_client X) (bx_config X) r ph (bl_shared st) = (ph', s')"
    by (rule prod.exhaust)
  let ?w = "\<lambda>(r :: backfill_range, ph). phase_weight (range_size X) ph"
  have ws: "worker_step X j st = st\<lparr>bl_tasks := (bl_tasks st)[j := (r, ph')], bl_shared := s'\<rparr>"
    by (simp add: worker_step_def jt step)
  have "range_ok r" using core j jt nth_mem [OF j] by (auto simp: loop_core_def loop_shape_def)
  from fetch_step_weight [OF step _ this b, of "range_size X"] assms(3) jt
  have w: "budget_ok (fst s')" "requests_left (fst s') * (3 * range_size X + 10) + phase_weight (range_size X) ph' <
      requests_left (fst (bl_shared st)) * (3 * range_size X + 10) + phase_weight (range_size X) ph" by simp_all
  have "sum_list (map ?w ((bl_tasks st)[j := (r, ph')])) =
      phase_weight (range_size X) ph' + sum_list (map ?w (take j (bl_tasks st) @ drop (Suc j) (bl_tasks st)))"
    using sum_without [of j "(bl_tasks st)[j := (r, ph')]" ?w] j by simp
  moreover have "sum_list (map ?w (bl_tasks st)) =
      phase_weight (range_size X) ph + sum_list (map ?w (take j (bl_tasks st) @ drop (Suc j) (bl_tasks st)))"
    using sum_without [OF j, of ?w] jt by simp
  ultimately show ?thesis using w by (simp add: potential_def ws queue_weight_def)
qed

lemma run_turns_ends:
  assumes ready: "setup_ok genuine X"
  shows "loop_core genuine X anchor k0 st \<Longrightarrow> window_full X st \<Longrightarrow> budget_ok (fst (bl_shared st)) \<Longrightarrow>
    potential X st \<le> length sched \<Longrightarrow> fst (run_turns X sched st) \<noteq> None"
proof (induction sched arbitrary: st)
  case Nil
  have "bl_tasks st = []"
  proof (cases "bl_tasks st")
    case (Cons t ts)
    with Nil(4) phase_weight_pos [of "range_size X" "snd t"] show ?thesis
      by (simp add: potential_def case_prod_beta)
  qed
  then show ?case by (simp add: run_turns.simps [of X "[]"])
next
  case (Cons i sched)
  show ?case
  proof (cases "bl_tasks st = []")
    case True
    then show ?thesis by (simp add: run_turns.simps [of X "i # sched"])
  next
    case False
    let ?j = "i mod length (bl_tasks st)"
    have j: "?j < length (bl_tasks st)" using False by simp
    obtain r st1 where t: "loop_turn X i st = (r, st1)" by (rule prod.exhaust)
    have run: "run_turns X (i # sched) st = (case r of Inl e \<Rightarrow> (Some (Inl e), st1) | Inr _ \<Rightarrow> run_turns X sched st1)"
      using False t by (simp add: run_turns.simps [of X "i # sched"] split: sum.splits)
    show ?thesis
    proof (cases r)
      case (Inl e)
      with run show ?thesis by simp
    next
      case (Inr u)
      with turn_core [OF ready Cons.prems(1,2) False t]
      have core1: "loop_core genuine X anchor k0 st1" "window_full X st1" by auto
      have "potential X st1 < potential X st \<and> budget_ok (fst (bl_shared st1))"
      proof (cases "has_ended (snd (bl_tasks st ! ?j))")
        case True
        with t Inr have "join_task X ?j st = (Inr (), st1)" by (simp add: loop_turn_def Let_def)
        with join_potential [OF ready Cons.prems(1) j True] Cons.prems(3) show ?thesis by simp
      next
        case no: False
        with t have "st1 = worker_step X ?j st" by (simp add: loop_turn_def Let_def)
        with worker_potential [OF Cons.prems(1) j no Cons.prems(3)] show ?thesis by simp
      qed
      with Cons.IH [OF core1] Cons.prems(4) run Inr show ?thesis by simp
    qed
  qed
qed

text \<open>
  The backfill always comes to an end.  Let the request budget be below the largest \<open>u64\<close> (where the
  counters stop counting), \<open>left\<close> the requests that it still allows and \<open>n\<close> the blocks of the range; then
  after at most \<open>left * (3 n + 10) + 3 n\<close> turns of any interleaving the loop has returned, even when the node
  reorganises for ever or limits every request.
\<close>
theorem backfill_loop_ends:
  assumes "setup_ok genuine X"
    and "coordinator_new (from_block (bx_full_range X)) (to_block (bx_full_range X)) anchor = Inr c"
    and "sizer_wf z" and "budget_ok (fst s)"
    and "requests_left (fst s) * (3 * range_size X + 10) + 3 * range_size X \<le> length sched"
  shows "\<exists>r st. fetch_and_commit_ranges X sched z c k s = (Some r, st)"
proof -
  note start = loop_start_core [OF assms(1-3), of k s]
  let ?st = "\<lparr>bl_tasks = [], bl_queued = [], bl_next_unallocated = from_block (bx_full_range X), bl_in_flight = 0,
       bl_sizer = z, bl_progress = progress_default, bl_coordinator = c, bl_sink = k, bl_shared = s\<rparr>"
  have "loop_core genuine X anchor k ?st" by (rule unfilled_core [OF assms(1-3)])
  from refill_potential [OF this assms(1)]
  have "potential X (loop_start X z c k s) \<le> potential X ?st" and sh: "bl_shared (loop_start X z c k s) = s"
    by (simp_all add: loop_start_def)
  moreover have "potential X ?st = requests_left (fst s) * (3 * range_size X + 10) + 3 * range_size X"
    by (simp add: potential_def queue_weight_def range_size_def blocks_def del: upt_Suc)
  ultimately have "potential X (loop_start X z c k s) \<le> length sched" using assms(5) by simp
  with run_turns_ends [OF assms(1) conjunct1 [OF start] conjunct2 [OF start]] assms(4) sh
  have "fst (fetch_and_commit_ranges X sched z c k s) \<noteq> None" by (simp add: fetch_and_commit_ranges_def)
  then show ?thesis by (cases "fetch_and_commit_ranges X sched z c k s") auto
qed

theorem backfill_loop_ends_witness:
  "\<exists>r st. fetch_and_commit_ranges one_context (replicate 120 0) one_sizer one_coordinator one_sink (one_budget 0 0, 0) = (Some r, st)"
  by (rule backfill_loop_ends [OF one_setup one_coordinator one_sizer])
    (simp_all add: budget_ok_def one_budget_def requests_left_def range_size_def one_context_def blocks_def)

end
