(* ===== verification/Backfill_Run.thy ===== *)
theory Backfill_Run
  imports Backfill_Ends Live_Runtime
begin

text \<open>
  The backfill command from end to end (\<open>run_backfill\<close> of \<open>chainweave-cli/src/main.rs\<close>): the settings, the
  captured head, the identity of the chain, the parent anchor, the loop of Backfill_Loop, the checks of
  what is persisted, and the comparison with a second node.

  Nobody else writes to the database while the command runs.  Connecting to a URL and to the database, and
  the migrations, are parameters, as are the errors of the reads and of the first write.
\<close>

section \<open>Options and errors\<close>

record 'u backfill_options =
  bo_from_block :: u64
  bo_to_block :: u64
  bo_contract_address :: "string option"
  bo_verify_reference :: bool
  bo_reference_rpc_url :: "'u option"
  bo_initial_log_blocks :: u64
  bo_min_log_blocks :: u64
  bo_max_log_blocks :: u64
  bo_rpc_timeout :: duration
  bo_rpc_max_requests :: "u64 option"
  bo_rpc_max_cost_units :: "u64 option"
  bo_workers :: nat

datatype command_error =
    CmConfig config_error
  | CmNoDatabaseUrl
  | CmBackfill backfill_error
  | CmRpc rpc_error
  | CmBeyondHead u64 u64
  | CmSink pg_error
  | CmMigrate string
  | CmFetch fetch_error
  | CmRegistry string
  | CmLoop loop_error
  | CmHeadChanged u64
  | CmContinuity canonical_range_summary
  | CmNoCheckpoint
  | CmCheckpointHeight u64
  | CmReference nat nat

text \<open>
  How the command stops without success: with an error, with the panic of a retry policy, or not yet,
  when the schedule of the loop is used up or the fetching of the reference goes on for ever.
\<close>

datatype command_stop = Failed command_error | CommandPanics | StillRunning

text \<open>The reads and the first write of the command, which may each lose the connection.\<close>

datatype access = AtIdentity | AtSummary | AtCheckpoint | AtRecords

record ('u, 'p, 'ev) backfill_env =
  be_urls :: "'u url_lib"
  be_alloy :: "'ev alloy"
  be_readers :: "'p rpc_provider"
  be_registry_text :: "registry_error \<Rightarrow> string"
  be_show_error :: "pg_error \<Rightarrow> string"
  be_connect :: "'u \<Rightarrow> 'p \<Rightarrow> (string + 'p rpc_client) \<times> 'p"
  be_pool :: "string \<Rightarrow> pg_error + unit"
  be_migrate :: "database \<Rightarrow> (string + unit) \<times> database"
  be_faults :: "nat \<Rightarrow> faults"
  be_lost :: "access \<Rightarrow> pg_error option"

text \<open>The state of the command: the network, the shared budget, and the database.\<close>

record 'p backfill_world =
  bw_shared :: "'p shared"
  bw_db :: database

type_synonym ('p, 'r) step = "'p backfill_world \<Rightarrow> (command_stop + 'r) \<times> 'p backfill_world"

definition bail :: "command_error + 'r \<Rightarrow> ('p, 'r) step" where
  "bail r w = (map_err Failed r, w)"

definition on_net :: "('p \<Rightarrow> (command_stop + 'r) \<times> 'p) \<Rightarrow> ('p, 'r) step" where
  "on_net f w = (case f (snd (bw_shared w)) of (r, p) \<Rightarrow> (r, w\<lparr>bw_shared := (fst (bw_shared w), p)\<rparr>))"

definition on_shared :: "('p shared \<Rightarrow> (command_stop + 'r) \<times> 'p shared) \<Rightarrow> ('p, 'r) step" where
  "on_shared f w = (case f (bw_shared w) of (r, s) \<Rightarrow> (r, w\<lparr>bw_shared := s\<rparr>))"

text \<open>A read of the database.\<close>

definition db_read :: "('u, 'p, 'ev) backfill_env \<Rightarrow> access \<Rightarrow> (database \<Rightarrow> pg_error + 'r) \<Rightarrow> ('p, 'r) step" where
  "db_read V a f w =
     (case be_lost V a of
        Some e \<Rightarrow> bail (Inl (CmSink e)) w
      | None \<Rightarrow> bail (map_err CmSink (f (bw_db w))) w)"

section \<open>The start\<close>

definition dial :: "('u, 'p, 'ev) backfill_env \<Rightarrow> 'u \<Rightarrow> ('p, 'p rpc_client) step" where
  "dial V u = on_net (\<lambda>p. apfst (map_err (\<lambda>m. Failed (CmRpc (Connect m)))) (be_connect V u p))"

text \<open>A request that is retried, without its context message.\<close>

definition retried :: "(rpc_error + 'r) option \<times> 'p \<Rightarrow> (command_stop + 'r) \<times> 'p" where
  "retried = apfst (\<lambda>r. case r of None \<Rightarrow> Inl CommandPanics | Some r \<Rightarrow> map_err (\<lambda>e. Failed (CmRpc e)) r)"

definition target_head :: "retry_policy \<Rightarrow> duration \<Rightarrow> 'p rpc_client \<Rightarrow> ('p, chain_head) step" where
  "target_head pol limit c = on_net (\<lambda>p.
     retried (capture_target_head_with_retry (rcl_provider c) pol (rcl_sleep c) (under_limit c limit) p))"

definition backfill_retry_policy :: "backfill_error + retry_policy" where
  "backfill_retry_policy = retry_new 8 (from_millis 500) (from_secs 30) (from_millis 500)"

definition backfill_budget :: "'u backfill_options \<Rightarrow> backfill_range \<Rightarrow> backfill_error + rpc_budget" where
  "backfill_budget opt r =
     budget_new
       (case bo_rpc_max_requests opt of Some n \<Rightarrow> n | None \<Rightarrow> sat_add (sat_mul (range_len r) 3) 5000)
       (case bo_rpc_max_cost_units opt of Some n \<Rightarrow> n | None \<Rightarrow> sat_add (sat_mul (range_len r) 3) 100000)"

definition identity_written :: "('u, 'p, 'ev) backfill_env \<Rightarrow> pg_writer \<Rightarrow> block_hash \<Rightarrow> ('p, unit) step" where
  "identity_written V wr g w =
     (case be_lost V AtIdentity of
        Some e \<Rightarrow> bail (Inl (CmSink e)) w
      | None \<Rightarrow> (case ensure_chain_identity wr g (bw_db w) of (r, db) \<Rightarrow> bail (map_err CmSink r) (w\<lparr>bw_db := db\<rparr>)))"

definition opened_writer :: "('u, 'p, 'ev) backfill_env \<Rightarrow> string \<Rightarrow> chain_head \<Rightarrow> ('p, pg_writer) step" where
  "opened_writer V url head w =
     tryS (bail (map_err CmSink (tryR (be_pool V url) (\<lambda>_. writer_new (ch_chain_id head)))) w) (\<lambda>wr w.
     tryS (case be_migrate V (bw_db w) of (r, db) \<Rightarrow> bail (map_err CmMigrate r) (w\<lparr>bw_db := db\<rparr>)) (\<lambda>_ w.
     tryS (identity_written V wr (ch_genesis_hash head) w) (\<lambda>_ w. (Inr wr, w))))"

text \<open>The block below the range.\<close>

definition fetched_anchor ::
    "retry_policy \<Rightarrow> duration \<Rightarrow> 'p rpc_client \<Rightarrow> u64 \<Rightarrow> ('p, block_header option) step" where
  "fetched_anchor pol limit c f w =
     (if f = 0 then (Inr None, w)
      else
        tryS (on_shared (\<lambda>s. apfst (map_err (\<lambda>e. Failed (CmFetch e))) (shared_record GetBlockByNumber 0 s)) w) (\<lambda>_ w.
        tryS (on_net (\<lambda>p. retried (fetch_header_by_number_with_retry (rcl_provider c) (f - 1) pol (rcl_sleep c)
            (under_limit c limit) p)) w) (\<lambda>x w. (Inr (Some x), w))))"

section \<open>The reference\<close>

text \<open>The configuration is always \<open>reference_config\<close>, below.\<close>

definition fetch_reference_range_with_retry ::
    "'p rpc_client \<Rightarrow> 'ev fetch_config \<Rightarrow> backfill_range \<Rightarrow> 'p shared \<Rightarrow>
      (fetch_error + normalized_log_record list) option \<times> 'p shared" where
  "fetch_reference_range_with_retry c cfg r s =
     apfst (map_option (\<lambda>res. tryR res (\<lambda>ls. Inr (map normalized_from_anchored ls)))) (fetch_logs_with_retry c cfg r s)"

text \<open>
  The records of a second node, range after range.  The inner result is as in \<open>fetch_logs_with_retry\<close>;
  \<open>None\<close> means that the loop never ends.
\<close>

partial_function (option) reference_from ::
    "'p rpc_client \<Rightarrow> 'ev fetch_config \<Rightarrow> log_range_sizer \<Rightarrow> u64 \<Rightarrow> u64 \<Rightarrow> normalized_log_record list \<Rightarrow> 'p shared \<Rightarrow>
      ((fetch_error + normalized_log_record list) option \<times> 'p shared) option" where
  "reference_from c cfg z next target acc s =
     (case next_range z next target of
        None \<Rightarrow> Some (Some (Inr acc), s)
      | Some r \<Rightarrow>
          (case fetch_reference_range_with_retry c cfg r s of
             (None, s) \<Rightarrow> Some (None, s)
           | (Some (Inl e), s) \<Rightarrow> Some (Some (Inl e), s)
           | (Some (Inr records), s) \<Rightarrow>
               reference_from c cfg (record_success z) (sat_add (to_block r) 1) target (acc @ records) s))"

definition reference_loop ::
    "'p rpc_client \<Rightarrow> 'ev fetch_config \<Rightarrow> log_range_sizer \<Rightarrow> u64 \<Rightarrow> u64 \<Rightarrow> 'p shared \<Rightarrow>
      (command_stop + normalized_log_record list) \<times> 'p shared" where
  "reference_loop c cfg z f target s =
     (case reference_from c cfg z f target [] s of
        None \<Rightarrow> (Inl StillRunning, s)
      | Some (None, s) \<Rightarrow> (Inl CommandPanics, s)
      | Some (Some r, s) \<Rightarrow> (map_err (\<lambda>e. Failed (CmFetch e)) r, s))"

definition reference_config :: "retry_policy \<Rightarrow> duration \<Rightarrow> contract_log_filter option \<Rightarrow> 'ev fetch_config" where
  "reference_config pol limit flt =
     \<lparr>fc_workers = 1, fc_retry_policy = pol, fc_rpc_timeout = limit, fc_filter = flt, fc_abi_registry = None\<rparr>"

definition reference_records ::
    "('u, 'p, 'ev) backfill_env \<Rightarrow> 'u \<Rightarrow> retry_policy \<Rightarrow> contract_log_filter option \<Rightarrow> 'u backfill_options \<Rightarrow>
      ('p, normalized_log_record list option) step" where
  "reference_records V primary pol flt opt w =
     (if bo_verify_reference opt
      then
        tryS (dial V (case bo_reference_rpc_url opt of Some u \<Rightarrow> u | None \<Rightarrow> primary) w) (\<lambda>c w.
        tryS (bail (map_err CmBackfill (sizer_new (bo_initial_log_blocks opt) (bo_min_log_blocks opt) (bo_max_log_blocks opt))) w) (\<lambda>z w.
        tryS (on_shared (reference_loop c (reference_config pol (bo_rpc_timeout opt) flt :: 'ev fetch_config) z
            (bo_from_block opt) (bo_to_block opt)) w) (\<lambda>rs w.
          (Inr (Some rs), w))))
      else (Inr None, w))"

section \<open>The command\<close>

text \<open>What the command prints at its end, without the times.\<close>

record backfill_report =
  rp_progress :: commit_progress
  rp_summary :: canonical_range_summary
  rp_log_records :: nat
  rp_compared :: "nat option"
  rp_usage :: "u64 \<times> u64"

definition loop_context ::
    "('u, 'p, 'ev) backfill_env \<Rightarrow> 'u backfill_options \<Rightarrow> backfill_range \<Rightarrow> retry_policy \<Rightarrow> contract_log_filter option \<Rightarrow>
      'ev abi_registry option \<Rightarrow> 'p rpc_client \<Rightarrow> ('p, 'ev) backfill_context" where
  "loop_context V opt r pol flt reg c =
     \<lparr>bx_alloy = be_alloy V, bx_client = c,
      bx_config = \<lparr>fc_workers = bo_workers opt, fc_retry_policy = pol, fc_rpc_timeout = bo_rpc_timeout opt,
        fc_filter = flt, fc_abi_registry = reg\<rparr>,
      bx_show_error = be_show_error V, bx_faults = be_faults V, bx_full_range = r\<rparr>"

text \<open>The loop on the state of the command.\<close>

definition ran_loop ::
    "('p, 'ev) backfill_context \<Rightarrow> nat list \<Rightarrow> log_range_sizer \<Rightarrow> indexed_block coordinator \<Rightarrow> committer \<Rightarrow>
      ('p, commit_progress \<times> committer) step" where
  "ran_loop X sched z c cm w =
     (case fetch_and_commit_ranges X sched z c (cm, bw_db w, 0) (bw_shared w) of
        (res, st) \<Rightarrow>
          (case res of
             None \<Rightarrow> Inl StillRunning
           | Some r \<Rightarrow> tryR (map_err (\<lambda>e. Failed (CmLoop e)) r) (\<lambda>p. Inr (p, fst (bl_sink st))),
           w\<lparr>bw_shared := bl_shared st, bw_db := fst (snd (bl_sink st))\<rparr>))"

text \<open>What the command checks after the loop.\<close>

definition head_unchanged :: "chain_head \<Rightarrow> backfill_range \<Rightarrow> committer \<Rightarrow> command_error + unit" where
  "head_unchanged head r cm =
     (if to_block r = ch_number head \<and> last_committed_hash cm \<noteq> Some (ch_hash head)
      then Inl (CmHeadChanged (to_block r)) else Inr ())"

definition continuous :: "backfill_range \<Rightarrow> canonical_range_summary \<Rightarrow> command_error + unit" where
  "continuous r s =
     (if canonical_blocks s \<noteq> unat (range_len r) \<or> min_height s \<noteq> Some (from_block r) \<or> max_height s \<noteq> Some (to_block r)
      then Inl (CmContinuity s) else Inr ())"

definition checkpoint_reached :: "backfill_range \<Rightarrow> pg_checkpoint option \<Rightarrow> command_error + unit" where
  "checkpoint_reached r cp =
     tryR (ok_or cp CmNoCheckpoint) (\<lambda>cp.
       if last_height cp \<noteq> to_block r then Inl (CmCheckpointHeight (last_height cp)) else Inr ())"

text \<open>Sorted vectors are equal exactly when they have the same elements as often.\<close>

definition compared :: "normalized_log_record list option \<Rightarrow> normalized_log_record list \<Rightarrow> command_error + nat option" where
  "compared reference stored =
     (case reference of
        None \<Rightarrow> Inr None
      | Some rs \<Rightarrow>
          if mset stored \<noteq> mset rs then Inl (CmReference (length stored) (length rs)) else Inr (Some (length stored)))"

definition checked ::
    "('u, 'p, 'ev) backfill_env \<Rightarrow> chain_head \<Rightarrow> backfill_range \<Rightarrow> committer \<Rightarrow> ('p, canonical_range_summary) step" where
  "checked V head r cm w =
     tryS (bail (head_unchanged head r cm) w) (\<lambda>_ w.
     tryS (db_read V AtSummary (range_summary (cm_writer cm) (from_block r) (to_block r)) w) (\<lambda>s w.
     tryS (bail (continuous r s) w) (\<lambda>_ w.
     tryS (db_read V AtCheckpoint (read_checkpoint (cm_writer cm)) w) (\<lambda>cp w.
     tryS (bail (checkpoint_reached r cp) w) (\<lambda>_ w. (Inr s, w))))))"

text \<open>Everything the command has read and made before the loop starts.\<close>

record ('p, 'ev) backfill_start =
  bs_head :: chain_head
  bs_range :: backfill_range
  bs_context :: "('p, 'ev) backfill_context"
  bs_sizer :: log_range_sizer
  bs_anchor :: "block_header option"
  bs_coordinator :: "indexed_block coordinator"
  bs_committer :: committer

text \<open>Everything up to the loop.  Before the budget is made nothing is recorded in it.\<close>

definition backfill_setup ::
    "('u, 'p, 'ev) backfill_env \<Rightarrow> ('u, 'a) app_config \<Rightarrow> 'u backfill_options \<Rightarrow> 'p \<times> database \<Rightarrow>
      (command_stop + ('p, 'ev) backfill_start) \<times> 'p backfill_world" where
  "backfill_setup V cfg opt = (\<lambda>(net, db).
     let w = \<lparr>bw_shared = (\<lparr>max_requests = 0, max_cost_units = 0, requests = 0, cost_units = 0\<rparr>, net), bw_db = db\<rparr> in
     tryS (bail (map_err CmConfig (validate (be_urls V) cfg ProfileWorkers)) w) (\<lambda>_ w.
     tryS (bail (ok_or (database_url cfg) CmNoDatabaseUrl) w) (\<lambda>url w.
     tryS (bail (map_err CmBackfill (range_new (bo_from_block opt) (bo_to_block opt))) w) (\<lambda>r w.
     tryS (bail (map_err CmBackfill backfill_retry_policy) w) (\<lambda>pol w.
     tryS (bail (map_err CmBackfill (sizer_new (bo_initial_log_blocks opt) (bo_min_log_blocks opt) (bo_max_log_blocks opt))) w) (\<lambda>z w.
     tryS (bail (map_err CmRpc (transpose (map_option (filter_address (be_readers V)) (bo_contract_address opt)))) w) (\<lambda>flt w.
     tryS (bail (map_err CmBackfill (backfill_budget opt r)) w) (\<lambda>b w.
     let w = w\<lparr>bw_shared := (b, snd (bw_shared w))\<rparr> in
     tryS (dial V (primary_url (rpc cfg)) w) (\<lambda>c w.
     tryS (target_head pol (bo_rpc_timeout opt) c w) (\<lambda>head w.
     tryS (bail (case expected_chain cfg of
         None \<Rightarrow> Inr () | Some e \<Rightarrow> map_err CmRpc (verify_identity (rcl_provider c) head e)) w) (\<lambda>_ w.
     tryS (bail (if bo_to_block opt > ch_number head then Inl (CmBeyondHead (bo_to_block opt) (ch_number head)) else Inr ()) w) (\<lambda>_ w.
     tryS (opened_writer V url head w) (\<lambda>wr w.
     tryS (fetched_anchor pol (bo_rpc_timeout opt) c (bo_from_block opt) w) (\<lambda>anchor w.
     tryS (bail (map_err CmBackfill (coordinator_new (bo_from_block opt) (bo_to_block opt) anchor)) w) (\<lambda>co w.
     tryS (bail (map_err CmRegistry (abi_registry_from_config (be_alloy V) (be_registry_text V) cfg)) w) (\<lambda>reg w.
       (Inr \<lparr>bs_head = head, bs_range = r, bs_context = loop_context V opt r pol flt reg c, bs_sizer = z,
          bs_anchor = anchor, bs_coordinator = co, bs_committer = committer_new wr anchor\<rparr>, w)))))))))))))))))"

text \<open>After the loop: the checks, the reference, and the comparison.\<close>

definition finish_backfill ::
    "('u, 'p, 'ev) backfill_env \<Rightarrow> ('u, 'a) app_config \<Rightarrow> 'u backfill_options \<Rightarrow> ('p, 'ev) backfill_start \<Rightarrow>
      commit_progress \<times> committer \<Rightarrow> ('p, backfill_report) step" where
  "finish_backfill V cfg opt s pc w =
     (let flt = fc_filter (bx_config (bs_context s)); r = bs_range s; cm = snd pc in
      tryS (checked V (bs_head s) r cm w) (\<lambda>sm w.
      tryS (reference_records V (primary_url (rpc cfg)) (fc_retry_policy (bx_config (bs_context s))) flt opt w) (\<lambda>reference w.
      tryS (db_read V AtRecords (canonical_log_records (cm_writer cm) (from_block r) (to_block r) (map_option lf_address flt)) w) (\<lambda>stored w.
      tryS (bail (compared reference stored) w) (\<lambda>n w.
        (Inr \<lparr>rp_progress = fst pc, rp_summary = sm, rp_log_records = length stored, rp_compared = n,
           rp_usage = shared_usage (bw_shared w)\<rparr>, w))))))"

definition run_backfill ::
    "('u, 'p, 'ev) backfill_env \<Rightarrow> ('u, 'a) app_config \<Rightarrow> 'u backfill_options \<Rightarrow> nat list \<Rightarrow> 'p \<times> database \<Rightarrow>
      (command_stop + backfill_report) \<times> 'p backfill_world" where
  "run_backfill V cfg opt sched nd =
     tryS (backfill_setup V cfg opt nd) (\<lambda>s w.
     tryS (ran_loop (bs_context s) sched (bs_sizer s) (bs_coordinator s) (bs_committer s) w) (\<lambda>pc w.
       finish_backfill V cfg opt s pc w))"

end
