(* ===== verification/Backfill_Run_Correct.thy ===== *)
theory Backfill_Run_Correct
  imports Backfill_Run
begin

text \<open>
  What the backfill command leaves behind: the range in the database, block for block; the errors that it
  cannot have; what a successful comparison with a second node means; and that it ends.
\<close>

section \<open>What the setup gives\<close>

text \<open>
  What the command may rely on: the blocks that any node delivers are real ones, and migrating a database
  that is up to date changes nothing.
\<close>

definition delivers :: "(block_header \<Rightarrow> bool) \<Rightarrow> ('u, 'p, 'ev) backfill_env \<Rightarrow> bool" where
  "delivers genuine V \<longleftrightarrow> (\<forall>u p c q. be_connect V u p = (Inr c, q) \<longrightarrow> range_genuine genuine (rcl_provider c))"

definition honest :: "(block_header \<Rightarrow> bool) \<Rightarrow> ('u, 'p, 'ev) backfill_env \<Rightarrow> bool" where
  "honest genuine V \<longleftrightarrow> names_blocks genuine \<and> delivers genuine V \<and> (\<forall>db. snd (be_migrate V db) = db)"

definition sound_db :: "(block_header \<Rightarrow> bool) \<Rightarrow> database \<Rightarrow> bool" where
  "sound_db genuine db \<longleftrightarrow> db_inv db \<and> (\<forall>c. rows_genuine genuine c db)"

definition same_blocks :: "(block_header \<Rightarrow> bool) \<Rightarrow> database \<Rightarrow> database \<Rightarrow> bool" where
  "same_blocks genuine db db' \<longleftrightarrow> sound_db genuine db' \<and> (\<forall>c. canon_set c db' = canon_set c db)"

lemma honest_delivers: "honest genuine V \<Longrightarrow> delivers genuine V"
  by (simp add: honest_def)

lemma same_blocks_identity: "same_blocks genuine db db' \<Longrightarrow> same_blocks genuine db (db'\<lparr>chain_identity := x\<rparr>)"
  by (simp add: same_blocks_def sound_db_def db_inv_def rows_wf_def journal_wf_def rows_genuine_def canon_set_def
      get_block_def block_at_def canonical_def)

text \<open>Steps that keep a predicate of the database.\<close>

definition keeps :: "(database \<Rightarrow> bool) \<Rightarrow> ('p, 'r) step \<Rightarrow> bool" where
  "keeps R f \<longleftrightarrow> (\<forall>w. R (bw_db w) \<longrightarrow> R (bw_db (snd (f w))))"

lemma keeps_tryS: "keeps R f \<Longrightarrow> (\<And>x. keeps R (k x)) \<Longrightarrow> keeps R (\<lambda>w. tryS (f w) k)"
  by (simp add: keeps_def tryS_def split: prod.split sum.split) (metis snd_conv)

lemma keeps_pure: "(\<And>w. bw_db (snd (f w)) = bw_db w) \<Longrightarrow> keeps R f"
  by (simp add: keeps_def)

lemma keeps_shared: "keeps R f \<Longrightarrow> keeps R (\<lambda>w. f (w\<lparr>bw_shared := g w\<rparr>))"
  by (simp add: keeps_def)

lemma bw_db_steps [simp]:
  "bw_db (snd (bail r w)) = bw_db w" "bw_db (snd (on_net f w)) = bw_db w" "bw_db (snd (on_shared g w)) = bw_db w"
  "bw_db (snd (db_read V a h w)) = bw_db w"
  by (simp_all add: bail_def on_net_def on_shared_def db_read_def split: prod.split option.split)

lemma bw_db_tryS: "(\<And>x w. bw_db (snd (k x w)) = bw_db w) \<Longrightarrow> bw_db (snd (tryS m k)) = bw_db (snd m)"
  by (simp add: tryS_def split: prod.split sum.split)

lemma keeps_steps:
  "keeps R (bail r)" "keeps R (\<lambda>w. (x, w))" "keeps R (dial V u)" "keeps R (target_head pol limit c)"
  "keeps R (fetched_anchor pol limit c f)"
  by (simp_all add: keeps_def dial_def target_head_def fetched_anchor_def bw_db_tryS)

text \<open>A predicate that does not depend on the identities of the chains is kept by all of the setup.\<close>

lemma opened_writer_keeps:
  assumes "\<And>db. snd (be_migrate V db) = db" and "\<And>db x. R db \<Longrightarrow> R (db\<lparr>chain_identity := x\<rparr>)"
  shows "keeps R (opened_writer V url head)"
proof -
  have "keeps R (identity_written V wr g)" for wr g
    by (auto simp: keeps_def identity_written_def bail_def ensure_chain_identity_def insert_identity_def
        intro: assms(2) split: option.splits prod.splits)
  moreover have "keeps R (\<lambda>w. case be_migrate V (bw_db w) of (r, db) \<Rightarrow> bail (map_err CmMigrate r) (w\<lparr>bw_db := db\<rparr>))"
    using assms(1) by (simp add: keeps_def split: prod.split) (metis snd_conv)
  ultimately show ?thesis
    unfolding opened_writer_def [abs_def] by (intro keeps_tryS keeps_steps)
qed

lemma setup_keeps_predicate:
  assumes "honest genuine V" and "\<And>db x. R db \<Longrightarrow> R (db\<lparr>chain_identity := x\<rparr>)" and "R db"
  shows "R (bw_db (snd (backfill_setup V cfg opt (net, db))))"
proof -
  have first: "R (bw_db w) \<Longrightarrow> (\<And>x. keeps R (k x)) \<Longrightarrow> R (bw_db (snd (tryS (bail r w) k)))" for r w k
    using keeps_tryS [of R "bail r" k] keeps_steps(1) by (simp add: keeps_def)
  have migrate: "snd (be_migrate V db) = db" for db using assms(1) by (simp add: honest_def)
  show ?thesis
    unfolding backfill_setup_def Let_def prod.case
    by (rule first, use assms(3) in simp)
      (intro keeps_tryS keeps_shared keeps_steps opened_writer_keeps assms(2) migrate)
qed

lemma setup_keeps:
  assumes "honest genuine V" and "sound_db genuine db"
  shows "same_blocks genuine db (bw_db (snd (backfill_setup V cfg opt (net, db))))"
  by (rule setup_keeps_predicate [OF assms(1)]) (use assms(2) in \<open>simp_all add: same_blocks_identity\<close>, simp add: same_blocks_def)

lemma bail_Inr [try_simps]: "bail r w = (Inr x, w') \<longleftrightarrow> r = Inr x \<and> w' = w"
  by (auto simp: bail_def try_simps)

lemma on_net_Inr [try_simps]:
  "on_net f w = (Inr x, w') \<longleftrightarrow> (\<exists>p. f (snd (bw_shared w)) = (Inr x, p) \<and> w' = w\<lparr>bw_shared := (fst (bw_shared w), p)\<rparr>)"
  by (auto simp: on_net_def split: prod.splits)

lemma on_shared_Inr [try_simps]:
  "on_shared f w = (Inr x, w') \<longleftrightarrow> (\<exists>s. f (bw_shared w) = (Inr x, s) \<and> w' = w\<lparr>bw_shared := s\<rparr>)"
  by (auto simp: on_shared_def split: prod.splits)

lemma opened_writer_Inr:
  assumes "opened_writer V url head w = (Inr wr, w')"
  shows "chain_id wr = ch_chain_id head \<and> hm_get (chain_identity (bw_db w')) (ch_chain_id head) = Some (ch_genesis_hash head) \<and>
    bw_shared w' = bw_shared w"
  using assms
  by (auto simp: opened_writer_def identity_written_def ensure_chain_identity_def insert_identity_def writer_new_def try_simps bail_def
      split: option.splits prod.splits if_splits)

lemma target_head_budget: "target_head pol limit c w = (Inr head, w') \<Longrightarrow> fst (bw_shared w') = fst (bw_shared w)"
  by (auto simp: target_head_def try_simps)

lemma dial_Inr:
  assumes "dial V u w = (Inr c, w')"
  shows "(\<exists>p q. be_connect V u p = (Inr c, q)) \<and> fst (bw_shared w') = fst (bw_shared w)"
  using assms by (auto simp: dial_def try_simps apfst_def map_prod_def split: prod.splits)

text \<open>The budget is as it was made, but for the request for the parent anchor.\<close>

definition budget_of :: "'u backfill_options \<Rightarrow> backfill_range \<Rightarrow> rpc_budget \<Rightarrow> bool" where
  "budget_of opt r b \<longleftrightarrow> (\<exists>b0. backfill_budget opt r = Inr b0 \<and> max_requests b = max_requests b0 \<and>
     max_cost_units b = max_cost_units b0 \<and> requests b \<le> 1 \<and> cost_units b \<le> 1 \<and> requests b \<le> max_requests b)"

lemma backfill_budget_fresh: "backfill_budget opt r = Inr b \<Longrightarrow> requests b = 0 \<and> cost_units b = 0 \<and> max_requests b \<noteq> 0"
  by (auto simp: backfill_budget_def budget_new_def split: if_splits)

lemma first_request:
  assumes "shared_record GetBlockByNumber 0 (b, p) = (res, s')" and "requests b = 0" "cost_units b = 0" "max_requests b \<noteq> 0"
  shows "max_requests (fst s') = max_requests b \<and> max_cost_units (fst s') = max_cost_units b \<and>
    requests (fst s') \<le> 1 \<and> cost_units (fst s') \<le> 1 \<and> requests (fst s') \<le> max_requests b"
proof -
  have "sat_add 0 (1 :: u64) = 1" "1 \<le> max_requests b"
    using assms(4) by (simp_all add: sat_add_def word_le_nat_alt unat_gt_0 Suc_leI)
  with assms show ?thesis
    by (auto simp: shared_record_def budget_record_def Let_def split: if_splits)
qed

lemma fetched_anchor_budget:
  assumes "fetched_anchor pol limit c f w = (Inr a, w')" and b: "backfill_budget opt r = Inr (fst (bw_shared w))"
  shows "budget_of opt r (fst (bw_shared w'))"
proof (cases "f = 0")
  case False
  then obtain u w1 where 1: "on_shared (\<lambda>s. apfst (map_err (\<lambda>e. Failed (CmFetch e))) (shared_record GetBlockByNumber 0 s)) w = (Inr u, w1)"
    and "fst (bw_shared w') = fst (bw_shared w1)"
    using assms(1) by (auto simp: fetched_anchor_def try_simps)
  moreover obtain res s' where s': "shared_record GetBlockByNumber 0 (bw_shared w) = (res, s')" by (rule prod.exhaust)
  ultimately have "fst (bw_shared w') = fst s'" by (auto simp: on_shared_def)
  moreover have "shared_record GetBlockByNumber 0 (fst (bw_shared w), snd (bw_shared w)) = (res, s')" using s' by simp
  ultimately show ?thesis
    using first_request backfill_budget_fresh [OF b] b by (fastforce simp: budget_of_def)
qed (use assms backfill_budget_fresh [OF b] in \<open>simp add: fetched_anchor_def budget_of_def\<close>)

lemma backfill_retry_policy: "backfill_retry_policy = Inr live_policy"
  by (simp add: backfill_retry_policy_def retry_new_def live_policy_def from_millis_def from_secs_def)

lemma setup_Inr:
  assumes run: "backfill_setup V cfg opt (net, db) = (Inr s, w)"
    and "delivers genuine V" and "0 < bo_workers opt" and "unat (bo_to_block opt) < 2 ^ 63"
  shows "setup_ok genuine (bs_context s)"
    and "bx_full_range (bs_context s) = bs_range s"
    and "bs_range s = \<lparr>from_block = bo_from_block opt, to_block = bo_to_block opt\<rparr>"
    and "coordinator_new (bo_from_block opt) (bo_to_block opt) (bs_anchor s) = Inr (bs_coordinator s)"
    and "sizer_wf (bs_sizer s)"
    and "\<exists>wr. bs_committer s = committer_new wr (bs_anchor s) \<and> chain_id wr = ch_chain_id (bs_head s)"
    and "hm_get (chain_identity (bw_db w)) (ch_chain_id (bs_head s)) = Some (ch_genesis_hash (bs_head s))"
    and "bo_to_block opt \<le> ch_number (bs_head s)"
    and "budget_of opt (bs_range s) (fst (bw_shared w))"
    and "fc_retry_policy (bx_config (bs_context s)) = live_policy"
    and "bx_faults (bs_context s) = be_faults V"
proof -
  from run obtain url r z flt b c w1 head w2 wr w3 anchor co reg where
    r: "range_new (bo_from_block opt) (bo_to_block opt) = Inr r" and
    z: "sizer_new (bo_initial_log_blocks opt) (bo_min_log_blocks opt) (bo_max_log_blocks opt) = Inr z" and
    b: "backfill_budget opt r = Inr b" and
    c: "dial V (primary_url (rpc cfg)) \<lparr>bw_shared = (b, net), bw_db = db\<rparr> = (Inr c, w1)" and
    head: "target_head live_policy (bo_rpc_timeout opt) c w1 = (Inr head, w2)" and
    le: "\<not> bo_to_block opt > ch_number head" and
    wr: "opened_writer V url head w2 = (Inr wr, w3)" and
    anchor: "fetched_anchor live_policy (bo_rpc_timeout opt) c (bo_from_block opt) w3 = (Inr anchor, w)" and
    co: "coordinator_new (bo_from_block opt) (bo_to_block opt) anchor = Inr co" and
    s: "s = \<lparr>bs_head = head, bs_range = r, bs_context = loop_context V opt r live_policy flt reg c, bs_sizer = z,
          bs_anchor = anchor, bs_coordinator = co, bs_committer = committer_new wr anchor\<rparr>"
    by (auto simp: backfill_setup_def Let_def backfill_retry_policy tryS_Inr bail_Inr map_err_Inr split: if_splits)
  have rr: "r = \<lparr>from_block = bo_from_block opt, to_block = bo_to_block opt\<rparr>" "bo_from_block opt \<le> bo_to_block opt"
    using r by (auto simp: range_new_def split: if_splits)
  from dial_Inr [OF c] obtain p q where c': "be_connect V (primary_url (rpc cfg)) p = (Inr c, q)" and w1: "fst (bw_shared w1) = b"
    by auto
  have "range_genuine genuine (rcl_provider c)" using assms(2) c' unfolding delivers_def by blast
  with rr assms(3,4) show "setup_ok genuine (bs_context s)"
    by (simp add: s setup_ok_def loop_context_def range_ok_def)
  have "fst (bw_shared w3) = b"
    using target_head_budget [OF head] opened_writer_Inr [OF wr] w1 by simp
  with b have "backfill_budget opt r = Inr (fst (bw_shared w3))" by simp
  from fetched_anchor_budget [OF anchor this] show "budget_of opt (bs_range s) (fst (bw_shared w))" by (simp add: s)
  have "bw_db w = bw_db w3"
    using keeps_steps(5) [of "\<lambda>d. d = bw_db w3" live_policy "bo_rpc_timeout opt" c "bo_from_block opt"] anchor
    by (auto simp: keeps_def)
  with opened_writer_Inr [OF wr] show "hm_get (chain_identity (bw_db w)) (ch_chain_id (bs_head s)) = Some (ch_genesis_hash (bs_head s))"
    by (simp add: s)
  from opened_writer_Inr [OF wr] show "\<exists>wr. bs_committer s = committer_new wr (bs_anchor s) \<and> chain_id wr = ch_chain_id (bs_head s)"
    by (auto simp: s)
  show "bs_range s = \<lparr>from_block = bo_from_block opt, to_block = bo_to_block opt\<rparr>" using rr(1) by (simp add: s)
  show "bo_to_block opt \<le> ch_number (bs_head s)" using le by (simp add: s)
  show "sizer_wf (bs_sizer s)" using sizer_new_wf [OF z] by (simp add: s)
  show "coordinator_new (bo_from_block opt) (bo_to_block opt) (bs_anchor s) = Inr (bs_coordinator s)" using co by (simp add: s)
  show "bx_full_range (bs_context s) = bs_range s" "fc_retry_policy (bx_config (bs_context s)) = live_policy"
    "bx_faults (bs_context s) = be_faults V"
    by (simp_all add: s loop_context_def)
qed

section \<open>The checks after the loop\<close>

lemma canon_row:
  assumes wf: "rows_wf db" and x: "x \<in> canon_set c db"
  shows "\<exists>h r. (h, r) \<in> set (canonical_rows c db) \<and> br_height r = int (unat (height x))"
proof -
  from x obtain r where r: "get_block c (hash x) db = Some r" "is_canonical r" "x = row_header (hash x) r"
    unfolding canon_set_iff by blast
  have "br_height r = uint (height x)"
    using row_height_word [OF wf r(1)] arg_cong [OF r(3), of height] by simp
  with r canonical_rows_iff [OF wf] show ?thesis by (metis uint_nat)
qed

lemma interval_list:
  fixes ns :: "int list"
  assumes "distinct ns" and "set ns = {a .. b}" and "a \<le> b"
  shows "length ns = nat (b - a + 1)" "Min (set ns) = a" "Max (set ns) = b" "ns \<noteq> []"
  using assms distinct_card [OF assms(1)] by (auto simp: Min_eq_iff Max_eq_iff)

lemma summary_of_full_range:
  assumes wf: "rows_wf db" and r: "from_block r \<le> to_block r" "unat (to_block r) < 2 ^ 63"
    and cover: "\<And>n. n \<in> set (blocks r) \<Longrightarrow> \<exists>x \<in> canon_set (chain_id wr) db. unat (height x) = n"
  shows "range_summary wr (from_block r) (to_block r) db =
    Inr \<lparr>canonical_blocks = unat (range_len r), min_height = Some (from_block r), max_height = Some (to_block r)\<rparr>"
proof -
  let ?lo = "uint (from_block r)" and ?hi = "uint (to_block r)"
  let ?ns = "map (\<lambda>(_, x). br_height x) (filter (\<lambda>(_, x). ?lo \<le> br_height x \<and> br_height x \<le> ?hi) (canonical_rows (chain_id wr) db))"
  have le: "?lo \<le> ?hi" "unat (from_block r) \<le> unat (to_block r)"
    using r(1) by (simp_all add: word_le_def flip: word_le_nat_alt)
  have p: "pg_height (from_block r) = Inr ?lo" "pg_height (to_block r) = Inr ?hi"
    using r(2) le(2) by (simp_all add: pg_height_def i64_max_def)
  have "distinct ?ns"
    using canonical_rows_distinct [OF wf, of "chain_id wr"] by (rule distinct_map_filter)
  moreover have "set ?ns = {?lo .. ?hi}"
  proof (intro equalityI subsetI)
    fix i assume i: "i \<in> {?lo .. ?hi}"
    then have i0: "0 \<le> i" using uint_ge_0 [of "from_block r"] by (simp only: atLeastAtMost_iff) linarith
    have "unat (from_block r) \<le> nat i" "nat i \<le> unat (to_block r)" using i i0 by (simp_all add: le_nat_iff nat_le_iff)
    then have "nat i \<in> set (blocks r)" by (simp add: blocks_def less_Suc_eq_le del: upt_Suc)
    from cover [OF this] canon_row [OF wf] obtain h x where
      "(h, x) \<in> set (canonical_rows (chain_id wr) db)" "br_height x = int (nat i)" by metis
    with i i0 show "i \<in> set ?ns" by force
  qed auto
  ultimately have ns: "length ?ns = nat (?hi - ?lo + 1)" "Min (set ?ns) = ?lo" "Max (set ?ns) = ?hi" "?ns \<noteq> []"
    using le(1) by (fact interval_list)+
  have "unat (range_len r) = Suc (unat (to_block r) - unat (from_block r))"
    using r(2) by (simp add: range_len_def sat_simps)
  also have "\<dots> = nat (?hi - ?lo + 1)" using le(2) unfolding uint_nat by linarith
  finally have "unat (range_len r) = nat (?hi - ?lo + 1)" .
  with ns p show ?thesis
    by (simp add: range_summary_def Let_def transpose_def row_height_def ok_or_def)
qed

section \<open>What the command leaves behind\<close>

lemma finish_keeps_db: "bw_db (snd (finish_backfill V cfg opt s pc w)) = bw_db w"
  by (simp add: finish_backfill_def Let_def bw_db_tryS checked_def reference_records_def dial_def split: if_splits)

lemma db_read_Inr [try_simps]: "db_read V a f w = (Inr x, w') \<longleftrightarrow> be_lost V a = None \<and> f (bw_db w) = Inr x \<and> w' = w"
  by (auto simp: db_read_def try_simps split: option.splits)

text \<open>The loop of the command, with the start that the setup made.\<close>

lemma command_loop:
  assumes start: "backfill_setup V cfg opt (net, db) = (Inr s, w0)" "honest genuine V" "sound_db genuine db"
      "0 < bo_workers opt" "unat (bo_to_block opt) < 2 ^ 63"
    and run: "ran_loop (bs_context s) sched (bs_sizer s) (bs_coordinator s) (bs_committer s) w0 = (res, w1)"
  shows "\<exists>hs. follows (bs_anchor s) hs \<and> db_inv (bw_db w1) \<and>
    canon_set (ch_chain_id (bs_head s)) (bw_db w1) = canon_set (ch_chain_id (bs_head s)) db \<union> set hs \<and>
    (\<forall>p cm. res = Inr (p, cm) \<longrightarrow> map (\<lambda>x. unat (height x)) hs = blocks (bs_range s) \<and>
       chain_id (cm_writer cm) = ch_chain_id (bs_head s) \<and>
       checkpoint_at (ch_chain_id (bs_head s)) (Some (last hs)) (bw_db w1) \<and> last_committed_hash cm = Some (hash (last hs)))"
proof -
  note S = setup_Inr [OF start(1) honest_delivers [OF start(2)] start(4,5)]
  have kept: "same_blocks genuine db (bw_db w0)"
    using setup_keeps [OF start(2,3), of cfg opt net] start(1) by simp
  obtain wr where cm: "bs_committer s = committer_new wr (bs_anchor s)" "chain_id wr = ch_chain_id (bs_head s)" using S(6) by blast
  obtain r st where F: "fetch_and_commit_ranges (bs_context s) sched (bs_sizer s) (bs_coordinator s) (bs_committer s, bw_db w0, 0) (bw_shared w0) = (r, st)"
    by (rule prod.exhaust)
  obtain cm' db' n' where k: "bl_sink st = (cm', db', n')" by (rule prod_cases3)
  have good: "good_sink genuine (bs_committer s, bw_db w0, 0)"
    using kept start(2) by (simp add: good_sink_def same_blocks_def sound_db_def honest_def)
  have c: "coordinator_new (from_block (bx_full_range (bs_context s))) (to_block (bx_full_range (bs_context s))) (bs_anchor s) =
      Inr (bs_coordinator s)"
    using S(2-4) by simp
  have w1: "w1 = w0\<lparr>bw_shared := bl_shared st, bw_db := db'\<rparr>"
    and res: "\<And>p cm. res = Inr (p, cm) \<Longrightarrow> r = Some (Inr p) \<and> cm = cm'"
    using run F k by (auto simp: ran_loop_def try_simps split: option.splits)
  from backfill_commits_whole_range [OF S(1) c S(5) good F k] obtain hs where
    "follows (bs_anchor s) hs" "db_inv db'" "cm_writer cm' = wr"
    "canon_set (chain_id wr) db' = canon_set (chain_id wr) (bw_db w0) \<union> set hs"
    "\<And>p. r = Some (Inr p) \<Longrightarrow> map (\<lambda>x. unat (height x)) hs = blocks (bs_range s) \<and>
       checkpoint_at (chain_id wr) (Some (last hs)) db' \<and> last_committed_hash cm' = Some (hash (last hs))"
    using S(2) by (auto simp: cm(1) committer_new_def)
  then show ?thesis
    using kept res cm(2) by (intro exI [of _ hs]) (auto simp: w1 same_blocks_def)
qed

text \<open>At each height there is one canonical block.\<close>

lemma canonical_of_range:
  assumes inv: "db_inv db'" and sub: "set hs \<subseteq> canon_set c db'" and hs: "map (\<lambda>x. unat (height x)) hs = blocks r"
  shows "{x \<in> canon_set c db'. unat (height x) \<in> set (blocks r)} = set hs"
proof (intro equalityI subsetI)
  fix x assume x: "x \<in> {x \<in> canon_set c db'. unat (height x) \<in> set (blocks r)}"
  then have "unat (height x) \<in> (\<lambda>x. unat (height x)) ` set hs" by (simp flip: hs)
  then obtain y where y: "y \<in> set hs" "height y = height x" by (auto simp: word_eq_unat)
  have wf: "rows_wf db'" using inv by (simp add: db_inv_def)
  from x y sub obtain rx ry where rx: "get_block c (hash x) db' = Some rx" "is_canonical rx" "x = row_header (hash x) rx"
    and ry: "get_block c (hash y) db' = Some ry" "is_canonical ry" "y = row_header (hash y) ry"
    by (metis (no_types, lifting) canon_set_iff mem_Collect_eq subsetD)
  have "br_height rx = br_height ry"
    using row_height_word [OF wf rx(1)] row_height_word [OF wf ry(1)] y(2) rx(3) ry(3) by (metis row_header_simps(3))
  then have "hash x = hash y" by (rule canonical_unique [OF wf rx(1,2) ry(1,2)])
  then have "rx = ry" using rx(1) ry(1) by simp
  then have "x = y" using rx(3) ry(3) \<open>hash x = hash y\<close> by metis
  with y show "x \<in> set hs" by simp
next
  fix x assume x: "x \<in> set hs"
  then have "unat (height x) \<in> set (map (\<lambda>x. unat (height x)) hs)" by simp
  then show "x \<in> {x \<in> canon_set c db'. unat (height x) \<in> set (blocks r)}" using x sub unfolding hs by auto
qed

text \<open>
  C5: The backfill command does what it reports.  Let the nodes deliver real blocks only and the database
  be consistent.  Whatever the interleaving, the faults and the answers, the command leaves a consistent
  database; it adds nothing when it stops before the loop, and otherwise one linked chain from the
  parent anchor on.  When it reports success, the canonical blocks of the range are exactly that chain, one
  at each height; the checkpoint is at its last block, which is the captured head when the range ends
  there; the summary counts them all; and the chain in the database is the one of the node, with its
  genesis block.
\<close>
theorem backfill_command_fills_range:
  assumes "honest genuine V" and "sound_db genuine db" and "0 < bo_workers opt" and "unat (bo_to_block opt) < 2 ^ 63"
    and "run_backfill V cfg opt sched (net, db) = (res, w)"
  shows "db_inv (bw_db w) \<and>
    (case backfill_setup V cfg opt (net, db) of
       (Inl e, w0) \<Rightarrow> res = Inl e \<and> (\<forall>c. canon_set c (bw_db w) = canon_set c db)
     | (Inr s, w0) \<Rightarrow>
         (let c = ch_chain_id (bs_head s); r = \<lparr>from_block = bo_from_block opt, to_block = bo_to_block opt\<rparr> in
          \<exists>hs. follows (bs_anchor s) hs \<and> canon_set c (bw_db w) = canon_set c db \<union> set hs \<and>
            (\<forall>rep. res = Inr rep \<longrightarrow>
               map (\<lambda>x. unat (height x)) hs = blocks r \<and>
               {x \<in> canon_set c (bw_db w). unat (height x) \<in> set (blocks r)} = set hs \<and>
               checkpoint_at c (Some (last hs)) (bw_db w) \<and>
               (bo_to_block opt = ch_number (bs_head s) \<longrightarrow> hash (last hs) = ch_hash (bs_head s)) \<and>
               canonical_blocks (rp_summary rep) = length hs \<and>
               hm_get (chain_identity (bw_db w0)) c = Some (ch_genesis_hash (bs_head s)))))"
proof -
  obtain rs w0 where made: "backfill_setup V cfg opt (net, db) = (rs, w0)" by (rule prod.exhaust)
  have kept: "same_blocks genuine db (bw_db w0)"
    using setup_keeps [OF assms(1,2), of cfg opt net] made by simp
  show ?thesis
  proof (cases rs)
    case (Inl e)
    with assms(5) made kept show ?thesis by (auto simp: run_backfill_def same_blocks_def sound_db_def)
  next
    case (Inr s)
    note start = made [unfolded Inr]
    note S = setup_Inr [OF start honest_delivers [OF assms(1)] assms(3,4)]
    obtain lres w1 where loop: "ran_loop (bs_context s) sched (bs_sizer s) (bs_coordinator s) (bs_committer s) w0 = (lres, w1)"
      by (rule prod.exhaust)
    have db: "bw_db w = bw_db w1"
      using assms(5) start loop finish_keeps_db [of V cfg opt s _ w1]
      by (cases lres) (auto simp: run_backfill_def, metis snd_conv)
    from command_loop [OF start assms(1-4) loop] obtain hs where
      hs: "follows (bs_anchor s) hs" "db_inv (bw_db w)"
        "canon_set (ch_chain_id (bs_head s)) (bw_db w) = canon_set (ch_chain_id (bs_head s)) db \<union> set hs" and
      ok: "\<And>p cm. lres = Inr (p, cm) \<Longrightarrow> map (\<lambda>x. unat (height x)) hs = blocks (bs_range s) \<and>
        checkpoint_at (ch_chain_id (bs_head s)) (Some (last hs)) (bw_db w) \<and> last_committed_hash cm = Some (hash (last hs))"
      unfolding db by blast
    have "map (\<lambda>x. unat (height x)) hs = blocks (bs_range s) \<and>
        {x \<in> canon_set (ch_chain_id (bs_head s)) (bw_db w). unat (height x) \<in> set (blocks (bs_range s))} = set hs \<and>
        checkpoint_at (ch_chain_id (bs_head s)) (Some (last hs)) (bw_db w) \<and>
        (bo_to_block opt = ch_number (bs_head s) \<longrightarrow> hash (last hs) = ch_hash (bs_head s)) \<and>
        canonical_blocks (rp_summary rep) = length hs"
      if rep: "res = Inr rep" for rep
    proof -
      from assms(5) start loop rep obtain p cm w2 where l: "lres = Inr (p, cm)"
        and fin: "finish_backfill V cfg opt s (p, cm) w1 = (Inr rep, w)"
        by (auto simp: run_backfill_def try_simps)
      from fin have head: "head_unchanged (bs_head s) (bs_range s) cm = Inr ()"
        and sm: "continuous (bs_range s) (rp_summary rep) = Inr ()"
        by (auto simp: finish_backfill_def checked_def Let_def try_simps)
      note hs' = ok [OF l]
      have r: "bo_from_block opt \<le> bo_to_block opt" using S(1-3) by (simp add: setup_ok_def range_ok_def)
      have "length (map (\<lambda>x. unat (height x)) hs) = unat (range_len (bs_range s))"
        unfolding conjunct1 [OF hs'] using r assms(4) by (simp add: S(3) length_blocks range_len_def sat_simps word_le_nat_alt)
      with sm have "canonical_blocks (rp_summary rep) = length hs" by (auto simp: continuous_def split: if_splits)
      moreover have "bo_to_block opt = ch_number (bs_head s) \<longrightarrow> hash (last hs) = ch_hash (bs_head s)"
        using head hs' S(3) by (auto simp: head_unchanged_def split: if_splits)
      moreover have "set hs \<subseteq> canon_set (ch_chain_id (bs_head s)) (bw_db w)" using hs(3) by blast
      ultimately show ?thesis using hs' canonical_of_range [OF hs(2)] by blast
    qed
    with hs S(7) start show ?thesis
      unfolding Let_def S(3) by (auto intro!: exI [of _ hs])
  qed
qed

section \<open>The checks never fail\<close>

text \<open>The errors of the checks after the loop, and those that the loop never has.\<close>

fun internal_error :: "command_error \<Rightarrow> bool" where
  "internal_error (CmContinuity s) = True"
| "internal_error CmNoCheckpoint = True"
| "internal_error (CmCheckpointHeight n) = True"
| "internal_error (CmLoop e) = (\<not> real_error e)"
| "internal_error e = False"

definition external :: "('p, 'r) step \<Rightarrow> bool" where
  "external f \<longleftrightarrow> (\<forall>w e w'. f w = (Inl (Failed e), w') \<longrightarrow> \<not> internal_error e)"

lemma external_tryS: "external f \<Longrightarrow> (\<And>x. external (k x)) \<Longrightarrow> external (\<lambda>w. tryS (f w) k)"
  by (auto simp: external_def tryS_Inl) metis+

lemma external_bail: "(\<And>e. r = Inl e \<Longrightarrow> \<not> internal_error e) \<Longrightarrow> external (bail r)"
  by (auto simp: external_def bail_def map_err_Inl)

lemma external_shared: "external f \<Longrightarrow> external (\<lambda>w. f (w\<lparr>bw_shared := g w\<rparr>))"
  by (simp add: external_def)

lemma external_pure: "external (\<lambda>w. (Inr x, w))"
  by (simp add: external_def)

lemma external_net: "external (on_net (\<lambda>p. retried (g p)))"
  by (auto simp: external_def on_net_def retried_def map_err_Inl apfst_def map_prod_def split: prod.splits option.splits)

lemma external_on_shared: "(\<And>s e. fst (g s) = Inl (Failed e) \<Longrightarrow> \<not> internal_error e) \<Longrightarrow> external (on_shared g)"
  by (simp add: external_def on_shared_def case_prod_beta)

lemma external_read: "external (db_read V a h)"
  by (auto simp: external_def db_read_def bail_def map_err_Inl split: option.splits)

lemma external_dial: "external (dial V u)"
  by (auto simp: external_def dial_def on_net_def map_err_Inl apfst_def map_prod_def split: prod.splits)

lemma external_head: "external (target_head pol limit c)"
  by (simp add: target_head_def external_net)

lemma external_writer: "external (opened_writer V url head)"
proof -
  have "external (identity_written V wr g)" for wr g
    by (auto simp: external_def identity_written_def bail_def map_err_Inl split: option.splits prod.splits)
  moreover have "external (\<lambda>w. case be_migrate V (bw_db w) of (r, db) \<Rightarrow> bail (map_err CmMigrate r) (w\<lparr>bw_db := db\<rparr>))"
    by (auto simp: external_def bail_def map_err_Inl split: prod.splits)
  ultimately show ?thesis
    unfolding opened_writer_def [abs_def] by (intro external_tryS external_bail external_pure) (auto simp: map_err_Inl)
qed

lemma external_anchor: "external (fetched_anchor pol limit c f)"
proof (cases "f = 0")
  case False
  then show ?thesis
    unfolding fetched_anchor_def [abs_def] if_not_P [OF False]
    by (intro external_tryS external_on_shared external_net external_pure)
      (auto simp: map_err_Inl apfst_def map_prod_def split: prod.splits)
qed (simp add: fetched_anchor_def [abs_def] external_def)

lemma external_reference: "external (reference_records V u pol flt opt)"
proof (cases "bo_verify_reference opt")
  case True
  show ?thesis
    unfolding reference_records_def [abs_def] if_P [OF True]
    by (intro external_tryS external_dial external_bail external_on_shared external_pure)
      (auto simp: reference_loop_def map_err_Inl split: option.splits)
qed (simp add: reference_records_def [abs_def] external_def)

lemmas external_steps = external_tryS external_pure external_bail external_shared external_net external_read
  external_dial external_head external_writer external_anchor external_reference

lemma external_first:
  assumes "tryS (bail r w) k = (Inl (Failed e), w')" and "\<And>e. r = Inl e \<Longrightarrow> \<not> internal_error e" and "\<And>x. external (k x)"
  shows "\<not> internal_error e"
  using external_tryS [of "bail r" k] external_bail [of r] assms by (simp add: external_def) blast

lemma external_setup:
  assumes "backfill_setup V cfg opt (net, db) = (Inl (Failed e), w)"
  shows "\<not> internal_error e"
  by (rule external_first [OF assms [unfolded backfill_setup_def Let_def prod.case]],
      (auto simp: map_err_Inl) [],
      intro external_steps, auto simp: map_err_Inl ok_or_Inl split: if_splits option.splits)

lemma read_checkpoint_at:
  "checkpoint_at (chain_id wr) (Some x) db \<Longrightarrow> read_checkpoint wr db = Inr (Some \<lparr>last_height = height x, last_hash = hash x\<rparr>)"
  by (simp add: checkpoint_at_def read_checkpoint_def transpose_def row_to_checkpoint_def row_height_def ok_or_def)

text \<open>What the checks read when the range is there.\<close>

lemma reads_after_loop:
  assumes inv: "db_inv db" and r: "from_block r \<le> to_block r" "unat (to_block r) < 2 ^ 63"
    and hs: "map (\<lambda>x. unat (height x)) hs = blocks r" "set hs \<subseteq> canon_set (chain_id wr) db"
    and cp: "checkpoint_at (chain_id wr) (Some (last hs)) db"
  shows "range_summary wr (from_block r) (to_block r) db =
      Inr \<lparr>canonical_blocks = unat (range_len r), min_height = Some (from_block r), max_height = Some (to_block r)\<rparr>"
    and "read_checkpoint wr db = Inr (Some \<lparr>last_height = to_block r, last_hash = hash (last hs)\<rparr>)"
    and "hs \<noteq> [] \<and> height (last hs) = to_block r"
proof -
  have cover: "\<exists>x \<in> canon_set (chain_id wr) db. unat (height x) = n" if "n \<in> set (blocks r)" for n
    using that hs(2) by (auto simp flip: hs(1))
  have wf: "rows_wf db" using inv by (simp add: db_inv_def)
  from summary_of_full_range [OF wf r cover] show "range_summary wr (from_block r) (to_block r) db =
      Inr \<lparr>canonical_blocks = unat (range_len r), min_height = Some (from_block r), max_height = Some (to_block r)\<rparr>" .
  have bl: "blocks r \<noteq> []" "last (blocks r) = unat (to_block r)"
    using r(1) by (simp_all add: blocks_def word_le_nat_alt)
  then have ne: "hs \<noteq> []" using hs(1) by auto
  have "unat (height (last hs)) = last (map (\<lambda>x. unat (height x)) hs)" using ne by (simp add: last_map)
  then have top: "height (last hs) = to_block r" using bl(2) hs(1) by (simp add: word_eq_unat)
  with ne show "hs \<noteq> [] \<and> height (last hs) = to_block r" by simp
  from read_checkpoint_at [OF cp] top show "read_checkpoint wr db = Inr (Some \<lparr>last_height = to_block r, last_hash = hash (last hs)\<rparr>)"
    by simp
qed

lemma checked_external:
  assumes "db_inv (bw_db w)" and "from_block r \<le> to_block r" "unat (to_block r) < 2 ^ 63"
    and "map (\<lambda>x. unat (height x)) hs = blocks r" "set hs \<subseteq> canon_set (chain_id (cm_writer cm)) (bw_db w)"
    and "checkpoint_at (chain_id (cm_writer cm)) (Some (last hs)) (bw_db w)"
    and "checked V head r cm w = (Inl (Failed e), w')"
  shows "\<not> internal_error e"
  using reads_after_loop [OF assms(1-6)] assms(7)
  by (auto simp: checked_def tryS_Inl bail_def db_read_def head_unchanged_def continuous_def checkpoint_reached_def
      ok_or_def map_err_Inl map_err_Inr split: option.splits if_splits)

text \<open>
  C23: The checks that the command makes at its end never fail.  With honest nodes, a consistent database and
  nobody else writing to it, whatever error the command reports, it is not a gap in the canonical range, not
  a missing checkpoint and not a checkpoint at another height; and the loop never reports that it ended
  early.  A failure of the command is always one of its surroundings: the settings, a node, the
  connection to the database, the budget, a head that was replaced, or a reference that differs.
\<close>
theorem backfill_checks_never_fail:
  assumes "honest genuine V" and "sound_db genuine db" and "0 < bo_workers opt" and "unat (bo_to_block opt) < 2 ^ 63"
    and "run_backfill V cfg opt sched (net, db) = (Inl (Failed e), w)"
  shows "\<not> internal_error e"
proof -
  obtain rs w0 where made: "backfill_setup V cfg opt (net, db) = (rs, w0)" by (rule prod.exhaust)
  show ?thesis
  proof (cases rs)
    case (Inl x)
    with assms(5) made external_setup [of V cfg opt net db e w0] show ?thesis by (simp add: run_backfill_def)
  next
    case (Inr s)
    note start = made [unfolded Inr]
    note S = setup_Inr [OF start honest_delivers [OF assms(1)] assms(3,4)]
    obtain lres w1 where loop: "ran_loop (bs_context s) sched (bs_sizer s) (bs_coordinator s) (bs_committer s) w0 = (lres, w1)"
      by (rule prod.exhaust)
    show ?thesis
    proof (cases lres)
      case (Inl x)
      with assms(5) start loop have "x = Failed e" by (simp add: run_backfill_def)
      with loop Inl obtain le st where e: "e = CmLoop le" and
        F: "fetch_and_commit_ranges (bs_context s) sched (bs_sizer s) (bs_coordinator s) (bs_committer s, bw_db w0, 0) (bw_shared w0) =
          (Some (Inl le), st)"
        by (auto simp: ran_loop_def tryR_Inl map_err_Inl split: prod.splits option.splits)
      have c: "coordinator_new (from_block (bx_full_range (bs_context s))) (to_block (bx_full_range (bs_context s))) (bs_anchor s) =
          Inr (bs_coordinator s)"
        using S(2-4) by simp
      have "real_error le" using fetch_outcome [OF S(1) c S(5) F] by auto
      with e show ?thesis by simp
    next
      case (Inr pc)
      obtain p cm where pc: "pc = (p, cm)" by (rule prod.exhaust)
      with assms(5) start loop Inr have fin: "finish_backfill V cfg opt s (p, cm) w1 = (Inl (Failed e), w)"
        by (simp add: run_backfill_def)
      from command_loop [OF start assms(1-4) loop] Inr pc obtain hs where hs: "db_inv (bw_db w1)"
        "map (\<lambda>x. unat (height x)) hs = blocks (bs_range s)" "chain_id (cm_writer cm) = ch_chain_id (bs_head s)"
        "canon_set (ch_chain_id (bs_head s)) (bw_db w1) = canon_set (ch_chain_id (bs_head s)) db \<union> set hs"
        "checkpoint_at (ch_chain_id (bs_head s)) (Some (last hs)) (bw_db w1)"
        by blast
      have r: "from_block (bs_range s) \<le> to_block (bs_range s)" "unat (to_block (bs_range s)) < 2 ^ 63"
        using S(1-3) by (simp_all add: setup_ok_def range_ok_def)
      have ck: "checked V (bs_head s) (bs_range s) cm w1 = (Inl (Failed e), w') \<Longrightarrow> \<not> internal_error e" for w'
        using checked_external [OF hs(1) r hs(2), of cm V "bs_head s" e w'] hs(3-5) by simp
      have tail: "external (\<lambda>w. tryS (reference_records V u pol flt opt w) (\<lambda>reference w.
          tryS (db_read V AtRecords h w) (\<lambda>stored w. tryS (bail (compared reference stored) w) (\<lambda>n w. (Inr (x n stored w), w)))))"
        for u pol flt h and x :: "_ \<Rightarrow> _ \<Rightarrow> _ \<Rightarrow> backfill_report"
        by (intro external_steps) (auto simp: compared_def external_def split: option.splits if_splits)
      from fin ck tail show ?thesis
        unfolding finish_backfill_def Let_def tryS_Inl [of "checked V h r c w" for h r c w] by (fastforce simp: external_def)
    qed
  qed
qed

section \<open>The writer of the loop\<close>

text \<open>The writer stays the same, whatever the nodes answer.\<close>

lemma drain_keeps:
  assumes keeps: "\<And>f s. P s \<Longrightarrow> P (snd (commit f s))"
  shows "drain_loop commit p c s = (res, c', s') \<Longrightarrow> P s \<Longrightarrow> P s'"
proof (induction c arbitrary: p s rule: measure_induct_rule [of "\<lambda>c. length (pending c)"])
  case (less c)
  from less.prems(1) show ?case
  proof (cases rule: drain_loop_cases)
    case (refused f e blk)
    with keeps [OF less.prems(2), of f] show ?thesis by simp
  next
    case (step f blk c1 s1 u)
    have "length (pending (advance blk c1)) < length (pending c)"
      using step(1) validate_ready_range_pending [OF step(2)] by (simp add: advance_def)
    from less.IH [OF this step(4)] keeps [OF less.prems(2), of f] step(3) show ?thesis by simp
  qed (use less.prems(2) in simp_all)
qed

definition loop_writer :: "'p backfill_loop \<Rightarrow> pg_writer" where
  "loop_writer st = cm_writer (fst (bl_sink st))"

lemma sink_commit_writer: "cm_writer (fst (snd (sink_commit se flt f k))) = cm_writer (fst k)"
  by (auto simp: sink_commit_def committer_commit_def Let_def split: prod.split sum.split)

lemma push_writer: "push (sink_commit se flt) f c k = (res, c', k') \<Longrightarrow> cm_writer (fst k') = cm_writer (fst k)"
  using drain_keeps [of "\<lambda>s. cm_writer (fst s) = cm_writer (fst k)" "sink_commit se flt"]
  by (auto simp: push_def drain_ready_def sink_commit_writer split: prod.splits sum.splits)

lemma refill_writer: "loop_writer (refill X st) = loop_writer st"
proof -
  have "bl_sink (fill_fetch_window w t st) = bl_sink st" for w t
  proof (induction w t st rule: fill_fetch_window.induct)
    case (1 w t st)
    show ?case
    proof (cases "bl_in_flight st < w \<and> take_range t st \<noteq> None")
      case True
      then obtain r st' where rs: "take_range t st = Some (r, st')" by auto
      then have "bl_sink st' = bl_sink st" by (auto simp: take_range_def split: list.splits)
      moreover have "fill_fetch_window w t st = fill_fetch_window w t ((spawn_fetch r st')\<lparr>bl_in_flight := bl_in_flight st' + 1\<rparr>)"
        using True rs by (subst fill_fetch_window.simps) simp
      ultimately show ?thesis using 1 [OF _ rs refl] True by (simp add: spawn_fetch_def)
    next
      case False
      then show ?thesis by (subst fill_fetch_window.simps) (cases "take_range t st"; auto)
    qed
  qed
  then show ?thesis by (simp add: loop_writer_def refill_def)
qed

lemma joined_writer: "on_joined X ph st = (r, st') \<Longrightarrow> loop_writer st' = loop_writer st"
  by (cases "(X, ph, st)" rule: on_joined.cases)
    (auto simp: loop_writer_def on_fetched_def on_provider_limit_def Let_def dest!: push_writer
      split: prod.splits sum.splits backfill_error.splits)

lemma turn_writer: "loop_turn X i st = (r, st') \<Longrightarrow> loop_writer st' = loop_writer st"
  by (auto simp: loop_turn_def join_task_def worker_step_def Let_def tryS_def refill_writer dest!: joined_writer
      split: if_splits prod.splits sum.splits) (simp_all add: loop_writer_def)

lemma run_turns_writer: "run_turns X sched st = (r, st') \<Longrightarrow> loop_writer st' = loop_writer st"
proof (induction sched arbitrary: st)
  case Nil
  then show ?case by (simp add: run_turns.simps split: if_splits)
next
  case (Cons i sched)
  obtain q st1 where t: "loop_turn X i st = (q, st1)" by (rule prod.exhaust)
  from Cons.prems t turn_writer [OF t] Cons.IH show ?case
    by (cases q) (simp_all add: run_turns.simps [of X "i # sched"] split: if_splits)
qed

lemma ran_loop_writer: "ran_loop X sched z c cm w = (Inr (p, cm'), w') \<Longrightarrow> cm_writer cm' = cm_writer cm"
proof -
  assume "ran_loop X sched z c cm w = (Inr (p, cm'), w')"
  then obtain r st where "run_turns X sched (loop_start X z c (cm, bw_db w, 0) (bw_shared w)) = (r, st)" "cm' = fst (bl_sink st)"
    by (auto simp: ran_loop_def fetch_and_commit_ranges_def try_simps split: prod.splits option.splits)
  from this(2) run_turns_writer [OF this(1)] show ?thesis by (simp add: loop_start_def refill_writer) (simp add: loop_writer_def)
qed

lemma setup_writer:
  "backfill_setup V cfg opt (net, db) = (Inr s, w0) \<Longrightarrow> chain_id (cm_writer (bs_committer s)) = ch_chain_id (bs_head s)"
  by (auto simp: backfill_setup_def Let_def tryS_Inr bail_Inr opened_writer_def committer_new_def writer_new_def try_simps split: if_splits)

section \<open>The reference\<close>

lemma fetched_logs_are_an_answer:
  "fetch_logs_from c cfg r a s = (Some (Inr ls), s') \<Longrightarrow>
   \<exists>p q. fetch_anchored_logs (rcl_provider c) r (fc_filter cfg) p = (Inr ls, q)"
proof (induction c cfg r a s rule: fetch_logs_from.induct)
  case (1 c cfg r a s)
  obtain u s1 where rec: "shared_record GetLogs 0 s = (Inr u, s1)"
    using 1(2) by (subst (asm) fetch_logs_from.simps) (auto split: prod.splits sum.splits)
  obtain answer p where ask: "ask_logs c cfg r (snd s1) = (answer, p)" by (rule prod.exhaust)
  have run: "(case judge_logs cfg r a answer of
      Answered ls \<Rightarrow> (Some (Inr ls), (fst s1, p))
    | Again d \<Rightarrow> fetch_logs_from c cfg r (a + 1) (fst s1, rcl_sleep c d p)
    | Gone e \<Rightarrow> (Some (Inl e), (fst s1, p))
    | PolicyPanics \<Rightarrow> (None, (fst s1, p))) = (Some (Inr ls), s')"
    using 1(2) by (subst (asm) fetch_logs_from.simps) (simp add: rec ask)
  show ?case
  proof (cases "judge_logs cfg r a answer")
    case (Answered xs)
    with run have "judge_logs cfg r a answer = Answered ls" by simp
    then have "answer = Some (Inr ls)"
      by (auto simp: judge_logs_def judge_def split: option.splits sum.splits if_splits retry_decision.splits)
    with ask show ?thesis by (auto simp: ask_logs_def under_limit_def split: prod.splits if_splits)
  next
    case (Again d)
    with run have "fetch_logs_from c cfg r (a + 1) (fst s1, rcl_sleep c d p) = (Some (Inr ls), s')" by simp
    then show ?thesis by (rule 1(1) [OF rec [symmetric] refl ask [symmetric] Again])
  qed (use run in simp_all)
qed

lemma next_range_splits:
  assumes t: "unat target < 2 ^ 63" and r: "next_range z f target = Some r"
  shows "[unat f ..< Suc (unat target)] = blocks r @ [unat (sat_add (to_block r) 1) ..< Suc (unat target)]"
    "unat f < unat (sat_add (to_block r) 1)" "f \<le> target"
proof -
  let ?e = "request_end (current_blocks z) f target"
  from r have r': "r = \<lparr>from_block = f, to_block = ?e\<rparr>" and le: "f \<le> target"
    by (auto simp: next_range_def request_end_def split: if_splits)
  have b: "unat f \<le> unat ?e" "unat ?e \<le> unat target"
    using request_end_ge [OF le] request_end_le [of _ f target] by (simp_all add: word_le_nat_alt)
  have s: "unat (sat_add ?e 1) = Suc (unat ?e)" using b t by (simp add: sat_simps)
  show "[unat f ..< Suc (unat target)] = blocks r @ [unat (sat_add (to_block r) 1) ..< Suc (unat target)]"
    using b upt_add_eq_append [of "unat f" "Suc (unat ?e)" "unat target - unat ?e"]
    by (simp add: blocks_def r' s del: upt_Suc)
  show "unat f < unat (sat_add (to_block r) 1)" "f \<le> target" using b le by (simp_all add: r' s)
qed

lemma live_policy_decides: "decision live_policy f a \<noteq> None"
proof -
  have p: "as_millis (jitter live_policy) < 2 ^ 64 - 1" by (simp add: live_policy_def as_millis_def)
  obtain g where "jitter_for live_policy a = Some g" using jitter_for_bound [of live_policy a] p by auto
  then have "backoff live_policy a \<noteq> None" by (simp add: backoff_def Let_def)
  then show ?thesis by (cases f) (auto simp: decision_def split: option.splits)
qed

lemma fetch_logs_decides: "fc_retry_policy cfg = live_policy \<Longrightarrow> fst (fetch_logs_from c cfg r a s) \<noteq> None"
proof (induction c cfg r a s rule: fetch_logs_from.induct)
  case (1 c cfg r a s)
  have "judge_logs cfg r a answer \<noteq> PolicyPanics" for answer
    using 1(2)
    by (auto simp: judge_logs_def judge_def live_policy_decides split: option.splits sum.splits if_splits retry_decision.splits)
  with 1 show ?case
    by (subst fetch_logs_from.simps) (auto split: prod.split sum.split verdict.split)
qed

text \<open>The reference loop comes back, and what it brings covers the range.\<close>

lemma reference_returns:
  assumes "unat target < 2 ^ 63"
  shows "\<exists>x. reference_from c cfg z f target acc s = Some x \<and>
    (fc_retry_policy cfg = live_policy \<longrightarrow> fst x \<noteq> None) \<and>
    (\<forall>rs s'. x = (Some (Inr rs), s') \<longrightarrow>
       (\<exists>parts. concat (map (\<lambda>(r, ls). blocks r) parts) = [unat f ..< Suc (unat target)] \<and>
          rs = acc @ concat (map (\<lambda>(r, ls). map normalized_from_anchored ls) parts) \<and>
          (\<forall>(r, ls) \<in> set parts. \<exists>p q. fetch_anchored_logs (rcl_provider c) r (fc_filter cfg) p = (Inr ls, q))))"
proof (induction "Suc (unat target) - unat f" arbitrary: z f acc s rule: less_induct)
  case less
  show ?case
  proof (cases "next_range z f target")
    case None
    then have "\<not> f \<le> target" by (simp add: next_range_def split: if_splits)
    then have "[unat f ..< Suc (unat target)] = []" by (simp add: word_le_nat_alt)
    then show ?thesis by (subst reference_from.simps) (auto simp: None intro: exI [of _ "[]"])
  next
    case (Some r)
    note nr = next_range_splits [OF assms Some]
    obtain res s1 where f: "fetch_logs_with_retry c cfg r s = (res, s1)" by (rule prod.exhaust)
    show ?thesis
    proof (cases "\<exists>ls. res = Some (Inr ls)")
      case True
      then obtain ls where ls: "res = Some (Inr ls)" ..
      let ?f = "sat_add (to_block r) 1" and ?acc = "acc @ map normalized_from_anchored ls"
      have "reference_from c cfg z f target acc s = reference_from c cfg (record_success z) ?f target ?acc s1"
        by (subst reference_from.simps) (simp add: Some f ls fetch_reference_range_with_retry_def)
      moreover have "Suc (unat target) - unat ?f < Suc (unat target) - unat f"
        using nr(2,3) by (simp add: word_le_nat_alt)
      from less.hyps [OF this, of "record_success z" ?acc s1] obtain x where
        x: "reference_from c cfg (record_success z) ?f target ?acc s1 = Some x" "fc_retry_policy cfg = live_policy \<longrightarrow> fst x \<noteq> None" and
        parts: "\<And>rs s'. x = (Some (Inr rs), s') \<Longrightarrow>
          \<exists>parts. concat (map (\<lambda>(r, ls). blocks r) parts) = [unat ?f ..< Suc (unat target)] \<and>
            rs = ?acc @ concat (map (\<lambda>(r, ls). map normalized_from_anchored ls) parts) \<and>
            (\<forall>(r, ls) \<in> set parts. \<exists>p q. fetch_anchored_logs (rcl_provider c) r (fc_filter cfg) p = (Inr ls, q))"
        by blast
      have ans: "\<exists>p q. fetch_anchored_logs (rcl_provider c) r (fc_filter cfg) p = (Inr ls, q)"
        using f ls by (intro fetched_logs_are_an_answer [of c cfg r 1 s]) (simp add: fetch_logs_with_retry_def)
      have "\<exists>parts. concat (map (\<lambda>(r, ls). blocks r) parts) = [unat f ..< Suc (unat target)] \<and>
          rs = acc @ concat (map (\<lambda>(r, ls). map normalized_from_anchored ls) parts) \<and>
          (\<forall>(r, ls) \<in> set parts. \<exists>p q. fetch_anchored_logs (rcl_provider c) r (fc_filter cfg) p = (Inr ls, q))"
        if "x = (Some (Inr rs), s')" for rs s'
        using parts [OF that] ans nr(1) by (elim exE conjE) (rule exI [of _ "(r, ls) # _"], auto)
      ultimately show ?thesis using x by auto
    next
      case False
      moreover have "fc_retry_policy cfg = live_policy \<longrightarrow> res \<noteq> None"
        using fetch_logs_decides [of cfg c r 1 s] f by (auto simp: fetch_logs_with_retry_def)
      ultimately show ?thesis by (subst reference_from.simps) (auto simp: Some f fetch_reference_range_with_retry_def tryR_def split: option.split sum.split)
    qed
  qed
qed

lemma reference_loop_Inr:
  "reference_loop c cfg z f target s = (Inr rs, s') \<longleftrightarrow> reference_from c cfg z f target [] s = Some (Some (Inr rs), s')"
  by (auto simp: reference_loop_def map_err_Inr split: option.splits)

text \<open>
  C14: What the comparison with a reference means.  When the command reports that \<open>n\<close> records match, the
  second node was asked for consecutive ranges that cover every block of the backfill exactly once, and the
  logs stored for the canonical blocks of the range on the captured chain (those of the contract, when one is
  given) are, as often as each occurs, exactly the logs that the node answered.
\<close>
theorem verified_backfill_matches_reference:
  fixes V :: "('u, 'p, 'ev) backfill_env"
  assumes "run_backfill V cfg opt sched (net, db) = (Inr rep, w)" and "rp_compared rep = Some n" and "unat (bo_to_block opt) < 2 ^ 63"
  shows "\<exists>s w0 wr c p q parts stored.
    backfill_setup V cfg opt (net, db) = (Inr s, w0) \<and>
    be_connect V (case bo_reference_rpc_url opt of Some u \<Rightarrow> u | None \<Rightarrow> primary_url (rpc cfg)) p = (Inr c, q) \<and>
    concat (map (\<lambda>(r, ls). blocks r) parts) = blocks (bs_range s) \<and>
    (\<forall>(r, ls) \<in> set parts. \<exists>p q. fetch_anchored_logs (rcl_provider c) r (fc_filter (bx_config (bs_context s))) p = (Inr ls, q)) \<and>
    chain_id wr = ch_chain_id (bs_head s) \<and>
    canonical_log_records wr (bo_from_block opt) (bo_to_block opt) (map_option lf_address (fc_filter (bx_config (bs_context s))))
      (bw_db w) = Inr stored \<and>
    mset stored = mset (concat (map (\<lambda>(r, ls). map normalized_from_anchored ls) parts)) \<and> n = length stored"
proof -
  from assms(1) obtain s w0 pc w1 where made: "backfill_setup V cfg opt (net, db) = (Inr s, w0)"
    and loop: "ran_loop (bs_context s) sched (bs_sizer s) (bs_coordinator s) (bs_committer s) w0 = (Inr pc, w1)"
    and fin: "finish_backfill V cfg opt s pc w1 = (Inr rep, w)"
    by (auto simp: run_backfill_def tryS_Inr)
  have wr: "chain_id (cm_writer (snd pc)) = ch_chain_id (bs_head s)"
    using setup_writer [OF made] ran_loop_writer [of _ _ _ _ _ _ "fst pc" "snd pc"] loop by (metis prod.collapse)
  let ?flt = "fc_filter (bx_config (bs_context s))" and ?pol = "fc_retry_policy (bx_config (bs_context s))"
  let ?cfg = "reference_config ?pol (bo_rpc_timeout opt) ?flt :: 'ev fetch_config"
  have r: "bs_range s = \<lparr>from_block = bo_from_block opt, to_block = bo_to_block opt\<rparr>"
    using made by (auto simp: backfill_setup_def Let_def tryS_Inr bail_Inr map_err_Inr range_new_def split: if_splits)
  from fin obtain sm w2 reference w3 stored where
    ref: "reference_records V (primary_url (rpc cfg)) ?pol ?flt opt w2 = (Inr reference, w3)" and
    stored: "canonical_log_records (cm_writer (snd pc)) (bo_from_block opt) (bo_to_block opt) (map_option lf_address ?flt) (bw_db w) = Inr stored" and
    cmp: "compared reference stored = Inr (rp_compared rep)"
    by (auto simp: finish_backfill_def Let_def tryS_Inr db_read_Inr bail_Inr r)
  from cmp assms(2) obtain rs where rs: "reference = Some rs" "mset stored = mset rs" "n = length stored"
    by (auto simp: compared_def split: option.splits if_splits)
  define u where "u = (case bo_reference_rpc_url opt of Some u \<Rightarrow> u | None \<Rightarrow> primary_url (rpc cfg))"
  from ref rs(1) obtain c w4 z S' where dl: "dial V u w2 = (Inr c, w4)"
    and go: "reference_from c ?cfg z (bo_from_block opt) (bo_to_block opt) [] (bw_shared w4) = Some (Some (Inr rs), S')"
    by (auto simp: reference_records_def tryS_Inr bail_Inr on_shared_Inr reference_loop_Inr simp flip: u_def split: if_splits)
  from dial_Inr [OF dl] obtain p q where c: "be_connect V u p = (Inr c, q)" by blast
  have f: "fc_filter ?cfg = ?flt" by (simp add: reference_config_def)
  from reference_returns [OF assms(3), of c ?cfg z "bo_from_block opt" "[]" "bw_shared w4"] go obtain parts where
    "concat (map (\<lambda>(r, ls). blocks r) parts) = blocks (bs_range s)"
    "rs = concat (map (\<lambda>(r, ls). map normalized_from_anchored ls) parts)"
    "\<forall>(r, ls) \<in> set parts. \<exists>p q. fetch_anchored_logs (rcl_provider c) r ?flt p = (Inr ls, q)"
    unfolding f r blocks_def by auto
  with made c [unfolded u_def] wr stored rs show ?thesis by blast
qed

section \<open>The command ends\<close>

lemma retry_from_decides: "pol = live_policy \<Longrightarrow> fst (retry_from pol e sleep once a p) \<noteq> None"
proof (induction pol e sleep once a p rule: retry_from.induct)
  case (1 pol e sleep once a p)
  show ?case
    using 1
    by (subst retry_from.simps) (auto simp: live_policy_decides split: prod.split option.split sum.split retry_decision.split)
qed

text \<open>The two stops that are neither success nor an error.\<close>

definition proceeds :: "('p, 'r) step \<Rightarrow> bool" where
  "proceeds f \<longleftrightarrow> (\<forall>w. fst (f w) \<noteq> Inl StillRunning \<and> fst (f w) \<noteq> Inl CommandPanics)"

lemma proceeds_tryS: "proceeds f \<Longrightarrow> (\<And>x. proceeds (k x)) \<Longrightarrow> proceeds (\<lambda>w. tryS (f w) k)"
  by (simp add: proceeds_def tryS_def split: prod.split sum.split) (metis fst_conv)

lemma proceeds_pure: "proceeds (\<lambda>w. (Inr (x w), w))"
  by (simp add: proceeds_def)

lemma proceeds_bail: "proceeds (bail r)"
  by (cases r) (simp_all add: proceeds_def bail_def)

lemma proceeds_shared: "proceeds f \<Longrightarrow> proceeds (\<lambda>w. f (w\<lparr>bw_shared := g w\<rparr>))"
  by (simp add: proceeds_def)

lemma proceeds_on_net: "(\<And>p. fst (f p) \<noteq> Inl StillRunning \<and> fst (f p) \<noteq> Inl CommandPanics) \<Longrightarrow> proceeds (on_net f)"
  by (simp add: proceeds_def on_net_def case_prod_beta)

lemma proceeds_on_shared: "(\<And>p. fst (f p) \<noteq> Inl StillRunning \<and> fst (f p) \<noteq> Inl CommandPanics) \<Longrightarrow> proceeds (on_shared f)"
  by (simp add: proceeds_def on_shared_def case_prod_beta)

lemma map_err_stop [simp]: "map_err f r = Inl y \<longleftrightarrow> (\<exists>x. r = Inl x \<and> y = f x)"
  by (auto simp: map_err_Inl)

lemma proceeds_retried: "fst (g p) \<noteq> None \<Longrightarrow> fst (retried (g p)) \<noteq> Inl StillRunning \<and> fst (retried (g p)) \<noteq> Inl CommandPanics"
  by (auto simp: retried_def split: option.split)

lemma proceeds_read: "proceeds (db_read V a h)"
  using proceeds_bail by (auto simp: proceeds_def db_read_def split: option.split)

lemma proceeds_dial: "proceeds (dial V u)"
  unfolding dial_def by (rule proceeds_on_net) simp

lemma proceeds_head: "proceeds (target_head live_policy limit c)"
  unfolding target_head_def
  by (intro proceeds_on_net proceeds_retried)
    (simp add: capture_target_head_with_retry_def retry_rpc_request_def retry_from_decides del: not_None_eq)

lemma proceeds_writer: "proceeds (opened_writer V url head)"
proof -
  have "proceeds (identity_written V wr g)" for wr g
    using proceeds_bail by (auto simp: proceeds_def identity_written_def split: option.split prod.split)
  moreover have "proceeds (\<lambda>w. case be_migrate V (bw_db w) of (r, db) \<Rightarrow> bail (map_err CmMigrate r) (w\<lparr>bw_db := db\<rparr>))"
    using proceeds_bail by (auto simp: proceeds_def split: prod.split)
  ultimately show ?thesis
    unfolding opened_writer_def [abs_def] by (intro proceeds_tryS proceeds_bail proceeds_pure)
qed

lemma proceeds_anchor: "proceeds (fetched_anchor live_policy limit c f)"
proof (cases "f = 0")
  case False
  show ?thesis
    unfolding fetched_anchor_def [abs_def] if_not_P [OF False]
    by (intro proceeds_tryS proceeds_on_shared proceeds_on_net proceeds_pure proceeds_retried)
      (auto simp: fetch_header_by_number_with_retry_def retry_rpc_request_def retry_from_decides simp del: not_None_eq)
qed (simp add: fetched_anchor_def [abs_def] proceeds_def)

lemma proceeds_reference_loop:
  assumes "fc_retry_policy cfg = live_policy" and "unat target < 2 ^ 63"
  shows "fst (reference_loop c cfg z f target s) \<noteq> Inl StillRunning \<and> fst (reference_loop c cfg z f target s) \<noteq> Inl CommandPanics"
proof -
  obtain x s' where "reference_from c cfg z f target [] s = Some (Some x, s')"
    using reference_returns [OF assms(2), of c cfg z f "[]" s] assms(1) by fastforce
  then show ?thesis by (simp add: reference_loop_def)
qed

lemma proceeds_reference:
  assumes "unat (bo_to_block opt) < 2 ^ 63"
  shows "proceeds (reference_records V u live_policy flt opt)"
proof (cases "bo_verify_reference opt")
  case True
  show ?thesis
    unfolding reference_records_def [abs_def] if_P [OF True]
    by (intro proceeds_tryS proceeds_dial proceeds_bail proceeds_on_shared proceeds_pure proceeds_reference_loop assms)
      (simp add: reference_config_def)
qed (simp add: reference_records_def [abs_def] proceeds_def)

lemmas proceeds_steps = proceeds_tryS proceeds_pure proceeds_bail proceeds_shared proceeds_read proceeds_dial proceeds_head
  proceeds_writer proceeds_anchor proceeds_reference

lemma bail_bind: "tryS (bail (map_err f (Inr x)) w) k = k x w"
  by (simp add: bail_def)

lemma proceeds_first:
  "(\<And>x. proceeds (k x)) \<Longrightarrow> fst (tryS (bail r w) k) \<noteq> Inl StillRunning \<and> fst (tryS (bail r w) k) \<noteq> Inl CommandPanics"
  using proceeds_tryS [of "bail r" k, OF proceeds_bail] unfolding proceeds_def by blast

lemma setup_proceeds:
  "fst (backfill_setup V cfg opt (net, db)) \<noteq> Inl StillRunning \<and> fst (backfill_setup V cfg opt (net, db)) \<noteq> Inl CommandPanics"
  unfolding backfill_setup_def Let_def prod.case backfill_retry_policy bail_bind
  by (rule proceeds_first) (intro proceeds_steps)

text \<open>
  C15: The backfill command always comes to an end.  Let the request budget be one that can be exceeded (below
  the largest \<open>u64\<close>) and \<open>n\<close> the number of blocks of the range.  Whatever the nodes, the database
  and the interleaving of the workers do, after at most \<open>budget * (3 n + 10) + 3 n\<close> turns the command
  has returned, with a report or with an error; no retry policy panics, and the reference is not fetched
  for ever.
\<close>
theorem backfill_command_ends:
  assumes "0 < bo_workers opt" and "unat (bo_to_block opt) < 2 ^ 63"
    and "r = \<lparr>from_block = bo_from_block opt, to_block = bo_to_block opt\<rparr>"
    and "backfill_budget opt r = Inr b" and "max_requests b \<noteq> - 1"
    and "unat (max_requests b) * (3 * length (blocks r) + 10) + 3 * length (blocks r) \<le> length sched"
  shows "fst (run_backfill V cfg opt sched (net, db)) \<noteq> Inl StillRunning \<and>
    fst (run_backfill V cfg opt sched (net, db)) \<noteq> Inl CommandPanics"
proof -
  have any: "delivers (\<lambda>_. True) V" by (simp add: delivers_def range_genuine_def)
  obtain rs w0 where made: "backfill_setup V cfg opt (net, db) = (rs, w0)" by (rule prod.exhaust)
  show ?thesis
  proof (cases rs)
    case (Inl x)
    with made setup_proceeds [of V cfg opt net db] show ?thesis by (simp add: run_backfill_def)
  next
    case (Inr s)
    note start = made [unfolded Inr]
    note S = setup_Inr [OF start any assms(1,2)]
    have size: "range_size (bs_context s) = length (blocks r)" by (simp add: range_size_def S(2,3) assms(3))
    have b: "budget_ok (fst (bw_shared w0))" "requests_left (fst (bw_shared w0)) \<le> unat (max_requests b)"
      using S(9) assms(3-5) S(3) by (auto simp: budget_of_def budget_ok_def requests_left_def)
    have "requests_left (fst (bw_shared w0)) * (3 * range_size (bs_context s) + 10) + 3 * range_size (bs_context s) \<le> length sched"
      using mult_le_mono1 [OF b(2), of "3 * length (blocks r) + 10"] assms(6) unfolding size by linarith
    moreover have c: "coordinator_new (from_block (bx_full_range (bs_context s))) (to_block (bx_full_range (bs_context s))) (bs_anchor s) =
        Inr (bs_coordinator s)"
      using S(2-4) by simp
    ultimately obtain q st where F: "fetch_and_commit_ranges (bs_context s) sched (bs_sizer s) (bs_coordinator s)
        (bs_committer s, bw_db w0, 0) (bw_shared w0) = (Some q, st)"
      using backfill_loop_ends [OF S(1) _ S(5) b(1)] by blast
    have fin: "proceeds (finish_backfill V cfg opt s pc)" for pc
      unfolding finish_backfill_def [abs_def] Let_def S(10) checked_def [abs_def]
      by (intro proceeds_steps assms)
    from F show ?thesis
      using fin start by (cases q) (auto simp: run_backfill_def ran_loop_def proceeds_def)
  qed
qed

section \<open>A command for one block\<close>

definition one_env :: "(sample_url, nat, string) backfill_env" where
  "one_env = \<lparr>be_urls = toy_urls, be_alloy = no_alloy, be_readers = one_provider, be_registry_text = (\<lambda>_. ''registry''),
     be_show_error = (\<lambda>_. ''database''), be_connect = (\<lambda>u p. (Inr (bx_client one_context), p)), be_pool = (\<lambda>_. Inr ()),
     be_migrate = (\<lambda>db. (Inr (), db)), be_faults = (\<lambda>_. clean), be_lost = (\<lambda>_. None)\<rparr>"

definition one_options :: "sample_url backfill_options" where
  "one_options = \<lparr>bo_from_block = 0, bo_to_block = 0, bo_contract_address = None, bo_verify_reference = True,
     bo_reference_rpc_url = None, bo_initial_log_blocks = 4, bo_min_log_blocks = 1, bo_max_log_blocks = 8, bo_rpc_timeout = 1,
     bo_rpc_max_requests = Some 9, bo_rpc_max_cost_units = Some 99, bo_workers = 1\<rparr>"

definition one_chain_head :: chain_head where
  "one_chain_head = \<lparr>ch_chain_id = 1, ch_number = 5, ch_hash = fill 5, ch_genesis_hash = fill 5\<rparr>"

definition one_begin :: "(nat, string) backfill_start" where
  "one_begin = \<lparr>bs_head = one_chain_head,
     bs_range = \<lparr>from_block = 0, to_block = 0\<rparr>, bs_context = one_context, bs_sizer = one_sizer, bs_anchor = None,
     bs_coordinator = one_coordinator, bs_committer = committer_new sample_writer None\<rparr>"

lemma one_head:
  "target_head live_policy (Suc 0) (bx_client one_context) w =
     (Inr one_chain_head, w\<lparr>bw_shared := (fst (bw_shared w), snd (bw_shared w) + 2)\<rparr>)"
  by (simp add: target_head_def on_net_def retried_def capture_target_head_with_retry_def retry_rpc_request_def retry_from.simps
      under_limit_def one_context_def toy_node_def capture_target_head_def fetch_head_def one_provider_def toy_provider_def
      response_def nullable_def block_identity_of_json_def j_field_def ok_or_def one_chain_head_def)

lemma one_values:
  "be_urls one_env = toy_urls" "be_connect one_env u p = (Inr (bx_client one_context), p)" "be_pool one_env d = Inr ()"
  "be_migrate one_env db = (Inr (), db)" "be_lost one_env x = None"
  "database_url toy_live_config = Some ''postgres''" "expected_chain toy_live_config = None"
  "abi_registry_from_config A f toy_live_config = Inr None"
  "backfill_budget one_options r = Inr (one_budget 0 0)" "backfill_budget (one_options\<lparr>bo_to_block := t\<rparr>) r = Inr (one_budget 0 0)"
  "sizer_new 4 1 8 = Inr one_sizer"
  by (simp_all add: one_env_def toy_live_config_def config_default_def abi_registry_from_config_def backfill_budget_def
      one_options_def budget_new_def one_budget_def sizer_new_def one_sizer_def)

lemma one_option_values:
  "bo_from_block one_options = 0" "bo_to_block one_options = 0" "bo_contract_address one_options = None"
  "bo_initial_log_blocks one_options = 4" "bo_min_log_blocks one_options = 1" "bo_max_log_blocks one_options = 8"
  "bo_rpc_timeout one_options = 1" "bo_verify_reference one_options" "bo_reference_rpc_url one_options = None"
  "bo_workers one_options = 1"
  by (simp_all add: one_options_def)

lemma one_dial: "dial one_env u w = (Inr (bx_client one_context), w)"
  by (simp add: dial_def on_net_def one_values)

lemma one_command_setup:
  "backfill_setup one_env toy_live_config one_options (0, empty_db) =
     (Inr one_begin, \<lparr>bw_shared = (one_budget 0 0, 2), bw_db = one_db\<rparr>)"
proof -
  have wr: "opened_writer one_env u one_chain_head w = (Inr sample_writer, w\<lparr>bw_db := one_db\<rparr>)" if "bw_db w = empty_db" for u w
    using that by (simp add: opened_writer_def identity_written_def one_values writer_new_def sample_writer_def bail_def one_chain_head_def
        ensure_chain_identity_def insert_identity_def one_db_def empty_db_def hm_get_def hm_new_def hm_insert_def)
  have co: "coordinator_new 0 0 None = Inr one_coordinator" by (simp add: coordinator_new_def one_coordinator_def)
  have ctx: "loop_context one_env one_options \<lparr>from_block = 0, to_block = 0\<rparr> live_policy None None (bx_client one_context) = one_context"
    by (simp add: loop_context_def one_env_def one_options_def one_context_def live_policy_def)
  show ?thesis
    by (simp add: backfill_setup_def Let_def toy_valid one_values one_option_values one_dial bail_def range_new_def backfill_retry_policy
        transpose_def one_head wr fetched_anchor_def co ctx ok_or_def one_begin_def)
qed

lemma one_loop_ran:
  "\<exists>p cm. ran_loop one_context (replicate 6 0) one_sizer one_coordinator (committer_new sample_writer None)
      \<lparr>bw_shared = (one_budget 0 0, 2), bw_db = one_db\<rparr> =
     (Inr (p, cm), \<lparr>bw_shared = (one_budget 2 6, 4), bw_db = one_final\<rparr>) \<and> cm_writer cm = sample_writer"
  using one_run [of 2] by (auto simp: ran_loop_def one_sink_def one_written_def)

lemma one_reference:
  "reference_records one_env u live_policy None one_options \<lparr>bw_shared = (one_budget 2 6, 4), bw_db = one_final\<rparr> =
     (Inr (Some []), \<lparr>bw_shared = (one_budget 3 11, 5), bw_db = one_final\<rparr>)"
proof -
  have r: "shared_record GetLogs 0 (one_budget 2 6, p) = (Inr (), (one_budget 3 11, p))" for p :: nat
    by (simp add: shared_record_def budget_record_def Let_def one_budget_def sat_add_def)
  have c: "rcl_provider (bx_client one_context) = one_provider" "rcl_late (bx_client one_context) = (\<lambda>_ _ _. False)"
    by (simp_all add: one_context_def toy_node_def)
  have "fetch_logs_with_retry (bx_client one_context) cfg q (one_budget 2 6, 4) = (Some (Inr []), (one_budget 3 11, 5))"
    for cfg :: "string fetch_config" and q
    by (simp add: fetch_logs_with_retry_def fetch_logs_from.simps r ask_logs_def under_limit_def c one_answers judge_logs_def)
  then have "reference_from (bx_client one_context) cfg one_sizer 0 0 [] (one_budget 2 6, 4) = Some (Some (Inr []), (one_budget 3 11, 5))"
    for cfg :: "string fetch_config"
    by (simp add: reference_from.simps fetch_reference_range_with_retry_def next_range_def one_sizer_def sat_add_def)
  then show ?thesis
    by (simp add: reference_records_def one_option_values one_values one_dial bail_def on_shared_def reference_loop_def)
qed

lemma one_stored: "canonical_log_records sample_writer 0 0 None one_final = Inr []"
  by (simp add: canonical_log_records_def pg_height_def i64_max_def canonical_log_rows_def one_final_def one_db_def empty_db_def hm_new_def)

lemma one_checked:
  assumes "cm_writer cm = sample_writer" and "bw_db w = one_final"
  shows "\<exists>sm. checked one_env one_chain_head \<lparr>from_block = 0, to_block = 0\<rparr> cm w = (Inr sm, w)"
  using assms
  by (simp add: checked_def head_unchanged_def one_chain_head_def db_read_def one_values bail_def range_summary_def pg_height_def i64_max_def
      canonical_rows_def one_final_def sample_writer_def transpose_def row_height_def u64_of_int_def ok_or_def continuous_def range_len_def
      sat_add_def sat_sub_def read_checkpoint_def hm_get_def row_to_checkpoint_def checkpoint_reached_def)

lemma one_command:
  "\<exists>rep. run_backfill one_env toy_live_config one_options (replicate 6 0) (0, empty_db) =
     (Inr rep, \<lparr>bw_shared = (one_budget 3 11, 5), bw_db = one_final\<rparr>) \<and> rp_compared rep = Some 0"
proof -
  let ?w = "\<lparr>bw_shared = (one_budget 2 6, 4 :: nat), bw_db = one_final\<rparr>"
  obtain p cm where l: "ran_loop one_context (replicate 6 0) one_sizer one_coordinator (committer_new sample_writer None)
      \<lparr>bw_shared = (one_budget 0 0, 2), bw_db = one_db\<rparr> = (Inr (p, cm), ?w)" and cm: "cm_writer cm = sample_writer"
    using one_loop_ran by blast
  obtain sm where ck: "checked one_env one_chain_head \<lparr>from_block = 0, to_block = 0\<rparr> cm ?w = (Inr sm, ?w)"
    using one_checked [OF cm, of ?w] by auto
  have pol: "fc_retry_policy (bx_config one_context) = live_policy" "fc_filter (bx_config one_context) = None"
    by (simp_all add: one_context_def live_policy_def)
  show ?thesis
    by (simp add: run_backfill_def one_command_setup one_begin_def l finish_backfill_def Let_def ck pol one_reference cm
        db_read_def one_values one_stored bail_def compared_def)
qed

lemma one_honest: "honest (\<lambda>x. x = one_header) one_env"
  using one_fetch by (auto simp: honest_def delivers_def names_blocks_def one_env_def range_genuine_def one_context_def)

lemma empty_sound: "sound_db genuine empty_db"
proof -
  have rows: "get_block c h empty_db = None" for c h by (simp add: get_block_def empty_db_def hm_get_def hm_new_def)
  have "rows_wf empty_db"
    by (auto simp: rows_wf_def rows block_at_def) (auto simp: empty_db_def hm_inv_def hm_new_def hm_get_def)
  moreover have "journal_wf empty_db"
    by (auto simp: journal_wf_def canonical_def rows block_at_def) (auto simp: empty_db_def replay_def)
  ultimately show ?thesis by (simp add: sound_db_def db_inv_def rows_genuine_def rows)
qed

theorem backfill_command_fills_range_witness:
  "\<exists>rep w z. run_backfill one_env toy_live_config one_options (replicate 6 0) (0, empty_db) = (Inr rep, w) \<and>
     unat (height z) = 0 \<and> {x \<in> canon_set 1 (bw_db w). unat (height x) = 0} = {z}"
proof -
  obtain rep w where run: "run_backfill one_env toy_live_config one_options (replicate 6 0) (0, empty_db) = (Inr rep, w)"
    using one_command by blast
  have o: "0 < bo_workers one_options" "unat (bo_to_block one_options) < 2 ^ 63" by (simp_all add: one_option_values)
  from backfill_command_fills_range [OF one_honest empty_sound o run] run show ?thesis
    by (auto simp: one_command_setup one_begin_def one_chain_head_def one_option_values blocks_def Let_def)
qed

theorem backfill_checks_never_fail_witness:
  "\<exists>e w. run_backfill one_env toy_live_config (one_options\<lparr>bo_to_block := 6\<rparr>) [] (0, empty_db) = (Inl (Failed e), w) \<and>
     (\<forall>s. e \<noteq> CmContinuity s)"
proof -
  obtain w where run: "run_backfill one_env toy_live_config (one_options\<lparr>bo_to_block := 6\<rparr>) [] (0, empty_db) = (Inl (Failed (CmBeyondHead 6 5)), w)"
    by (simp add: run_backfill_def backfill_setup_def Let_def toy_valid one_values one_option_values one_dial bail_def range_new_def
        backfill_retry_policy transpose_def one_head ok_or_def one_chain_head_def)
  have "0 < bo_workers (one_options\<lparr>bo_to_block := 6\<rparr>)" "unat (bo_to_block (one_options\<lparr>bo_to_block := 6\<rparr>)) < 2 ^ 63"
    by (simp_all add: one_option_values)
  from backfill_checks_never_fail [OF one_honest empty_sound this run] run show ?thesis by auto
qed

theorem verified_backfill_matches_reference_witness:
  "\<exists>rep w stored parts. run_backfill one_env toy_live_config one_options (replicate 6 0) (0, empty_db) = (Inr rep, w) \<and>
     rp_compared rep = Some (length stored) \<and> concat (map (\<lambda>(r, ls). blocks r) parts) = [0] \<and>
     mset stored = mset (concat (map (\<lambda>(r, ls). map normalized_from_anchored ls) parts))"
proof -
  obtain rep w where run: "run_backfill one_env toy_live_config one_options (replicate 6 0) (0, empty_db) = (Inr rep, w)"
    "rp_compared rep = Some 0"
    using one_command by blast
  have "unat (bo_to_block one_options) < 2 ^ 63" by (simp add: one_option_values)
  from verified_backfill_matches_reference [OF run this] run show ?thesis
    by (auto simp: one_command_setup one_begin_def blocks_def)
qed

theorem backfill_command_ends_witness:
  "fst (run_backfill one_env toy_live_config one_options (replicate 120 0) (0, empty_db)) \<noteq> Inl StillRunning"
proof -
  let ?r = "\<lparr>from_block = bo_from_block one_options, to_block = bo_to_block one_options\<rparr>"
  have b: "backfill_budget one_options ?r = Inr (one_budget 0 0)" by (simp add: one_values)
  show ?thesis
    by (rule conjunct1, rule backfill_command_ends [OF _ _ refl b])
      (simp_all add: one_option_values one_budget_def blocks_def)
qed

end
