(* ===== verification/Backfill_Succeeds.thy ===== *)
theory Backfill_Succeeds
  imports Backfill_Run_Correct
begin

text \<open>
  The backfill command succeeds when nothing stands in its way: nodes that answer with the blocks of one
  chain, a database that is not lost and holds nothing above the start, and a budget for one fetch of
  each block.
\<close>

section \<open>What transactions keep\<close>

text \<open>Chains stay registered, and the indices of the logs are those that can be read back.\<close>

definition log_indices_ok :: "database \<Rightarrow> bool" where
  "log_indices_ok db \<longleftrightarrow> fst ` set (logs_table db) \<subseteq> {(c, h, i). 0 \<le> i \<and> i < 2 ^ 31}"

interpretation indices: statement_relation
  "\<lambda>db db'. chain_identity db' = chain_identity db \<and> (log_indices_ok db \<longrightarrow> log_indices_ok db')"
proof unfold_locales
  fix v i db c h l
  assume "pg_int v = Inr i"
  then have "unat v \<le> i32_max" "i = uint v" by (auto simp: pg_int_def split: if_splits)
  then have "unat v < 2 ^ 31" by (simp add: i32_max_def)
  then have "int (unat v) < int (2 ^ 31)" by (simp only: of_nat_less_iff)
  with \<open>i = uint v\<close> have "0 \<le> i \<and> i < 2 ^ 31" by simp
  then show "chain_identity (snd (upsert_log c h i l db)) = chain_identity db \<and>
      (log_indices_ok db \<longrightarrow> log_indices_ok (snd (upsert_log c h i l db)))"
    by (simp add: upsert_log_def log_indices_ok_def hm_insert_def AList.dom_update split: option.split)
qed (auto simp: update_uncanonical_def upsert_canonical_def insert_outbox_def upsert_checkpoint_def Let_def log_indices_ok_def
      split: option.split)

lemma batch_keeps_indices:
  assumes "apply_batch flt w b db = (r, db')"
  shows "chain_identity db' = chain_identity db \<and> (log_indices_ok db \<longrightarrow> log_indices_ok db')"
proof -
  obtain wr where inner: "apply_batch_inner flt None w b db = (wr, db')"
    using assms by (auto simp: apply_batch_def split: prod.splits write_result.splits)
  obtain s t where body: "batch_body flt None w b \<lparr>tx_db = db, tx_statements = 0, gate_step = 0\<rparr> = (s, t)" by (rule prod.exhaust)
  have "chain_identity (abandon db t) = chain_identity db" "log_indices_ok (abandon db t) = log_indices_ok db"
    by (simp_all add: abandon_def log_indices_ok_def)
  moreover have "db' \<in> {db, abandon db t, tx_db t}"
    using inner body by (simp add: apply_batch_inner_def split: if_splits sum.splits tx_stop.splits)
  ultimately show ?thesis using indices.body_holds [OF body] by (elim insertE) simp_all
qed
section \<open>A batch of applies is made and committed\<close>

lemma insert_all_get:
  assumes "distinct (map g bs)"
  shows "hm_get (fold (\<lambda>b m. hm_insert (g b) b m) bs hm_new) k = map_of (map (\<lambda>b. (g b, b)) bs) k \<and>
    hm_inv (fold (\<lambda>b m. hm_insert (g b) b m) bs hm_new)"
  using assms
proof (induction bs rule: rev_induct)
  case (snoc b bs)
  have "map_of (map (\<lambda>b. (g b, b)) bs) (g b) = None" using snoc.prems by (auto simp: map_of_eq_None_iff)
  with snoc show ?case by (auto simp: hm.get_insert map_add_def split: option.split)
qed (simp add: hm.get_empty)

lemma durable_applies:
  "hm_inv m \<Longrightarrow> (\<forall>k. hm_get m k = map_of (map (\<lambda>b. (hash (ib_header b), b)) bs) k) \<Longrightarrow>
   distinct (map (\<lambda>b. hash (ib_header b)) bs) \<Longrightarrow>
   \<exists>rest. durable_events (map Apply (map ib_header bs)) m = Inr (map DApply bs, rest) \<and> hm_keys rest = []"
proof (induction bs arbitrary: m)
  case Nil
  have "dom (hm_get m) = {}" using Nil(2) by auto
  with Nil(1) have "hm_len m = 0" by (simp add: hm.len_dom)
  then show ?case by (simp add: hm_len_def hm_keys_def)
next
  case (Cons b bs)
  have "hm_get m (hash (ib_header b)) = Some b" using Cons.prems(2) by simp
  moreover have "\<forall>k. hm_get (hm_remove (hash (ib_header b)) m) k = map_of (map (\<lambda>b. (hash (ib_header b), b)) bs) k"
  proof -
    have "map_of (map (\<lambda>b. (hash (ib_header b), b)) bs) (hash (ib_header b)) = None"
      using Cons.prems(3) by (auto simp: map_of_eq_None_iff)
    then show ?thesis using Cons.prems(1,2) by (simp add: hm.get_remove)
  qed
  ultimately show ?case
    using Cons.IH [of "hm_remove (hash (ib_header b)) m"] Cons.prems(1,3) by (auto simp: ok_or_def)
qed

lemma applies_durable:
  assumes "distinct (map (\<lambda>b. hash (ib_header b)) bs)"
  shows "from_chain_batch \<lparr>transition = tr, common_ancestor = a, events = map Apply (map ib_header bs)\<rparr> bs =
    Inr \<lparr>db_transition = tr, db_common_ancestor = a, db_events = map DApply bs\<rparr>"
proof -
  let ?m = "fold (\<lambda>b m. hm_insert (hash (ib_header b)) b m) bs hm_new"
  from durable_applies [of ?m bs] insert_all_get [OF assms] assms
  obtain rest where "durable_events (map Apply (map ib_header bs)) ?m = Inr (map DApply bs, rest)" "hm_keys rest = []"
    by blast
  then show ?thesis by (simp add: from_chain_batch_def)
qed

lemma applies_commit:
  assumes ready: "chain_ready genuine (chain_id w) db" "names_blocks genuine" and ne: "bs \<noteq> []"
    and bs: "\<forall>b \<in> set bs. block_fits b \<and> genuine (ib_header b) \<and> (\<forall>y \<in> canon_set (chain_id w) db. height y < height (ib_header b))"
      "sorted_wrt (\<lambda>x y. height (ib_header x) < height (ib_header y)) bs"
    and d: "db_events d = map DApply bs"
  shows "\<exists>rep db'. apply_batch clean w d db = (Inr rep, db')"
proof -
  let ?t = "\<lparr>tx_db = db, tx_statements = 1, gate_step = 0\<rparr>" and ?x = "ib_header (last bs)" and ?c = "chain_id w"
  from applies_progress [of genuine w ?t bs "db_common_ancestor d" apply_report_default "db_common_ancestor d"] assms
  obtain rep t1 where E: "apply_events clean None w (db_common_ancestor d) (db_events d) (apply_report_default, db_common_ancestor d) ?t =
      (Inr (rep, Some ?x), t1)" by auto
  have inv: "db_inv (tx_db ?t)" "rows_genuine genuine ?c (tx_db ?t)" using ready by (simp_all add: chain_ready_def)
  have "\<forall>e \<in> set (db_events d). genuine (durable_header e)" using bs(1) d by auto
  note eff = apply_events_effect [OF E inv ready(2) this]
  have wf: "rows_wf (tx_db t1)" using apply_events_inv [OF E inv(1)] by (simp add: db_inv_def)
  have "?x \<in> canon_set ?c (tx_db t1)"
    using eff event_effect_reorg [of "[]" bs] ne by (simp add: d)
  moreover have "genuine ?x" using bs(1) ne by simp
  ultimately have "canonical_at ?c (hash ?x) (uint (height ?x)) (tx_db t1)"
    using canonical_at_canon_set [OF wf _ _ ready(2)] eff by blast
  from move_target_progress [OF this wf] obtain t2 where "move_target clean None w (Some ?x) t1 = (Inr (), t2)" ..
  with E have "batch_body clean None w d \<lparr>tx_db = db, tx_statements = 0, gate_step = 0\<rparr> = (Inr rep, t2)"
    by (simp add: batch_body_def)
  moreover have "\<not> durable_is_empty d" using ne d by (simp add: durable_is_empty_def)
  ultimately show ?thesis by (simp add: apply_batch_def apply_batch_inner_def clean_def)
qed

section \<open>A commit goes through\<close>

definition storable :: "(block_header \<Rightarrow> bool) \<Rightarrow> indexed_block fetched_range \<Rightarrow> bool" where
  "storable genuine f \<longleftrightarrow> fits genuine f \<and> (\<forall>b \<in> set (fr_logs f). block_fits b)"

text \<open>The sink can take the blocks from height \<open>n\<close> on.\<close>

definition sink_ready :: "(block_header \<Rightarrow> bool) \<Rightarrow> commit_sink \<Rightarrow> nat \<Rightarrow> bool" where
  "sink_ready genuine = (\<lambda>(cm, db, i) n.
     names_blocks genuine \<and> chain_ready genuine (chain_id (cm_writer cm)) db \<and> log_indices_ok db \<and>
     (\<forall>y \<in> canon_set (chain_id (cm_writer cm)) db. unat (height y) < n))"

lemma sink_ready_good: "sink_ready genuine k n \<Longrightarrow> good_sink genuine k"
  by (auto simp: sink_ready_def good_sink_def chain_ready_def)

lemma storable_commits:
  assumes f: "storable genuine f" and k: "sink_ready genuine k (unat (from_block (fr_range f)))"
  shows "\<exists>k'. sink_commit sh (\<lambda>_. clean) f k = (Inr (), k') \<and> sink_ready genuine k' (Suc (unat (to_block (fr_range f))))"
proof -
  obtain cm db i where kk: "k = (cm, db, i)" by (cases k)
  let ?w = "cm_writer cm" and ?r = "fr_range f" and ?hs = "fr_headers f"
  let ?tr = "if cm_parent_anchor cm \<noteq> None then Gap else Bootstrap"
  let ?d = "\<lparr>db_transition = ?tr, db_common_ancestor = cm_parent_anchor cm, db_events = map DApply (fr_logs f)\<rparr>"
  have fit: "fits genuine f" and ok: "fetched_ok f" and hs: "map ib_header (fr_logs f) = ?hs"
    using f by (simp_all add: storable_def fits_def)
  note fh = fetched_okD [OF ok]
  have heights: "map (\<lambda>x. unat (height x)) ?hs = blocks ?r" using ok by (simp add: fetched_ok_def)
  have names: "names_blocks genuine" and ready: "chain_ready genuine (chain_id ?w) db" and ix: "log_indices_ok db"
    and below: "\<forall>y \<in> canon_set (chain_id ?w) db. unat (height y) < unat (from_block ?r)"
    using k by (simp_all add: sink_ready_def kk)
  have gen: "\<forall>x \<in> set ?hs. genuine x" using fit by (simp add: fits_def)
  have "distinct ?hs" using heights by (metis blocks_def distinct_map distinct_upt)
  moreover have "inj_on hash (set ?hs)" using names gen by (auto simp: inj_on_def names_blocks_def)
  ultimately have "distinct (map hash ?hs)" by (simp add: distinct_map)
  then have "distinct (map (\<lambda>b. hash (ib_header b)) (fr_logs f))" by (simp add: comp_def flip: hs)
  from applies_durable [OF this] have d: "from_chain_batch \<lparr>transition = ?tr, common_ancestor = cm_parent_anchor cm,
      events = map Apply ?hs\<rparr> (fr_logs f) = Inr ?d" by (simp flip: hs)
  have from_le: "from_block ?r \<le> height x" if "x \<in> set ?hs" for x
  proof -
    have "unat (height x) \<in> set (blocks ?r)" using that by (simp flip: heights)
    then show ?thesis by (simp add: blocks_def word_le_nat_alt del: upt_Suc)
  qed
  have "\<forall>b \<in> set (fr_logs f). block_fits b \<and> genuine (ib_header b) \<and>
      (\<forall>y \<in> canon_set (chain_id ?w) db. height y < height (ib_header b))"
  proof (intro ballI conjI)
    fix b assume b: "b \<in> set (fr_logs f)"
    then have in_hs: "ib_header b \<in> set ?hs" by (simp flip: hs)
    show "block_fits b" using f b by (simp add: storable_def)
    show "genuine (ib_header b)" using gen in_hs by blast
    fix y assume "y \<in> canon_set (chain_id ?w) db"
    with below from_le [OF in_hs] show "height y < height (ib_header b)"
      unfolding word_less_nat_alt word_le_nat_alt by fastforce
  qed
  moreover have "sorted_wrt (\<lambda>x y. height (ib_header x) < height (ib_header y)) (fr_logs f)"
  proof -
    have "sorted_wrt (<) (map (\<lambda>x. unat (height x)) ?hs)" by (simp only: heights blocks_def sorted_wrt_upt)
    then show ?thesis by (simp add: sorted_wrt_map word_less_nat_alt flip: hs)
  qed
  moreover have "fr_logs f \<noteq> []" using fh(1) hs by auto
  ultimately obtain rep db' where ab: "apply_batch clean ?w ?d db = (Inr rep, db')"
    using applies_commit [OF ready names, of "fr_logs f" ?d] by auto
  obtain k' where k': "sink_commit sh (\<lambda>_. clean) f k = (Inr (), k')" "cm_writer (fst k') = ?w" "fst (snd k') = db'"
    using fh(1) d ab by (simp add: sink_commit_def committer_commit_def Let_def kk)
  from committer_commit_grows [OF fit k'(1)] have "grew genuine k ?hs k'" by (simp add: grows_def)
  with sink_ready_good [OF k] have "good_sink genuine k'" "canon_set (chain_id ?w) db' = canon_set (chain_id ?w) db \<union> set ?hs"
    by (simp_all add: grew_def kk k' Let_def)
  moreover have "unat (height x) < Suc (unat (to_block ?r))" if "x \<in> set ?hs" for x
  proof -
    have "unat (height x) \<in> set (blocks ?r)" using that by (simp flip: heights)
    then show ?thesis by (simp add: blocks_def del: upt_Suc)
  qed
  moreover have "unat (from_block ?r) < Suc (unat (to_block ?r))" using ok by (simp add: fetched_ok_def word_le_nat_alt)
  ultimately have "sink_ready genuine k' (Suc (unat (to_block ?r)))"
    using batch_keeps_indices [OF ab] ready ix below k'(2,3)
    by (cases k') (auto simp: sink_ready_def good_sink_def chain_ready_def)
  with k'(1) show ?thesis by blast
qed

section \<open>The coordinator takes everything\<close>

text \<open>The real blocks are one chain: a block names the one below it as its parent.\<close>

definition one_chain :: "(block_header \<Rightarrow> bool) \<Rightarrow> bool" where
  "one_chain genuine \<longleftrightarrow> (\<forall>x y. genuine x \<longrightarrow> genuine y \<longrightarrow> unat (height y) = Suc (unat (height x)) \<longrightarrow> parent_hash y = hash x)"

definition taking :: "(block_header \<Rightarrow> bool) \<Rightarrow> 'l coordinator \<Rightarrow> ('l fetched_range \<Rightarrow> bool) \<Rightarrow> bool" where
  "taking genuine c fit \<longleftrightarrow> all_pending fit c \<and> (\<forall>a. parent_anchor c = Some a \<longrightarrow> genuine a)"

lemma ready_range_valid:
  assumes "one_chain genuine" and "coord_wf c" and "taking genuine c P" and f: "fits genuine f" "from_block (fr_range f) = next_height c"
    and small: "unat (to_block (fr_range f)) < 2 ^ 63"
  shows "\<exists>blk. validate_ready_range f c = (Inr blk, c)"
proof -
  have ok: "fetched_ok f" and gen: "\<forall>x \<in> set (fr_headers f). genuine x" using f by (simp_all add: fits_def)
  note fh = fetched_okD [OF ok]
  let ?x = "hd (fr_headers f)"
  have x: "genuine ?x" "height ?x = next_height c" using gen fh(1,2) f(2) by simp_all
  show ?thesis
  proof (cases "parent_anchor c")
    case None
    with fh(1) show ?thesis by (cases "fr_headers f") (simp_all add: validate_ready_range_def ok_or_def)
  next
    case (Some a)
    have "unat (next_height c) < 2 ^ 63"
      using small ok f(2) by (simp add: fetched_ok_def word_le_nat_alt)
    moreover have "next_height c = sat_add (height a) 1"
      using assms(2) Some by (simp add: coord_wf_def)
    ultimately have h: "unat (height ?x) = Suc (unat (height a))"
      using x(2) by (simp add: sat_simps)
    have "height a \<noteq> - 1" using h u64_le_max [of "height ?x"] by (auto simp: unat_max_word)
    with h have "height ?x = height a + 1" by (simp add: word_eq_unat unat_succ)
    moreover have "parent_hash ?x = hash a"
      using assms(1,3) Some x(1) h unfolding one_chain_def taking_def by blast
    ultimately show ?thesis
      using fh(1) Some by (cases "fr_headers f") (simp_all add: validate_ready_range_def ok_or_def)
  qed
qed

lemma drain_succeeds:
  assumes chain: "one_chain genuine"
  shows "coord_wf c \<Longrightarrow> taking genuine c (storable genuine) \<Longrightarrow> unat (target_height c) < 2 ^ 63 \<Longrightarrow>
    sink_ready genuine k (unat (next_height c)) \<Longrightarrow> drain_loop (sink_commit sh (\<lambda>_. clean)) p c k = (res, c', k') \<Longrightarrow>
    is_ok res \<and> taking genuine c' (storable genuine) \<and> sink_ready genuine k' (unat (next_height c'))"
proof (induction c arbitrary: p k rule: measure_induct_rule [of "\<lambda>c. length (pending c)"])
  case (less c)
  let ?c = "c\<lparr>pending := bt_remove (next_height c) (pending c)\<rparr>"
  have wf: "coord_wf ?c" by (rule coord_wf_remove [OF less.prems(1)])
  have tk: "taking genuine ?c (storable genuine)"
    using less.prems(2) all_pending_remove [of "storable genuine" c] by (simp add: taking_def)
  have f: "storable genuine f \<and> fits genuine f \<and> fetched_ok f \<and> from_block (fr_range f) = next_height c \<and> unat (to_block (fr_range f)) < 2 ^ 63"
    if "bt_get (pending c) (next_height c) = Some f" for f
  proof -
    have "storable genuine f" using less.prems(2) that by (auto simp: taking_def all_pending_def)
    moreover have "from_block (fr_range f) = next_height c" "to_block (fr_range f) \<le> target_height c" "fetched_ok f"
      using less.prems(1) that by (auto simp: coord_wf_def)
    ultimately show ?thesis using less.prems(3) by (auto simp: storable_def word_le_nat_alt)
  qed
  have valid: "\<exists>blk. validate_ready_range f ?c = (Inr blk, ?c)" if "bt_get (pending c) (next_height c) = Some f" for f
    using ready_range_valid [OF chain wf tk] f [OF that] by simp
  have commits: "\<exists>k'. sink_commit sh (\<lambda>_. clean) f k = (Inr (), k') \<and> sink_ready genuine k' (Suc (unat (to_block (fr_range f))))"
    if "bt_get (pending c) (next_height c) = Some f" for f
    using storable_commits [of genuine f k sh] f [OF that] less.prems(4) by simp
  from less.prems(5) show ?case
  proof (cases rule: drain_loop_cases)
    case idle
    with less.prems(2,4) show ?thesis by simp
  next
    case (invalid g e)
    with valid [OF invalid(1)] show ?thesis by auto
  next
    case (refused g e blk)
    with commits [OF refused(1)] show ?thesis by auto
  next
    case (step g blk c1 k1 u)
    note g = f [OF step(1)]
    have na: "next_after (parent_anchor ?c) (from_block (fr_range g))" using less.prems(1) g by (simp add: coord_wf_def)
    from validate_ready_range_ok [OF step(2) _ na] g have ok: "blk = last (fr_headers g)" "c1 = ?c" by auto
    note fh = fetched_okD [OF conjunct1 [OF conjunct2 [OF conjunct2 [OF g]]]]
    have blk: "genuine blk" "height blk = to_block (fr_range g)" using g fh(1,3) by (auto simp: ok(1) fits_def)
    let ?c1 = "advance blk c1"
    have "length (pending ?c1) < length (pending c)" using step(1) by (simp add: ok(2) advance_def)
    moreover have "coord_wf ?c1" using coord_wf_advance [OF wf] ok(2) by simp
    moreover have "taking genuine ?c1 (storable genuine)"
      using tk blk(1) by (simp add: taking_def all_pending_def ok(2) advance_def)
    moreover have "unat (target_height ?c1) < 2 ^ 63" using less.prems(3) by (simp add: ok(2) advance_def)
    moreover have "unat (next_height ?c1) = Suc (unat (to_block (fr_range g)))"
      using next_after_step [OF _ blk(2)] g by (simp add: advance_def)
    then have "sink_ready genuine k1 (unat (next_height ?c1))" using commits [OF step(1)] step(3) by auto
    ultimately show ?thesis using less.IH [of ?c1 k1] step(4) by blast
  qed
qed

section \<open>A fetch goes through\<close>

text \<open>The logs of an answer name real blocks, and can be stored.\<close>

definition proper_logs :: "(block_header \<Rightarrow> bool) \<Rightarrow> anchored_log list \<Rightarrow> bool" where
  "proper_logs genuine ls \<longleftrightarrow> (\<forall>l \<in> set ls. log_fits (al_raw l) \<and>
     (\<forall>x. genuine x \<longrightarrow> height x = al_block_number l \<longrightarrow> al_block_hash l = hash x))"

text \<open>A node that answers every request for blocks of the range, in time, with the blocks of the chain.\<close>

definition steady_node :: "(block_header \<Rightarrow> bool) \<Rightarrow> ('p, 'ev) backfill_context \<Rightarrow> bool" where
  "steady_node genuine X \<longleftrightarrow> (\<forall>r p. range_ok r \<longrightarrow> set (blocks r) \<subseteq> set (blocks (bx_full_range X)) \<longrightarrow>
     (\<exists>ls q. ask_logs (bx_client X) (bx_config X) r p = (Some (Inr ls), q) \<and> proper_logs genuine ls) \<and>
     (\<exists>bs q. ask_blocks (bx_client X) (bx_config X) r p = (Some (Inr bs), q) \<and>
        map (\<lambda>b. unat (height (ib_header b))) bs = blocks r))"

lemma decode_keeps_fit:
  fixes A :: "'b alloy"
  shows "\<forall>l \<in> set ls. log_fits l \<Longrightarrow> \<forall>l \<in> set (decoded A reg ls). log_fits l"
proof -
  have one: "decode_log_in_place A g l = (st, l') \<Longrightarrow> log_fits l' = log_fits l" for A :: "'b alloy" and g l st l'
    by (auto simp: decode_log_in_place_def log_fits_def Let_def split: decode_result.splits)
  have "\<forall>l \<in> set ls. log_fits l \<Longrightarrow> \<forall>l \<in> set (snd (decode_all A g ls r)). log_fits l" for A :: "'b alloy" and g r
    by (induction A g ls r rule: decode_all.induct) (auto split: prod.splits dest: one)
  then show "\<forall>l \<in> set ls. log_fits l \<Longrightarrow> \<forall>l \<in> set (decoded A reg ls). log_fits l"
    by (simp add: decoded_def decode_logs_in_place_def split: option.split)
qed

lemma attach_succeeds:
  "\<forall>b \<in> set bs. \<forall>l \<in> set (entry_of m (height (ib_header b))). al_block_hash l = hash (ib_header b) \<Longrightarrow>
   \<exists>bs'. attach_logs A reg bs m = Inr bs'"
proof (induction A reg bs m rule: attach_logs.induct)
  case (2 A reg b bs m)
  let ?n = "height (ib_header b)"
  have gone: "entry_of (bt_remove ?n m) k = (if k = ?n then [] else entry_of m k)" for k by (simp add: entry_of_def)
  have ok: "\<not> list_ex (\<lambda>l. al_block_hash l \<noteq> hash (ib_header b)) (case bt_get m ?n of Some xs \<Rightarrow> xs | None \<Rightarrow> [])"
    using 2(2) by (auto simp: entry_of_def list_ex_iff)
  have "\<exists>rest. attach_logs A reg bs (bt_remove ?n m) = Inr rest"
    using 2(1) [OF refl refl ok] 2(2) gone by simp
  with ok show ?case by (auto simp: Let_def)
qed simp

lemma consecutive_ascend:
  assumes "one_chain genuine"
  shows "map (\<lambda>x. unat (height x)) hs = [a ..< b] \<Longrightarrow> \<forall>x \<in> set hs. genuine x \<Longrightarrow> ascends hs"
proof (induction hs arbitrary: a)
  case (Cons x hs)
  then have h: "unat (height x) = a" "map (\<lambda>x. unat (height x)) hs = [Suc a ..< b]"
    by (auto simp: upt_eq_Cons_conv dest!: sym [of _ "[a ..< b]"])
  have "links (hd hs) x" if "hs \<noteq> []"
  proof -
    have "unat (height (hd hs)) = Suc a" using h(2) that by (cases hs) (auto simp: upt_eq_Cons_conv dest!: sym [of _ "[Suc a ..< b]"])
    with assms Cons.prems(2) h(1) that show ?thesis unfolding one_chain_def links_def by (metis hd_in_set list.set_intros)
  qed
  then show ?case using Cons.IH [OF h(2)] Cons.prems(2) by (auto simp: ascends_Cons)
qed (simp add: ascends_def)

lemma assemble_succeeds:
  assumes "one_chain genuine" and r: "range_ok r" and bs: "map (\<lambda>b. unat (height (ib_header b))) bs = blocks r"
    "\<forall>b \<in> set bs. genuine (ib_header b)" and ls: "proper_logs genuine ls"
  shows "\<exists>f. assemble_range A cfg r ls bs = Inr f \<and> storable genuine f"
proof -
  have le: "from_block r \<le> to_block r" and len: "length (map ib_header bs) < 2 ^ 64 - 1"
    using r range_ok_length [OF r] arg_cong [OF bs(1), of length] by (simp_all add: range_ok_def)
  from attach_succeeds [of bs "grouped_by_height ls" A "fc_abi_registry cfg"] obtain bs' where
    at: "attach_logs A (fc_abi_registry cfg) bs (grouped_by_height ls) = Inr bs'"
    using bs(2) ls by (auto simp: grouped_by_height_entry proper_logs_def)
  have hs: "map ib_header bs' = map ib_header bs" by (rule attach_logs_headers [OF at])
  have heights: "map (\<lambda>x. unat (height x)) (map ib_header bs) = blocks r" using bs(1) by (simp add: comp_def)
  have "ascends (map ib_header bs)"
    using consecutive_ascend [OF assms(1) heights [unfolded blocks_def]] bs(2) by simp
  then have "is_ok (validate_headers r (map ib_header bs))" using validate_headers_ok [OF le len] heights by simp
  then obtain f where f: "assemble_range A cfg r ls bs = Inr f" "fr_logs f = bs'"
    using at hs by (auto simp: assemble_range_def fetched_new_def is_ok_iff)
  have fit: "fits genuine f" using assemble_range_ok [OF f(1) le] len bs(2) by simp
  have "distinct (map (\<lambda>x. unat (height x)) (map ib_header bs))" by (simp only: heights blocks_def distinct_upt)
  then have dist: "distinct (map (\<lambda>b. height (ib_header b)) bs)" by (auto simp: distinct_map inj_on_def)
  have "block_fits b" if "b \<in> set bs'" for b
  proof -
    have "\<forall>l \<in> set (map al_raw (entry_of (grouped_by_height ls) (height (ib_header b)))). log_fits l"
      using ls by (auto simp: grouped_by_height_entry proper_logs_def)
    then have "\<forall>l \<in> set (block_logs b). log_fits l"
      using attach_logs_entries [OF at dist that] decode_keeps_fit by metis
    moreover have "unat (height (ib_header b)) \<le> i64_max"
    proof -
      have "unat (height (ib_header b)) \<in> set (map (\<lambda>x. unat (height x)) (map ib_header bs'))" using that by simp
      then have "unat (height (ib_header b)) \<in> set (blocks r)" unfolding hs heights .
      then show ?thesis using r by (auto simp: blocks_def range_ok_def i64_max_def simp del: upt_Suc)
    qed
    ultimately show ?thesis by (simp add: block_fits_def)
  qed
  with f fit show ?thesis by (auto simp: storable_def)
qed

section \<open>The budget is enough\<close>

fun steady_phase :: "(block_header \<Rightarrow> bool) \<Rightarrow> backfill_range \<Rightarrow> fetch_phase \<Rightarrow> bool" where
  "steady_phase genuine r (RecordBlocks ls a k) \<longleftrightarrow> proper_logs genuine ls \<and> k \<le> length (blocks r)"
| "steady_phase genuine r (AskBlocks ls a) \<longleftrightarrow> proper_logs genuine ls"
| "steady_phase genuine r (FetchDone (Inr f)) \<longleftrightarrow> storable genuine f"
| "steady_phase genuine r (FetchDone (Inl e)) \<longleftrightarrow> False"
| "steady_phase genuine r FetchPanicked \<longleftrightarrow> False"
| "steady_phase genuine r ph \<longleftrightarrow> True"

text \<open>What a worker still spends, when a request for logs costs \<open>c\<close> and one for a block costs 1.\<close>

fun need :: "nat \<Rightarrow> backfill_range \<Rightarrow> fetch_phase \<Rightarrow> nat" where
  "need c r (RecordLogs a) = c + length (blocks r)"
| "need c r (AskLogs a) = length (blocks r)"
| "need c r (RecordBlocks ls a k) = length (blocks r) - k"
| "need c r ph = 0"

definition cost_left :: "rpc_budget \<Rightarrow> nat" where
  "cost_left b = unat (max_cost_units b) - unat (cost_units b)"

lemma affordable:
  assumes "0 < requests_left (fst s)" and "unat (default_cost m) \<le> cost_left (fst s)"
  shows "\<exists>s'. shared_record m 0 s = (Inr (), s') \<and> Suc (requests_left (fst s')) = requests_left (fst s) \<and>
    cost_left (fst s') + unat (default_cost m) = cost_left (fst s)"
proof -
  obtain b p where s: "s = (b, p)" by (rule prod.exhaust)
  have pos: "0 < unat (default_cost m)" by (cases m) simp_all
  have r: "unat (requests b) < unat (max_requests b)" using assms(1) by (simp add: requests_left_def s)
  then have r1: "unat (sat_add (requests b) 1) = Suc (unat (requests b))"
    using u64_le_max [of "max_requests b"] by (simp add: sat_simps)
  have c: "unat (cost_units b) + unat (default_cost m) \<le> unat (max_cost_units b)"
    using assms(2) pos by (simp add: cost_left_def s)
  then have c1: "unat (sat_add (cost_units b) (default_cost m)) = unat (cost_units b) + unat (default_cost m)"
    using u64_le_max [of "max_cost_units b"] by (simp add: sat_simps)
  have "max 0 (default_cost m) = default_cost m" by (simp add: max_def)
  then show ?thesis
    using r r1 c c1
    by (simp add: shared_record_def budget_record_def Let_def s requests_left_def cost_left_def word_less_nat_alt)
qed

lemma steady_step:
  assumes "one_chain genuine" and node: "steady_node genuine X" "range_genuine genuine (rcl_provider (bx_client X))"
    and r: "range_ok r" "set (blocks r) \<subseteq> set (blocks (bx_full_range X))" and ph: "steady_phase genuine r ph" "\<not> has_ended ph"
    and funds: "need 1 r ph \<le> requests_left (fst s)" "need 5 r ph \<le> cost_left (fst s)"
    and step: "fetch_step (bx_alloy X) (bx_client X) (bx_config X) r ph s = (ph', s')"
  shows "steady_phase genuine r ph' \<and> requests_left (fst s') + need 1 r ph = requests_left (fst s) + need 1 r ph' \<and>
    cost_left (fst s') + need 5 r ph = cost_left (fst s) + need 5 r ph'"
proof (cases ph)
  case (RecordLogs a)
  with affordable [of s GetLogs] funds step show ?thesis by auto
next
  case (AskLogs a)
  from node(1) r obtain ls q where "ask_logs (bx_client X) (bx_config X) r (snd s) = (Some (Inr ls), q)" "proper_logs genuine ls"
    unfolding steady_node_def by blast
  with step AskLogs show ?thesis by (auto simp: judge_logs_def)
next
  case (RecordBlocks ls a k)
  show ?thesis
  proof (cases "k < length (blocks r)")
    case True
    have "0 < requests_left (fst s)" "unat (default_cost GetBlockByNumber) \<le> cost_left (fst s)"
      using funds RecordBlocks True by simp_all
    from affordable [OF this] obtain s1 where
      "shared_record GetBlockByNumber 0 s = (Inr (), s1)" "Suc (requests_left (fst s1)) = requests_left (fst s)"
      "cost_left (fst s1) + 1 = cost_left (fst s)" by auto
    with step ph(1) RecordBlocks True show ?thesis by auto
  qed (use step ph(1) RecordBlocks in auto)
next
  case (AskBlocks ls a)
  from node(1) r obtain bs q where ask: "ask_blocks (bx_client X) (bx_config X) r (snd s) = (Some (Inr bs), q)"
    "map (\<lambda>b. unat (height (ib_header b))) bs = blocks r"
    unfolding steady_node_def by blast
  then have "fetch_blocks_by_number (rcl_provider (bx_client X)) r (snd s) = (Inr bs, q)"
    by (auto simp: ask_blocks_def under_limit_def split: prod.splits if_splits)
  with node(2) have gen: "\<forall>b \<in> set bs. genuine (ib_header b)" by (auto simp: range_genuine_def)
  from assemble_succeeds [OF assms(1) r(1) ask(2) gen, of ls "bx_alloy X" "bx_config X"] ph(1) AskBlocks obtain f where
    "assemble_range (bx_alloy X) (bx_config X) r ls bs = Inr f" "storable genuine f" by auto
  with step AskBlocks ask(1) show ?thesis by (auto simp: judge_blocks_def)
qed (use ph in auto)

section \<open>The loop goes through\<close>

definition unallocated :: "('p, 'ev) backfill_context \<Rightarrow> 'p backfill_loop \<Rightarrow> nat" where
  "unallocated X st = length [unat (bl_next_unallocated st) ..< Suc (unat (to_block (bx_full_range X)))]"

definition spending :: "nat \<Rightarrow> ('p, 'ev) backfill_context \<Rightarrow> 'p backfill_loop \<Rightarrow> nat" where
  "spending c X st = sum_list (map (\<lambda>(r, ph). need c r ph) (bl_tasks st)) + (c + 1) * unallocated X st"

definition steady :: "(block_header \<Rightarrow> bool) \<Rightarrow> ('p, 'ev) backfill_context \<Rightarrow> 'p backfill_loop \<Rightarrow> bool" where
  "steady genuine X st \<longleftrightarrow>
     (\<forall>(r, ph) \<in> set (bl_tasks st). steady_phase genuine r ph) \<and>
     taking genuine (bl_coordinator st) (storable genuine) \<and>
     sink_ready genuine (bl_sink st) (unat (next_height (bl_coordinator st))) \<and> bl_queued st = [] \<and>
     spending 1 X st \<le> requests_left (fst (bl_shared st)) \<and> spending 5 X st \<le> cost_left (fst (bl_shared st))"

lemma take_range_steady:
  assumes st: "steady genuine X st" and tk: "take_range (to_block (bx_full_range X)) st = Some (r, st')"
    and t: "unat (to_block (bx_full_range X)) < 2 ^ 63"
  shows "steady genuine X ((spawn_fetch r st')\<lparr>bl_in_flight := n\<rparr>)"
proof -
  let ?t = "to_block (bx_full_range X)" and ?n = "bl_next_unallocated st"
  have nr: "next_range (bl_sizer st) ?n ?t = Some r" and st': "st' = st\<lparr>bl_next_unallocated := sat_add (to_block r) 1\<rparr>"
    using st tk by (auto simp: steady_def take_range_def)
  note split = next_range_splits [OF t nr]
  let ?st = "(spawn_fetch r st')\<lparr>bl_in_flight := n\<rparr>"
  have u: "unallocated X st = length (blocks r) + unallocated X ?st"
    using arg_cong [OF split(1), of length] by (simp only: unallocated_def length_append) (simp add: st' spawn_fetch_def)
  have "unallocated X ?st < unallocated X st"
    using split(2,3) unfolding word_le_nat_alt unallocated_def length_upt by (simp add: st' spawn_fetch_def)
  with u have "0 < length (blocks r)" by simp
  then have "spending c X ?st \<le> spending c X st" for c
    by (cases "length (blocks r)") (simp_all add: spending_def u spawn_fetch_def st')
  then have "spending 1 X ?st \<le> spending 1 X st \<and> spending 5 X ?st \<le> spending 5 X st" by blast
  with st show ?thesis by (auto simp: steady_def spawn_fetch_def st')
qed

lemma refill_steady:
  assumes "steady genuine X st" and t: "unat (to_block (bx_full_range X)) < 2 ^ 63"
  shows "steady genuine X (refill X st)"
proof -
  have "t' = to_block (bx_full_range X) \<Longrightarrow> steady genuine X st \<Longrightarrow> steady genuine X (fill_fetch_window w t' st)" for w t'
  proof (induction w t' st rule: fill_fetch_window.induct)
    case (1 w t' st)
    show ?case
    proof (cases "bl_in_flight st < w \<and> take_range t' st \<noteq> None")
      case True
      then obtain r st' where tk: "take_range t' st = Some (r, st')" by auto
      have "fill_fetch_window w t' st = fill_fetch_window w t' ((spawn_fetch r st')\<lparr>bl_in_flight := bl_in_flight st' + 1\<rparr>)"
        using True tk by (subst fill_fetch_window.simps) simp
      with 1(1) [OF conjunct1 [OF True] tk refl 1(2)] take_range_steady [OF 1(3) _ t] tk 1(2) show ?thesis by simp
    next
      case False
      then show ?thesis using 1(3) by (subst fill_fetch_window.simps) (cases "take_range t' st"; auto)
    qed
  qed
  with assms(1) show ?thesis by (simp add: refill_def)
qed

lemma worker_steady:
  assumes "one_chain genuine" and ready: "setup_ok genuine X" and node: "steady_node genuine X"
    and core: "loop_core genuine X anchor k0 st" and st: "steady genuine X st"
    and j: "j < length (bl_tasks st)" "\<not> has_ended (snd (bl_tasks st ! j))"
  shows "steady genuine X (worker_step X j st)"
proof -
  obtain r ph where jt: "bl_tasks st ! j = (r, ph)" by (rule prod.exhaust)
  obtain ph' s' where step: "fetch_step (bx_alloy X) (bx_client X) (bx_config X) r ph (bl_shared st) = (ph', s')"
    by (rule prod.exhaust)
  have ws: "worker_step X j st = st\<lparr>bl_tasks := (bl_tasks st)[j := (r, ph')], bl_shared := s'\<rparr>"
    by (simp add: worker_step_def jt step)
  have mem: "(r, ph) \<in> set (bl_tasks st)" using j(1) jt nth_mem [OF j(1)] by simp
  have r: "range_ok r" using core mem by (auto simp: loop_core_def loop_shape_def)
  have "set (blocks r) \<subseteq> set_mset (in_hand X st)" using mem by (auto simp: in_hand_def)
  moreover have "unat (from_block (bx_full_range X)) \<le> unat (next_height (bl_coordinator st))"
    using core by (auto simp: loop_core_def loop_shape_def committed_def)
  ultimately have sub: "set (blocks r) \<subseteq> set (blocks (bx_full_range X))"
    using core by (auto simp: loop_core_def blocks_def simp del: upt_Suc)
  have rest: "sum_list (map (\<lambda>(r, ph). need c r ph) (bl_tasks st)) =
      need c r ph + sum_list (map (\<lambda>(r, ph). need c r ph) (take j (bl_tasks st) @ drop (Suc j) (bl_tasks st)))" for c
    using sum_without [OF j(1), of "\<lambda>(r, ph). need c r ph"] jt by simp
  have rest': "sum_list (map (\<lambda>(r, ph). need c r ph) ((bl_tasks st)[j := (r, ph')])) =
      need c r ph' + sum_list (map (\<lambda>(r, ph). need c r ph) (take j (bl_tasks st) @ drop (Suc j) (bl_tasks st)))" for c
    using sum_without [of j "(bl_tasks st)[j := (r, ph')]" "\<lambda>(r, ph). need c r ph"] j(1) by simp
  have funds: "need 1 r ph \<le> requests_left (fst (bl_shared st))" "need 5 r ph \<le> cost_left (fst (bl_shared st))"
    using st rest [of 1] rest [of 5] by (simp_all add: steady_def spending_def)
  have ph: "steady_phase genuine r ph" using st mem by (auto simp: steady_def)
  from steady_step [OF assms(1) node _ r sub ph _ funds step] ready j(2) jt
  have new: "steady_phase genuine r ph'"
    "requests_left (fst s') + need 1 r ph = requests_left (fst (bl_shared st)) + need 1 r ph'"
    "cost_left (fst s') + need 5 r ph = cost_left (fst (bl_shared st)) + need 5 r ph'"
    by (simp_all add: setup_ok_def)
  have "spending c X (worker_step X j st) + need c r ph = spending c X st + need c r ph'" for c
    by (simp add: spending_def ws rest rest' unallocated_def)
  from this [of 1] this [of 5] have "spending 1 X (worker_step X j st) \<le> requests_left (fst s')"
    "spending 5 X (worker_step X j st) \<le> cost_left (fst s')"
    using new st by (simp_all add: steady_def)
  with st new(1) show ?thesis by (auto simp: steady_def ws dest!: subsetD [OF set_update_subset_insert])
qed

lemma push_succeeds:
  assumes chain: "one_chain genuine" and shape: "loop_shape genuine X anchor k0 st" and ready: "setup_ok genuine X"
    and st: "taking genuine (bl_coordinator st) (storable genuine)"
      "sink_ready genuine (bl_sink st) (unat (next_height (bl_coordinator st)))"
    and f: "storable genuine f"
    and hand: "mset (blocks (fr_range f)) + in_hand X st =
      mset [unat (next_height (bl_coordinator st)) ..< Suc (unat (to_block (bx_full_range X)))]"
  shows "\<exists>p c k. push (sink_commit sh (\<lambda>_. clean)) f (bl_coordinator st) (bl_sink st) = (Inr p, c, k) \<and>
    taking genuine c (storable genuine) \<and> sink_ready genuine k (unat (next_height c))"
proof -
  let ?c = "bl_coordinator st" and ?t = "to_block (bx_full_range X)"
  have ok: "fetched_ok f" using f by (simp add: storable_def fits_def)
  have c: "coord_wf ?c" "all_pending (fits genuine) ?c" "target_height ?c = ?t" "unat (target_height ?c) < 2 ^ 63"
    using shape ready by (simp_all add: loop_shape_def setup_ok_def range_ok_def)
  from fetched_room [OF shape ok hand] have room: "unat (next_height ?c) \<le> unat (from_block (fr_range f))"
    "unat (to_block (fr_range f)) \<le> unat (target_height ?c)" "bt_get (pending ?c) (from_block (fr_range f)) = None" by simp_all
  let ?c1 = "?c\<lparr>pending := bt_insert (from_block (fr_range f)) f (pending ?c)\<rparr>"
  have i: "insert_pending f ?c = (Inr (), ?c1)"
    using room by (simp add: insert_pending_def Let_def word_less_nat_alt)
  have wf: "coord_wf ?c1" using insert_pending_wf [OF c(1) ok i] by simp
  have tk: "taking genuine ?c1 (storable genuine)"
    using c(1) st(1) f by (auto simp: taking_def all_pending_def coord_wf_def split: if_splits)
  obtain res c' k' where d: "drain_loop (sink_commit sh (\<lambda>_. clean)) progress_default ?c1 (bl_sink st) = (res, c', k')"
    by (rule prod_cases3)
  from drain_succeeds [OF chain wf tk _ _ d] c(4) st(2) have
    "is_ok res \<and> taking genuine c' (storable genuine) \<and> sink_ready genuine k' (unat (next_height c'))" by simp
  moreover have "push (sink_commit sh (\<lambda>_. clean)) f ?c (bl_sink st) = (res, c', k')"
    using d i by (simp add: push_def drain_ready_def)
  ultimately show ?thesis by (auto simp: is_ok_iff)
qed

lemma join_steady:
  assumes chain: "one_chain genuine" and ready: "setup_ok genuine X" and flt: "bx_faults X = (\<lambda>_. clean)"
    and core: "loop_core genuine X anchor k0 st" and st: "steady genuine X st"
    and j: "j < length (bl_tasks st)" and ended: "has_ended (snd (bl_tasks st ! j))"
  shows "\<exists>st'. join_task X j st = (Inr (), st') \<and> steady genuine X st'"
proof -
  obtain r ph where jt: "bl_tasks st ! j = (r, ph)" by (rule prod.exhaust)
  have mem: "(r, ph) \<in> set (bl_tasks st)" using j jt nth_mem [OF j] by simp
  then have "steady_phase genuine r ph" using st by (auto simp: steady_def)
  with ended jt obtain f where ph: "ph = FetchDone (Inr f)" and f: "storable genuine f"
    by (cases "(genuine, r, ph)" rule: steady_phase.cases) auto
  have fr: "fr_range f = r" using core mem ph by (auto simp: loop_core_def loop_shape_def)
  note w = without_task_shape [OF core j jt]
  let ?st = "without_task j st"
  have hand: "mset (blocks (fr_range f)) + in_hand X ?st =
      mset [unat (next_height (bl_coordinator ?st)) ..< Suc (unat (to_block (bx_full_range X)))]"
    using core w(2) fr by (simp add: loop_core_def without_task_def)
  have kept: "taking genuine (bl_coordinator ?st) (storable genuine)"
      "sink_ready genuine (bl_sink ?st) (unat (next_height (bl_coordinator ?st)))" "bl_queued ?st = []" "bl_shared ?st = bl_shared st"
      "bl_next_unallocated ?st = bl_next_unallocated st"
    using st by (simp_all add: steady_def without_task_def)
  obtain p c k where pu: "push (sink_commit (bx_show_error X) (bx_faults X)) f (bl_coordinator ?st) (bl_sink ?st) = (Inr p, c, k)"
    and ck: "taking genuine c (storable genuine)" "sink_ready genuine k (unat (next_height c))"
    unfolding flt using push_succeeds [OF chain w(1) ready kept(1,2) f hand] by blast
  then obtain st1 where oj: "on_joined X (snd (bl_tasks st ! j)) ?st = (Inr (), st1)" and
    st1: "bl_tasks st1 = bl_tasks ?st" "bl_queued st1 = bl_queued ?st" "bl_next_unallocated st1 = bl_next_unallocated ?st"
      "bl_shared st1 = bl_shared ?st" "bl_coordinator st1 = c" "bl_sink st1 = k"
    by (auto simp: jt ph on_fetched_def Let_def)
  have "spending n X st1 = spending n X st" for n
    using sum_without [OF j, of "\<lambda>(r, ph). need n r ph"] jt ph
    by (simp add: spending_def unallocated_def st1 kept) (simp add: without_task_def)
  moreover have "set (bl_tasks st1) \<subseteq> set (bl_tasks st)"
    using set_take_subset [of j "bl_tasks st"] set_drop_subset [of "Suc j" "bl_tasks st"] by (simp add: st1 without_task_def)
  ultimately have "steady genuine X st1" using st ck by (auto simp: steady_def st1 kept)
  from refill_steady [OF this] have "steady genuine X (refill X st1)"
    using ready by (simp add: setup_ok_def range_ok_def)
  moreover have "join_task X j st = tryS (on_joined X (snd (bl_tasks st ! j)) ?st) (\<lambda>_ st. (Inr (), refill X st))"
    by (simp add: join_task_def without_task_def Let_def)
  ultimately show ?thesis using oj by simp
qed

lemma turn_steady:
  assumes "one_chain genuine" and "setup_ok genuine X" and "steady_node genuine X" and "bx_faults X = (\<lambda>_. clean)"
    and "loop_core genuine X anchor k0 st" and "steady genuine X st" and ne: "bl_tasks st \<noteq> []"
  shows "\<exists>st'. loop_turn X i st = (Inr (), st') \<and> steady genuine X st'"
proof -
  let ?j = "i mod length (bl_tasks st)"
  have j: "?j < length (bl_tasks st)" using ne by simp
  show ?thesis
    using join_steady [OF assms(1,2,4,5,6) j] worker_steady [OF assms(1-3,5,6) j] by (simp add: loop_turn_def Let_def)
qed

lemma run_steady:
  assumes "one_chain genuine" and "setup_ok genuine X" and "steady_node genuine X" and "bx_faults X = (\<lambda>_. clean)"
  shows "loop_core genuine X anchor k0 st \<Longrightarrow> window_full X st \<Longrightarrow> steady genuine X st \<Longrightarrow>
    run_turns X sched st = (res, st') \<Longrightarrow> res = None \<or> (\<exists>p. res = Some (Inr p)) \<and> steady genuine X st'"
proof (induction sched arbitrary: st)
  case Nil
  then show ?case
    using no_task_complete [OF assms(2) Nil(1,2)]
    by (auto simp: run_turns.simps [of X "[]"] loop_end_def split: if_splits)
next
  case (Cons i sched)
  show ?case
  proof (cases "bl_tasks st = []")
    case True
    with Cons no_task_complete [OF assms(2) Cons.prems(1,2) True] show ?thesis
      by (auto simp: run_turns.simps [of X "i # sched"] loop_end_def)
  next
    case False
    from turn_steady [OF assms Cons.prems(1,3) False, of i] obtain st1 where
      t: "loop_turn X i st = (Inr (), st1)" "steady genuine X st1" by blast
    with False Cons.prems(4) have "run_turns X sched st1 = (res, st')" by (simp add: run_turns.simps [of X "i # sched"])
    with turn_core [OF assms(2) Cons.prems(1,2) False t(1)] Cons.IH [of st1] t(2) show ?thesis by simp
  qed
qed

section \<open>The command succeeds\<close>

lemma loop_succeeds:
  assumes chain: "one_chain genuine" and ready: "setup_ok genuine X" and node: "steady_node genuine X" "bx_faults X = (\<lambda>_. clean)"
    and c: "coordinator_new (from_block (bx_full_range X)) (to_block (bx_full_range X)) anchor = Inr c" and z: "sizer_wf z"
    and anchor: "\<forall>a. anchor = Some a \<longrightarrow> genuine a" and k: "sink_ready genuine k (unat (from_block (bx_full_range X)))"
    and b: "budget_ok (fst s)" "2 * range_size X \<le> requests_left (fst s)" "6 * range_size X \<le> cost_left (fst s)"
    and sched: "requests_left (fst s) * (3 * range_size X + 10) + 3 * range_size X \<le> length sched"
  shows "\<exists>p st. fetch_and_commit_ranges X sched z c k s = (Some (Inr p), st) \<and> steady genuine X st"
proof -
  let ?st = "\<lparr>bl_tasks = [], bl_queued = [], bl_next_unallocated = from_block (bx_full_range X), bl_in_flight = 0,
       bl_sizer = z, bl_progress = progress_default, bl_coordinator = c, bl_sink = k, bl_shared = s\<rparr>"
  have c': "next_height c = from_block (bx_full_range X)" "parent_anchor c = anchor" "pending c = []"
    using c by (auto simp: coordinator_new_def try_simps bt_new_def split: if_splits option.splits)
  have "spending n X ?st = (n + 1) * range_size X" for n
    by (simp add: spending_def unallocated_def range_size_def blocks_def del: upt_Suc)
  then have "steady genuine X ?st"
    using anchor k b c' by (simp add: steady_def taking_def all_pending_def bt_get_def)
  from refill_steady [OF this] have start: "steady genuine X (loop_start X z c k s)"
    using ready by (simp add: loop_start_def setup_ok_def range_ok_def)
  obtain r st where F: "fetch_and_commit_ranges X sched z c k s = (r, st)" by (rule prod.exhaust)
  from backfill_loop_ends [OF ready c z b(1) sched, of k] F have "r \<noteq> None" by auto
  with run_steady [OF chain ready node _ _ start] loop_start_core [OF ready c z, of k s] F show ?thesis
    unfolding fetch_and_commit_ranges_def by blast
qed

lemma mapR_total: "\<forall>x \<in> set xs. \<exists>y. f x = Inr y \<Longrightarrow> \<exists>ys. mapR f xs = Inr ys"
  by (induction xs) auto

lemma records_readable:
  assumes ix: "log_indices_ok db" and t: "unat f < 2 ^ 63" "unat t < 2 ^ 63"
  shows "\<exists>rs. canonical_log_records wr f t a db = Inr rs"
proof -
  have "\<exists>n. normalized_row x = Inr n" if "x \<in> set (canonical_log_rows (chain_id wr) db)" for x
  proof -
    obtain h i r where x: "x = ((h, i), r)" by (metis prod.exhaust)
    with that obtain c where "((c, h, i), r) \<in> set (logs_table db)" by (auto simp: canonical_log_rows_def)
    then have "0 \<le> i \<and> i < 2 ^ 32" using ix by (force simp: log_indices_ok_def)
    then have "u32_of_int i = Some (word_of_int i)" by (simp add: u32_of_int_def)
    moreover have "mapR (\<lambda>t. hash_from_vec (bytes_of t)) ts = Inr ts" for ts :: "block_hash list"
      by (induction ts) (simp_all add: hash_from_vec_def)
    ultimately show ?thesis by (simp add: x normalized_row_def hash_from_vec_def address_from_vec_def ok_or_def)
  qed
  then show ?thesis
    using t by (auto simp: canonical_log_records_def pg_height_def i64_max_def intro!: mapR_total)
qed

text \<open>
  C6: The backfill command succeeds when nothing stands in its way.  Let no verification against a reference
  node be requested (the reference is asked under the same budget, after the loop).  Let the setup have been made, and let from
  then on the node answer every request in time with the blocks of one chain and with logs that can be
  stored; let the database be consistent, not lose the connection, and hold nothing of the range or above
  it; let the captured head stay on the chain; and let the budget allow \<open>2 n + 1\<close> requests and \<open>6 n + 1\<close>
  cost units for the \<open>n\<close> blocks of the range: one request for logs and one for a block each, and one for
  the parent of the first.  Then whatever the interleaving of the workers and
  however the sizer cuts the range, after at most \<open>budget * (3 n + 10) + 3 n\<close> turns the command has
  returned a report, that is, everything is stored and all its checks have passed.
\<close>
theorem steady_backfill_succeeds:
  assumes env: "honest genuine V" "one_chain genuine" "be_faults V = (\<lambda>_. clean)" "be_lost V = (\<lambda>_. None)"
    and db: "sound_db genuine db" "log_indices_ok db"
    and opt: "0 < bo_workers opt" "unat (bo_to_block opt) < 2 ^ 63" "\<not> bo_verify_reference opt"
    and start: "backfill_setup V cfg opt (net, db) = (Inr s, w0)"
    and node: "steady_node genuine (bs_context s)" "\<forall>a. bs_anchor s = Some a \<longrightarrow> genuine a"
      "bo_to_block opt = ch_number (bs_head s) \<longrightarrow> (\<forall>x. genuine x \<longrightarrow> height x = bo_to_block opt \<longrightarrow> hash x = ch_hash (bs_head s))"
    and below: "\<forall>y \<in> canon_set (ch_chain_id (bs_head s)) db. height y < bo_from_block opt"
    and n: "n = length (blocks \<lparr>from_block = bo_from_block opt, to_block = bo_to_block opt\<rparr>)"
    and budget: "backfill_budget opt \<lparr>from_block = bo_from_block opt, to_block = bo_to_block opt\<rparr> = Inr b"
      "max_requests b \<noteq> - 1" "2 * n + 1 \<le> unat (max_requests b)" "6 * n + 1 \<le> unat (max_cost_units b)"
    and sched: "unat (max_requests b) * (3 * n + 10) + 3 * n \<le> length sched"
  shows "\<exists>rep w. run_backfill V cfg opt sched (net, db) = (Inr rep, w)"
proof -
  let ?X = "bs_context s" and ?c = "ch_chain_id (bs_head s)" and ?sh = "bw_shared w0"
  note S = setup_Inr [OF start honest_delivers [OF env(1)] opt(1,2)]
  have kept: "same_blocks genuine db (bw_db w0)" and ix: "log_indices_ok (bw_db w0)"
    using setup_keeps [OF env(1) db(1), of cfg opt net]
      setup_keeps_predicate [OF env(1), where R = log_indices_ok, OF _ db(2), of cfg opt net] start
    by (simp_all add: log_indices_ok_def)
  have size: "range_size ?X = n" by (simp add: range_size_def S(2,3) n)
  have c: "coordinator_new (from_block (bx_full_range ?X)) (to_block (bx_full_range ?X)) (bs_anchor s) = Inr (bs_coordinator s)"
    using S(2-4) by simp
  obtain wr where wr: "bs_committer s = committer_new wr (bs_anchor s)" "chain_id wr = ?c" using S(6) by blast
  have k: "sink_ready genuine (bs_committer s, bw_db w0, 0) (unat (from_block (bx_full_range ?X)))"
    using kept env(1) ix S(2,3,7) below
    by (simp add: sink_ready_def wr committer_new_def honest_def chain_ready_def same_blocks_def sound_db_def word_less_nat_alt)
  have left: "requests_left (fst ?sh) \<le> unat (max_requests b)" "budget_ok (fst ?sh)"
    "2 * n \<le> requests_left (fst ?sh)" "6 * n \<le> cost_left (fst ?sh)"
    using S(9) budget by (auto simp: S(3) budget_of_def requests_left_def cost_left_def budget_ok_def word_le_nat_alt)
  have "requests_left (fst ?sh) * (3 * n + 10) + 3 * n \<le> length sched"
    using mult_le_mono1 [OF left(1), of "3 * n + 10"] sched by linarith
  with loop_succeeds [OF env(2) S(1) node(1) _ c S(5) node(2) k, of ?sh sched] left S(11) env(3) size obtain p st where
    F: "fetch_and_commit_ranges ?X sched (bs_sizer s) (bs_coordinator s) (bs_committer s, bw_db w0, 0) ?sh = (Some (Inr p), st)"
    and st: "steady genuine ?X st" by auto
  obtain cm db' i where sink: "bl_sink st = (cm, db', i)" by (rule prod_cases3)
  let ?w = "w0\<lparr>bw_shared := bl_shared st, bw_db := db'\<rparr>"
  have loop: "ran_loop ?X sched (bs_sizer s) (bs_coordinator s) (bs_committer s) w0 = (Inr (p, cm), ?w)"
    by (simp add: ran_loop_def F sink)
  from command_loop [OF start env(1) db(1) opt(1,2) loop] obtain hs where
    hs: "set hs \<subseteq> canon_set ?c db'" "map (\<lambda>x. unat (height x)) hs = blocks (bs_range s)" and
    after: "chain_id (cm_writer cm) = ?c" "db_inv db'" "checkpoint_at ?c (Some (last hs)) db'"
      "last_committed_hash cm = Some (hash (last hs))"
    by auto
  have sr: "rows_genuine genuine ?c db'" "log_indices_ok db'"
    using st after(1) by (auto simp: steady_def sink sink_ready_def chain_ready_def)
  have r: "from_block (bs_range s) \<le> to_block (bs_range s)" "unat (to_block (bs_range s)) < 2 ^ 63"
    using S(1,2) by (simp_all add: setup_ok_def range_ok_def)
  note reads = reads_after_loop [OF after(2) r hs(2), of "cm_writer cm", unfolded after(1), OF hs(1) after(3)]
  then have "height (last hs) = bo_to_block opt" "last hs \<in> canon_set ?c db'"
    using hs(1) by (auto simp: S(3))
  then have "height (last hs) = bo_to_block opt" "genuine (last hs)"
    using sr(1) by (auto simp: rows_genuine_def canon_set_iff) metis
  then have head: "head_unchanged (bs_head s) (bs_range s) cm = Inr ()"
    using node(3) after(4) by (simp add: head_unchanged_def S(3))
  obtain rs where "canonical_log_records (cm_writer cm) (from_block (bs_range s)) (to_block (bs_range s))
      (map_option lf_address (fc_filter (bx_config ?X))) db' = Inr rs"
    using records_readable [OF sr(2)] r by (metis le_less_trans word_le_nat_alt)
  with reads head have "\<exists>rep w. finish_backfill V cfg opt s (p, cm) ?w = (Inr rep, w)"
    by (simp add: finish_backfill_def Let_def checked_def bail_def db_read_def env(4) continuous_def checkpoint_reached_def
        ok_or_def reference_records_def opt(3) compared_def)
  with start loop show ?thesis by (simp add: run_backfill_def)
qed

lemma setup_of_verify: "backfill_setup V cfg (opt\<lparr>bo_verify_reference := x\<rparr>) nd = backfill_setup V cfg opt nd"
  by (simp add: backfill_setup_def loop_context_def backfill_budget_def cong: if_cong)

theorem steady_backfill_succeeds_witness:
  "\<exists>rep w. run_backfill one_env toy_live_config (one_options\<lparr>bo_verify_reference := False\<rparr>) (replicate 120 0) (0, empty_db) = (Inr rep, w)"
proof -
  let ?o = "one_options\<lparr>bo_verify_reference := False\<rparr>" and ?g = "\<lambda>x. x = one_header"
  have made: "backfill_setup one_env toy_live_config ?o (0, empty_db) =
      (Inr one_begin, \<lparr>bw_shared = (one_budget 0 0, 2), bw_db = one_db\<rparr>)"
    by (simp only: setup_of_verify one_command_setup)
  have chain: "one_chain ?g" by (simp add: one_chain_def)
  have node: "steady_node ?g (bs_context one_begin)"
  proof -
    have only: "r = \<lparr>from_block = 0, to_block = 0\<rparr>" if "range_ok r" "set (blocks r) \<subseteq> set (blocks \<lparr>from_block = 0, to_block = 0\<rparr>)" for r
    proof -
      have "unat (from_block r) \<in> set (blocks r)" "unat (to_block r) \<in> set (blocks r)"
        using that(1) by (simp_all add: range_ok_def blocks_def word_le_nat_alt del: upt_Suc)
      with that(2) show ?thesis by (auto simp: blocks_def unat_eq_0)
    qed
    have c: "rcl_provider (bx_client one_context) = one_provider" "rcl_late (bx_client one_context) = (\<lambda>_ _ _. False)"
      "bx_full_range one_context = \<lparr>from_block = 0, to_block = 0\<rparr>"
      by (simp_all add: one_context_def toy_node_def)
    show ?thesis
      by (auto simp: steady_node_def one_begin_def c ask_logs_def ask_blocks_def under_limit_def one_answers proper_logs_def
          blocks_def one_indexed_def one_header_def dest!: only [simplified blocks_def])
  qed
  have empty: "canon_set c empty_db = {}" for c
    by (auto simp: canon_set_iff get_block_def empty_db_def hm_get_def hm_new_def)
  have budget: "backfill_budget ?o \<lparr>from_block = bo_from_block ?o, to_block = bo_to_block ?o\<rparr> = Inr (one_budget 0 0)"
    using one_values(9) by (simp add: backfill_budget_def)
  show ?thesis
    by (rule steady_backfill_succeeds [OF one_honest chain _ _ empty_sound _ _ _ _ made node _ _ _ refl budget])
      (simp_all add: one_option_values one_env_def one_begin_def one_chain_head_def log_indices_ok_def empty one_budget_def blocks_def,
        simp add: empty_db_def hm_new_def)
qed

end
