(* ===== verification/Commands.thy ===== *)
theory Commands
  imports Backfill_Run_Correct Kafka
begin

text \<open>
  The rest of \<open>chainweave-cli/src/main.rs\<close>: the overrides of the command line and the commands \<open>head\<close>,
  \<open>kafka-dispatch\<close>, \<open>kafka-demo-consumer\<close> and \<open>compose-demo\<close>.

  How \<open>clap\<close> reads the command line is outside; the values it yields are a record.  Binding the listen
  address, the pool of connections, the migrations and the constructors of \<open>rdkafka\<close> are parameters.
\<close>

section \<open>The command line\<close>

text \<open>\<open>str::parse::<usize>\<close>: decimal digits, with an optional plus sign.\<close>

definition is_decimal_digit :: "char \<Rightarrow> bool" where
  "is_decimal_digit c \<longleftrightarrow> 48 \<le> char_nat c \<and> char_nat c \<le> 57"

fun read_decimal :: "string \<Rightarrow> nat \<Rightarrow> string + nat" where
  "read_decimal [] n = Inr n"
| "read_decimal (c # cs) n =
     (if \<not> is_decimal_digit c then Inl ''invalid digit found in string''
      else let m = 10 * n + (char_nat c - 48) in
        if 2 ^ 64 \<le> m then Inl ''number too large to fit in target type'' else read_decimal cs m)"

definition usize_of_str :: "string \<Rightarrow> string + nat" where
  "usize_of_str s =
     (case s of
        [] \<Rightarrow> Inl ''cannot parse integer from empty string''
      | c # cs \<Rightarrow>
          if c = CHR ''+'' \<and> cs \<noteq> [] then read_decimal cs 0 else read_decimal s 0)"

definition parse_positive_usize :: "string \<Rightarrow> string + nat" where
  "parse_positive_usize s =
     tryR (map_err (\<lambda>e. ''invalid positive integer: '' @ e) (usize_of_str s)) (\<lambda>n.
       if n = 0 then Inl ''must be nonzero'' else Inr n)"

record ('u, 'a) cli =
  cli_rpc_url :: "'u option"
  cli_expected_chain_id :: "u64 option"
  cli_expected_genesis_hash :: "string option"
  cli_server_listen_addr :: "'a option"

definition apply_cli_overrides ::
    "('u, 'a) app_config \<Rightarrow> ('u, 'a) cli \<Rightarrow> (string + unit) \<times> ('u, 'a) app_config" where
  "apply_cli_overrides cfg cl =
     (let cfg = (case cli_rpc_url cl of None \<Rightarrow> cfg | Some u \<Rightarrow> cfg\<lparr>rpc := (rpc cfg)\<lparr>primary_url := u\<rparr>\<rparr>) in
      tryS
        (case (cli_expected_chain_id cl, cli_expected_genesis_hash cl) of
           (Some c, Some g) \<Rightarrow> (Inr (), cfg\<lparr>expected_chain := Some \<lparr>ei_chain_id = c, ei_genesis_hash = g\<rparr>\<rparr>)
         | (None, None) \<Rightarrow> (Inr (), cfg)
         | _ \<Rightarrow> (Inl ''expected chain ID and genesis hash must be provided together'', cfg)) (\<lambda>_ cfg.
        (Inr (), case cli_server_listen_addr cl of None \<Rightarrow> cfg | Some a \<Rightarrow> cfg\<lparr>listen_addr := a\<rparr>)))"

text \<open>The subcommands, with their arguments in the order of the code; times are in milliseconds, the window in seconds.\<close>

datatype 'u command =
    CmdHead
  | CmdBackfill u64 u64 "string option" bool "'u option" u64 u64 u64 u64 "u64 option" "u64 option" nat
  | CmdLive "u64 option" u64 u64 u64 u64 u64
  | CmdKafkaDispatch
  | CmdKafkaDemoConsumer "nat option"
  | CmdComposeDemo

text \<open>What \<open>main\<close> then calls.\<close>

datatype 'u chosen =
    RunHead
  | RunBackfill "'u backfill_options"
  | RunLive live_options
  | RunKafkaDispatcher
  | RunKafkaDemoConsumer "nat option"
  | RunComposeDemo

fun chosen_of :: "'u command \<Rightarrow> 'u chosen" where
  "chosen_of CmdHead = RunHead"
| "chosen_of (CmdBackfill f t addr verify url initial minimum maximum timeout reqs units workers) =
     RunBackfill \<lparr>bo_from_block = f, bo_to_block = t, bo_contract_address = addr, bo_verify_reference = verify,
       bo_reference_rpc_url = url, bo_initial_log_blocks = initial, bo_min_log_blocks = minimum, bo_max_log_blocks = maximum,
       bo_rpc_timeout = from_millis timeout, bo_rpc_max_requests = reqs, bo_rpc_max_cost_units = units,
       bo_workers = workers\<rparr>"
| "chosen_of (CmdLive start poll timeout window units shutdown) =
     RunLive \<lparr>lo_start_block = start, lo_poll_interval = from_millis poll, lo_rpc_timeout = from_millis timeout,
       lo_budget_window = from_secs (unat window), lo_budget_cost_units_per_window = units, lo_shutdown_timeout = from_millis shutdown\<rparr>"
| "chosen_of CmdKafkaDispatch = RunKafkaDispatcher"
| "chosen_of (CmdKafkaDemoConsumer limit) = RunKafkaDemoConsumer limit"
| "chosen_of CmdComposeDemo = RunComposeDemo"

datatype main_error = MainConfig config_error | MainOverrides string

definition main_start ::
    "('f, ('u, 'a) app_config) figment \<Rightarrow> 'u \<Rightarrow> 'a \<Rightarrow> string option \<Rightarrow> ('u, 'a) cli \<Rightarrow> 'u command \<Rightarrow>
      main_error + ('u, 'a) app_config \<times> 'u chosen" where
  "main_start F u a path cl cmd =
     tryR (map_err MainConfig (config_load F u a path)) (\<lambda>cfg.
       case apply_cli_overrides cfg cl of
         (Inl m, _) \<Rightarrow> Inl (MainOverrides m)
       | (Inr _, cfg) \<Rightarrow> Inr (cfg, chosen_of cmd))"

section \<open>The head command\<close>

text \<open>What it prints is the head; the clients and URLs are those of the backfill command.\<close>

definition run_head :: "('u, 'p, 'ev) backfill_env \<Rightarrow> ('u, 'a) app_config \<Rightarrow> 'p \<Rightarrow> (command_error + chain_head) \<times> 'p" where
  "run_head V cfg p =
     tryS (map_err CmConfig (validate (be_urls V) cfg ProfileHead), p) (\<lambda>_ p.
     tryS (apfst (map_err (\<lambda>m. CmRpc (Connect m))) (be_connect V (primary_url (rpc cfg)) p)) (\<lambda>c p.
     tryS (apfst (map_err CmRpc) (fetch_head (rcl_provider c) p)) (\<lambda>h p.
     tryS (case expected_chain cfg of
         None \<Rightarrow> Inr () | Some e \<Rightarrow> map_err CmRpc (verify_identity (rcl_provider c) h e), p) (\<lambda>_ p.
       (Inr h, p)))))"

section \<open>The dispatcher command\<close>

datatype service_error =
    SvConfig config_error
  | SvNoDatabaseUrl
  | SvNoBrokers
  | SvBind string
  | SvConnect kafka_error
  | SvDispatch kafka_error
  | SvDatabase string
  | SvMigrate string
  | SvServer string

record ('u, 'k, 'a) service_env =
  sv_urls :: "'u url_lib"
  sv_bind :: "'a \<Rightarrow> string + unit"
  sv_pool :: "string \<Rightarrow> db_error option"
  sv_create :: "(string \<times> string) list \<Rightarrow> string + 'k producer"
  sv_connect :: "string \<Rightarrow> string + unit"
  sv_migrate :: "database \<Rightarrow> (string + unit) \<times> database"

definition dispatcher_config :: "('u, 'a) app_config \<Rightarrow> service_error + kafka_dispatcher_config" where
  "dispatcher_config cfg =
     (if kafka_brokers cfg = [] then Inl SvNoBrokers
      else Inr \<lparr>dc_brokers = kafka_brokers cfg, dc_topic = outbox_topic (kafka cfg),
        dc_queue_buffering_max_messages = queue_buffering_max_messages (kafka cfg),
        delivery_timeout = from_millis (delivery_timeout_ms (kafka cfg)),
        dc_poll_interval = from_millis (dispatcher_poll_ms (kafka cfg))\<rparr>)"

definition connect_database ::
    "('u, 'k, 'a) service_env \<Rightarrow> string \<Rightarrow> kafka_dispatcher_config \<Rightarrow> kafka_error + 'k kafka_dispatcher" where
  "connect_database V url c =
     (case sv_pool V url of Some e \<Rightarrow> Inl (KafkaDatabase e) | None \<Rightarrow> dispatcher_connect (sv_create V) c)"

definition service_start ::
    "('u, 'k, 'a) service_env \<Rightarrow> ('u, 'a) app_config \<Rightarrow> service_error + string" where
  "service_start V cfg =
     tryR (map_err SvConfig (validate (sv_urls V) cfg ProfileWorkers)) (\<lambda>_.
       ok_or (database_url cfg) SvNoDatabaseUrl)"

text \<open>
  The health state starts from its default.  \<open>turns\<close> is what the dispatcher meets, as in
  \<open>run_until_cancelled\<close>; \<open>None\<close> while it runs.
\<close>

definition run_kafka_dispatcher ::
    "('u, 'k, 'a) service_env \<Rightarrow> ('u, 'a) app_config \<Rightarrow> (bool \<times> (database \<Rightarrow> database) \<times> faults) list \<Rightarrow> database \<times> 'k \<Rightarrow>
      (service_error + unit) option \<times> 'k kafka_world" where
  "run_kafka_dispatcher V cfg turns = (\<lambda>(db, k).
     let w = \<lparr>kw_db = db, kw_broker = k, kw_status = status_default\<rparr> in
     case tryR (service_start V cfg) (\<lambda>url.
          tryR (dispatcher_config cfg) (\<lambda>c.
          tryR (map_err SvBind (sv_bind V (listen_addr cfg))) (\<lambda>_. Inr (url, c)))) of
       Inl e \<Rightarrow> (Some (Inl e), w)
     | Inr (url, c) \<Rightarrow>
         (case connect_database V url c of
            Inl e \<Rightarrow> (Some (Inl (SvConnect e)), w\<lparr>kw_status := mark_degraded ''kafka'' (kw_status w)\<rparr>)
          | Inr d \<Rightarrow>
              apfst (map_option (map_err SvDispatch))
                (run_until_cancelled turns (dispatcher_with_health d) (w\<lparr>kw_status := mark_ready True (kw_status w)\<rparr>))))"

section \<open>The compose demo\<close>

text \<open>After the start it only serves: \<open>served\<close> is how the server ended, \<open>None\<close> when it was cancelled.\<close>

definition run_compose_demo ::
    "('u, 'k, 'a) service_env \<Rightarrow> ('u, 'a) app_config \<Rightarrow> (string + unit) option \<Rightarrow> database \<Rightarrow>
      (service_error + unit) \<times> database \<times> status_snapshot" where
  "run_compose_demo V cfg served db =
     tryS (tryR (service_start V cfg) (\<lambda>url.
         tryR (map_err SvBind (sv_bind V (listen_addr cfg))) (\<lambda>_.
         tryR (map_err SvDatabase (sv_connect V url)) (\<lambda>_. Inr ()))), db, status_default) (\<lambda>_ (db, s).
     tryS (case sv_migrate V db of (r, db) \<Rightarrow> (map_err SvMigrate r, db, s)) (\<lambda>_ (db, s).
       (case served of None \<Rightarrow> Inr () | Some r \<Rightarrow> map_err SvServer r, db, mark_ready True s)))"

section \<open>The demonstration consumer\<close>

datatype consumer_error =
    CsConfig config_error
  | CsNoBrokers
  | CsCreate string
  | CsSubscribe string
  | CsReceive string
  | CsDecode string
  | CsNoEventId
  | CsCommit string

text \<open>
  What \<open>recv\<close> yields, with the payload of the message when it has one, and the error of the commit
  of its offset, when there is one.
\<close>

record demo_arrival =
  da_received :: "string + u8 list option"
  da_commit :: "string option"

text \<open>The ids seen, the lines printed, and the number of messages up to the last committed offset.\<close>

record demo_state =
  ds_seen :: "int list"
  ds_printed :: "string list"
  ds_taken :: nat
  ds_committed :: nat

definition demo_start :: demo_state where
  "demo_start = \<lparr>ds_seen = [], ds_printed = [], ds_taken = 0, ds_committed = 0\<rparr>"

definition demo_commit :: "demo_arrival \<Rightarrow> demo_state \<Rightarrow> (consumer_error + unit) \<times> demo_state" where
  "demo_commit a st =
     (case da_commit a of Some e \<Rightarrow> (Inl (CsCommit e), st) | None \<Rightarrow> (Inr (), st\<lparr>ds_committed := ds_taken st\<rparr>))"

definition demo_step ::
    "(u8 list \<Rightarrow> string + json) \<Rightarrow> demo_arrival \<Rightarrow> demo_state \<Rightarrow> (consumer_error + unit) \<times> demo_state" where
  "demo_step parse a st =
     tryS (map_err CsReceive (da_received a), st) (\<lambda>payload st.
     let st = st\<lparr>ds_taken := Suc (ds_taken st)\<rparr> in
     case payload of
       None \<Rightarrow> demo_commit a st
     | Some p \<Rightarrow>
         tryS (map_err CsDecode (parse p), st) (\<lambda>v st.
         tryS (ok_or (j_field ''event_id'' j_i64 v) CsNoEventId, st) (\<lambda>i st.
           demo_commit a
             (if i \<in> set (ds_seen st) then st
              else st\<lparr>ds_seen := ds_seen st @ [i], ds_printed := ds_printed st @ [render_demo_consumer_event v]\<rparr>))))"

fun demo_loop ::
    "(u8 list \<Rightarrow> string + json) \<Rightarrow> nat option \<Rightarrow> demo_arrival list \<Rightarrow> demo_state \<Rightarrow> (consumer_error + unit) option \<times> demo_state" where
  "demo_loop parse limit as st =
     (if (case limit of Some n \<Rightarrow> n \<le> length (ds_seen st) | None \<Rightarrow> False) then (Some (Inr ()), st)
      else case as of
        [] \<Rightarrow> (None, st)
      | a # as \<Rightarrow>
          (case demo_step parse a st of
             (Inl e, st) \<Rightarrow> (Some (Inl e), st)
           | (Inr _, st) \<Rightarrow> demo_loop parse limit as st))"

declare demo_loop.simps [simp del]

definition consumer_settings :: "('u, 'a) app_config \<Rightarrow> (string \<times> string) list" where
  "consumer_settings cfg =
     [(''bootstrap.servers'', join '','' (kafka_brokers cfg)), (''group.id'', consumer_group (kafka cfg)),
      (''enable.auto.commit'', ''false''), (''auto.offset.reset'', ''earliest'')]"

definition run_kafka_demo_consumer ::
    "'u url_lib \<Rightarrow> ((string \<times> string) list \<Rightarrow> string + 'c) \<Rightarrow> ('c \<Rightarrow> string \<Rightarrow> string + demo_arrival list) \<Rightarrow>
      (u8 list \<Rightarrow> string + json) \<Rightarrow> ('u, 'a) app_config \<Rightarrow> nat option \<Rightarrow> (consumer_error + unit) option \<times> demo_state" where
  "run_kafka_demo_consumer U create subscribe parse cfg limit =
     (case tryR (map_err CsConfig (validate U cfg ProfileKafka)) (\<lambda>_.
           if kafka_brokers cfg = [] then Inl CsNoBrokers
           else tryR (map_err CsCreate (create (consumer_settings cfg))) (\<lambda>c.
             map_err CsSubscribe (subscribe c (outbox_topic (kafka cfg))))) of
        Inl e \<Rightarrow> (Some (Inl e), demo_start)
      | Inr as \<Rightarrow> demo_loop parse limit as demo_start)"

section \<open>What the command line accepts\<close>

text \<open>The defaults of the arguments of \<open>live\<close> are those of \<open>LiveCommandOptions\<close>.\<close>

lemma live_defaults_agree: "chosen_of (CmdLive None 12000 30000 60 1200 30000) = RunLive live_options_default"
  by (simp add: live_options_default_def from_millis_def from_secs_def)

text \<open>What \<open>clap\<close> requires of the two options of the expected chain is what the overrides need.\<close>

lemma overrides_succeed:
  "fst (apply_cli_overrides cfg cl) = Inr () \<longleftrightarrow> (cli_expected_chain_id cl = None \<longleftrightarrow> cli_expected_genesis_hash cl = None)"
  by (auto simp: apply_cli_overrides_def Let_def split: option.splits)

lemma read_decimal_bound: "read_decimal s n = Inr m \<Longrightarrow> n < 2 ^ 64 \<Longrightarrow> m < 2 ^ 64"
  by (induction s n rule: read_decimal.induct) (auto simp: Let_def split: if_splits)

lemma parse_positive_usize_Inr:
  assumes "parse_positive_usize s = Inr n"
  shows "0 < n \<and> n < 2 ^ 64"
proof -
  have "0 < n" and "\<exists>t. read_decimal t 0 = Inr n"
    using assms by (auto simp: parse_positive_usize_def usize_of_str_def try_simps simp del: read_decimal.simps
        split: list.splits if_splits)
  then show ?thesis using read_decimal_bound by fastforce
qed

lemma read_decimal_append: "read_decimal (s @ t) n = tryR (read_decimal s n) (read_decimal t)"
  by (induction s n rule: read_decimal.induct) (auto simp: Let_def)

lemma read_show_nat: "n < 2 ^ 64 \<Longrightarrow> read_decimal (show_nat n) 0 = Inr n"
proof (induction n rule: show_nat.induct)
  case (1 n)
  have d: "char_nat (char_of (48 + k)) = 48 + k" if "k < 10" for k :: nat using that by (simp add: char_nat_def)
  show ?case
  proof (cases "n < 10")
    case True
    with d [of n] show ?thesis by (simp add: show_nat.simps [of n] is_decimal_digit_def Let_def)
  next
    case False
    have "n div 10 < 2 ^ 64" using 1(2) by simp
    from 1(1) [OF False this] False 1(2) d [of "n mod 10"] show ?thesis
      by (simp add: show_nat.simps [of n] read_decimal_append is_decimal_digit_def Let_def)
  qed
qed

lemma show_nat_head: "\<exists>c cs. show_nat n = c # cs \<and> is_decimal_digit c"
proof (induction n rule: show_nat.induct)
  case (1 n)
  have d: "is_decimal_digit (char_of (48 + k))" if "k < 10" for k :: nat using that by (simp add: is_decimal_digit_def char_nat_def)
  with 1 show ?case by (cases "n < 10") (auto simp: show_nat.simps [of n])
qed

lemma parse_positive_usize_show: "0 < n \<Longrightarrow> n < 2 ^ 64 \<Longrightarrow> parse_positive_usize (show_nat n) = Inr n"
  using show_nat_head [of n] read_show_nat [of n]
  by (auto simp: parse_positive_usize_def usize_of_str_def is_decimal_digit_def char_nat_def)

section \<open>The health of the dispatcher command\<close>

lemma dispatcher_not_started:
  assumes "run_kafka_dispatcher V cfg turns (db, k) = (Some (Inl (SvConnect e)), w)"
  shows "fst (readiness_endpoint (kw_status w)) = 503 \<and> degraded_components (kw_status w) = [''kafka''] \<and> kw_db w = db"
proof -
  have "tryR (service_start V cfg) (\<lambda>url. tryR (dispatcher_config cfg) (\<lambda>c.
      tryR (map_err SvBind (sv_bind V (listen_addr cfg))) (\<lambda>_. Inr (url, c)))) \<noteq> Inl (SvConnect e)"
    by (auto simp: try_simps map_err_Inl service_start_def dispatcher_config_def ok_or_Inl split: if_splits)
  then show ?thesis
    using assms
    by (auto simp: run_kafka_dispatcher_def Let_def readiness_endpoint_def status_response_def mark_degraded_def status_default_def
        apfst_def map_prod_def map_err_Inl split: sum.splits prod.splits)
qed

section \<open>What the demonstration consumer prints\<close>

text \<open>The values that the first messages carry, and the first of each id.\<close>

definition event_id_of :: "json \<Rightarrow> int" where
  "event_id_of v = (case j_field ''event_id'' j_i64 v of Some i \<Rightarrow> i | None \<Rightarrow> 0)"

definition value_of_arrival :: "(u8 list \<Rightarrow> string + json) \<Rightarrow> demo_arrival \<Rightarrow> json option" where
  "value_of_arrival parse a =
     (case da_received a of
        Inr (Some p) \<Rightarrow> (case parse p of Inr v \<Rightarrow> if j_field ''event_id'' j_i64 v = None then None else Some v | Inl _ \<Rightarrow> None)
      | _ \<Rightarrow> None)"

definition values_of :: "(u8 list \<Rightarrow> string + json) \<Rightarrow> demo_arrival list \<Rightarrow> json list" where
  "values_of parse as = List.map_filter (value_of_arrival parse) as"

definition firsts :: "('a \<Rightarrow> 'b) \<Rightarrow> 'a list \<Rightarrow> 'a list" where
  "firsts f xs = fold (\<lambda>x ys. if f x \<in> f ` set ys then ys else ys @ [x]) xs []"

lemma firsts_snoc: "firsts f (xs @ [x]) = (if f x \<in> f ` set (firsts f xs) then firsts f xs else firsts f xs @ [x])"
  by (simp add: firsts_def)

lemma values_of_snoc:
  "values_of parse (as @ [a]) = values_of parse as @ (case value_of_arrival parse a of Some v \<Rightarrow> [v] | None \<Rightarrow> [])"
  by (simp add: values_of_def List.map_filter_def split: option.split)

text \<open>The state after the first \<open>n\<close> messages.\<close>

definition demo_inv :: "(u8 list \<Rightarrow> string + json) \<Rightarrow> demo_arrival list \<Rightarrow> demo_state \<Rightarrow> bool" where
  "demo_inv parse as st \<longleftrightarrow>
     ds_printed st = map render_demo_consumer_event (firsts event_id_of (values_of parse as)) \<and>
     ds_seen st = map event_id_of (firsts event_id_of (values_of parse as)) \<and>
     ds_taken st = length as \<and> ds_committed st \<le> length as"

lemma demo_commit_inv:
  assumes "demo_inv parse as st" and "demo_commit a st = (r, st')"
  shows "demo_inv parse as st' \<and> (r = Inr u \<longrightarrow> ds_committed st' = length as)"
  using assms by (auto simp: demo_inv_def demo_commit_def split: option.splits)

lemma demo_step_inv:
  assumes inv: "demo_inv parse as st" and run: "demo_step parse a st = (r, st')"
  shows "(demo_inv parse as st' \<or> demo_inv parse (as @ [a]) st') \<and>
    (r = Inr u \<longrightarrow> demo_inv parse (as @ [a]) st' \<and> ds_committed st' = Suc (length as))"
proof -
  let ?st = "st\<lparr>ds_taken := Suc (ds_taken st)\<rparr>"
  have skip: "demo_inv parse (as @ [a]) ?st" if "value_of_arrival parse a = None"
    using inv that by (simp add: demo_inv_def values_of_snoc)
  show ?thesis
  proof (cases "value_of_arrival parse a")
    case (Some v)
    then obtain p i where p: "da_received a = Inr (Some p)" "parse p = Inr v" "j_field ''event_id'' j_i64 v = Some i"
      by (auto simp: value_of_arrival_def split: sum.splits option.splits if_splits)
    let ?st2 = "if i \<in> set (ds_seen ?st) then ?st
      else ?st\<lparr>ds_seen := ds_seen ?st @ [i], ds_printed := ds_printed ?st @ [render_demo_consumer_event v]\<rparr>"
    have "event_id_of v = i" using p(3) by (simp add: event_id_of_def)
    then have "demo_inv parse (as @ [a]) ?st2"
      using inv Some by (auto simp: demo_inv_def values_of_snoc firsts_snoc)
    moreover have "demo_commit a ?st2 = (r, st')" using run p by (simp add: demo_step_def ok_or_def Let_def)
    ultimately show ?thesis using demo_commit_inv [of parse "as @ [a]" ?st2 a r st' u] by simp
  next
    case None
    from run skip [OF None] inv show ?thesis
      using demo_commit_inv [of parse "as @ [a]" ?st a r st' u] None
      by (auto simp: demo_step_def value_of_arrival_def ok_or_def Let_def try_simps demo_inv_def
          split: sum.splits option.splits if_splits)
  qed
qed


lemma demo_step_seen: "demo_step parse a st = (r, st') \<Longrightarrow> length (ds_seen st') \<le> Suc (length (ds_seen st))"
  by (cases r) (auto simp: demo_step_def demo_commit_def Let_def try_simps split: option.splits if_splits)

lemma demo_loop_inv:
  assumes "demo_inv parse pre st" and "\<forall>n. limit = Some n \<longrightarrow> length (ds_seen st) \<le> n" and "demo_loop parse limit as st = (res, st')"
  shows "\<exists>n \<le> length as. demo_inv parse (pre @ take n as) st' \<and> (\<forall>m. limit = Some m \<longrightarrow> length (ds_seen st') \<le> m) \<and>
    (res = None \<longrightarrow> n = length as)"
  using assms
proof (induction as arbitrary: pre st)
  case Nil
  then show ?case by (auto simp: demo_loop.simps split: if_splits)
next
  case (Cons a as)
  show ?case
  proof (cases "case limit of Some n \<Rightarrow> n \<le> length (ds_seen st) | None \<Rightarrow> False")
    case True
    with Cons.prems have "st' = st" "res = Some (Inr ())" by (simp_all add: demo_loop.simps)
    with Cons.prems show ?thesis by (intro exI [of _ 0]) simp
  next
    case False
    obtain r st1 where p: "demo_step parse a st = (r, st1)" by force
    note step = demo_step_inv [OF Cons.prems(1) p, of "()"]
    have len: "\<forall>m. limit = Some m \<longrightarrow> length (ds_seen st1) \<le> m"
      using False demo_step_seen [OF p] by (auto split: option.splits)
    show ?thesis
    proof (cases r)
      case (Inl e)
      with Cons.prems(3) False p have "res = Some (Inl e)" "st' = st1" by (simp_all add: demo_loop.simps)
      from step consider "demo_inv parse (pre @ take 0 (a # as)) st'" | "demo_inv parse (pre @ take 1 (a # as)) st'"
        using \<open>st' = st1\<close> by auto
      then show ?thesis
      proof cases
        case 1
        with len \<open>res = _\<close> \<open>st' = _\<close> show ?thesis by (intro exI [of _ 0]) simp
      next
        case 2
        with len \<open>res = _\<close> \<open>st' = _\<close> show ?thesis by (intro exI [of _ 1]) simp
      qed
    next
      case (Inr u)
      with Cons.prems(3) False p have "demo_loop parse limit as st1 = (res, st')" by (simp add: demo_loop.simps [of _ _ "a # as"])
      from Cons.IH [OF _ len this, of "pre @ [a]"] step Inr obtain n where
        "n \<le> length as" "demo_inv parse ((pre @ [a]) @ take n as) st'" "\<forall>m. limit = Some m \<longrightarrow> length (ds_seen st') \<le> m"
        "res = None \<longrightarrow> n = length as" by auto
      then show ?thesis by (intro exI [of _ "Suc n"]) simp
    qed
  qed
qed

text \<open>When every message can be read and committed, the loop does not end on an error.\<close>

definition readable :: "(u8 list \<Rightarrow> string + json) \<Rightarrow> json \<Rightarrow> demo_arrival \<Rightarrow> bool" where
  "readable parse v a \<longleftrightarrow> (\<exists>p. da_received a = Inr (Some p) \<and> parse p = Inr v) \<and> da_commit a = None"

lemma demo_loop_readable:
  assumes "list_all2 (readable parse) vs as" and "\<forall>v \<in> set vs. j_field ''event_id'' j_i64 v \<noteq> None"
    and "ds_taken st = ds_committed st" and "demo_loop parse None as st = (res, st')"
  shows "res = None \<and> values_of parse as = vs \<and> ds_committed st' = ds_committed st + length as"
  using assms
proof (induction arbitrary: st rule: list_all2_induct)
  case Nil
  then show ?case by (simp add: demo_loop.simps values_of_def)
next
  case (Cons v vs a as)
  from Cons.hyps(1) obtain p where p: "da_received a = Inr (Some p)" "parse p = Inr v" "da_commit a = None"
    by (auto simp: readable_def)
  from Cons.prems(1) obtain i where i: "j_field ''event_id'' j_i64 v = Some i" by auto
  obtain st1 where st1: "demo_step parse a st = (Inr (), st1)" "ds_taken st1 = ds_committed st1"
      "ds_committed st1 = Suc (ds_committed st)"
    using p i Cons.prems(2) by (auto simp: demo_step_def demo_commit_def ok_or_def Let_def)
  have val: "value_of_arrival parse a = Some v" using p i by (simp add: value_of_arrival_def)
  from Cons.prems(3) st1(1) have "demo_loop parse None as st1 = (res, st')" by (simp add: demo_loop.simps [of _ _ "a # as"])
  from Cons.IH [OF _ st1(2) this] Cons.prems(1) st1(3) val show ?case by (simp add: values_of_def List.map_filter_def)
qed

lemma firsts_map: "firsts f (map g xs) = map g (firsts (\<lambda>x. f (g x)) xs)"
  by (induction xs rule: rev_induct) (auto simp: firsts_snoc, simp add: firsts_def)

lemma firsts_stutters:
  assumes "stutters xs ys" and "distinct (map f xs)"
  shows "firsts f ys = xs"
proof -
  let ?g = "\<lambda>x zs. if f x \<in> f ` set zs then zs else zs @ [x]"
  have rep: "fold ?g (replicate n x) zs = zs" if "f x \<in> f ` set zs" for n x and zs :: "'a list"
    using that by (induction n) simp_all
  have all: "fold ?g (concat (map2 replicate ns xs)) zs = zs @ xs"
    if "length ns = length xs" "\<forall>n \<in> set ns. 0 < n" "distinct (map f (zs @ xs))" for ns zs
    using that
  proof (induction ns xs arbitrary: zs rule: list_induct2)
    case (Cons n ns x xs)
    then obtain k where k: "n = Suc k" by (cases n) auto
    have "f x \<notin> f ` set zs" using Cons.prems(2) by auto
    then have "fold ?g (replicate n x) zs = zs @ [x]" using rep [of x "zs @ [x]" k] k by simp
    then show ?case using Cons.IH [of "zs @ [x]"] Cons.prems by simp
  qed simp
  from assms(1) obtain ns where "length ns = length xs" "\<forall>n \<in> set ns. 0 < n" "ys = concat (map2 replicate ns xs)"
    by (auto simp: stutters_def)
  with all [of ns "[]"] assms(2) show ?thesis by (simp add: firsts_def)
qed

lemma event_id_of_message:
  assumes "- (2 ^ 63) \<le> event_id r" and "event_id r < 2 ^ 63"
  shows "j_field ''event_id'' j_i64 (message_json (message_of_row r)) = Some (event_id r)"
    and "event_id_of (message_json (message_of_row r)) = event_id r"
  using assms by (simp_all add: event_id_of_def message_json_def message_of_row_def j_field_def j_get_def j_i64_def)

section \<open>From the journal to the lines of the consumer\<close>

lemma run_demo_consumer:
  assumes "validate U cfg ProfileKafka = Inr ()" and "kafka_brokers cfg \<noteq> []" and "create (consumer_settings cfg) = Inr k"
    and "subscribe k (outbox_topic (kafka cfg)) = Inr as"
  shows "run_kafka_demo_consumer U create subscribe parse cfg limit = demo_loop parse limit as demo_start"
  using assms by (simp add: run_kafka_demo_consumer_def)

lemma connected_topic:
  assumes "dispatcher_config cfg = Inr c" and "connect_database V url c = Inr d"
  shows "kafka_brokers cfg \<noteq> []" and "kd_topic d = outbox_topic (kafka cfg)"
  using assms by (auto simp: dispatcher_config_def connect_database_def dispatcher_connect_def dispatcher_new_def try_simps
      split: if_splits option.splits)

lemma stutters_set: "stutters xs ys \<Longrightarrow> set ys \<subseteq> set xs"
  by (auto simp: stutters_def dest!: set_zip_rightD)

lemma stutters_same_topic:
  assumes "stutters (map (\<lambda>r. (t, g r)) rs) ys"
  shows "map snd (filter (\<lambda>(t', _). t' = t) ys) = map snd ys" and "stutters (map g rs) (map snd ys)"
proof -
  from assms obtain ns where ns: "length ns = length rs" "\<forall>n \<in> set ns. 0 < n" "ys = concat (map2 replicate ns (map (\<lambda>r. (t, g r)) rs))"
    by (auto simp: stutters_def)
  have "\<forall>y \<in> set ys. fst y = t" using stutters_set [OF assms] by auto
  then show "map snd (filter (\<lambda>(t', _). t' = t) ys) = map snd ys" by (simp add: filter_id_conv case_prod_beta)
  have "map snd ys = concat (map2 replicate ns (map g rs))"
    unfolding ns(3) using ns(1) by (induction ns rs rule: list_induct2) simp_all
  then show "stutters (map g rs) (map snd ys)" unfolding stutters_def using ns(1,2) by auto
qed

text \<open>
  C19: The demonstration consumer reads what the dispatcher of the same configuration wrote to a topic of
  one partition.  Start from
  an empty topic and a journal of which nothing is published, let batches be written and rows be
  dispatched in any order, under any faults, and let the consumer then read the messages of its
  topic, each of which it can decode and commit.  It ends on no error, commits every message, and prints
  exactly one line for each row of a prefix of the journal, in the order of the journal: the published rows
  and at most the next one, however often each was delivered.
\<close>
theorem demo_shows_journal:
  assumes "dispatcher_config cfg = Inr c" and "connect_database V url c = Inr d"
    and "producer_laws (kd_publish d) Pair view" and "unpublished_start view w0" and "(outbox_step d)\<^sup>*\<^sup>* w0 w"
    and "\<forall>r \<in> set (outbox_table (kw_db w)). - (2 ^ 63) \<le> event_id r \<and> event_id r < 2 ^ 63"
    and "validate U cfg ProfileKafka = Inr ()" and "create (consumer_settings cfg) = Inr k"
    and "subscribe k (outbox_topic (kafka cfg)) = Inr as"
    and "list_all2 (readable parse)
      (map message_json (map snd (filter (\<lambda>(t, _). t = outbox_topic (kafka cfg)) (view (kw_broker w))))) as"
    and "run_kafka_demo_consumer U create subscribe parse cfg None = (res, st)"
  shows "res = None \<and> ds_committed st = length as \<and>
    (\<exists>published rest extra. outbox_table (kw_db w) = published @ rest \<and>
      (\<forall>r \<in> set published. published_at r \<noteq> None) \<and> (\<forall>r \<in> set rest. published_at r = None) \<and>
      extra \<in> {[], take 1 rest} \<and>
      ds_printed st = map (\<lambda>r. render_demo_consumer_event (message_json (message_of_row r))) (published @ extra))"
proof -
  let ?line = "\<lambda>r. message_json (message_of_row r)"
  have "delivery_inv (Pair (kd_topic d)) view w"
    using steps_keep_delivery [OF assms(5,3) start_delivery [OF assms(4)]] .
  then obtain pub rest extra where db: "db_inv (kw_db w)" and s: "split_at_published pub rest (kw_db w)" and
    extra: "extra \<in> {[], take 1 rest}" and
    st: "stutters (map (\<lambda>r. (kd_topic d, message_of_row r)) (pub @ extra)) (view (kw_broker w))"
    unfolding delivery_inv_def by blast
  let ?ms = "map snd (view (kw_broker w))"
  note topic = connected_topic [OF assms(1,2)]
  have table: "outbox_table (kw_db w) = pub @ rest" using s by (simp add: split_at_published_def)
  have sub: "set (pub @ extra) \<subseteq> set (outbox_table (kw_db w))" using extra table by (auto dest: in_set_takeD)
  have "distinct (map event_id (pub @ rest))"
    using db table by (metis db_inv_def journal_wf_def strict_sorted_iff)
  then have "distinct (map event_id (pub @ extra))" using extra by (cases rest) (auto simp: image_iff)
  moreover have ids: "j_field ''event_id'' j_i64 (?line r) = Some (event_id r)" "event_id_of (?line r) = event_id r"
    if "r \<in> set (pub @ extra)" for r
    using assms(6) sub that event_id_of_message [of r] by auto
  ultimately have dist: "distinct (map (\<lambda>m. event_id_of (message_json m)) (map message_of_row (pub @ extra)))"
    by (simp add: comp_def cong: map_cong)
  have st': "stutters (map message_of_row (pub @ extra)) ?ms" and arr: "list_all2 (readable parse) (map message_json ?ms) as"
    using stutters_same_topic [OF st] assms(10) topic(2) by simp_all
  have "set ?ms \<subseteq> message_of_row ` set (pub @ extra)" using stutters_set [OF st'] by (simp add: image_Un)
  then have known: "\<forall>v \<in> set (map message_json ?ms). j_field ''event_id'' j_i64 v \<noteq> None" using ids(1) by fastforce
  have loop: "demo_loop parse None as demo_start = (res, st)"
    using run_demo_consumer [where create = create and subscribe = subscribe, OF assms(7) topic(1) assms(8,9)] assms(11) by metis
  have "ds_taken demo_start = ds_committed demo_start" by (simp add: demo_start_def)
  note good = demo_loop_readable [OF arr known this loop]
  have "demo_inv parse [] demo_start" by (simp add: demo_inv_def demo_start_def values_of_def List.map_filter_def firsts_def)
  from demo_loop_inv [OF this _ loop] good have "demo_inv parse as st" by auto
  then have "ds_printed st = map (\<lambda>m. render_demo_consumer_event (message_json m)) (firsts (\<lambda>m. event_id_of (message_json m)) ?ms)"
    using good by (simp add: demo_inv_def firsts_map comp_def)
  also have "\<dots> = map (\<lambda>r. render_demo_consumer_event (?line r)) (pub @ extra)"
    unfolding firsts_stutters [OF st' dist] by simp
  finally show ?thesis using good s extra by (auto simp: demo_start_def split_at_published_def)
qed

text \<open>A dispatcher that loses its connection twice before its commit, and a consumer of the two copies.\<close>

definition demo_config :: "(sample_url, unit) app_config" where
  "demo_config = (config_default sample_url ())\<lparr>top_kafka_brokers := Some [''broker'']\<rparr>"

definition topic_env :: "(sample_url, (string \<times> kafka_message) list, unit) service_env" where
  "topic_env = \<lparr>sv_urls = sample_urls, sv_bind = (\<lambda>_. Inr ()), sv_pool = (\<lambda>_. None),
     sv_create = (\<lambda>_. Inr (\<lambda>t m k. (Inr (), k @ [(t, m)]))), sv_connect = (\<lambda>_. Inr ()), sv_migrate = (\<lambda>db. (Inr (), db))\<rparr>"

definition lost_commit :: faults where "lost_commit = \<lparr>lost_at = \<lambda>i. i = 3, commit_kept = False\<rparr>"

definition copies :: "nat \<Rightarrow> (string \<times> kafka_message) list kafka_world" where
  "copies n = \<lparr>kw_db = sample_db, kw_broker = replicate n (''chainweave.outbox'', message_of_row (sample_entry 1 1 10)),
     kw_status = status_default\<rparr>"

lemma lost_commit_copies:
  assumes "kd_topic d = ''chainweave.outbox''" and "kd_publish d = (\<lambda>t m k. (Inr (), k @ [(t, m)]))"
  shows "outbox_step d (copies n) (copies (Suc n))"
proof -
  have "dispatch_once_inner lost_commit d None (copies n) = (Inl (KafkaDatabase ConnectionLost), copies (Suc n))"
    using assms by (simp add: dispatch_once_inner_def lost_commit_def copies_def next_unpublished_row_def sample_db_def
        sample_entry_def row_to_message_def u64_of_int_def mark_published_def Let_def sort_key_def message_of_row_def
        replicate_append_same)
  then show ?thesis by (rule outbox_step.dispatched)
qed

lemma demo_names:
  "str_trim ''broker'' = ''broker''" "str_trim ''chainweave.outbox'' = ''chainweave.outbox''"
  "str_trim ''chainweave-demo-consumer'' = ''chainweave-demo-consumer''"
  by (rule trim_ascii; simp add: char_nat_def)+

lemma demo_config_valid: "validate sample_urls demo_config ProfileKafka = Inr ()"
  by (simp add: validate_def demo_config_def config_default_def validate_rpc_url_def sample_urls_def sample_url_def
      validate_indexer_def validate_abi_config_def validate_kafka_config_def require_def kafka_brokers_def blank_def demo_names)

theorem demo_shows_journal_witness:
  "\<exists>as st. length as = 2 \<and> run_kafka_demo_consumer sample_urls (\<lambda>_. Inr ()) (\<lambda>_ _. Inr as)
      (\<lambda>_. Inr (message_json (message_of_row (sample_entry 1 1 10)))) demo_config None = (None, st) \<and>
    ds_committed st = 2 \<and> length (ds_printed st) \<le> 1"
proof -
  let ?a = "\<lparr>da_received = Inr (Some [0]), da_commit = None\<rparr>"
  let ?parse = "\<lambda>_. Inr (message_json (message_of_row (sample_entry 1 1 10)))"
  obtain c where c: "dispatcher_config demo_config = Inr c" "dc_brokers c = [''broker'']" "dc_topic c = ''chainweave.outbox''"
    by (simp add: dispatcher_config_def demo_config_def config_default_def kafka_brokers_def)
  then obtain d where d: "connect_database topic_env ''postgres'' c = Inr d" "kd_topic d = ''chainweave.outbox''"
      "kd_publish d = (\<lambda>t m k. (Inr (), k @ [(t, m)]))"
    by (simp add: connect_database_def topic_env_def dispatcher_connect_def dispatcher_new_def demo_names)
  have steps: "(outbox_step d)\<^sup>*\<^sup>* (copies 0) (copies 2)"
    using lost_commit_copies [OF d(2,3), of 0] lost_commit_copies [OF d(2,3), of 1] by (simp add: numeral_2_eq_2)
  have laws: "producer_laws (kd_publish d) Pair (\<lambda>k. k)" by (simp add: producer_laws_def d(3))
  have start: "unpublished_start (\<lambda>k. k) (copies 0)"
    using sample_world_start by (simp add: unpublished_start_def copies_def sample_world_def)
  have ids: "\<forall>r \<in> set (outbox_table (kw_db (copies 2))). - (2 ^ 63) \<le> event_id r \<and> event_id r < 2 ^ 63"
    by (simp add: copies_def sample_db_def sample_entry_def)
  have arr: "list_all2 (readable ?parse) (map message_json (map snd
      (filter (\<lambda>(t, _). t = outbox_topic (kafka demo_config)) (kw_broker (copies 2))))) [?a, ?a]"
    by (simp add: copies_def demo_config_def config_default_def readable_def numeral_2_eq_2)
  obtain res st where run: "run_kafka_demo_consumer sample_urls (\<lambda>_. Inr ()) (\<lambda>_ _. Inr [?a, ?a]) ?parse demo_config None = (res, st)"
    by (rule prod.exhaust)
  have all: "\<forall>r \<in> set (outbox_table (kw_db (copies 2))). published_at r = None"
    by (simp add: copies_def sample_db_def sample_entry_def)
  from demo_shows_journal [OF c(1) d(1) laws start steps ids demo_config_valid, of "\<lambda>_. Inr ()" "()" "\<lambda>_ _. Inr [?a, ?a]" "[?a, ?a]" ?parse,
      OF refl refl arr run] obtain published rest extra where
    r: "res = None" "ds_committed st = 2" and table: "outbox_table (kw_db (copies 2)) = published @ rest"
      "\<forall>r \<in> set published. published_at r \<noteq> None" and
    e: "extra \<in> {[], take 1 rest}" and
    line: "ds_printed st = map (\<lambda>r. render_demo_consumer_event (message_json (message_of_row r))) (published @ extra)"
    by fastforce
  then have e: "extra \<in> {[], take 1 rest}" "length (ds_printed st) = length (published @ extra)" by simp_all
  from table all have "published = []" by (cases published) simp_all
  with e have "length (ds_printed st) \<le> 1" by auto
  with r run show ?thesis by (intro exI [of _ "[?a, ?a]"] exI [of _ st]) simp
qed

end
