(* ===== verification/Spec2Isabelle.thy ===== *)
theory Spec2Isabelle
  imports Chain_Correct Reconcile Writer_Queue Config Kafka Abi Live_Runtime Backfill_Succeeds Commands
begin

text \<open>
  Chainweave indexes an EVM chain into PostgreSQL and publishes what it indexed to Kafka.  It has two
  ways in: a backfill of a range of old blocks, fetched by concurrent workers and committed in order,
  and live tracking, which follows the head and repairs reorganisations.  Both end in the same
  writer, which moves the canonical chain, its logs, the checkpoint and the journal of events in one
  transaction; a dispatcher hands the journal to Kafka.

  \<^bold>\<open>Theories and sources\<close> (paths below \<open>crates/\<close>)

  \<^item> Prelude, Byte_Array, Std_Maps, Rust_Strings, Json: the Rust vocabulary.  Machine integers are words
    (a release build wraps), \<open>Result\<close> is a sum with the error on the left, \<open>?\<close> is \<open>tryR\<close> or, with a
    state that survives the error, \<open>tryS\<close>; hash and B-tree maps are association lists with an
    invariant, and both interpret one locale of map laws.
  \<^item> Header_Cache, Chain, Chain_Correct: \<open>chainweave-core/src/chain.rs\<close>.  \<open>chain_state\<close> is
    \<open>ChainState\<close>; \<open>chain_apply\<close> turns an observed head into rollbacks and applies.
  \<^item> Backfill, Backfill_Commit: \<open>chainweave-core/src/backfill.rs\<close>: planner, sizer, retry policy, request
    budget; fetched ranges and the coordinator that commits them in block order.
  \<^item> Live, Live_Correct: \<open>chainweave-core/src/live.rs\<close>, one pass of the tracker over a source and a sink.
  \<^item> Config: \<open>chainweave-core/src/config.rs\<close>.
  \<^item> Database, Postgres, Postgres_Correct: the schema of \<open>migrations/\<close> and \<open>chainweave-sink/src/postgres.rs\<close>.
  \<^item> Reconcile, Writer_Queue: startup reconciliation and the serialized writer of the same file.
  \<^item> Abi: \<open>chainweave-sink/src/abi.rs\<close> and the decoding of stored logs again.
  \<^item> Kafka, Observability: \<open>chainweave-sink/src/kafka.rs\<close> and \<open>observability.rs\<close>.
  \<^item> Rpc: \<open>chainweave-rpc/src/client.rs\<close>, \<open>retry.rs\<close> and \<open>subscription.rs\<close>: what is asked of a node, how its
    answers are read and checked, which errors are retried.
  \<^item> Live_Store, Reconnect, Rpc_Source, Live_Runtime: \<open>chainweave-cli/src/live_runtime.rs\<close>: the store and sink on
    the database, the window budget and the reconnect machine, the source on a node, and the command \<open>live\<close>
    with its tasks and its published status (and \<open>abi_registry_from_config\<close> of \<open>main.rs\<close>).
  \<^item> Backfill_Fetch, Backfill_Loop, Backfill_Run: \<open>chainweave-cli/src/main.rs\<close>, the command \<open>backfill\<close>: one
    worker, as a machine from request to request; \<open>fetch_and_commit_ranges\<close> over an interleaving of the
    workers; the command around it.  Backfill_Loop_Correct, Backfill_Ends, Backfill_Run_Correct and
    Backfill_Succeeds hold their lemmas.
  \<^item> Commands: the rest of \<open>main.rs\<close>: the command line and the other commands.

  \<^bold>\<open>How the parts fit\<close>

  A trait of the code is a record of its methods over the implementor's own state
  (\<open>ancestry_resolver\<close>, \<open>live_source\<close>, \<open>live_sink\<close>), so generic code is a function of it.  The
  contract of a store that keeps one canonical chain is the locale \<open>chain_store\<close>, in which the
  theorems on the tracker are proved; Live_Store interprets it on the PostgreSQL sink.  What the environment
  may do is an argument: \<open>faults\<close> says which statement loses the connection and whether a commit with a
  lost answer was kept, a crash point parks the process inside a transaction, and polls and
  timers answer by functions or lists of answers.  Each read of the live sink may fail by itself, and the
  tracker then sees no value: the sink counts its reads, and \<open>ps_read_lost\<close> says which ones fail.  Code of other crates (\<open>alloy\<close>, \<open>url\<close>,
  \<open>figment\<close>, \<open>rdkafka\<close>) is a record of the functions that are called, with their documented
  behaviour as a named predicate where a theorem needs it.

  \<^bold>\<open>What is shown\<close>

  \<^item> Chain: a batch is rollbacks to the common ancestor followed by linked applies to the head, within the
    depth and never below finality; its effect on the held segment; which forks are resolved.
  \<^item> Backfill: requests partition the range; bounds of sizer, delay and budget; whatever the order of
    delivery, one linked chain reaches the sink, and ranges that cover the target complete it.
  \<^item> The backfill command: no block is lost or asked for twice between its queue, its workers and its
    coordinator; for every interleaving and all faults the database gains one linked chain, which is the
    whole range when success is reported; the checks at its end never fail; a reported match with
    a reference is an equality of multisets; the command ends within a bound on its turns,
    and with success when nodes, database and budget allow it.
  \<^item> Writer: the invariant \<open>db_inv\<close> (canonical rows, checkpoint and journal agree) under all faults;
    atomicity; refinement of the chain's reorganisation; retries; valid batches always commit.
  \<^item> Tracker and reconciliation over the database: one chain whatever happens, convergence,
    bounds on the reads of the database and the calls of the source.
  \<^item> Queue: every interleaving is a sequential application of the accepted batches; shutdown drains.
  \<^item> Kafka: delivery in order and at least once; a consumer ends with the canonical blocks; the
    demonstration consumer prints each row of the journal once.
  \<^item> Node and live command: quantities survive their text; a block carries the logs of its own hash; the
    reconnect machine is ready exactly when its history ends in its steps in order or in a declared
    catch-up; the budget bounds the rate; the process is only ready when it has caught up or could not read
    the checkpoint at the end of its last pass; the tracker keeps one chain whichever reads fail.
  \<^item> Settings, decoder and health: what validation accepts, what a redacted URL still shows, agreement of the registry
    with validation, redecoding, and the two endpoints.

  \<^bold>\<open>Bounds and fuel\<close>

  The walks of \<open>chain.rs\<close> and of reconciliation terminate by measures on heights or on the
  configured depth.  Loops driven from outside (the dispatcher, the writer task, worker deliveries, the
  tracker, the demonstration consumer) are functions of the list of what arrives, or step relations, so
  they need no fuel; theorems that promise progress name the number of turns that is enough.  A backfill
  is run by a list of turns, each of which moves one task; \<open>budget * (3 n + 10) + 3 n\<close> turns are enough for
  \<open>n\<close> blocks, because every failed or repeated fetch has spent a request.  The fetching of a reference is a
  partial function, which is shown to return below height \<open>2 ^ 63\<close>, the largest height that PostgreSQL holds.

  \<^bold>\<open>Not modelled\<close>

  Logging, progress lines, metrics and the HTTP server are output only.  How \<open>clap\<close> reads the arguments, signals of
  the operating system, networking, SQL parsing and the async executor are outside the sources; an \<open>await\<close>
  is a point at which the listed faults may happen, and a cancellation is an event.  The crate roots declare
  modules only, and the tests of the repository are not part of the program.
\<close>

end
